(* ===== verification/Prelude.thy ===== *)
theory Prelude
  imports Main "HOL-Library.Word"
begin

text \<open>
  Shared vocabulary of the development: names for the machine integers the C++ code uses,
  the fact collections the component theories feed, and generic lemmas on words, naturals
  and lists. Unsigned machine integers are words (\<open>+\<close>, \<open>-\<close>, \<open>*\<close> wrap); signed machine
  integers (\<open>int\<close>, \<open>int64_t\<close>) are \<open>int\<close>, because their overflow is undefined behaviour in
  C++, and the bounds that rule it out are stated where a property depends on them.
\<close>

unbundle bit_operations_syntax

type_synonym u8 = "8 word"
type_synonym u16 = "16 word"
type_synonym u32 = "32 word"
type_synonym u64 = "64 word"
type_synonym byte = "8 word"
type_synonym bytes = "8 word list"

named_theorems uval_simps "value of a big integer after an operation"
named_theorems width_simps "length of a limb or byte list after an operation"
named_theorems codec_simps "round trips of the serialisation formats"

definition INT32_MIN :: int where
  "INT32_MIN = - (2 ^ 31)"

definition INT32_MAX :: int where
  "INT32_MAX = 2 ^ 31 - 1"

definition INT64_MIN :: int where
  "INT64_MIN = - (2 ^ 63)"

definition INT64_MAX :: int where
  "INT64_MAX = 2 ^ 63 - 1"

definition fits_int32 :: "int \<Rightarrow> bool" where
  "fits_int32 x \<longleftrightarrow> INT32_MIN \<le> x \<and> x \<le> INT32_MAX"

definition fits_int64 :: "int \<Rightarrow> bool" where
  "fits_int64 x \<longleftrightarrow> INT64_MIN \<le> x \<and> x \<le> INT64_MAX"

lemmas int_limits = INT32_MIN_def INT32_MAX_def INT64_MIN_def INT64_MAX_def
  fits_int32_def fits_int64_def

section \<open>Words and naturals\<close>

lemma unat_less_2p: "unat (w :: 'a::len word) < 2 ^ LENGTH('a)"
  by (rule unsigned_less)

lemma unat_u32_less: "unat (x :: u32) < 4294967296"
  using unsigned_less [of x, where 'a = nat] by simp

lemma unat_u8_less: "unat (x :: u8) < 256"
  using unsigned_less [of x, where 'a = nat] by simp

lemma unat_u64_less: "unat (x :: u64) < 18446744073709551616"
  using unsigned_less [of x, where 'a = nat] by simp

lemma unat_ucast_u32_u64 [simp]: "unat (ucast (x :: u32) :: u64) = unat x"
  by (simp add: unsigned_ucast_eq take_bit_nat_eq_self_iff less_trans [OF unat_u32_less])

lemma unat_ucast_u8_u32 [simp]: "unat (ucast (x :: u8) :: u32) = unat x"
  by (simp add: unsigned_ucast_eq take_bit_nat_eq_self_iff less_trans [OF unat_u8_less])

lemma unat_ucast_u64_u32 [simp]: "unat (ucast (x :: u64) :: u32) = unat x mod 4294967296"
  by (simp add: unsigned_ucast_eq take_bit_eq_mod)

lemma unat_drop_bit_div: "unat (drop_bit n (x :: 'a::len word)) = unat x div 2 ^ n"
  unfolding unat_drop_bit_eq by (rule drop_bit_eq_div)

lemma bit_unat_iff: "bit (unat (w :: 'a::len word)) n \<longleftrightarrow> bit w n"
  by (simp add: bit_unsigned_iff)

lemma word_nonzero_unat: "(x :: 'a::len word) \<noteq> 0 \<longleftrightarrow> 0 < unat x"
  by (simp add: unat_eq_0 flip: neq0_conv)

lemma unat_not: "unat (NOT (x :: 'a::len word)) = 2 ^ LENGTH('a) - 1 - unat x"
proof -
  have "NOT x = - x - 1"
    by (simp add: not_eq_complement)
  also have "\<dots> = (- 1) - x"
    by simp
  finally have "unat (NOT x) = unat ((- 1 :: 'a word) - x)"
    by simp
  also have "\<dots> = unat (- 1 :: 'a word) - unat x"
    by (rule unat_sub) simp
  finally show ?thesis
    by (simp add: unsigned_minus_1_eq_mask mask_eq_exp_minus_1)
qed

lemma low_mask_u64_u32: "(ucast (n AND 0xffffffff :: u64) :: u32) = ucast n"
proof -
  have "(0xffffffff :: u64) = mask 32"
    by (simp add: mask_eq_exp_minus_1)
  then have "n AND 0xffffffff = take_bit 32 n"
    by (simp add: take_bit_eq_mask)
  then show ?thesis
    by (auto intro!: bit_word_eqI simp: bit_simps)
qed

lemma and_mask_mod: "unat (x AND (mask n :: 'a::len word)) = unat x mod 2 ^ n"
  unfolding take_bit_eq_mask [symmetric] unsigned_take_bit_eq by (rule take_bit_eq_mod)

lemma bit_u8_high [simp]: "8 \<le> n \<Longrightarrow> \<not> bit (p :: u8) n"
  using bit_imp_le_length [of p n] by auto

lemma unat_push_bit: "unat (push_bit n (w :: 'a::len word)) = unat w * 2 ^ n mod 2 ^ LENGTH('a)"
proof -
  have "unat (push_bit n w) = take_bit LENGTH('a) (push_bit n (unat w))"
    by (rule unsigned_push_bit_eq)
  also have "\<dots> = unat w * 2 ^ n mod 2 ^ LENGTH('a)"
    by (simp only: take_bit_eq_mod push_bit_eq_mult)
  finally show ?thesis .
qed

section \<open>Naturals and bits\<close>

lemma nat_bit_eqI: "(\<And>n. bit (a :: nat) n = bit b n) \<Longrightarrow> a = b"
  by (simp add: bit_eq_iff)

lemma bit_nat_less: "a < 2 ^ n \<Longrightarrow> n \<le> m \<Longrightarrow> \<not> bit (a :: nat) m"
proof
  assume "a < 2 ^ n" "n \<le> m" "bit a m"
  then have "2 ^ m \<le> a"
    by (metis bit_iff_odd div_less even_zero linorder_not_le)
  moreover from \<open>n \<le> m\<close> have "(2 :: nat) ^ n \<le> 2 ^ m"
    by simp
  ultimately show False
    using \<open>a < 2 ^ n\<close> by linarith
qed

lemma div_less_of_lt_mult: "(a :: nat) < b * c \<Longrightarrow> a div b < c"
  by (simp add: less_mult_imp_div_less mult.commute)

section \<open>Lists\<close>

lemma list_update_same_nth: "i < length xs \<Longrightarrow> xs[i := x] ! i = x"
  by simp

lemma fold_inv:
  assumes "P s" and "\<And>x s. x \<in> set xs \<Longrightarrow> P s \<Longrightarrow> P (f x s)"
  shows "P (fold f xs s)"
  using assms by (induction xs arbitrary: s) auto

lemma length_fold:
  assumes "\<And>x s. length (f x s) = length s"
  shows "length (fold f xs s) = length s"
  by (rule fold_inv [where P = "\<lambda>t. length t = length s"]) (simp_all add: assms)

lemma concat_map_chunks:
  "concat (map (\<lambda>x. take w (drop (x * w) bs)) [0..<n]) = take (n * w) bs"
proof (induction n)
  case 0
  then show ?case by simp
next
  case (Suc n)
  then show ?case
    using take_add [of "n * w" w bs] by (simp add: add.commute)
qed

lemma nth_chunk:
  assumes "\<And>i. i < n \<Longrightarrow> length (f i) = w" "x < n"
  shows "take w (drop (x * w) (concat (map f [0..<n]))) = f x"
  using assms
proof (induction n)
  case 0
  then show ?case by simp
next
  case (Suc n)
  have len: "length (concat (map f [0..<n])) = n * w"
    using Suc.prems(1) by (induction n) simp_all
  show ?case
  proof (cases "x < n")
    case True
    then have "x * w + w \<le> n * w"
      by (metis Suc_leI add.commute mult_Suc mult_le_mono1)
    with True Suc show ?thesis by (simp add: len)
  next
    case False
    with Suc.prems have "x = n" by simp
    with len Suc.prems show ?thesis by simp
  qed
qed

section \<open>Computations with errors\<close>

definition ebind :: "'e + 'a \<Rightarrow> ('a \<Rightarrow> 'e + 'b) \<Rightarrow> 'e + 'b" where
  "ebind r f = (case r of Inl e \<Rightarrow> Inl e | Inr x \<Rightarrow> f x)"

lemma ebind_simps [simp]: "ebind (Inr x) f = f x" "ebind (Inl e) f = Inl e"
  by (simp_all add: ebind_def)

lemma ebind_InrE: "ebind z f = Inr y \<Longrightarrow> (\<And>x. z = Inr x \<Longrightarrow> f x = Inr y \<Longrightarrow> P) \<Longrightarrow> P"
  by (cases z) auto

lemma ebind_Inr_iff: "ebind z f = Inr y \<longleftrightarrow> (\<exists>x. z = Inr x \<and> f x = Inr y)"
  by (cases z) auto

lemma ebind_Inl_iff: "ebind z f = Inl e \<longleftrightarrow> z = Inl e \<or> (\<exists>x. z = Inr x \<and> f x = Inl e)"
  by (cases z) auto

lemma ebind_cong [fundef_cong]: "z = z' \<Longrightarrow> (\<And>x. z' = Inr x \<Longrightarrow> f x = f' x) \<Longrightarrow> ebind z f = ebind z' f'"
  by (cases z') auto

lemma map_sum_InrE: "map_sum f g z = Inr y \<Longrightarrow> (\<And>x. z = Inr x \<Longrightarrow> y = g x \<Longrightarrow> P) \<Longrightarrow> P"
  by (cases z) auto

end
