(* ===== verification/ArithUint256.thy ===== *)
theory ArithUint256
  imports Prelude
begin

text \<open>
  The big unsigned integers of \<^verbatim>\<open>src/arith_uint256.h\<close> and
  \<^verbatim>\<open>src/arith_uint256.cpp\<close>. A \<^verbatim>\<open>base_uint<BITS>\<close> is its array \<^verbatim>\<open>pn\<close>
  of 32-bit limbs, least significant first; the template parameter is the length of the list,
  so every lemma holds for any width and is used at width 8 (256 bits). The loops of the code
  run over the limbs with a 64-bit carry; the lemmas show that each operator computes the
  arithmetic it names, modulo \<open>2\<close> to the number of bits, and that the compact encoding of
  targets loses only low-order bytes.
\<close>

section \<open>Model\<close>

type_synonym base_uint = "u32 list"

definition base_uint_zero :: "nat \<Rightarrow> base_uint" where
  "base_uint_zero WIDTH = replicate WIDTH 0"

definition base_uint_of_u64 :: "nat \<Rightarrow> u64 \<Rightarrow> base_uint" where
  "base_uint_of_u64 WIDTH b = ucast b # ucast (drop_bit 32 b) # replicate (WIDTH - 2) 0"

definition base_uint_not :: "base_uint \<Rightarrow> base_uint" where
  "base_uint_not pn = map (\<lambda>x. NOT x) pn"

fun base_uint_inc :: "base_uint \<Rightarrow> base_uint" where
  "base_uint_inc [] = []"
| "base_uint_inc (x # pn) = (if x + 1 = 0 then (x + 1) # base_uint_inc pn else (x + 1) # pn)"

fun base_uint_dec :: "base_uint \<Rightarrow> base_uint" where
  "base_uint_dec [] = []"
| "base_uint_dec (x # pn) =
     (if x - 1 = 0xffffffff then (x - 1) # base_uint_dec pn else (x - 1) # pn)"

definition base_uint_neg :: "base_uint \<Rightarrow> base_uint" where
  "base_uint_neg pn = base_uint_inc (base_uint_not pn)"

definition base_uint_xor :: "base_uint \<Rightarrow> base_uint \<Rightarrow> base_uint" where
  "base_uint_xor a b = map2 (\<lambda>x y. x XOR y) a b"

definition base_uint_and :: "base_uint \<Rightarrow> base_uint \<Rightarrow> base_uint" where
  "base_uint_and a b = map2 (\<lambda>x y. x AND y) a b"

definition base_uint_or :: "base_uint \<Rightarrow> base_uint \<Rightarrow> base_uint" where
  "base_uint_or a b = map2 (\<lambda>x y. x OR y) a b"

text \<open>\<^verbatim>\<open>operator+=\<close>: the loop over the limbs, the carry first.\<close>

fun add_loop :: "u64 \<Rightarrow> base_uint \<Rightarrow> base_uint \<Rightarrow> base_uint" where
  "add_loop carry (x # pn) (y # b) =
     (let n = carry + ucast x + ucast y
      in ucast (n AND 0xffffffff) # add_loop (drop_bit 32 n) pn b)"
| "add_loop carry pn b = []"

definition base_uint_add :: "base_uint \<Rightarrow> base_uint \<Rightarrow> base_uint" where
  "base_uint_add a b = add_loop 0 a b"

definition base_uint_sub :: "base_uint \<Rightarrow> base_uint \<Rightarrow> base_uint" where
  "base_uint_sub a b = base_uint_add a (base_uint_neg b)"

definition base_uint_add_u64 :: "base_uint \<Rightarrow> u64 \<Rightarrow> base_uint" where
  "base_uint_add_u64 a b64 = base_uint_add a (base_uint_of_u64 (length a) b64)"

definition base_uint_sub_u64 :: "base_uint \<Rightarrow> u64 \<Rightarrow> base_uint" where
  "base_uint_sub_u64 a b64 = base_uint_add a (base_uint_neg (base_uint_of_u64 (length a) b64))"

fun mul_u32_loop :: "u64 \<Rightarrow> u32 \<Rightarrow> base_uint \<Rightarrow> base_uint" where
  "mul_u32_loop carry b32 [] = []"
| "mul_u32_loop carry b32 (x # pn) =
     (let n = carry + ucast b32 * ucast x
      in ucast (n AND 0xffffffff) # mul_u32_loop (drop_bit 32 n) b32 pn)"

definition base_uint_mul_u32 :: "base_uint \<Rightarrow> u32 \<Rightarrow> base_uint" where
  "base_uint_mul_u32 a b32 = mul_u32_loop 0 b32 a"

text \<open>
  \<^verbatim>\<open>operator*=(const base_uint&)\<close>: the inner loop adds \<open>pn[j] * b\<close> to the limbs of
  the accumulator from position \<open>j\<close> on, the outer loop runs over \<open>j\<close>.
\<close>

fun mul_row :: "u64 \<Rightarrow> u32 \<Rightarrow> base_uint \<Rightarrow> base_uint \<Rightarrow> base_uint" where
  "mul_row carry pj (x # a) (y # b) =
     (let n = carry + ucast x + ucast pj * ucast y
      in ucast (n AND 0xffffffff) # mul_row (drop_bit 32 n) pj a b)"
| "mul_row carry pj a b = []"

definition base_uint_mul :: "base_uint \<Rightarrow> base_uint \<Rightarrow> base_uint" where
  "base_uint_mul pn b =
     fold (\<lambda>j a. take j a @ mul_row 0 (pn ! j) (drop j a) b) [0..<length pn]
       (base_uint_zero (length pn))"

text \<open>
  \<^verbatim>\<open>operator<<=\<close> and \<^verbatim>\<open>operator>>=\<close>: the body of the loop at limb
  \<open>i\<close> of the copy \<open>a\<close> of the operand, then the loop.
\<close>

definition shl_step :: "base_uint \<Rightarrow> nat \<Rightarrow> nat \<Rightarrow> nat \<Rightarrow> base_uint \<Rightarrow> base_uint" where
  "shl_step a k shift i pn =
     (let pn1 = (if i + k + 1 < length a \<and> shift \<noteq> 0
                 then pn[i + k + 1 := pn ! (i + k + 1) OR drop_bit (32 - shift) (a ! i)]
                 else pn)
      in if i + k < length a then pn1[i + k := pn1 ! (i + k) OR push_bit shift (a ! i)] else pn1)"

definition base_uint_shl :: "base_uint \<Rightarrow> nat \<Rightarrow> base_uint" where
  "base_uint_shl a shift =
     fold (shl_step a (shift div 32) (shift mod 32)) [0..<length a] (base_uint_zero (length a))"

definition shr_step :: "base_uint \<Rightarrow> nat \<Rightarrow> nat \<Rightarrow> nat \<Rightarrow> base_uint \<Rightarrow> base_uint" where
  "shr_step a k shift i pn =
     (let pn1 = (if k + 1 \<le> i \<and> shift \<noteq> 0
                 then pn[i - k - 1 := pn ! (i - k - 1) OR push_bit (32 - shift) (a ! i)]
                 else pn)
      in if k \<le> i then pn1[i - k := pn1 ! (i - k) OR drop_bit shift (a ! i)] else pn1)"

definition base_uint_shr :: "base_uint \<Rightarrow> nat \<Rightarrow> base_uint" where
  "base_uint_shr a shift =
     fold (shr_step a (shift div 32) (shift mod 32)) [0..<length a] (base_uint_zero (length a))"

text \<open>\<^verbatim>\<open>CompareTo\<close> from the top limb down; the result is the code's -1, 0 or 1.\<close>

fun compare_loop :: "nat \<Rightarrow> base_uint \<Rightarrow> base_uint \<Rightarrow> int" where
  "compare_loop 0 a b = 0"
| "compare_loop (Suc i) a b =
     (if a ! i < b ! i then -1 else if b ! i < a ! i then 1 else compare_loop i a b)"

definition CompareTo :: "base_uint \<Rightarrow> base_uint \<Rightarrow> int" where
  "CompareTo a b = compare_loop (length a) a b"

definition EqualTo :: "base_uint \<Rightarrow> u64 \<Rightarrow> bool" where
  "EqualTo a b =
     (if \<exists>x \<in> set (drop 2 a). x \<noteq> 0 then False
      else if ucast (a ! 1) \<noteq> drop_bit 32 b then False
      else if ucast (a ! 0) \<noteq> b AND 0xffffffff then False
      else True)"

definition GetLow64 :: "base_uint \<Rightarrow> u64" where
  "GetLow64 a = ucast (a ! 0) OR push_bit 32 (ucast (a ! 1))"

fun bits_of_limb :: "nat \<Rightarrow> u32 \<Rightarrow> nat" where
  "bits_of_limb 0 x = 1"
| "bits_of_limb (Suc n) x =
     (if x AND push_bit (Suc n) 1 \<noteq> 0 then Suc n + 1 else bits_of_limb n x)"

fun bits_loop :: "nat \<Rightarrow> base_uint \<Rightarrow> nat" where
  "bits_loop 0 a = 0"
| "bits_loop (Suc pos) a =
     (if a ! pos \<noteq> 0 then 32 * pos + bits_of_limb 31 (a ! pos) else bits_loop pos a)"

definition bits :: "base_uint \<Rightarrow> nat" where
  "bits a = bits_loop (length a) a"

datatype uint_error = DivisionByZero

text \<open>
  The long division of \<^verbatim>\<open>operator/=\<close>. The first argument of the loop is
  \<open>shift + 1\<close>, so that the code's exit at \<open>shift = -1\<close> is the argument 0.
\<close>

fun div_loop :: "nat \<Rightarrow> base_uint \<Rightarrow> base_uint \<Rightarrow> base_uint \<Rightarrow> base_uint" where
  "div_loop 0 num dv q = q"
| "div_loop (Suc shift) num dv q =
     (let (num', q') =
        (if CompareTo num dv \<ge> 0
         then (base_uint_sub num dv,
               q[shift div 32 := q ! (shift div 32) OR push_bit (shift mod 32) 1])
         else (num, q))
      in div_loop shift num' (base_uint_shr dv 1) q')"

definition base_uint_div :: "base_uint \<Rightarrow> base_uint \<Rightarrow> uint_error + base_uint" where
  "base_uint_div a b =
     (let num_bits = bits a; div_bits = bits b; q = base_uint_zero (length a) in
      if div_bits = 0 then Inl DivisionByZero
      else if div_bits > num_bits then Inr q
      else let shift = num_bits - div_bits
           in Inr (div_loop (Suc shift) a (base_uint_shl b shift) q))"

subsection \<open>The 256-bit instance and the compact format\<close>

type_synonym arith_uint256 = base_uint

definition WIDTH256 :: nat where
  "WIDTH256 = 8"

abbreviation arith_of_u64 :: "u64 \<Rightarrow> arith_uint256" where
  "arith_of_u64 \<equiv> base_uint_of_u64 WIDTH256"

text \<open>\<^verbatim>\<open>SetCompact\<close> gives the value and the two flags it can write.\<close>

record compact_result =
  cr_value :: arith_uint256
  cr_negative :: bool
  cr_overflow :: bool

definition SetCompact :: "u32 \<Rightarrow> compact_result" where
  "SetCompact nCompact =
     (let nSize = unat (drop_bit 24 nCompact);
          nWord0 = nCompact AND 0x007fffff;
          nWord = (if nSize \<le> 3 then drop_bit (8 * (3 - nSize)) nWord0 else nWord0)
      in \<lparr>cr_value =
            (if nSize \<le> 3 then arith_of_u64 (ucast nWord)
             else base_uint_shl (arith_of_u64 (ucast nWord)) (8 * (nSize - 3))),
          cr_negative = (nWord \<noteq> 0 \<and> nCompact AND 0x00800000 \<noteq> 0),
          cr_overflow = (nWord \<noteq> 0 \<and> (nSize > 34 \<or> (nWord > 0xff \<and> nSize > 33) \<or>
                                       (nWord > 0xffff \<and> nSize > 32)))\<rparr>)"

text \<open>\<^verbatim>\<open>GetCompact\<close>; a failed \<^verbatim>\<open>assert\<close> is \<open>None\<close>.\<close>

definition GetCompact :: "arith_uint256 \<Rightarrow> bool \<Rightarrow> u32 option" where
  "GetCompact a fNegative =
     (let nSize0 = (bits a + 7) div 8;
          nCompact0 = (if nSize0 \<le> 3 then ucast (push_bit (8 * (3 - nSize0)) (GetLow64 a))
                       else ucast (GetLow64 (base_uint_shr a (8 * (nSize0 - 3))))) :: u32;
          (nCompact1, nSize) =
            (if nCompact0 AND 0x00800000 \<noteq> 0 then (drop_bit 8 nCompact0, nSize0 + 1)
             else (nCompact0, nSize0))
      in if nCompact1 AND NOT 0x007fffff \<noteq> 0 \<or> \<not> nSize < 256 then None
         else let nCompact2 = nCompact1 OR push_bit 24 (of_nat nSize)
              in Some (nCompact2 OR
                   (if fNegative \<and> nCompact2 AND 0x007fffff \<noteq> 0 then 0x00800000 else 0)))"

text \<open>\<^verbatim>\<open>WriteLE32\<close>/\<^verbatim>\<open>ReadLE32\<close> of \<^verbatim>\<open>src/crypto/common.h\<close> and the two conversions.\<close>

definition WriteLE32 :: "u32 \<Rightarrow> bytes" where
  "WriteLE32 x = [ucast x, ucast (drop_bit 8 x), ucast (drop_bit 16 x), ucast (drop_bit 24 x)]"

definition ReadLE32 :: "bytes \<Rightarrow> u32" where
  "ReadLE32 bs = ucast (bs ! 0) OR push_bit 8 (ucast (bs ! 1)) OR
     push_bit 16 (ucast (bs ! 2)) OR push_bit 24 (ucast (bs ! 3))"

definition ArithToUint256 :: "arith_uint256 \<Rightarrow> bytes" where
  "ArithToUint256 a = concat (map (\<lambda>x. WriteLE32 (a ! x)) [0..<WIDTH256])"

definition UintToArith256 :: "bytes \<Rightarrow> arith_uint256" where
  "UintToArith256 a = map (\<lambda>x. ReadLE32 (take 4 (drop (x * 4) a))) [0..<WIDTH256]"

section \<open>Value of a limb list\<close>

definition LIMB :: nat where
  "LIMB = 2 ^ 32"

lemma unat_less_LIMB [simp]: "unat (x :: u32) < LIMB"
  using unsigned_less [of x, where 'a = nat] by (simp add: LIMB_def)

lemma LIMB_pos [simp]: "0 < LIMB"
  by (simp add: LIMB_def)

lemma two_power_limbs: "(2 :: nat) ^ (32 * n) = LIMB ^ n"
  by (simp add: LIMB_def power_mult)

fun uval :: "base_uint \<Rightarrow> nat" where
  "uval [] = 0"
| "uval (x # pn) = unat x + LIMB * uval pn"

abbreviation modulus :: "base_uint \<Rightarrow> nat" where
  "modulus pn \<equiv> LIMB ^ length pn"

lemma uval_less: "uval pn < modulus pn"
proof (induction pn)
  case Nil
  then show ?case by simp
next
  case (Cons x pn)
  have "unat x + LIMB * uval pn < LIMB * (uval pn + 1)"
    by simp
  also have "\<dots> \<le> LIMB * LIMB ^ length pn"
    using Cons by (intro mult_le_mono2) simp
  finally show ?case by simp
qed

lemma uval_mod_self [simp]: "uval pn mod modulus pn = uval pn"
  using uval_less by (rule mod_less)

lemma uval_append: "uval (a @ b) = uval a + modulus a * uval b"
  by (induction a) (simp_all add: algebra_simps)

lemma uval_Cons_mod: "uval (x # pn) mod LIMB = unat x"
  by simp

lemma uval_Cons_div: "uval (x # pn) div LIMB = uval pn"
  by simp

lemma uval_inject: "length a = length b \<Longrightarrow> uval a = uval b \<Longrightarrow> a = b"
proof (induction a b rule: list_induct2)
  case Nil
  then show ?case by simp
next
  case (Cons x xs y ys)
  have "unat x = unat y"
    by (metis Cons.prems uval_Cons_mod)
  moreover have "uval xs = uval ys"
    by (metis Cons.prems uval_Cons_div)
  ultimately show ?case
    using Cons.IH by (simp add: word_unat_eq_iff)
qed

lemma uval_zero [uval_simps]: "uval (base_uint_zero n) = 0"
  unfolding base_uint_zero_def by (induction n) simp_all

lemma uval_of_u64 [uval_simps]: "uval (base_uint_of_u64 n b) = unat b"
proof -
  have z: "uval (replicate (n - 2) 0) = 0"
    using uval_zero [of "n - 2"] by (simp add: base_uint_zero_def)
  have "unat b < LIMB * LIMB"
    using unsigned_less [of b, where 'a = nat] by (simp add: LIMB_def)
  then have "unat b div LIMB mod LIMB = unat b div LIMB"
    by (intro mod_less) (simp add: div_less_of_lt_mult)
  moreover have "unat (ucast b :: u32) = unat b mod LIMB"
    by (simp add: unsigned_ucast_eq take_bit_eq_mod LIMB_def)
  moreover have "unat (ucast (drop_bit 32 b) :: u32) = unat b div LIMB mod LIMB"
    by (simp only: unsigned_ucast_eq take_bit_eq_mod LIMB_def unat_drop_bit_div) simp
  ultimately show ?thesis
    by (simp add: base_uint_of_u64_def z)
qed

lemma bit_uval: "bit (uval a) n \<longleftrightarrow> n < 32 * length a \<and> bit (a ! (n div 32)) (n mod 32)"
proof (induction a arbitrary: n)
  case Nil
  then show ?case by simp
next
  case (Cons x xs)
  have eq: "uval (x # xs) = unat x OR push_bit 32 (uval xs)"
  proof -
    have "unat x AND push_bit 32 (uval xs) = 0"
      by (rule nat_bit_eqI)
        (use bit_nat_less [of "unat x" 32] unat_u32_less [of x] in \<open>auto simp: bit_simps\<close>)
    then have "unat x OR push_bit 32 (uval xs) = unat x + push_bit 32 (uval xs)"
      by (simp add: disjunctive_add_eq_or)
    then show ?thesis by (simp add: push_bit_eq_mult mult.commute LIMB_def)
  qed
  show ?case
  proof (cases "n < 32")
    case True
    then show ?thesis unfolding eq by (simp add: bit_simps)
  next
    case False
    then obtain m where n: "n = 32 + m"
      using le_Suc_ex [of 32 n] by auto
    have "\<not> bit x n"
      using bit_imp_le_length [of x n] False by auto
    moreover have "(32 + m) div 32 = Suc (m div 32)"
      by (subst div_add_self1) simp_all
    ultimately show ?thesis using Cons [of m] unfolding eq by (simp add: bit_simps n)
  qed
qed

section \<open>Ring operations\<close>

lemma length_zero [width_simps]: "length (base_uint_zero n) = n"
  by (simp add: base_uint_zero_def)

lemma length_of_u64 [width_simps]: "2 \<le> n \<Longrightarrow> length (base_uint_of_u64 n b) = n"
  by (simp add: base_uint_of_u64_def)

lemma length_not [width_simps]: "length (base_uint_not a) = length a"
  by (simp add: base_uint_not_def)

lemma length_inc [width_simps]: "length (base_uint_inc a) = length a"
  by (induction a) simp_all

lemma length_dec [width_simps]: "length (base_uint_dec a) = length a"
  by (induction a) simp_all

lemma length_neg [width_simps]: "length (base_uint_neg a) = length a"
  by (simp add: base_uint_neg_def width_simps)

lemma length_add_loop: "length (add_loop c a b) = min (length a) (length b)"
  by (induction c a b rule: add_loop.induct) (simp_all add: Let_def)

lemma length_add [width_simps]: "length (base_uint_add a b) = min (length a) (length b)"
  by (simp add: base_uint_add_def length_add_loop)

lemma length_sub [width_simps]: "length (base_uint_sub a b) = min (length a) (length b)"
  by (simp add: base_uint_sub_def width_simps)

lemma length_mul_u32 [width_simps]: "length (base_uint_mul_u32 a b) = length a"
proof -
  have "length (mul_u32_loop c b a) = length a" for c
    by (induction c b a rule: mul_u32_loop.induct) (simp_all add: Let_def)
  then show ?thesis by (simp add: base_uint_mul_u32_def)
qed

lemma unat_not_LIMB: "unat (NOT x :: u32) = LIMB - 1 - unat x"
  by (simp add: unat_not LIMB_def)

lemma uval_not [uval_simps]: "uval (base_uint_not a) = modulus a - 1 - uval a"
proof -
  have "uval (map (\<lambda>x. NOT x) a) + uval a + 1 = LIMB ^ length a"
  proof (induction a)
    case Nil
    then show ?case by simp
  next
    case (Cons x a)
    have "unat (NOT x) + unat x + 1 = LIMB"
      using unat_less_LIMB [of x] unfolding unat_not_LIMB by linarith
    moreover have "LIMB * (uval (map (\<lambda>x. NOT x) a) + uval a + 1) = LIMB * LIMB ^ length a"
      using Cons by simp
    ultimately show ?case
      by (simp add: algebra_simps)
  qed
  then show ?thesis by (simp add: base_uint_not_def)
qed

lemma unat_plus_one: "unat (x + 1 :: u32) = (if x + 1 = 0 then 0 else unat x + 1)"
  using unatSuc [of x] by (auto simp: add.commute)

lemma plus_one_zero: "x + 1 = (0 :: u32) \<longleftrightarrow> unat x + 1 = LIMB"
proof -
  have "x + 1 = 0 \<longleftrightarrow> x = - 1"
    by (simp add: add_eq_0_iff2)
  also have "\<dots> \<longleftrightarrow> unat x = unat (- 1 :: u32)"
    by (simp add: word_unat_eq_iff)
  finally show ?thesis
    by (auto simp: unsigned_minus_1_eq_mask mask_eq_exp_minus_1 LIMB_def)
qed

lemma uval_inc [uval_simps]: "uval (base_uint_inc a) = (uval a + 1) mod modulus a"
proof (induction a)
  case Nil
  then show ?case by simp
next
  case (Cons x a)
  show ?case
  proof (cases "x + 1 = 0")
    case True
    then have eq: "uval (x # a) + 1 = LIMB * (uval a + 1)"
      by (simp add: plus_one_zero)
    have "uval (base_uint_inc (x # a)) = LIMB * uval (base_uint_inc a)"
      using True by simp
    also have "\<dots> = (LIMB * (uval a + 1)) mod (LIMB * modulus a)"
      by (simp only: Cons mult_mod_right)
    finally show ?thesis
      unfolding eq by simp
  next
    case False
    then have "uval (base_uint_inc (x # a)) = uval (x # a) + 1"
      by (simp add: unat_plus_one)
    moreover from this have "uval (x # a) + 1 < modulus (x # a)"
      using uval_less [of "base_uint_inc (x # a)"] by (simp only: length_inc)
    ultimately show ?thesis by simp
  qed
qed

lemma uval_neg [uval_simps]: "uval (base_uint_neg a) = (modulus a - uval a) mod modulus a"
proof -
  have "modulus a - 1 - uval a + 1 = modulus a - uval a"
    using uval_less [of a] by linarith
  then show ?thesis
    by (simp add: base_uint_neg_def uval_simps width_simps)
qed

text \<open>One step of a carry loop: the low limb and the carry are the two halves of the sum.\<close>

lemma carry_step:
  fixes n :: u64
  shows "unat (ucast (n AND 0xffffffff) :: u32) = unat n mod LIMB"
    and "unat (drop_bit 32 n) = unat n div LIMB"
  by (simp_all add: low_mask_u64_u32 unsigned_ucast_eq take_bit_eq_mod LIMB_def unat_drop_bit_div)

lemma limb_square_bound: "a < LIMB \<Longrightarrow> b < LIMB \<Longrightarrow> a * b + 2 * LIMB \<le> LIMB * LIMB + 1"
proof -
  assume "a < LIMB" "b < LIMB"
  then have "a * b \<le> (LIMB - 1) * (LIMB - 1)"
    by (intro mult_le_mono) simp_all
  then show ?thesis by (simp add: LIMB_def)
qed

lemma unat_u64_add:
  "unat (a :: u64) + unat b < LIMB * LIMB \<Longrightarrow> unat (a + b) = unat a + unat b"
  by (simp add: unat_word_ariths LIMB_def)

lemma unat_u64_mul_limbs: "unat (ucast (x :: u32) * ucast (y :: u32) :: u64) = unat x * unat y"
proof -
  have "unat x * unat y < LIMB * LIMB"
    by (intro mult_strict_mono) simp_all
  then show ?thesis
    by (simp add: unat_word_ariths LIMB_def)
qed

lemma carry_value:
  "n mod LIMB + LIMB * ((n div LIMB + r) mod m) = (n + LIMB * r) mod (LIMB * m)"
proof -
  have "(n + LIMB * r) mod (LIMB * m) =
      LIMB * ((n + LIMB * r) div LIMB mod m) + (n + LIMB * r) mod LIMB"
    by (rule mod_mult2_eq)
  then show ?thesis
    by (simp add: add.commute)
qed

lemma uval_add_loop:
  "length a = length b \<Longrightarrow> unat c \<le> LIMB - 1 \<Longrightarrow>
     uval (add_loop c a b) = (unat c + uval a + uval b) mod modulus a"
proof (induction a b arbitrary: c rule: list_induct2)
  case Nil
  then show ?case by simp
next
  case (Cons x a y b)
  define n where "n = c + ucast x + (ucast y :: u64)"
  have bnd: "unat c + unat x + unat y < 3 * LIMB"
    using Cons.prems unat_less_LIMB [of x] unat_less_LIMB [of y] by linarith
  then have n: "unat n = unat c + unat x + unat y"
    by (simp add: n_def unat_u64_add LIMB_def)
  have "unat (drop_bit 32 n) \<le> LIMB - 1"
    using bnd by (simp add: carry_step n LIMB_def)
  from Cons.IH [OF this]
  have IH: "uval (add_loop (drop_bit 32 n) a b) = (unat n div LIMB + (uval a + uval b)) mod modulus a"
    by (simp add: carry_step add.assoc)
  have "uval (add_loop c (x # a) (y # b)) = unat n mod LIMB + LIMB * uval (add_loop (drop_bit 32 n) a b)"
    unfolding add_loop.simps Let_def n_def [symmetric] uval.simps carry_step ..
  also have "\<dots> = (unat n + LIMB * (uval a + uval b)) mod (LIMB * modulus a)"
    unfolding IH by (rule carry_value)
  finally show ?case
    by (simp add: n algebra_simps)
qed

lemma uval_add [uval_simps]:
  "length a = length b \<Longrightarrow> uval (base_uint_add a b) = (uval a + uval b) mod modulus a"
  by (simp add: base_uint_add_def uval_add_loop)

lemma uval_sub [uval_simps]:
  assumes "length a = length b"
  shows "uval (base_uint_sub a b) = (modulus a + uval a - uval b) mod modulus a"
proof -
  have "uval (base_uint_sub a b) = (uval a + (modulus a - uval b)) mod modulus a"
    using assms by (simp add: base_uint_sub_def uval_simps width_simps mod_simps)
  also have "uval a + (modulus a - uval b) = modulus a + uval a - uval b"
    using assms uval_less [of b] by simp
  finally show ?thesis .
qed

lemma uval_mul_u32 [uval_simps]: "uval (base_uint_mul_u32 a b) = (uval a * unat b) mod modulus a"
proof -
  have "unat c \<le> LIMB - 1 \<Longrightarrow> uval (mul_u32_loop c b a) = (unat c + uval a * unat b) mod modulus a" for c
  proof (induction a arbitrary: c)
    case Nil
    then show ?case by simp
  next
    case (Cons x a)
    define n where "n = c + ucast b * (ucast x :: u64)"
    have bnd: "unat b * unat x + 2 * LIMB \<le> LIMB * LIMB + 1"
      by (rule limb_square_bound) simp_all
    have lt: "unat c + unat b * unat x < LIMB * LIMB"
      using bnd Cons.prems LIMB_pos by linarith
    then have n: "unat n = unat c + unat b * unat x"
      unfolding n_def by (subst unat_u64_add) (simp_all add: unat_u64_mul_limbs)
    with lt have "unat (drop_bit 32 n) \<le> LIMB - 1"
      using div_less_of_lt_mult [of "unat n" LIMB LIMB] by (simp add: carry_step)
    from Cons.IH [OF this]
    have IH: "uval (mul_u32_loop (drop_bit 32 n) b a) = (unat n div LIMB + uval a * unat b) mod modulus a"
      by (simp add: carry_step)
    have "uval (mul_u32_loop c b (x # a)) = unat n mod LIMB + LIMB * uval (mul_u32_loop (drop_bit 32 n) b a)"
      unfolding mul_u32_loop.simps Let_def n_def [symmetric] uval.simps carry_step ..
    also have "\<dots> = (unat n + LIMB * (uval a * unat b)) mod (LIMB * modulus a)"
      unfolding IH by (rule carry_value)
    finally show ?case
      by (simp add: n algebra_simps)
  qed
  from this [of 0] show ?thesis
    by (simp add: base_uint_mul_u32_def)
qed

lemma length_mul_row: "length (mul_row c p a b) = min (length a) (length b)"
  by (induction c p a b rule: mul_row.induct) (simp_all add: Let_def)

lemma uval_mul_row:
  "length a \<le> length b \<Longrightarrow> unat c \<le> LIMB - 1 \<Longrightarrow>
     uval (mul_row c p a b) = (unat c + uval a + unat p * uval b) mod modulus a"
proof (induction a arbitrary: b c)
  case Nil
  then show ?case by simp
next
  case (Cons x a)
  then obtain y b' where b: "b = y # b'" by (cases b) auto
  define n where "n = c + ucast x + ucast p * (ucast y :: u64)"
  have bnd: "unat p * unat y + 2 * LIMB \<le> LIMB * LIMB + 1"
    by (rule limb_square_bound) simp_all
  have cx: "unat c + unat x + 2 \<le> 2 * LIMB"
    using Cons.prems unat_less_LIMB [of x] by linarith
  have "unat c + unat x < LIMB * LIMB"
    using cx by (simp add: LIMB_def)
  then have "unat (c + ucast x) = unat c + unat x"
    by (subst unat_u64_add) simp_all
  moreover have lt: "unat c + unat x + unat p * unat y < LIMB * LIMB"
    using bnd cx by linarith
  ultimately have n: "unat n = unat c + unat x + unat p * unat y"
    unfolding n_def by (subst unat_u64_add) (simp_all add: unat_u64_mul_limbs)
  with lt have "unat (drop_bit 32 n) \<le> LIMB - 1"
    using div_less_of_lt_mult [of "unat n" LIMB LIMB] by (simp add: carry_step)
  from Cons.IH [OF _ this, of b'] Cons.prems
  have IH: "uval (mul_row (drop_bit 32 n) p a b') = (unat n div LIMB + (uval a + unat p * uval b')) mod modulus a"
    by (simp add: carry_step b add.assoc)
  have "uval (mul_row c p (x # a) b) = unat n mod LIMB + LIMB * uval (mul_row (drop_bit 32 n) p a b')"
    unfolding b mul_row.simps Let_def n_def [symmetric] uval.simps carry_step ..
  also have "\<dots> = (unat n + LIMB * (uval a + unat p * uval b')) mod (LIMB * modulus a)"
    unfolding IH by (rule carry_value)
  finally show ?case
    by (simp add: n b algebra_simps)
qed

lemma uval_take_drop: "j \<le> length a \<Longrightarrow> uval a = uval (take j a) + LIMB ^ j * uval (drop j a)"
  using uval_append [of "take j a" "drop j a"] by (simp add: min_absorb2)

lemma uval_take_Suc: "j < length a \<Longrightarrow> uval (take (Suc j) a) = uval (take j a) + LIMB ^ j * unat (a ! j)"
  by (simp add: take_Suc_conv_app_nth uval_append min_absorb2)

lemma mul_outer_step:
  assumes len: "length a = length b" and j: "j < length a"
  shows "uval (take j a @ mul_row 0 p (drop j a) b) = (uval a + LIMB ^ j * unat p * uval b) mod modulus a"
proof -
  have row: "uval (mul_row 0 p (drop j a) b) = (uval (drop j a) + unat p * uval b) mod LIMB ^ (length a - j)"
    using len j by (subst uval_mul_row) simp_all
  have small: "uval (take j a) < LIMB ^ j"
    using uval_less [of "take j a"] j by (simp add: min_absorb2)
  have pow: "modulus a = LIMB ^ j * LIMB ^ (length a - j)"
    using j by (simp flip: power_add)
  let ?r = "uval (drop j a) + unat p * uval b"
  have "(uval (take j a) + LIMB ^ j * ?r) mod (LIMB ^ j * LIMB ^ (length a - j)) =
      LIMB ^ j * (?r mod LIMB ^ (length a - j)) + uval (take j a)"
    using small by (simp add: mod_mult2_eq)
  then show ?thesis
    using uval_take_drop [of j a] j
    by (simp add: uval_append min_absorb2 row pow algebra_simps)
qed

lemma mul_fold:
  assumes "length b = w" and "n \<le> w" and "length pn = w"
  shows "length (fold (\<lambda>j a. take j a @ mul_row 0 (pn ! j) (drop j a) b) [0..<n] (base_uint_zero w)) = w \<and>
     uval (fold (\<lambda>j a. take j a @ mul_row 0 (pn ! j) (drop j a) b) [0..<n] (base_uint_zero w)) =
       (uval (take n pn) * uval b) mod LIMB ^ w"
  using assms(2)
proof (induction n)
  case 0
  then show ?case by (simp add: uval_simps width_simps)
next
  case (Suc n)
  let ?acc = "fold (\<lambda>j a. take j a @ mul_row 0 (pn ! j) (drop j a) b) [0..<n] (base_uint_zero w)"
  from Suc have len: "length ?acc = w" and val: "uval ?acc = (uval (take n pn) * uval b) mod LIMB ^ w"
    by simp_all
  have "uval (take n ?acc @ mul_row 0 (pn ! n) (drop n ?acc) b) =
      (uval ?acc + LIMB ^ n * unat (pn ! n) * uval b) mod LIMB ^ w"
    using mul_outer_step [of ?acc b n "pn ! n"] len assms Suc.prems by simp
  also have "\<dots> = (uval (take (Suc n) pn) * uval b) mod LIMB ^ w"
    using Suc.prems assms by (simp add: val uval_take_Suc mod_simps algebra_simps)
  finally show ?case
    using len assms Suc.prems by (simp add: length_mul_row)
qed

lemma length_mul [width_simps]: "length a = length b \<Longrightarrow> length (base_uint_mul a b) = length a"
  using mul_fold [of b "length a" "length a" a] by (simp add: base_uint_mul_def)

lemma uval_mul [uval_simps]:
  "length a = length b \<Longrightarrow> uval (base_uint_mul a b) = (uval a * uval b) mod modulus a"
  using mul_fold [of b "length a" "length a" a] by (simp add: base_uint_mul_def)

section \<open>Shifts\<close>

text \<open>The limbs of the accumulator after \<open>n\<close> iterations of the shift loops.\<close>

definition shl_limb :: "base_uint \<Rightarrow> nat \<Rightarrow> nat \<Rightarrow> nat \<Rightarrow> nat \<Rightarrow> u32" where
  "shl_limb a k s n m =
     (if k + 1 \<le> m \<and> m - k - 1 < n \<and> s \<noteq> 0 then drop_bit (32 - s) (a ! (m - k - 1)) else 0) OR
     (if k \<le> m \<and> m - k < n then push_bit s (a ! (m - k)) else 0)"

definition shr_limb :: "base_uint \<Rightarrow> nat \<Rightarrow> nat \<Rightarrow> nat \<Rightarrow> nat \<Rightarrow> u32" where
  "shr_limb a k s n m =
     (if m + k + 1 < n \<and> s \<noteq> 0 then push_bit (32 - s) (a ! (m + k + 1)) else 0) OR
     (if m + k < n then drop_bit s (a ! (m + k)) else 0)"

lemma length_shl_step: "length (shl_step a k s i pn) = length pn"
  by (simp add: shl_step_def Let_def)

lemma length_shr_step: "length (shr_step a k s i pn) = length pn"
  by (simp add: shr_step_def Let_def)

lemma length_shl [width_simps]: "length (base_uint_shl a s) = length a"
  by (simp add: base_uint_shl_def length_fold length_shl_step width_simps)

lemma length_shr [width_simps]: "length (base_uint_shr a s) = length a"
  by (simp add: base_uint_shr_def length_fold length_shr_step width_simps)

lemma shl_step_limb:
  assumes pn: "length pn = length a" "\<And>m. m < length a \<Longrightarrow> pn ! m = shl_limb a k s n m"
    and m: "m < length a"
  shows "shl_step a k s n pn ! m = shl_limb a k s (Suc n) m"
proof -
  consider "m = n + k + 1" | "m = n + k" | "m \<noteq> n + k + 1" "m \<noteq> n + k"
    by blast
  then show ?thesis
  proof cases
    case 1
    with m pn show ?thesis by (simp add: shl_step_def Let_def shl_limb_def)
  next
    case 2
    with m pn show ?thesis by (simp add: shl_step_def Let_def shl_limb_def less_Suc_eq)
  next
    case 3
    then have "shl_limb a k s (Suc n) m = shl_limb a k s n m"
      unfolding shl_limb_def by (intro arg_cong2 [where f = "(OR)"]) auto
    with 3 m pn show ?thesis by (simp add: shl_step_def Let_def)
  qed
qed

lemma shr_step_limb:
  assumes pn: "length pn = length a" "\<And>m. m < length a \<Longrightarrow> pn ! m = shr_limb a k s n m"
    and m: "m < length a" and n: "n < length a"
  shows "shr_step a k s n pn ! m = shr_limb a k s (Suc n) m"
proof -
  consider "n = m + k + 1" | "n = m + k" | "n \<noteq> m + k + 1" "n \<noteq> m + k"
    by blast
  then show ?thesis
  proof cases
    case 1
    with m pn show ?thesis
      by (simp add: shr_step_def Let_def shr_limb_def or.commute)
  next
    case 2
    with m pn show ?thesis by (cases m) (simp_all add: shr_step_def Let_def shr_limb_def)
  next
    case 3
    then have "shr_limb a k s (Suc n) m = shr_limb a k s n m"
      unfolding shr_limb_def by (intro arg_cong2 [where f = "(OR)"]) auto
    moreover have "n - k \<noteq> m \<or> \<not> k \<le> n" "n - k - 1 \<noteq> m \<or> \<not> k + 1 \<le> n"
      using 3 by auto
    ultimately show ?thesis using m pn by (auto simp: shr_step_def Let_def)
  qed
qed

lemma shl_nth:
  assumes "m < length a"
  shows "base_uint_shl a sh ! m = shl_limb a (sh div 32) (sh mod 32) (length a) m"
proof -
  let ?F = "\<lambda>n. fold (shl_step a (sh div 32) (sh mod 32)) [0..<n] (base_uint_zero (length a))"
  have len: "length (?F n) = length a" for n
    by (simp add: length_fold length_shl_step width_simps)
  have "m < length a \<Longrightarrow> ?F n ! m = shl_limb a (sh div 32) (sh mod 32) n m" for n m
  proof (induction n arbitrary: m)
    case 0
    then show ?case by (simp add: base_uint_zero_def shl_limb_def)
  next
    case (Suc n)
    then show ?case using shl_step_limb [OF len [of n] Suc.IH] by simp
  qed
  with assms show ?thesis by (simp add: base_uint_shl_def)
qed

lemma shr_nth:
  assumes "m < length a"
  shows "base_uint_shr a sh ! m = shr_limb a (sh div 32) (sh mod 32) (length a) m"
proof -
  let ?F = "\<lambda>n. fold (shr_step a (sh div 32) (sh mod 32)) [0..<n] (base_uint_zero (length a))"
  have len: "length (?F n) = length a" for n
    by (simp add: length_fold length_shr_step width_simps)
  have "n \<le> length a \<Longrightarrow> m < length a \<Longrightarrow> ?F n ! m = shr_limb a (sh div 32) (sh mod 32) n m" for n m
  proof (induction n arbitrary: m)
    case 0
    then show ?case by (simp add: base_uint_zero_def shr_limb_def)
  next
    case (Suc n)
    then have "\<And>m. m < length a \<Longrightarrow> ?F n ! m = shr_limb a (sh div 32) (sh mod 32) n m"
      by simp
    from shr_step_limb [OF len [of n] this] Suc.prems show ?case by simp
  qed
  with assms show ?thesis by (simp add: base_uint_shr_def)
qed

lemma split_32: "(32 * q + r) div 32 = q" "(32 * q + r) mod 32 = r" if "r < 32" for q r :: nat
  using that by simp_all

lemma bit_uval_limb: "r < 32 \<Longrightarrow> bit (uval a) (32 * q + r) \<longleftrightarrow> q < length a \<and> bit (a ! q) r"
proof -
  assume r: "r < 32"
  then have "32 * q + r < 32 * length a \<longleftrightarrow> q < length a"
    by linarith
  with r show ?thesis
    unfolding bit_uval by (simp only: split_32)
qed

lemma bit_shl:
  "bit (uval (base_uint_shl a sh)) j \<longleftrightarrow> j < 32 * length a \<and> sh \<le> j \<and> bit (uval a) (j - sh)"
proof (cases "j < 32 * length a")
  case False
  then show ?thesis by (simp add: bit_uval width_simps)
next
  case True
  define k s m r where defs: "k = sh div 32" "s = sh mod 32" "m = j div 32" "r = j mod 32"
  have s: "s < 32" "r < 32" and sh: "sh = 32 * k + s" and j: "j = 32 * m + r"
    by (simp_all add: defs)
  have m: "m < length a"
    using True by (simp add: defs div_less_of_lt_mult)
  have lhs: "bit (uval (base_uint_shl a sh)) j \<longleftrightarrow> bit (shl_limb a k s (length a) m) r"
    using True m by (simp add: bit_uval width_simps shl_nth flip: defs)
  show ?thesis
  proof (cases "s \<le> r")
    case sr: True
    have "bit (uval a) (j - sh) \<longleftrightarrow> bit (a ! (m - k)) (r - s)" if "k \<le> m"
    proof -
      have "j - sh = 32 * (m - k) + (r - s)"
        using that sr by (simp add: j sh algebra_simps)
      then show ?thesis
        using m s by (simp add: bit_uval_limb less_imp_diff_less)
    qed
    moreover have "sh \<le> j \<longleftrightarrow> k \<le> m"
      using sr s by (simp add: j sh) linarith
    moreover have "bit (shl_limb a k s (length a) m) r \<longleftrightarrow> k \<le> m \<and> bit (a ! (m - k)) (r - s)"
    proof -
      have "\<not> bit (a ! (m - k - 1)) (32 - s + r)"
        using sr s bit_imp_le_length [of "a ! (m - k - 1)" "32 - s + r"] by auto
      then show ?thesis
        using sr s m by (auto simp: shl_limb_def bit_or_iff bit_drop_bit_eq bit_push_bit_iff less_imp_diff_less)
    qed
    ultimately show ?thesis
      unfolding lhs using True by blast
  next
    case sr: False
    have "bit (uval a) (j - sh) \<longleftrightarrow> bit (a ! (m - k - 1)) (32 - s + r)" if "k + 1 \<le> m"
    proof -
      have "j - sh = 32 * (m - k - 1) + (32 - s + r)"
        using that sr s by (simp add: j sh algebra_simps)
      moreover have "32 - s + r < 32" "m - k - 1 < length a"
        using sr s m by linarith+
      ultimately show ?thesis
        by (simp only: bit_uval_limb simp_thms)
    qed
    moreover have "sh \<le> j \<longleftrightarrow> k + 1 \<le> m"
      using sr s by (simp add: j sh) linarith
    moreover have "bit (shl_limb a k s (length a) m) r \<longleftrightarrow> k + 1 \<le> m \<and> bit (a ! (m - k - 1)) (32 - s + r)"
      using sr s m by (auto simp: shl_limb_def bit_or_iff bit_drop_bit_eq bit_push_bit_iff less_imp_diff_less)
    ultimately show ?thesis
      unfolding lhs using True by blast
  qed
qed

lemma bit_shr: "bit (uval (base_uint_shr a sh)) j \<longleftrightarrow> bit (uval a) (j + sh)"
proof (cases "j < 32 * length a")
  case False
  then show ?thesis by (simp add: bit_uval width_simps)
next
  case True
  define k s m r where defs: "k = sh div 32" "s = sh mod 32" "m = j div 32" "r = j mod 32"
  have s: "s < 32" "r < 32" and sh: "sh = 32 * k + s" and j: "j = 32 * m + r"
    by (simp_all add: defs)
  have m: "m < length a"
    using True by (simp add: defs div_less_of_lt_mult)
  have lhs: "bit (uval (base_uint_shr a sh)) j \<longleftrightarrow> bit (shr_limb a k s (length a) m) r"
    using True m by (simp add: bit_uval width_simps shr_nth flip: defs)
  show ?thesis
  proof (cases "s + r < 32")
    case sr: True
    have eq: "j + sh = 32 * (m + k) + (r + s)"
      by (simp add: j sh)
    have "bit (uval a) (j + sh) \<longleftrightarrow> m + k < length a \<and> bit (a ! (m + k)) (r + s)"
      unfolding eq using sr by (subst bit_uval_limb) simp_all
    moreover have "\<not> 32 - s \<le> r"
      using sr by linarith
    then have "bit (shr_limb a k s (length a) m) r \<longleftrightarrow> m + k < length a \<and> bit (a ! (m + k)) (r + s)"
      using s by (simp add: shr_limb_def bit_or_iff bit_drop_bit_eq bit_push_bit_iff add.commute)
    ultimately show ?thesis
      unfolding lhs by blast
  next
    case sr: False
    have eq: "j + sh = 32 * (m + k + 1) + (r + s - 32)"
      using sr by (simp add: j sh)
    have "bit (uval a) (j + sh) \<longleftrightarrow> m + k + 1 < length a \<and> bit (a ! (m + k + 1)) (r + s - 32)"
      unfolding eq using sr s by (subst bit_uval_limb) simp_all
    moreover have "\<not> bit (a ! (m + k)) (s + r)"
      using sr bit_imp_le_length [of "a ! (m + k)" "s + r"] by auto
    then have "bit (shr_limb a k s (length a) m) r \<longleftrightarrow> m + k + 1 < length a \<and> bit (a ! (m + k + 1)) (r + s - 32)"
      using sr s by (auto simp: shr_limb_def bit_or_iff bit_drop_bit_eq bit_push_bit_iff add.commute)
    ultimately show ?thesis
      unfolding lhs by blast
  qed
qed

lemma LIMB_power: "LIMB ^ n = 2 ^ (32 * n)"
  by (simp add: LIMB_def power_mult)

lemma uval_shl [uval_simps]: "uval (base_uint_shl a sh) = (uval a * 2 ^ sh) mod modulus a"
proof -
  have "uval (base_uint_shl a sh) = take_bit (32 * length a) (push_bit sh (uval a))"
    by (rule nat_bit_eqI) (auto simp: bit_shl bit_take_bit_iff bit_push_bit_iff)
  then show ?thesis
    by (simp add: take_bit_eq_mod push_bit_eq_mult LIMB_power)
qed

lemma uval_shr [uval_simps]: "uval (base_uint_shr a sh) = uval a div 2 ^ sh"
proof -
  have "uval (base_uint_shr a sh) = drop_bit sh (uval a)"
    by (rule nat_bit_eqI) (simp add: bit_shr bit_drop_bit_eq add.commute)
  then show ?thesis
    by (simp add: drop_bit_eq_div)
qed

section \<open>Comparison, bit length and division\<close>

lemma uval_take_less: "n \<le> length a \<Longrightarrow> uval (take n a) < LIMB ^ n"
  using uval_less [of "take n a"] by (simp add: min_absorb2)

lemma digit_less:
  fixes u v x y B :: nat
  assumes "u < B" "x < y"
  shows "u + B * x < v + B * y"
proof -
  have "u + B * x < B * (x + 1)"
    using assms by simp
  also have "\<dots> \<le> B * y"
    using assms by (intro mult_le_mono2) simp
  finally show ?thesis by simp
qed

lemma compare_loop_value:
  "n \<le> length a \<Longrightarrow> n \<le> length b \<Longrightarrow>
     compare_loop n a b =
       (if uval (take n a) < uval (take n b) then -1
        else if uval (take n b) < uval (take n a) then 1 else 0)"
proof (induction n)
  case 0
  then show ?case by simp
next
  case (Suc n)
  then have lt: "uval (take n a) < LIMB ^ n" "uval (take n b) < LIMB ^ n"
    by (simp_all add: uval_take_less)
  have va: "uval (take (Suc n) a) = uval (take n a) + LIMB ^ n * unat (a ! n)"
    and vb: "uval (take (Suc n) b) = uval (take n b) + LIMB ^ n * unat (b ! n)"
    using Suc.prems by (simp_all add: uval_take_Suc)
  consider "a ! n < b ! n" | "b ! n < a ! n" | "a ! n = b ! n"
    by (meson linorder_neqE)
  then show ?case
  proof cases
    case 1
    then show ?thesis
      using digit_less [OF lt(1), of "unat (a ! n)" "unat (b ! n)" "uval (take n b)"]
      by (simp add: va vb word_less_nat_alt)
  next
    case 2
    then show ?thesis
      using digit_less [OF lt(2), of "unat (b ! n)" "unat (a ! n)" "uval (take n a)"]
      by (simp add: va vb word_less_nat_alt)
  next
    case 3
    with Suc show ?thesis by (simp add: va vb)
  qed
qed

lemma CompareTo_value:
  "length a = length b \<Longrightarrow>
     CompareTo a b = (if uval a < uval b then -1 else if uval b < uval a then 1 else 0)"
  by (simp add: CompareTo_def compare_loop_value)

lemma CompareTo_ge: "length a = length b \<Longrightarrow> 0 \<le> CompareTo a b \<longleftrightarrow> uval b \<le> uval a"
  by (simp add: CompareTo_value)

lemma CompareTo_gt: "length a = length b \<Longrightarrow> 0 < CompareTo a b \<longleftrightarrow> uval b < uval a"
  by (simp add: CompareTo_value)

lemma CompareTo_eq: "length a = length b \<Longrightarrow> CompareTo a b = 0 \<longleftrightarrow> a = b"
  by (auto simp: CompareTo_value dest: uval_inject)

lemma GetLow64_value: "2 \<le> length a \<Longrightarrow> unat (GetLow64 a) = uval a mod 2 ^ 64"
proof -
  assume "2 \<le> length a"
  then have len: "64 \<le> 32 * length a" by simp
  have "unat (GetLow64 a) = take_bit 64 (uval a)"
  proof (rule nat_bit_eqI)
    fix n
    show "bit (unat (GetLow64 a)) n = bit (take_bit 64 (uval a)) n"
    proof (cases "n < 32")
      case True
      then show ?thesis using len
        by (auto simp: bit_unat_iff GetLow64_def bit_simps bit_uval)
    next
      case ge: False
      show ?thesis
      proof (cases "n < 64")
        case True
        with ge have "n div 32 = 1" "n mod 32 = n - 32"
          by (simp_all add: div_nat_eqI mod_nat_eqI)
        moreover have "\<not> bit (a ! 0) n"
          using ge bit_imp_le_length [of "a ! 0" n] by auto
        ultimately show ?thesis using ge True len
          by (auto simp: bit_unat_iff GetLow64_def bit_simps bit_uval)
      next
        case False
        then have "\<not> bit (GetLow64 a) n"
          using bit_imp_le_length [of "GetLow64 a" n] by auto
        with False show ?thesis
          by (simp add: bit_unat_iff bit_take_bit_iff)
      qed
    qed
  qed
  then show ?thesis by (simp only: take_bit_eq_mod)
qed

lemma bits_of_limb_spec:
  assumes "n < 32" "unat x < 2 ^ Suc n" "x \<noteq> 0"
  shows "0 < bits_of_limb n x \<and> bits_of_limb n x \<le> Suc n \<and>
    2 ^ (bits_of_limb n x - 1) \<le> unat x \<and> unat x < 2 ^ bits_of_limb n x"
  using assms
proof (induction n)
  case 0
  then show ?case by (auto simp: word_nonzero_unat)
next
  case (Suc n)
  have test: "x AND push_bit (Suc n) 1 \<noteq> 0 \<longleftrightarrow> bit x (Suc n)"
    by (simp only: bit_iff_and_push_bit_not_eq_0)
  show ?case
  proof (cases "bit x (Suc n)")
    case True
    then have "2 ^ Suc n \<le> unat x"
      using bit_nat_less [of "unat x" "Suc n" "Suc n"] by (force simp: bit_unat_iff)
    with True Suc.prems test show ?thesis by simp
  next
    case False
    have "unat x < 2 ^ Suc n"
    proof -
      have "take_bit (Suc n) (unat x) = take_bit (Suc (Suc n)) (unat x)"
        using False by (intro nat_bit_eqI) (auto simp: bit_take_bit_iff bit_unat_iff less_Suc_eq)
      also have "\<dots> = unat x"
        using Suc.prems(2) by (simp add: take_bit_nat_eq_self)
      finally show ?thesis by (simp add: take_bit_nat_eq_self_iff del: power_Suc)
    qed
    with Suc False test show ?thesis by simp
  qed
qed

lemma bits_loop_spec:
  "n \<le> length a \<Longrightarrow> uval (take n a) < 2 ^ bits_loop n a \<and> bits_loop n a \<le> 32 * n \<and>
     (0 < bits_loop n a \<longrightarrow> 2 ^ (bits_loop n a - 1) \<le> uval (take n a))"
proof (induction n)
  case 0
  then show ?case by simp
next
  case (Suc n)
  have val: "uval (take (Suc n) a) = uval (take n a) + LIMB ^ n * unat (a ! n)"
    using Suc.prems by (simp add: uval_take_Suc)
  show ?case
  proof (cases "a ! n = 0")
    case True
    then show ?thesis using Suc by (auto simp: val)
  next
    case False
    define r where "r = bits_of_limb 31 (a ! n)"
    have r: "0 < r" "r \<le> 32" "2 ^ (r - 1) \<le> unat (a ! n)" "unat (a ! n) < 2 ^ r"
      using bits_of_limb_spec [of 31 "a ! n"] False unsigned_less [of "a ! n", where 'a = nat]
      by (simp_all add: r_def)
    have "uval (take n a) + LIMB ^ n * unat (a ! n) < LIMB ^ n * (unat (a ! n) + 1)"
      using uval_take_less [of n a] Suc.prems by simp
    also have "\<dots> \<le> LIMB ^ n * 2 ^ r"
      using r by (intro mult_le_mono2) simp
    finally have up: "uval (take (Suc n) a) < 2 ^ (32 * n + r)"
      by (simp add: val LIMB_power power_add)
    have "(2 :: nat) ^ (32 * n + r - 1) = LIMB ^ n * 2 ^ (r - 1)"
      using r by (simp add: LIMB_power flip: power_add)
    also have "\<dots> \<le> uval (take (Suc n) a)"
      using r by (simp add: val trans_le_add2)
    finally have "2 ^ (32 * n + r - 1) \<le> uval (take (Suc n) a)" .
    with up r False show ?thesis by (simp add: r_def)
  qed
qed

lemma uval_less_bits: "uval a < 2 ^ bits a"
  and bits_le: "bits a \<le> 32 * length a"
  and bits_lower: "0 < bits a \<Longrightarrow> 2 ^ (bits a - 1) \<le> uval a"
  using bits_loop_spec [of "length a" a] by (simp_all add: bits_def)

lemma bits_zero_iff: "bits a = 0 \<longleftrightarrow> uval a = 0"
  using uval_less_bits [of a] bits_lower [of a] 
  by (cases "bits a = 0") (auto intro: less_le_trans [of 0 "2 ^ (bits a - 1)" "uval a"])

lemma bits_le_iff: "bits a \<le> n \<longleftrightarrow> uval a < 2 ^ n"
proof
  assume "bits a \<le> n"
  then have "(2 :: nat) ^ bits a \<le> 2 ^ n" by simp
  then show "uval a < 2 ^ n"
    using uval_less_bits [of a] by linarith
next
  assume lt: "uval a < 2 ^ n"
  show "bits a \<le> n"
  proof (rule ccontr)
    assume "\<not> bits a \<le> n"
    then have "(2 :: nat) ^ n \<le> 2 ^ (bits a - 1)" "0 < bits a"
      by (auto intro: power_increasing)
    then show False
      using bits_lower [of a] lt by linarith
  qed
qed


text \<open>Setting a clear bit of the quotient adds its weight.\<close>

lemma uval_set_bit:
  assumes "i < length q" "r < 32"
  shows "uval (q[i := q ! i OR push_bit r 1]) = uval q OR 2 ^ (32 * i + r)"
proof (rule nat_bit_eqI)
  fix n :: nat
  define m t where "m = n div 32" and "t = n mod 32"
  have n: "n = 32 * m + t" "t < 32"
    by (simp_all add: m_def t_def)
  have pow: "bit ((2 :: nat) ^ (32 * i + r)) (32 * m + t) \<longleftrightarrow> m = i \<and> t = r"
  proof -
    have "32 * m + t = 32 * i + r \<longleftrightarrow> m = i \<and> t = r"
      using assms(2) n(2) by (metis split_32)
    then show ?thesis by (simp add: bit_exp_iff)
  qed
  show "bit (uval (q[i := q ! i OR push_bit r 1])) n = bit (uval q OR 2 ^ (32 * i + r)) n"
    unfolding n(1) bit_or_iff pow using n(2) assms
    by (cases "m = i") (auto simp: bit_uval_limb bit_or_iff bit_exp_iff possible_bit_def)
qed

lemma or_disjoint_add: "2 ^ Suc n dvd (q :: nat) \<Longrightarrow> q OR 2 ^ n = q + 2 ^ n"
proof -
  assume "2 ^ Suc n dvd q"
  then have "\<not> bit q n"
    by (metis bit_iff_odd dvd_div_iff_mult dvd_mult_imp_div power_Suc power_not_zero zero_neq_numeral)
  then have "q AND 2 ^ n = 0"
    by (intro nat_bit_eqI) (auto simp: bit_and_iff bit_exp_iff)
  then show ?thesis by (simp add: disjunctive_add_eq_or)
qed

text \<open>
  The loop invariant of the division: \<open>n\<close> quotient bits are still to be found, the part found
  has only higher bits, and the remainder is below \<open>D * 2 ^ n\<close>.
\<close>

definition div_inv :: "nat \<Rightarrow> nat \<Rightarrow> nat \<Rightarrow> nat \<Rightarrow> base_uint \<Rightarrow> base_uint \<Rightarrow> bool" where
  "div_inv w N D n num q \<longleftrightarrow> length num = w \<and> length q = w \<and>
     uval num + D * uval q = N \<and> uval num < D * 2 ^ n \<and> 2 ^ n dvd uval q"

lemma div_inv_subtract:
  assumes inv: "div_inv w N D (Suc n) num q" and n: "n < 32 * w"
    and dv: "length dv = w" "uval dv = D * 2 ^ n" and le: "uval dv \<le> uval num"
  shows "div_inv w N D n (base_uint_sub num dv) (q[n div 32 := q ! (n div 32) OR push_bit (n mod 32) 1])"
proof -
  let ?num = "base_uint_sub num dv" and ?q = "q[n div 32 := q ! (n div 32) OR push_bit (n mod 32) 1]"
  have len: "length num = w" "length q = w" and dvd: "2 ^ Suc n dvd uval q"
    using inv by (simp_all add: div_inv_def)
  have num: "uval ?num = uval num - uval dv"
  proof -
    have "LIMB ^ w + uval num - uval dv = (uval num - uval dv) + LIMB ^ w"
      using le by simp
    then have "(LIMB ^ w + uval num - uval dv) mod LIMB ^ w = (uval num - uval dv) mod LIMB ^ w"
      by (simp only: mod_add_self2)
    also have "\<dots> = uval num - uval dv"
      using uval_less [of num] len by (intro mod_less) (simp add: less_imp_diff_less)
    finally show ?thesis
      using len dv by (simp add: uval_simps)
  qed
  have "uval ?q = uval q OR 2 ^ (32 * (n div 32) + n mod 32)"
    using n len by (intro uval_set_bit) (simp_all add: div_less_of_lt_mult)
  then have q: "uval ?q = uval q + 2 ^ n"
    using or_disjoint_add [OF dvd] by simp
  have "2 ^ n dvd uval q"
    using dvd by (metis dvd_mult_right power_Suc)
  moreover have "uval num < 2 * (D * 2 ^ n)"
    using inv by (simp add: div_inv_def mult.left_commute)
  then have "uval num - uval dv < D * 2 ^ n"
    using le dv by linarith
  ultimately show ?thesis
    using inv le len dv unfolding div_inv_def num q by (simp add: width_simps algebra_simps)
qed

lemma div_inv_skip:
  assumes "div_inv w N D (Suc n) num q" and "uval num < D * 2 ^ n"
  shows "div_inv w N D n num q"
proof -
  have "2 ^ n dvd uval q"
    using assms(1) unfolding div_inv_def by (metis dvd_mult_right power_Suc)
  with assms show ?thesis by (simp add: div_inv_def)
qed

lemma div_loop_correct:
  assumes "div_inv w N D n num q" "n \<le> 32 * w" "0 < D"
    and "length dv = w" "0 < n \<longrightarrow> uval dv = D * 2 ^ (n - 1)"
  shows "length (div_loop n num dv q) = w \<and> uval (div_loop n num dv q) = N div D"
  using assms
proof (induction n arbitrary: num dv q)
  case 0
  then have "N = uval num + D * uval q" "uval num < D" "length q = w"
    by (simp_all add: div_inv_def)
  then show ?case by simp
next
  case (Suc n)
  have dv: "uval dv = D * 2 ^ n"
    using Suc.prems by simp
  have half: "0 < n \<longrightarrow> uval (base_uint_shr dv 1) = D * 2 ^ (n - 1)"
    using dv by (cases n) (simp_all add: uval_simps)
  have len: "length num = w" "length (base_uint_shr dv 1) = w"
    using Suc.prems by (simp_all add: div_inv_def width_simps)
  show ?case
  proof (cases "uval dv \<le> uval num")
    case True
    then have "div_inv w N D n (base_uint_sub num dv) (q[n div 32 := q ! (n div 32) OR push_bit (n mod 32) 1])"
      using div_inv_subtract [OF Suc.prems(1) _ Suc.prems(4) dv] Suc.prems(2) by simp
    from Suc.IH [OF this _ Suc.prems(3) len(2) half] show ?thesis
      using True Suc.prems(2,4) len by (simp add: CompareTo_ge del: push_bit_of_1)
  next
    case False
    then have "div_inv w N D n num q"
      using div_inv_skip [OF Suc.prems(1)] dv by simp
    from Suc.IH [OF this _ Suc.prems(3) len(2) half] show ?thesis
      using False Suc.prems(2,4) len by (simp add: CompareTo_ge)
  qed
qed

lemma base_uint_div_correct:
  assumes len: "length a = length b" and b: "uval b \<noteq> 0"
  shows "\<exists>q. base_uint_div a b = Inr q \<and> length q = length a \<and> uval q = uval a div uval b"
proof (cases "bits b > bits a")
  case True
  have "uval a < 2 ^ (bits b - 1)"
    using True by (intro bits_le_iff [THEN iffD1]) simp
  also have "\<dots> \<le> uval b"
    using True by (intro bits_lower) simp
  finally have "uval a div uval b = 0" by simp
  then show ?thesis
    using True b by (simp add: base_uint_div_def bits_zero_iff uval_simps width_simps Let_def)
next
  case False
  define s where "s = bits a - bits b"
  have pos: "0 < bits b" using b bits_zero_iff [of b] by simp
  have s: "bits a = bits b + s" using False by (simp add: s_def)
  have small: "uval b * 2 ^ s < LIMB ^ length a"
  proof -
    have "uval b * 2 ^ s < 2 ^ bits b * 2 ^ s"
      using uval_less_bits [of b] by simp
    also have "\<dots> \<le> 2 ^ (32 * length a)"
      using bits_le [of a] by (simp add: s flip: power_add)
    finally show ?thesis by (simp add: LIMB_power)
  qed
  have "uval a < 2 * (2 ^ (bits b - 1) * 2 ^ s)"
    using uval_less_bits [of a] pos by (cases "bits b") (simp_all add: s power_add)
  also have "\<dots> \<le> 2 * (uval b * 2 ^ s)"
    using bits_lower [OF pos] by simp
  finally have inv: "div_inv (length a) (uval a) (uval b) (Suc s) a (base_uint_zero (length a))"
    by (simp add: div_inv_def uval_simps width_simps algebra_simps)
  have "length (div_loop (Suc s) a (base_uint_shl b s) (base_uint_zero (length a))) = length a \<and>
      uval (div_loop (Suc s) a (base_uint_shl b s) (base_uint_zero (length a))) = uval a div uval b"
    using bits_le [of a] s pos small b len
    by (intro div_loop_correct [OF inv]) (simp_all add: width_simps uval_simps)
  then show ?thesis
    using False pos by (simp add: base_uint_div_def s_def Let_def del: div_loop.simps)
qed

lemma base_uint_div_zero: "uval b = 0 \<Longrightarrow> base_uint_div a b = Inl DivisionByZero"
  by (simp add: base_uint_div_def bits_zero_iff Let_def)

section \<open>The compact format\<close>

lemma low_half_iff: "(ucast (x :: u32) :: u64) = b AND 0xffffffff \<longleftrightarrow> x = ucast b"
proof -
  have "unat (b AND 0xffffffff) = unat b mod LIMB"
  proof -
    have "(0xffffffff :: u64) = mask 32" by (simp add: mask_eq_exp_minus_1)
    then show ?thesis by (simp only: and_mask_mod LIMB_def)
  qed
  moreover have "unat (ucast b :: u32) = unat b mod LIMB"
    by (simp add: unsigned_ucast_eq take_bit_eq_mod LIMB_def)
  ultimately show ?thesis
    by (simp only: word_unat_eq_iff unat_ucast_u32_u64)
qed

lemma high_half_iff: "(ucast (y :: u32) :: u64) = drop_bit 32 b \<longleftrightarrow> y = ucast (drop_bit 32 b)"
proof -
  have "unat (drop_bit 32 b) < LIMB"
    using unsigned_less [of b, where 'a = nat]
    by (simp add: unat_drop_bit_div LIMB_def div_less_of_lt_mult)
  then have "unat (ucast (drop_bit 32 b) :: u32) = unat (drop_bit 32 b)"
    by (simp only: unsigned_ucast_eq take_bit_eq_mod) (simp add: LIMB_def)
  then show ?thesis
    by (simp only: word_unat_eq_iff unat_ucast_u32_u64)
qed

lemma EqualTo_iff: "2 \<le> length a \<Longrightarrow> EqualTo a b \<longleftrightarrow> uval a = unat b"
proof -
  assume len: "2 \<le> length a"
  then obtain x y zs where a: "a = x # y # zs"
    by (metis Suc_le_length_iff numeral_2_eq_2)
  have "(\<exists>z \<in> set zs. z \<noteq> 0) \<longleftrightarrow> zs \<noteq> replicate (length zs) 0"
    using replicate_eqI [of zs "length zs" 0] by (metis in_set_replicate)
  then have "EqualTo a b \<longleftrightarrow> a = base_uint_of_u64 (length a) b"
    unfolding EqualTo_def a base_uint_of_u64_def by (auto simp: low_half_iff high_half_iff)
  also have "\<dots> \<longleftrightarrow> uval a = unat b"
    using uval_inject [of a "base_uint_of_u64 (length a) b"] len uval_of_u64 [of "length a" b]
    by (metis length_of_u64)
  finally show ?thesis .
qed

lemma mask_23: "(0x007fffff :: u32) = mask 23"
  by (simp add: mask_eq_exp_minus_1)

lemma unat_and_mantissa: "unat (c AND 0x007fffff :: u32) = unat c mod 2 ^ 23"
  unfolding mask_23 by (rule and_mask_mod)

lemma sign_bit: "(c AND 0x00800000 :: u32) \<noteq> 0 \<longleftrightarrow> bit c 23"
proof -
  have "(0x00800000 :: u32) = push_bit 23 1" by simp
  then show ?thesis by (simp only: bit_iff_and_push_bit_not_eq_0)
qed

lemma bit_23_small: "unat (c :: u32) < 2 ^ 24 \<Longrightarrow> bit c 23 \<longleftrightarrow> 2 ^ 23 \<le> unat c"
proof -
  assume "unat c < 2 ^ 24"
  then have "unat c div 2 ^ 23 = (if 2 ^ 23 \<le> unat c then 1 else 0)"
    by (auto simp: div_nat_eqI)
  then show ?thesis
    unfolding bit_unat_iff [symmetric] bit_iff_odd by simp
qed

lemma above_mantissa: "(c AND NOT 0x007fffff :: u32) = 0 \<longleftrightarrow> unat c < 2 ^ 23"
proof -
  have "c AND NOT 0x007fffff = 0 \<longleftrightarrow> take_bit 23 c = c"
    unfolding mask_23 by (auto simp: bit_eq_iff bit_simps)
  also have "\<dots> \<longleftrightarrow> take_bit 23 (unat c) = unat c"
    by (simp only: word_unat_eq_iff unsigned_take_bit_eq)
  finally show ?thesis
    by (simp only: take_bit_nat_eq_self_iff)
qed

subsection \<open>Decoding\<close>

text \<open>The number a compact word denotes, as the comment in \<^verbatim>\<open>arith_uint256.h\<close> gives it.\<close>

definition compact_size :: "u32 \<Rightarrow> nat" where
  "compact_size c = unat c div 2 ^ 24"

definition compact_mantissa :: "u32 \<Rightarrow> nat" where
  "compact_mantissa c = unat c mod 2 ^ 23"

definition compact_number :: "u32 \<Rightarrow> nat" where
  "compact_number c =
     (if compact_size c \<le> 3 then compact_mantissa c div 256 ^ (3 - compact_size c)
      else compact_mantissa c * 256 ^ (compact_size c - 3))"

lemma power_256: "(256 :: nat) ^ n = 2 ^ (8 * n)"
  by (simp add: power_mult)

lemma modulus_256: "length a = WIDTH256 \<Longrightarrow> LIMB ^ length a = 2 ^ 256"
  by (simp add: WIDTH256_def LIMB_power)

lemma width256_ge_2 [simp]: "2 \<le> WIDTH256"
  by (simp add: WIDTH256_def)

lemma size_le_255: "compact_size c \<le> 255"
  using div_less_of_lt_mult [of "unat c" "2 ^ 24" 256] unat_u32_less [of c] by (simp add: compact_size_def)

lemma mantissa_less: "compact_mantissa c < 2 ^ 23"
  by (simp add: compact_mantissa_def)

lemma SetCompact_size: "unat (drop_bit 24 c) = compact_size c"
  by (simp only: unat_drop_bit_div compact_size_def)

lemma SetCompact_word:
  "unat (drop_bit n (c AND 0x007fffff)) = compact_mantissa c div 2 ^ n"
  by (simp only: unat_drop_bit_div unat_and_mantissa compact_mantissa_def)

lemma length_SetCompact: "length (cr_value (SetCompact c)) = WIDTH256"
  by (simp add: SetCompact_def Let_def width_simps)

lemma uval_SetCompact: "uval (cr_value (SetCompact c)) = compact_number c mod 2 ^ 256"
proof (cases "compact_size c \<le> 3")
  case True
  have "compact_number c \<le> compact_mantissa c"
    using True by (simp add: compact_number_def)
  also have "\<dots> < 2 ^ 256"
    using mantissa_less [of c] by simp
  finally show ?thesis
    using True by (simp add: SetCompact_def Let_def SetCompact_size uval_simps SetCompact_word
        compact_number_def power_256 del: drop_bit_and)
next
  case False
  have "length (base_uint_of_u64 WIDTH256 (ucast (c AND 0x007fffff))) = WIDTH256"
    by (simp add: width_simps)
  from modulus_256 [OF this] show ?thesis
    using False by (simp add: SetCompact_def Let_def SetCompact_size uval_simps
        unat_and_mantissa compact_number_def power_256 compact_mantissa_def)
qed


lemma overflow_bounds:
  assumes m: "(m :: nat) < 2 ^ 23" and s: "3 < s"
  shows "m \<noteq> 0 \<and> (34 < s \<or> 255 < m \<and> 33 < s \<or> 65535 < m \<and> 32 < s) \<longleftrightarrow> 2 ^ 256 \<le> m * 2 ^ (8 * (s - 3))"
proof -
  consider "s \<le> 32" | "s = 33" | "s = 34" | "35 \<le> s"
    by linarith
  then show ?thesis
  proof cases
    case 1
    have "m * 2 ^ (8 * (s - 3)) < 2 ^ 23 * 2 ^ (8 * (s - 3))"
      using m by simp
    also have "\<dots> \<le> (2 :: nat) ^ 23 * 2 ^ (8 * 29)"
      using 1 by (intro mult_le_mono2 power_increasing) simp_all
    finally have "m * 2 ^ (8 * (s - 3)) < 2 ^ 256"
      by simp
    with 1 show ?thesis by linarith
  next
    case 2
    then show ?thesis by auto
  next
    case 3
    then show ?thesis by auto
  next
    case 4
    have "2 ^ 256 \<le> m * 2 ^ (8 * (s - 3))" if "m \<noteq> 0"
    proof -
      have "(2 :: nat) ^ 256 \<le> 2 ^ (8 * (s - 3))"
        using 4 by (intro power_increasing) simp_all
      also have "\<dots> \<le> m * 2 ^ (8 * (s - 3))"
        using that by simp
      finally show ?thesis .
    qed
    with 4 show ?thesis by (cases "m = 0") auto
  qed
qed

lemma SetCompact_overflow_iff: "cr_overflow (SetCompact c) \<longleftrightarrow> 2 ^ 256 \<le> compact_number c"
proof (cases "compact_size c \<le> 3")
  case True
  have "compact_number c \<le> compact_mantissa c"
    using True by (simp add: compact_number_def)
  also have "\<dots> < 2 ^ 256"
    using mantissa_less [of c] by simp
  finally show ?thesis
    using True by (simp add: SetCompact_def Let_def SetCompact_size not_le)
next
  case False
  let ?w = "c AND 0x007fffff"
  have w: "unat ?w = compact_mantissa c"
    by (simp only: unat_and_mantissa compact_mantissa_def)
  have "?w \<noteq> 0 \<longleftrightarrow> compact_mantissa c \<noteq> 0" "0xff < ?w \<longleftrightarrow> 255 < compact_mantissa c"
    "0xffff < ?w \<longleftrightarrow> 65535 < compact_mantissa c"
    by (simp_all add: word_less_nat_alt w flip: unat_eq_zero)
  then have "cr_overflow (SetCompact c) \<longleftrightarrow> compact_mantissa c \<noteq> 0 \<and>
     (34 < compact_size c \<or> 255 < compact_mantissa c \<and> 33 < compact_size c \<or>
      65535 < compact_mantissa c \<and> 32 < compact_size c)"
    using False by (simp only: SetCompact_def Let_def SetCompact_size if_False compact_result.simps)
  also have "\<dots> \<longleftrightarrow> 2 ^ 256 \<le> compact_mantissa c * 2 ^ (8 * (compact_size c - 3))"
    using False mantissa_less by (intro overflow_bounds) simp_all
  finally show ?thesis
    using False by (simp only: compact_number_def if_False power_256)
qed

lemma SetCompact_exact:
  "\<not> cr_overflow (SetCompact c) \<Longrightarrow> uval (cr_value (SetCompact c)) = compact_number c"
  by (simp add: SetCompact_overflow_iff uval_SetCompact)

subsection \<open>Encoding\<close>

definition byte_length :: "base_uint \<Rightarrow> nat" where
  "byte_length a = (bits a + 7) div 8"

lemma byte_length_le: "length a = WIDTH256 \<Longrightarrow> byte_length a \<le> 32"
  using bits_le [of a] by (simp add: byte_length_def WIDTH256_def)

lemma uval_less_byte_length: "uval a < 256 ^ byte_length a"
  unfolding power_256 by (rule bits_le_iff [THEN iffD1]) (simp add: byte_length_def)

lemma byte_length_lower: "0 < byte_length a \<Longrightarrow> 256 ^ (byte_length a - 1) \<le> uval a"
proof -
  assume pos: "0 < byte_length a"
  then have "\<not> bits a \<le> 8 * (byte_length a - 1)"
    by (simp add: byte_length_def)
  then show ?thesis
    by (simp add: bits_le_iff power_256)
qed

text \<open>The three leading bytes, before the sign bit is dealt with.\<close>

definition leading3 :: "base_uint \<Rightarrow> nat" where
  "leading3 a = (if byte_length a \<le> 3 then uval a * 256 ^ (3 - byte_length a)
                 else uval a div 256 ^ (byte_length a - 3))"

lemma leading3_less: "leading3 a < 2 ^ 24"
proof (cases "byte_length a \<le> 3")
  case True
  have "uval a * 256 ^ (3 - byte_length a) < 256 ^ byte_length a * 256 ^ (3 - byte_length a)"
    using uval_less_byte_length [of a] by simp
  also have "\<dots> = 2 ^ 24"
    using True by (simp flip: power_add)
  finally show ?thesis using True by (simp add: leading3_def)
next
  case False
  then obtain k where k: "byte_length a = k + 3"
    by (metis add.commute le_Suc_ex nat_le_linear)
  have "uval a < 256 ^ k * 2 ^ 24"
    using uval_less_byte_length [of a] by (simp add: k power_add)
  then show ?thesis using False by (simp add: leading3_def k div_less_of_lt_mult)
qed

lemma leading3_lower: "uval a \<noteq> 0 \<Longrightarrow> 2 ^ 16 \<le> leading3 a"
proof -
  assume nz: "uval a \<noteq> 0"
  then have pos: "0 < byte_length a"
    using uval_less_byte_length [of a] by (cases "byte_length a") auto
  note lower = byte_length_lower [OF pos]
  show ?thesis
  proof (cases "byte_length a \<le> 3")
    case True
    have "(2 :: nat) ^ 16 = 256 ^ (byte_length a - 1) * 256 ^ (3 - byte_length a)"
      using True pos by (simp flip: power_add)
    also have "\<dots> \<le> leading3 a"
      using True lower by (simp add: leading3_def)
    finally show ?thesis .
  next
    case False
    then obtain k where k: "byte_length a = k + 3"
      by (metis add.commute le_Suc_ex nat_le_linear)
    have "256 ^ k * 2 ^ 16 \<le> uval a"
      using lower by (simp add: k power_add)
    then show ?thesis
      using False by (simp add: leading3_def k less_eq_div_iff_mult_less_eq mult.commute)
  qed
qed


lemma GetCompact_leading3:
  assumes "length a = WIDTH256"
  shows "unat (if byte_length a \<le> 3 then ucast (push_bit (8 * (3 - byte_length a)) (GetLow64 a))
     else ucast (GetLow64 (base_uint_shr a (8 * (byte_length a - 3)))) :: u32) = leading3 a"
proof (cases "byte_length a \<le> 3")
  case True
  have "uval a < 2 ^ 64"
    using True by (intro bits_le_iff [THEN iffD1]) (simp add: byte_length_def)
  then have "unat (GetLow64 a) = uval a"
    using assms by (simp add: GetLow64_value)
  moreover have "uval a * 2 ^ (8 * (3 - byte_length a)) < 2 ^ 24"
    using leading3_less [of a] True by (simp add: leading3_def power_256)
  ultimately show ?thesis
    using True by (simp add: unsigned_ucast_eq take_bit_eq_mod unat_push_bit leading3_def power_256)
next
  case False
  let ?s = "base_uint_shr a (8 * (byte_length a - 3))"
  have "uval ?s = leading3 a"
    using False by (simp add: leading3_def uval_simps power_256)
  moreover have "unat (GetLow64 ?s) = uval ?s mod 2 ^ 64"
    using assms by (intro GetLow64_value) (simp add: width_simps)
  ultimately have "unat (GetLow64 ?s) = leading3 a"
    using leading3_less [of a] by simp
  then show ?thesis
    using False leading3_less [of a] by (simp add: unsigned_ucast_eq take_bit_eq_mod)
qed

definition norm_mantissa :: "base_uint \<Rightarrow> nat" where
  "norm_mantissa a = (if 2 ^ 23 \<le> leading3 a then leading3 a div 256 else leading3 a)"

definition norm_size :: "base_uint \<Rightarrow> nat" where
  "norm_size a = (if 2 ^ 23 \<le> leading3 a then byte_length a + 1 else byte_length a)"

lemma norm_mantissa_less: "norm_mantissa a < 2 ^ 23"
  using leading3_less [of a] by (auto simp: norm_mantissa_def intro: le_less_trans [OF div_le_dividend]
      div_less_of_lt_mult)

lemma norm_size_le: "length a = WIDTH256 \<Longrightarrow> norm_size a \<le> 33"
  using byte_length_le [of a] by (simp add: norm_size_def)

lemma or_size_byte:
  assumes "unat (m :: u32) < 2 ^ 23" "s < 256"
  shows "unat (m OR push_bit 24 (of_nat s)) = unat m + s * 2 ^ 24"
proof -
  have "m AND push_bit 24 (of_nat s) = 0"
    by (rule bit_word_eqI)
      (use bit_nat_less [OF assms(1)] in \<open>auto simp: bit_simps bit_unat_iff\<close>)
  then have "m OR push_bit 24 (of_nat s) = m + push_bit 24 (of_nat s)"
    by (simp add: disjunctive_add_eq_or)
  moreover have "unat (push_bit 24 (of_nat s :: u32)) = s * 2 ^ 24"
    using assms(2) by (simp add: unat_push_bit unat_of_nat)
  ultimately show ?thesis
    using assms by (simp add: unat_word_ariths)
qed

lemma GetCompact_parts:
  assumes "length a = WIDTH256"
  shows "\<exists>c. GetCompact a False = Some c \<and> unat c = norm_mantissa a + norm_size a * 2 ^ 24"
proof -
  define n0 :: u32 where
    "n0 = (if byte_length a \<le> 3 then ucast (push_bit (8 * (3 - byte_length a)) (GetLow64 a))
       else ucast (GetLow64 (base_uint_shr a (8 * (byte_length a - 3)))))"
  have n0: "unat n0 = leading3 a"
    unfolding n0_def by (rule GetCompact_leading3 [OF assms])
  define n1 where "n1 = (if 2 ^ 23 \<le> leading3 a then drop_bit 8 n0 else n0)"
  have n1: "unat n1 = norm_mantissa a"
    by (simp add: n1_def norm_mantissa_def n0 unat_drop_bit_div)
  have sign: "n0 AND 0x00800000 \<noteq> 0 \<longleftrightarrow> 2 ^ 23 \<le> leading3 a"
    using leading3_less [of a] bit_23_small [of n0] by (simp only: sign_bit n0)
  have "n1 AND NOT 0x007fffff = 0"
    using norm_mantissa_less by (simp only: above_mantissa n1)
  moreover have "norm_size a < 256"
    using norm_size_le [OF assms] by simp
  ultimately have "GetCompact a False = Some (n1 OR push_bit 24 (of_nat (norm_size a)))"
    unfolding GetCompact_def byte_length_def [symmetric] n0_def [symmetric] sign Let_def
    by (cases "2 ^ 23 \<le> leading3 a") (simp_all add: n1_def norm_size_def)
  then show ?thesis
    using or_size_byte [of n1 "norm_size a"] norm_mantissa_less norm_size_le [OF assms] n1 by simp
qed

lemma parts_of_compact:
  assumes "unat c = m + s * 2 ^ 24" "m < 2 ^ 23"
  shows "compact_size c = s" "compact_mantissa c = m" "\<not> bit c 23"
proof -
  show "compact_size c = s"
    using assms by (simp add: compact_size_def)
  have "unat c = m + 2 ^ 23 * (2 * s)"
    using assms by simp
  then show "compact_mantissa c = m"
    using assms(2) by (simp only: compact_mantissa_def mod_mult_self2 mod_less)
  have "unat c div 2 ^ 23 = 2 * s"
    using \<open>unat c = m + 2 ^ 23 * (2 * s)\<close> assms(2) by simp
  then show "\<not> bit c 23"
    unfolding bit_unat_iff [symmetric] bit_iff_odd by simp
qed

text \<open>What the encoding keeps: everything above the bytes below the three-byte mantissa.\<close>

lemma norm_decode:
  "(if norm_size a \<le> 3 then norm_mantissa a div 256 ^ (3 - norm_size a)
    else norm_mantissa a * 256 ^ (norm_size a - 3)) =
   uval a div 256 ^ (norm_size a - 3) * 256 ^ (norm_size a - 3)"
proof (cases "byte_length a \<le> 2")
  case True
  then have k: "3 - byte_length a = Suc (2 - byte_length a)"
    by simp
  show ?thesis
    using True by (simp add: norm_size_def norm_mantissa_def leading3_def k)
next
  case False
  then obtain k where k: "byte_length a = k + 3"
    by (metis add.commute le_Suc_ex not_less_eq_eq numeral_2_eq_2 numeral_3_eq_3)
  have "leading3 a = uval a div 256 ^ k"
    by (cases k) (simp_all add: leading3_def k)
  then show ?thesis
    by (simp add: norm_size_def norm_mantissa_def k mult.commute flip: div_mult2_eq)
qed

lemma compact_number_GetCompact:
  assumes "length a = WIDTH256"
  obtains c where "GetCompact a False = Some c" "\<not> cr_negative (SetCompact c)" "\<not> cr_overflow (SetCompact c)"
    "compact_size c = norm_size a" "compact_mantissa c = norm_mantissa a"
    "uval (cr_value (SetCompact c)) = uval a div 256 ^ (norm_size a - 3) * 256 ^ (norm_size a - 3)"
proof -
  obtain c where c: "GetCompact a False = Some c" "unat c = norm_mantissa a + norm_size a * 2 ^ 24"
    using GetCompact_parts [OF assms] by blast
  note parts = parts_of_compact [OF c(2) norm_mantissa_less]
  have num: "compact_number c = uval a div 256 ^ (norm_size a - 3) * 256 ^ (norm_size a - 3)"
    using norm_decode [of a] by (simp only: compact_number_def parts)
  also have "\<dots> \<le> uval a"
    by (simp add: div_times_less_eq_dividend)
  also have "\<dots> < 2 ^ 256"
    using uval_less [of a] modulus_256 [OF assms] by simp
  finally have "\<not> cr_overflow (SetCompact c)"
    by (simp only: SetCompact_overflow_iff not_le)
  moreover have "\<not> cr_negative (SetCompact c)"
    using parts(3) sign_bit [of c] by (simp add: SetCompact_def Let_def)
  ultimately show ?thesis
    using that c(1) parts num SetCompact_exact by simp
qed

lemma norm_mantissa_lower: "uval a \<noteq> 0 \<Longrightarrow> 2 ^ 15 \<le> norm_mantissa a"
  using leading3_lower [of a] by (auto simp: norm_mantissa_def less_eq_div_iff_mult_less_eq)

text \<open>Re-encoding a decoded target gives the same word: the byte length and the mantissa survive.\<close>

lemma byte_length_unique:
  assumes "256 ^ n \<le> uval a" "uval a < 256 ^ Suc n"
  shows "byte_length a = Suc n"
proof -
  have "bits a \<le> 8 * Suc n" "\<not> bits a \<le> 8 * n"
    using assms unfolding bits_le_iff power_256 by simp_all
  then show ?thesis by (simp add: byte_length_def)
qed

lemma norm_parts_unique:
  assumes v: "uval a = m * 256 ^ k" and m: "2 ^ 15 \<le> m" "m < 2 ^ 23"
  shows "norm_mantissa a = m \<and> norm_size a = k + 3"
proof (cases "2 ^ 16 \<le> m")
  case True
  have "byte_length a = Suc (k + 2)"
  proof (rule byte_length_unique)
    have "(256 :: nat) ^ (k + 2) = 2 ^ 16 * 256 ^ k" by (simp add: power_add)
    also have "\<dots> \<le> m * 256 ^ k" using True by (intro mult_le_mono1)
    finally show "256 ^ (k + 2) \<le> uval a" by (simp add: v)
    have "m * 256 ^ k < 2 ^ 24 * 256 ^ k" using m by simp
    then show "uval a < 256 ^ Suc (k + 2)" by (simp add: v power_add)
  qed
  then have "leading3 a = m" "byte_length a = k + 3"
    by (cases k; simp add: leading3_def v)+
  then show ?thesis using m by (simp add: norm_mantissa_def norm_size_def)
next
  case False
  have "byte_length a = Suc (k + 1)"
  proof (rule byte_length_unique)
    have "(256 :: nat) ^ (k + 1) = 2 ^ 8 * 256 ^ k" by (simp add: power_add)
    also have "\<dots> \<le> m * 256 ^ k" using m by (intro mult_le_mono1) simp
    finally show "256 ^ (k + 1) \<le> uval a" by (simp add: v)
    have "m * 256 ^ k < 2 ^ 16 * 256 ^ k" using False by simp
    then show "uval a < 256 ^ Suc (k + 1)" by (simp add: v power_add)
  qed
  then have bl: "byte_length a = k + 2" by simp
  have "leading3 a = m * 256"
  proof (cases k)
    case 0
    then show ?thesis by (simp add: leading3_def bl v)
  next
    case (Suc j)
    then show ?thesis by (simp add: leading3_def bl v)
  qed
  then show ?thesis using m bl by (simp add: norm_mantissa_def norm_size_def)
qed

lemma GetCompact_stable:
  assumes len: "length a = WIDTH256" and c: "GetCompact a False = Some c"
  shows "GetCompact (cr_value (SetCompact c)) False = Some c"
proof -
  let ?b = "cr_value (SetCompact c)" and ?k = "norm_size a - 3"
  obtain c' where c': "GetCompact a False = Some c'" "unat c' = norm_mantissa a + norm_size a * 2 ^ 24"
    using GetCompact_parts [OF len] by blast
  have uc: "unat c = norm_mantissa a + norm_size a * 2 ^ 24" using c c' by simp
  have b: "uval ?b = uval a div 256 ^ ?k * 256 ^ ?k"
    using compact_number_GetCompact [OF len] c by (metis option.inject)
  have "norm_mantissa ?b = norm_mantissa a \<and> norm_size ?b = norm_size a"
  proof (cases "norm_size a \<le> 3")
    case True
    then have "uval ?b = uval a" by (simp add: b)
    then have "?b = a" using length_SetCompact len by (intro uval_inject) simp_all
    then show ?thesis by simp
  next
    case False
    then have "uval a \<noteq> 0"
      using uval_less_byte_length [of a] bits_zero_iff [of a] by (auto simp: norm_size_def leading3_def byte_length_def)
    then have "2 ^ 15 \<le> norm_mantissa a" by (rule norm_mantissa_lower)
    moreover have "uval ?b = norm_mantissa a * 256 ^ ?k"
      using norm_decode [of a] False by (simp add: b)
    ultimately have "norm_mantissa ?b = norm_mantissa a \<and> norm_size ?b = ?k + 3"
      by (intro norm_parts_unique norm_mantissa_less)
    then show ?thesis using False by simp
  qed
  then obtain d where "GetCompact ?b False = Some d" "unat d = unat c"
    using GetCompact_parts [OF length_SetCompact, of c] uc by auto
  then show ?thesis by (simp add: word_unat_eq_iff)
qed

lemma truncation_loss:
  "2 ^ 15 * (uval a - uval a div 256 ^ (norm_size a - 3) * 256 ^ (norm_size a - 3)) \<le> uval a"
proof (cases "norm_size a \<le> 3")
  case True
  then show ?thesis by simp
next
  case False
  let ?p = "256 ^ (norm_size a - 3) :: nat"
  have "uval a \<noteq> 0"
    using False bits_zero_iff [of a] by (auto simp: norm_size_def leading3_def byte_length_def)
  then have "2 ^ 15 * ?p \<le> norm_mantissa a * ?p"
    using norm_mantissa_lower [of a] by (intro mult_le_mono1)
  also have "\<dots> = uval a div ?p * ?p"
    using norm_decode [of a] False by simp
  also have "\<dots> \<le> uval a"
    by (simp add: div_times_less_eq_dividend)
  finally have "2 ^ 15 * ?p \<le> uval a" .
  moreover have "uval a - uval a div ?p * ?p < ?p"
    by (simp add: minus_div_mult_eq_mod)
  ultimately show ?thesis
    by (meson less_imp_le mult_le_mono2 order_trans)
qed

section \<open>Byte conversions\<close>

lemma ReadLE32_WriteLE32: "ReadLE32 (WriteLE32 x) = x"
proof (rule bit_word_eqI)
  fix n
  assume "n < LENGTH(32)"
  then consider "n < 8" | "8 \<le> n" "n < 16" | "16 \<le> n" "n < 24" | "24 \<le> n" "n < 32"
    by fastforce
  then show "bit (ReadLE32 (WriteLE32 x)) n = bit x n"
    unfolding ReadLE32_def WriteLE32_def
    by cases (auto simp: bit_simps)
qed

lemma WriteLE32_ReadLE32: "length bs = 4 \<Longrightarrow> WriteLE32 (ReadLE32 bs) = bs"
proof -
  assume "length bs = 4"
  then obtain p q r s where bs: "bs = [p, q, r, s]"
    by (auto simp: numeral_eq_Suc length_Suc_conv)
  show ?thesis
    unfolding bs WriteLE32_def ReadLE32_def
    by (auto intro!: bit_word_eqI simp: bit_simps)
qed

lemma length_WriteLE32 [width_simps]: "length (WriteLE32 x) = 4"
  by (simp add: WriteLE32_def)

lemma length_UintToArith256 [width_simps]: "length (UintToArith256 bs) = WIDTH256"
  by (simp add: UintToArith256_def)

lemma UintToArith256_ArithToUint256: "length a = WIDTH256 \<Longrightarrow> UintToArith256 (ArithToUint256 a) = a"
  unfolding UintToArith256_def ArithToUint256_def
  by (rule nth_equalityI) (simp_all add: nth_chunk width_simps ReadLE32_WriteLE32)

lemma ArithToUint256_UintToArith256:
  assumes "length bs = 32"
  shows "ArithToUint256 (UintToArith256 bs) = bs"
proof -
  have "ArithToUint256 (UintToArith256 bs) = concat (map (\<lambda>x. take 4 (drop (x * 4) bs)) [0..<WIDTH256])"
    unfolding ArithToUint256_def UintToArith256_def
    by (rule arg_cong [where f = concat], rule map_cong)
      (use assms in \<open>simp_all add: WriteLE32_ReadLE32 WIDTH256_def\<close>)
  also have "\<dots> = bs"
    using assms by (simp add: concat_map_chunks WIDTH256_def)
  finally show ?thesis .
qed

section \<open>The arithmetic interface\<close>

text \<open>
  What the clients of \<^verbatim>\<open>arith_uint256\<close> rely on: values of a fixed width, read by
  \<open>val\<close>, with operations that compute modulo \<open>M\<close> and a division that fails on zero only.
\<close>

locale modular_uint =
  fixes ok :: "'a \<Rightarrow> bool" and val :: "'a \<Rightarrow> nat" and M :: nat
    and add :: "'a \<Rightarrow> 'a \<Rightarrow> 'a" and bnot :: "'a \<Rightarrow> 'a" and inc :: "'a \<Rightarrow> 'a"
    and quot :: "'a \<Rightarrow> 'a \<Rightarrow> 'e + 'a"
  assumes val_less: "ok a \<Longrightarrow> val a < M"
    and val_inject: "ok a \<Longrightarrow> ok b \<Longrightarrow> val a = val b \<Longrightarrow> a = b"
    and ok_add: "ok a \<Longrightarrow> ok b \<Longrightarrow> ok (add a b)"
    and val_add: "ok a \<Longrightarrow> ok b \<Longrightarrow> val (add a b) = (val a + val b) mod M"
    and ok_bnot: "ok a \<Longrightarrow> ok (bnot a)"
    and val_bnot: "ok a \<Longrightarrow> val (bnot a) = M - 1 - val a"
    and ok_inc: "ok a \<Longrightarrow> ok (inc a)"
    and val_inc: "ok a \<Longrightarrow> val (inc a) = (val a + 1) mod M"
    and val_quot: "ok a \<Longrightarrow> ok b \<Longrightarrow> val b \<noteq> 0 \<Longrightarrow>
      \<exists>q. quot a b = Inr q \<and> ok q \<and> val q = val a div val b"
begin

lemma add_commute: "ok a \<Longrightarrow> ok b \<Longrightarrow> add a b = add b a"
  by (rule val_inject) (simp_all add: ok_add val_add add.commute)

lemma add_assoc: "ok a \<Longrightarrow> ok b \<Longrightarrow> ok c \<Longrightarrow> add (add a b) c = add a (add b c)"
  by (rule val_inject) (simp_all add: ok_add val_add mod_simps add.assoc)

text \<open>Two's complement subtraction, exact when it does not borrow and wrapping otherwise.\<close>

lemma val_sub:
  assumes "ok a" "ok b"
  shows "val (add a (inc (bnot b))) = (if val b \<le> val a then val a - val b else M + val a - val b)"
proof -
  have "M - 1 - val b + 1 = M - val b"
    using val_less [OF assms(2)] by linarith
  then have "val (inc (bnot b)) = (M - val b) mod M"
    using assms by (simp only: val_inc ok_bnot val_bnot)
  then have eq: "val (add a (inc (bnot b))) = (val a + (M - val b)) mod M"
    using assms by (simp add: val_add ok_inc ok_bnot mod_simps)
  show ?thesis
  proof (cases "val b \<le> val a")
    case True
    then have "val a + (M - val b) = (val a - val b) + M"
      using val_less [OF assms(2)] by linarith
    then have "val (add a (inc (bnot b))) = (val a - val b) mod M"
      by (simp only: eq mod_add_self2)
    with True val_less [OF assms(1)] show ?thesis
      by (simp add: less_imp_diff_less)
  next
    case False
    then have "val a + (M - val b) < M" "val a + (M - val b) = M + val a - val b"
      using val_less [OF assms(2)] by linarith+
    with False eq show ?thesis by simp
  qed
qed

text \<open>\<open>~t / (t + 1) + 1\<close> is \<open>M div (t + 1)\<close>, computed without representing \<open>M\<close>.\<close>

lemma complement_quotient:
  assumes "ok t" "ok one" "val one = 1" "0 < val t" "val t + 1 < M"
  shows "\<exists>q. quot (bnot t) (add t one) = Inr q \<and> ok (add q one) \<and> val (add q one) = M div (val t + 1)"
proof -
  have t1: "ok (add t one)" "val (add t one) = val t + 1"
    using assms by (simp_all add: ok_add val_add)
  then obtain q where q: "quot (bnot t) (add t one) = Inr q" "ok q" "val q = (M - 1 - val t) div (val t + 1)"
    using val_quot [of "bnot t" "add t one"] assms by (auto simp: ok_bnot val_bnot)
  have "M = (M - 1 - val t) + (val t + 1)"
    using assms by linarith
  then have "M div (val t + 1) = val q + 1"
    by (metis q(3) div_add_self2 add_eq_0_iff_both_eq_0 one_neq_zero)
  moreover have "M div (val t + 1) < M"
    using assms by (intro div_less_dividend) linarith+
  ultimately show ?thesis
    using q assms by (auto simp: ok_add val_add)
qed

end

lemma LIMB_WIDTH256: "LIMB ^ WIDTH256 = 2 ^ 256"
  by (simp add: WIDTH256_def LIMB_power)

interpretation u256: modular_uint "\<lambda>a. length a = WIDTH256" uval "2 ^ 256"
  base_uint_add base_uint_not base_uint_inc base_uint_div
proof (unfold_locales, goal_cases)
  case (1 a)
  then show ?case using uval_less [of a] modulus_256 [of a] by simp
next
  case (2 a b)
  then show ?case by (intro uval_inject) simp_all
next
  case (9 a b)
  then show ?case using base_uint_div_correct [of a b] by auto
qed (simp_all add: width_simps uval_simps LIMB_WIDTH256 del: power_numeral)


section \<open>Properties\<close>

text \<open>
  C22. The limb loops with 64-bit carries compute ring arithmetic modulo \<open>2 ^ 256\<close>: for 256-bit
  operands \<^verbatim>\<open>+=\<close>, \<^verbatim>\<open>-=\<close>, \<^verbatim>\<open>*=\<close> (both overloads), unary minus and both
  shifts give the named result, modulo \<open>2 ^ 256\<close> where it can wrap.
\<close>

theorem arith_uint256_ring:
  assumes "length a = WIDTH256" "length b = WIDTH256"
  shows "uval (base_uint_add a b) = (uval a + uval b) mod 2 ^ 256 \<and>
    uval (base_uint_sub a b) = (2 ^ 256 + uval a - uval b) mod 2 ^ 256 \<and>
    uval (base_uint_mul a b) = (uval a * uval b) mod 2 ^ 256 \<and>
    uval (base_uint_mul_u32 a w) = (uval a * unat w) mod 2 ^ 256 \<and>
    uval (base_uint_neg a) = (2 ^ 256 - uval a) mod 2 ^ 256 \<and>
    uval (base_uint_shl a n) = (uval a * 2 ^ n) mod 2 ^ 256 \<and>
    uval (base_uint_shr a n) = uval a div 2 ^ n"
  using assms by (simp add: uval_simps LIMB_WIDTH256 del: power_numeral)

theorem arith_uint256_ring_witness:
  "uval (base_uint_sub (arith_of_u64 3) (arith_of_u64 5)) = 2 ^ 256 - 2 \<and>
   uval (base_uint_mul (arith_of_u64 6) (arith_of_u64 7)) = 42"
proof -
  have len: "length (arith_of_u64 x) = WIDTH256" for x
    by (simp add: width_simps)
  show ?thesis
    using arith_uint256_ring [OF len [of 3] len [of 5]] arith_uint256_ring [OF len [of 6] len [of 7]]
    by (simp add: uval_of_u64)
qed

text \<open>
  C21. Long division: dividing by zero is the \<^verbatim>\<open>uint_error\<close> and nothing else is; otherwise
  the shift-and-subtract loop returns the exact quotient, at full width.
\<close>

theorem arith_uint256_division:
  assumes "length a = WIDTH256" "length b = WIDTH256"
  shows "(uval b = 0 \<longrightarrow> base_uint_div a b = Inl DivisionByZero) \<and>
    (uval b \<noteq> 0 \<longrightarrow> (\<exists>q. base_uint_div a b = Inr q \<and> length q = WIDTH256 \<and> uval q = uval a div uval b))"
  using assms base_uint_div_zero base_uint_div_correct [of a b] by simp

theorem arith_uint256_division_witness:
  "\<exists>q. base_uint_div (arith_of_u64 100) (arith_of_u64 7) = Inr q \<and> uval q = 14"
proof -
  have len: "length (arith_of_u64 x) = WIDTH256" for x
    by (simp add: width_simps)
  show ?thesis
    using arith_uint256_division [OF len [of 100] len [of 7]] by (auto simp: uval_of_u64)
qed

text \<open>
  C25. \<^verbatim>\<open>SetCompact\<close> decodes the documented floating-point format: the value is
  \<open>mantissa * 256 ^ (exponent - 3)\<close> reduced modulo \<open>2 ^ 256\<close>, and the overflow flag is raised
  exactly when that number does not fit 256 bits, so an accepted target is never truncated.
\<close>

theorem SetCompact_decodes:
  "uval (cr_value (SetCompact c)) = compact_number c mod 2 ^ 256 \<and>
   (cr_overflow (SetCompact c) \<longleftrightarrow> 2 ^ 256 \<le> compact_number c)"
  using uval_SetCompact SetCompact_overflow_iff by blast

text \<open>
  C26. Encoding a 256-bit number with \<^verbatim>\<open>GetCompact\<close> never fails an assertion; decoding the
  word raises neither flag, gives a number that is not larger and loses less than one part in
  \<open>2 ^ 15\<close>; and encoding that number again gives the same word.
\<close>

theorem GetCompact_roundtrip:
  assumes "length a = WIDTH256"
  shows "\<exists>c. GetCompact a False = Some c \<and>
    \<not> cr_negative (SetCompact c) \<and> \<not> cr_overflow (SetCompact c) \<and>
    uval (cr_value (SetCompact c)) \<le> uval a \<and>
    2 ^ 15 * (uval a - uval (cr_value (SetCompact c))) \<le> uval a \<and>
    GetCompact (cr_value (SetCompact c)) False = Some c"
proof -
  let ?p = "256 ^ (norm_size a - 3) :: nat"
  obtain c where c: "GetCompact a False = Some c" "\<not> cr_negative (SetCompact c)" "\<not> cr_overflow (SetCompact c)"
    and v: "uval (cr_value (SetCompact c)) = uval a div ?p * ?p"
    using compact_number_GetCompact [OF assms] by metis
  have "2 ^ 15 * (uval a - uval a div ?p * ?p) \<le> uval a"
    by (rule truncation_loss)
  then show ?thesis
    using c v GetCompact_stable [OF assms c(1)] by (auto simp: div_times_less_eq_dividend)
qed

theorem GetCompact_roundtrip_witness:
  "\<exists>c. GetCompact (arith_of_u64 0x123456789a) False = Some c \<and> \<not> cr_overflow (SetCompact c) \<and>
     uval (cr_value (SetCompact c)) \<le> 0x123456789a"
proof -
  have "length (arith_of_u64 0x123456789a) = WIDTH256"
    by (simp add: width_simps)
  from GetCompact_roundtrip [OF this] show ?thesis
    by (auto simp: uval_of_u64)
qed

end
