(* ===== verification/Double.thy ===== *)
theory Double
  imports Prelude "HOL-Library.Log_Nat"
begin

text \<open>
  The part of C++ \<^verbatim>\<open>double\<close> arithmetic (IEEE 754 binary64, round to nearest, ties to
  even) that the consensus parameters and the fee model use: conversion from an integer,
  division, multiplication, truncation to an integer and \<^verbatim>\<open>std::llround\<close>. A finite value is
  a pair \<open>(m, e)\<close> that stands for \<open>m * 2 ^ e\<close>. The exponent is not bounded: the operands of
  the modelled code keep it far from overflow and from the subnormal range. The sign of zero is
  not represented, because every result is converted to an integer.
\<close>

type_synonym double = "int \<times> int"

text \<open>\<open>\<lfloor>log2 (p / q)\<rfloor>\<close> for positive \<open>p\<close> and \<open>q\<close>.\<close>

definition log2_quot :: "nat \<Rightarrow> nat \<Rightarrow> int" where
  "log2_quot p q =
     (if q \<le> p then int (floorlog 2 (p div q)) - 1
      else - int (floorlog 2 ((q - 1) div p)))"

text \<open>The integer nearest to \<open>n / d\<close>, ties to even.\<close>

definition round_half_even :: "nat \<Rightarrow> nat \<Rightarrow> nat" where
  "round_half_even n d =
     (let f = n div d; r = n mod d
      in if 2 * r < d \<or> (2 * r = d \<and> even f) then f else f + 1)"

text \<open>The double nearest to \<open>p / q\<close>, with the sign given apart.\<close>

definition double_round :: "bool \<Rightarrow> nat \<Rightarrow> nat \<Rightarrow> double" where
  "double_round neg p q =
     (if p = 0 then (0, 0)
      else let e = log2_quot p q - 52;
               m = (if 0 \<le> e then round_half_even p (q * 2 ^ nat e)
                    else round_half_even (p * 2 ^ nat (- e)) q)
           in (if neg then - int m else int m, e))"

definition double_of_int :: "int \<Rightarrow> double" where
  "double_of_int x = double_round (x < 0) (nat \<bar>x\<bar>) 1"

definition double_div :: "double \<Rightarrow> double \<Rightarrow> double" where
  "double_div x y =
     (case (x, y) of ((m1, e1), (m2, e2)) \<Rightarrow>
        double_round ((m1 < 0) \<noteq> (m2 < 0))
          (nat \<bar>m1\<bar> * 2 ^ nat (e1 - e2)) (nat \<bar>m2\<bar> * 2 ^ nat (e2 - e1)))"

definition double_mul :: "double \<Rightarrow> double \<Rightarrow> double" where
  "double_mul x y =
     (case (x, y) of ((m1, e1), (m2, e2)) \<Rightarrow>
        double_round ((m1 < 0) \<noteq> (m2 < 0))
          (nat \<bar>m1 * m2\<bar> * 2 ^ nat (e1 + e2)) (2 ^ nat (- (e1 + e2))))"

text \<open>\<^verbatim>\<open>static_cast<int64_t>\<close> of a double: truncation towards zero.\<close>

definition double_trunc :: "double \<Rightarrow> int" where
  "double_trunc x =
     (case x of (m, e) \<Rightarrow>
        if 0 \<le> e then m * 2 ^ nat e
        else sgn m * (\<bar>m\<bar> div 2 ^ nat (- e)))"

text \<open>\<^verbatim>\<open>std::llround\<close>: nearest integer, ties away from zero.\<close>

definition llround :: "double \<Rightarrow> int" where
  "llround x =
     (case x of (m, e) \<Rightarrow>
        if 0 \<le> e then m * 2 ^ nat e
        else sgn m * ((2 * \<bar>m\<bar> + 2 ^ nat (- e)) div (2 * 2 ^ nat (- e))))"

section \<open>Rounding\<close>

lemma round_half_even_le:
  assumes "n \<le> R * d" "0 < d"
  shows "round_half_even n d \<le> R"
proof -
  have f: "n div d \<le> R"
    using assms by (metis div_le_mono nonzero_mult_div_cancel_right not_gr_zero)
  have "n mod d = 0" if "n div d = R"
    using that assms by (metis le_antisym div_times_less_eq_dividend mod_mult_self2_is_0)
  with f assms(2) show ?thesis
    by (auto simp: round_half_even_def Let_def le_less)
qed

lemma round_half_even_exact: "0 < d \<Longrightarrow> round_half_even (k * d) d = k"
  by (simp add: round_half_even_def)

lemma floorlog_2_le_iff: "floorlog 2 n \<le> w \<longleftrightarrow> n < 2 ^ w"
  by (cases "n = 0") (auto simp: floorlog_le_iff)

text \<open>A quotient below \<open>2 ^ 53\<close> is stored with a non-positive exponent.\<close>

lemma double_round_exponent:
  assumes "p < 2 ^ 53 * q" "0 < q"
  shows "snd (double_round neg p q) \<le> 0"
proof (cases "q \<le> p")
  case True
  have "p div q < 2 ^ 53"
    using assms by (simp add: div_less_of_lt_mult mult.commute)
  then show ?thesis
    using floorlog_2_le_iff [of "p div q" 53] True by (simp add: double_round_def Let_def log2_quot_def)
next
  case False
  then show ?thesis by (simp add: double_round_def Let_def log2_quot_def)
qed

lemma double_round_le:
  assumes "p \<le> R * q" "R < 2 ^ 53" "0 < q"
  obtains m k where "double_round False p q = (int m, - int k)" "m \<le> R * 2 ^ k"
proof (cases "p = 0")
  case True
  then show ?thesis using that [of 0 0] by (simp add: double_round_def)
next
  case False
  have "p < 2 ^ 53 * q"
    using assms by (meson le_less_trans mult_strict_right_mono)
  then have e: "log2_quot p q - 52 \<le> 0"
    using double_round_exponent [of p q False] assms False by (simp add: double_round_def Let_def)
  define k where "k = nat (52 - log2_quot p q)"
  have k: "log2_quot p q - 52 = - int k"
    using e by (simp add: k_def)
  let ?m = "round_half_even (p * 2 ^ k) q"
  have "double_round False p q = (int ?m, - int k)"
    using False unfolding double_round_def Let_def k by (cases "k = 0") simp_all
  moreover have "?m \<le> R * 2 ^ k"
    using assms by (intro round_half_even_le) (simp_all add: mult.assoc mult.left_commute [of "2 ^ k"] mult.commute)
  ultimately show ?thesis by (rule that)
qed

lemma double_round_exact:
  assumes "R < 2 ^ 53" "0 < q"
  obtains k where "double_round False (R * q) q = (int (R * 2 ^ k), - int k)"
proof (cases "R = 0")
  case True
  then show ?thesis using that [of 0] by (simp add: double_round_def)
next
  case False
  have e: "log2_quot (R * q) q - 52 \<le> 0"
    using double_round_exponent [of "R * q" q False] assms False by (simp add: double_round_def Let_def)
  define k where "k = nat (52 - log2_quot (R * q) q)"
  have k: "log2_quot (R * q) q - 52 = - int k"
    using e by (simp add: k_def)
  have "round_half_even (R * q * 2 ^ k) q = R * 2 ^ k"
    using round_half_even_exact [of q "R * 2 ^ k"] assms(2) by (simp add: mult.assoc mult.left_commute mult.commute)
  then have "double_round False (R * q) q = (int (R * 2 ^ k), - int k)"
    using False assms(2) unfolding double_round_def Let_def k by (cases "k = 0") simp_all
  then show ?thesis by (rule that)
qed

lemma double_round_neg: "double_round True p q = (- fst (double_round False p q), snd (double_round False p q))"
  by (simp add: double_round_def Let_def)

section \<open>Integers and fractions as doubles\<close>

lemma double_of_int_exact:
  assumes "\<bar>x\<bar> < 2 ^ 53"
  obtains k where "double_of_int x = (x * 2 ^ k, - int k)"
proof -
  have "nat \<bar>x\<bar> < 2 ^ 53"
    using assms by (simp add: nat_less_iff)
  then obtain k where k: "double_round False (nat \<bar>x\<bar> * 1) 1 = (int (nat \<bar>x\<bar> * 2 ^ k), - int k)"
    using double_round_exact [of "nat \<bar>x\<bar>" 1] zero_less_one by blast
  have "double_of_int x = (x * 2 ^ k, - int k)"
    using k by (cases "x < 0") (simp_all add: double_of_int_def double_round_neg)
  then show ?thesis by (rule that)
qed

text \<open>The double nearest to a fraction between 0 and 1 is between 0 and 1.\<close>

lemma double_fraction:
  assumes "0 \<le> a" "a \<le> b" "0 < b" "b < 2 ^ 53"
  obtains m k where "double_div (double_of_int a) (double_of_int b) = (int m, - int k)" "m \<le> 2 ^ k"
    and "a = b \<Longrightarrow> m = 2 ^ k"
proof -
  obtain k1 where k1: "double_of_int a = (a * 2 ^ k1, - int k1)"
    using double_of_int_exact [of a] assms by auto
  obtain k2 where k2: "double_of_int b = (b * 2 ^ k2, - int k2)"
    using double_of_int_exact [of b] assms by auto
  let ?p = "nat a * 2 ^ max k1 k2" and ?q = "nat b * 2 ^ max k1 k2"
  have p: "nat \<bar>a * 2 ^ k1\<bar> * 2 ^ nat (- int k1 - - int k2) = ?p"
    and q: "nat \<bar>b * 2 ^ k2\<bar> * 2 ^ nat (- int k2 - - int k1) = ?q"
    using assms by (simp_all add: abs_mult nat_mult_distrib nat_power_eq max_def nat_diff_distrib'
        flip: power_add)
  have div: "double_div (double_of_int a) (double_of_int b) = double_round False ?p ?q"
    using assms unfolding double_div_def k1 k2 prod.case p q by (simp add: mult_less_0_iff)
  have q0: "0 < ?q" using assms by simp
  show ?thesis
  proof (cases "a = b")
    case True
    then obtain k where "double_round False (1 * ?q) ?q = (int (1 * 2 ^ k), - int k)"
      using double_round_exact [of 1 ?q] q0 by auto
    with True div that [of "2 ^ k" k] show ?thesis by simp
  next
    case False
    have "?p \<le> 1 * ?q" using assms by (simp add: nat_le_iff)
    then obtain m k where "double_round False ?p ?q = (int m, - int k)" "m \<le> 1 * 2 ^ k"
      using double_round_le [of ?p 1 ?q] q0 by auto
    with False div that [of m k] show ?thesis by simp
  qed
qed

text \<open>Scaling an integer by such a fraction and truncating stays between 0 and the integer.\<close>

lemma double_mul_int:
  assumes "\<bar>s\<bar> < 2 ^ 53" "0 < m"
  shows "\<exists>j. double_mul (double_of_int s) (int m, - int k) = double_round (s < 0) (nat \<bar>s\<bar> * m * 2 ^ j) (2 ^ (j + k))"
proof -
  obtain j where j: "double_of_int s = (s * 2 ^ j, - int j)"
    using double_of_int_exact [OF assms(1)] by blast
  have nj: "nat (- (- int j + - int k)) = j + k" "nat (- int j + - int k) = 0"
    by (simp_all add: nat_int_add add.commute)
  show ?thesis
    using assms(2) unfolding double_mul_def j prod.case nj
    by (intro exI [of _ j]) (simp add: abs_mult nat_mult_distrib nat_power_eq mult_less_0_iff ac_simps)
qed

lemma double_trunc_round:
  assumes "double_round False p q = (int m, - int k)"
  shows "double_trunc (double_round b p q) = (if b then - 1 else 1) * (int m div 2 ^ k)"
proof -
  have r: "double_round b p q = ((if b then - 1 else 1) * int m, - int k)"
    using assms by (cases b) (simp_all add: double_round_neg)
  show ?thesis
    unfolding r by (cases "k = 0") (auto simp: double_trunc_def sgn_if)
qed

lemma double_trunc_zero: "double_trunc (double_mul x (0, e)) = 0"
  by (cases x) (simp add: double_mul_def double_round_def double_trunc_def)

lemma double_scale_bounds:
  assumes s: "\<bar>s\<bar> < 2 ^ 53" and m: "m \<le> 2 ^ k"
  shows "\<exists>t. double_trunc (double_mul (double_of_int s) (int m, - int k)) = sgn s * t \<and> 0 \<le> t \<and> t \<le> \<bar>s\<bar>"
proof (cases "m = 0")
  case True
  then show ?thesis by (auto simp: double_trunc_zero)
next
  case False
  then obtain j where j: "double_mul (double_of_int s) (int m, - int k) =
      double_round (s < 0) (nat \<bar>s\<bar> * m * 2 ^ j) (2 ^ (j + k))"
    using double_mul_int [OF s] by blast
  let ?p = "nat \<bar>s\<bar> * m * 2 ^ j" and ?q = "2 ^ (j + k) :: nat"
  have "?p \<le> nat \<bar>s\<bar> * ?q"
    using m by (simp add: power_add mult.assoc mult.commute [of "2 ^ j"])
  moreover have "nat \<bar>s\<bar> < 2 ^ 53"
    using s by (simp add: nat_less_iff)
  ultimately obtain m' k' where r: "double_round False ?p ?q = (int m', - int k')" "m' \<le> nat \<bar>s\<bar> * 2 ^ k'"
    using double_round_le [of ?p "nat \<bar>s\<bar>" ?q] by auto
  have "int m' \<le> int (nat \<bar>s\<bar> * 2 ^ k')"
    using r(2) by (simp only: of_nat_le_iff)
  then have "int m' div 2 ^ k' \<le> \<bar>s\<bar> * 2 ^ k' div 2 ^ k'"
    by (intro zdiv_mono1) simp_all
  then have "int m' div 2 ^ k' \<le> \<bar>s\<bar>" by simp
  moreover have "0 \<le> int m' div 2 ^ k'"
    by (simp add: pos_imp_zdiv_nonneg_iff)
  ultimately show ?thesis
    using double_trunc_round [OF r(1), of "s < 0"] unfolding j
    by (intro exI [of _ "int m' div 2 ^ k'"]) (auto simp: sgn_if)
qed

lemma double_scale_one:
  assumes s: "\<bar>s\<bar> < 2 ^ 53"
  shows "double_trunc (double_mul (double_of_int s) (int (2 ^ k), - int k)) = s"
proof -
  obtain j where j: "double_mul (double_of_int s) (int (2 ^ k), - int k) =
      double_round (s < 0) (nat \<bar>s\<bar> * 2 ^ k * 2 ^ j) (2 ^ (j + k))"
    using double_mul_int [OF s, of "2 ^ k" k] by auto
  have p: "nat \<bar>s\<bar> * 2 ^ k * 2 ^ j = nat \<bar>s\<bar> * (2 ^ (j + k))"
    by (simp add: power_add mult.assoc mult.commute [of "2 ^ j"])
  have "nat \<bar>s\<bar> < 2 ^ 53"
    using s by (simp add: nat_less_iff)
  then obtain k' where r: "double_round False (nat \<bar>s\<bar> * 2 ^ (j + k)) (2 ^ (j + k)) = (int (nat \<bar>s\<bar> * 2 ^ k'), - int k')"
    using double_round_exact [of "nat \<bar>s\<bar>" "2 ^ (j + k)"] zero_less_power [of "2 :: nat"] by (metis zero_less_numeral)
  show ?thesis
    unfolding j p double_trunc_round [OF r] by simp
qed

lemma log2_quot_le_zero: "p \<le> q \<Longrightarrow> 0 < p \<Longrightarrow> log2_quot p q \<le> 0"
  by (cases "q \<le> p") (auto simp: log2_quot_def floorlog_2_le_iff [of 1 1, simplified])

text \<open>The same for a bound \<open>R / 2 ^ d\<close>, when the quotient is at most one.\<close>

lemma double_round_le_pow:
  assumes "p * 2 ^ d \<le> R * q" "p \<le> q" "0 < q" "d \<le> 52"
  shows "\<exists>m k. double_round False p q = (int m, - int k) \<and> m * 2 ^ d \<le> R * 2 ^ k"
proof (cases "p = 0")
  case True
  then show ?thesis by (intro exI [of _ 0]) (simp add: double_round_def)
next
  case False
  define k where "k = nat (52 - log2_quot p q)"
  have k: "log2_quot p q - 52 = - int k" "d \<le> k"
    using log2_quot_le_zero [OF assms(2)] False assms(4) by (auto simp: k_def)
  let ?m = "round_half_even (p * 2 ^ k) q"
  have "double_round False p q = (int ?m, - int k)"
    using False unfolding double_round_def Let_def k by (cases "k = 0") simp_all
  moreover have "?m \<le> R * 2 ^ (k - d)"
  proof (rule round_half_even_le)
    have "p * 2 ^ k = p * 2 ^ d * 2 ^ (k - d)" using k(2) by (simp add: mult.assoc flip: power_add)
    also have "\<dots> \<le> R * q * 2 ^ (k - d)" using assms(1) by (rule mult_le_mono1)
    finally show "p * 2 ^ k \<le> R * 2 ^ (k - d) * q" by (simp add: ac_simps)
  qed (rule assms(3))
  then have "?m * 2 ^ d \<le> R * 2 ^ (k - d) * 2 ^ d" by (rule mult_le_mono1)
  then have "?m * 2 ^ d \<le> R * 2 ^ k" using k(2) by (simp add: mult.assoc flip: power_add)
  ultimately show ?thesis by blast
qed

lemma double_div_ints:
  assumes "0 \<le> a" "0 < b" "a < 2 ^ 53" "b < 2 ^ 53"
  shows "\<exists>x. 0 < x \<and> double_div (double_of_int a) (double_of_int b) = double_round False (nat a * x) (nat b * x)"
proof -
  obtain k1 where k1: "double_of_int a = (a * 2 ^ k1, - int k1)"
    using double_of_int_exact [of a] assms by auto
  obtain k2 where k2: "double_of_int b = (b * 2 ^ k2, - int k2)"
    using double_of_int_exact [of b] assms by auto
  have p: "nat \<bar>a * 2 ^ k1\<bar> * 2 ^ nat (- int k1 - - int k2) = nat a * 2 ^ max k1 k2"
    and q: "nat \<bar>b * 2 ^ k2\<bar> * 2 ^ nat (- int k2 - - int k1) = nat b * 2 ^ max k1 k2"
    using assms by (simp_all add: abs_mult nat_mult_distrib nat_power_eq max_def nat_diff_distrib'
        flip: power_add)
  have "double_div (double_of_int a) (double_of_int b) = double_round False (nat a * 2 ^ max k1 k2) (nat b * 2 ^ max k1 k2)"
    using assms unfolding double_div_def k1 k2 prod.case p q by (simp add: mult_less_0_iff)
  then show ?thesis by (intro exI [of _ "2 ^ max k1 k2"]) simp
qed

text \<open>Scaling by a fraction so small that the product stays below one truncates to zero.\<close>

lemma double_scale_small:
  assumes a: "0 \<le> a" "a * 2 ^ d \<le> b" "0 < b" "b < 2 ^ 53" and d: "d \<le> 52" and s: "\<bar>s\<bar> < 2 ^ d"
  shows "double_trunc (double_mul (double_of_int s) (double_div (double_of_int a) (double_of_int b))) = 0"
proof -
  have ab: "a \<le> b" using a(1,2) mult_left_mono [of 1 "2 ^ d" a] by simp
  obtain x where x: "0 < x" "double_div (double_of_int a) (double_of_int b) = double_round False (nat a * x) (nat b * x)"
    using double_div_ints [of a b] a ab by auto
  have "nat a * 2 ^ d \<le> nat b"
    using a by (metis nat_mono nat_mult_distrib nat_power_eq nat_numeral zero_le_numeral)
  then have "nat a * x * 2 ^ d \<le> 1 * (nat b * x)"
    using mult_le_mono1 [of "nat a * 2 ^ d" "nat b" x] by (simp add: ac_simps)
  then obtain m k where m: "double_round False (nat a * x) (nat b * x) = (int m, - int k)" "m * 2 ^ d \<le> 2 ^ k"
    using double_round_le_pow [of "nat a * x" d 1 "nat b * x"] x(1) a ab d by (auto simp: nat_mono)
  show ?thesis
  proof (cases "m = 0")
    case True
    then show ?thesis unfolding x(2) m(1) by (simp add: double_trunc_zero)
  next
    case False
    have s53: "\<bar>s\<bar> < 2 ^ 53" using s power_increasing [of d 53 "2::int"] d by simp
    have sd: "nat \<bar>s\<bar> < 2 ^ d" using s by (simp add: nat_less_iff)
    obtain j where j: "double_mul (double_of_int s) (int m, - int k) =
        double_round (s < 0) (nat \<bar>s\<bar> * m * 2 ^ j) (2 ^ (j + k))"
      using double_mul_int [OF s53] False by blast
    have le: "nat \<bar>s\<bar> * m * 2 ^ j * 2 ^ d \<le> nat \<bar>s\<bar> * 2 ^ (j + k)"
      using mult_le_mono2 [OF m(2), of "nat \<bar>s\<bar> * 2 ^ j"] by (simp add: power_add ac_simps)
    have "nat \<bar>s\<bar> * m \<le> 2 ^ d * m" using sd by (intro mult_le_mono1) simp
    also have "\<dots> \<le> 2 ^ k" using m(2) by (simp add: mult.commute)
    finally have "nat \<bar>s\<bar> * m * 2 ^ j \<le> 2 ^ k * 2 ^ j" by (rule mult_le_mono1)
    then have "nat \<bar>s\<bar> * m * 2 ^ j \<le> 2 ^ (j + k)" by (simp add: power_add mult.commute)
    then obtain m' k' where r: "double_round False (nat \<bar>s\<bar> * m * 2 ^ j) (2 ^ (j + k)) = (int m', - int k')"
        "m' * 2 ^ d \<le> nat \<bar>s\<bar> * 2 ^ k'"
      using double_round_le_pow [OF le _ _ d] by auto
    have "m' * 2 ^ d < 2 ^ d * 2 ^ k'"
      using r(2) sd by (meson le_less_trans mult_less_mono1 zero_less_numeral zero_less_power)
    then have "m' < 2 ^ k'" by simp
    then have "int m' < 2 ^ k'" by (simp flip: of_nat_less_iff)
    then show ?thesis using double_trunc_round [OF r(1), of "s < 0"] unfolding x(2) m(1) j by simp
  qed
qed

end
