(* ===== verification/Uint256.thy ===== *)
theory Uint256
  imports ArithUint256
begin

text \<open>
  The opaque blobs of \<^verbatim>\<open>src/uint256.h\<close> (an array of bytes, least significant byte
  first when it stands for a number) and their hexadecimal text form, with the digit tables of
  \<^verbatim>\<open>src/crypto/hex_base.cpp\<close>. The template width is the length of the list. The lemmas
  give the round trip between bytes and text, in both directions, and the fact that the text of
  a converted \<^verbatim>\<open>arith_uint256\<close> is the base-16 numeral of its value.
\<close>

section \<open>Model\<close>

type_synonym base_blob = bytes
type_synonym uint256 = base_blob

definition IsNull :: "base_blob \<Rightarrow> bool" where
  "IsNull m_data = list_all (\<lambda>val. val = 0) m_data"

definition SetNull :: "base_blob \<Rightarrow> base_blob" where
  "SetNull m_data = map (\<lambda>_. 0) m_data"

definition uint256_zero :: uint256 where
  "uint256_zero = replicate 32 0"

text \<open>\<^verbatim>\<open>Compare\<close> is \<^verbatim>\<open>memcmp\<close>: the sign of the first difference, from byte 0 up.\<close>

fun Compare :: "base_blob \<Rightarrow> base_blob \<Rightarrow> int" where
  "Compare (x # a) (y # b) = (if x < y then -1 else if y < x then 1 else Compare a b)"
| "Compare a b = 0"

definition hexmap :: string where
  "hexmap = ''0123456789abcdef''"

definition byte_to_hex :: "byte \<Rightarrow> string" where
  "byte_to_hex i = [hexmap ! unat (drop_bit 4 i), hexmap ! unat (i AND 15)]"

definition HexStr :: "bytes \<Rightarrow> string" where
  "HexStr s = concat (map byte_to_hex s)"

definition p_util_hexdigit :: "int list" where
  "p_util_hexdigit =
     replicate 48 (-1) @ [0, 1, 2, 3, 4, 5, 6, 7, 8, 9] @ replicate 7 (-1) @
     [0xa, 0xb, 0xc, 0xd, 0xe, 0xf] @ replicate 26 (-1) @
     [0xa, 0xb, 0xc, 0xd, 0xe, 0xf] @ replicate 153 (-1)"

definition HexDigit :: "char \<Rightarrow> int" where
  "HexDigit c = p_util_hexdigit ! of_char c"

definition IsHex :: "string \<Rightarrow> bool" where
  "IsHex str =
     (if list_ex (\<lambda>c. HexDigit c < 0) str then False
      else 0 < length str \<and> length str mod 2 = 0)"

definition GetHex :: "base_blob \<Rightarrow> string" where
  "GetHex m_data = HexStr (rev m_data)"

text \<open>The loop of \<^verbatim>\<open>FromHex\<close> reads the digits from the last one, the low digit first.\<close>

fun FromHex_loop :: "string \<Rightarrow> bytes" where
  "FromHex_loop (lo # hi # rest) =
     (of_int (HexDigit lo) OR push_bit 4 (of_int (HexDigit hi))) # FromHex_loop rest"
| "FromHex_loop [lo] = [of_int (HexDigit lo)]"
| "FromHex_loop [] = []"

definition FromHex :: "nat \<Rightarrow> string \<Rightarrow> base_blob option" where
  "FromHex WIDTH str =
     (if WIDTH * 2 \<noteq> length str \<or> \<not> IsHex str then None else Some (FromHex_loop (rev str)))"

definition RemovePrefixView :: "string \<Rightarrow> string \<Rightarrow> string" where
  "RemovePrefixView str prefix =
     (if take (length prefix) str = prefix then drop (length prefix) str else str)"

definition FromUserHex :: "nat \<Rightarrow> string \<Rightarrow> base_blob option" where
  "FromUserHex WIDTH input0 =
     (let input = RemovePrefixView input0 ''0x''; expected_size = WIDTH * 2 in
      if length input < expected_size
      then FromHex WIDTH (replicate (expected_size - length input) CHR ''0'' @ input)
      else FromHex WIDTH input)"

text \<open>
  The constructor for literals: only lower case digits, exactly the width. A failure stops the
  compilation, so the default of the last definition never reaches a running node.
\<close>

definition ConstevalHexDigit :: "char \<Rightarrow> byte option" where
  "ConstevalHexDigit c =
     (let n = of_char c :: nat in
      if 48 \<le> n \<and> n \<le> 57 then Some (of_nat (n - 48))
      else if 97 \<le> n \<and> n \<le> 102 then Some (of_nat (n - 97 + 0xa))
      else None)"

fun base_blob_hex_loop :: "string \<Rightarrow> bytes option" where
  "base_blob_hex_loop (lo # hi # rest) =
     (case (ConstevalHexDigit lo, ConstevalHexDigit hi, base_blob_hex_loop rest) of
        (Some l, Some h, Some bs) \<Rightarrow> Some ((push_bit 4 h OR l) # bs)
      | _ \<Rightarrow> None)"
| "base_blob_hex_loop [lo] = None"
| "base_blob_hex_loop [] = Some []"

definition base_blob_hex :: "nat \<Rightarrow> string \<Rightarrow> base_blob option" where
  "base_blob_hex WIDTH hex_str =
     (if length hex_str \<noteq> WIDTH * 2 then None else base_blob_hex_loop (rev hex_str))"

definition uint256_hex :: "string \<Rightarrow> uint256" where
  "uint256_hex s = (case base_blob_hex 32 s of Some b \<Rightarrow> b | None \<Rightarrow> [])"

definition ToLower :: "char \<Rightarrow> char" where
  "ToLower c = (let n = of_char c :: nat in if 65 \<le> n \<and> n \<le> 90 then char_of ((n - 65) + 97) else c)"

section \<open>Digits\<close>

lemma hexdigit_hexmap: "i < 16 \<Longrightarrow> HexDigit (hexmap ! i) = int i"
proof -
  have "list_all (\<lambda>n. HexDigit (hexmap ! n) = int n) [0..<16]"
    by code_simp
  then show "i < 16 \<Longrightarrow> HexDigit (hexmap ! i) = int i" by (simp add: list_all_iff)
qed

lemma hexdigit_codes:
  assumes "0 \<le> HexDigit c"
  shows "of_char c \<in> {48..<58 :: nat} \<union> {65..<71} \<union> {97..<103}"
proof -
  have "of_char c < (256 :: nat)" by simp
  then have "of_char c - 103 < (153 :: nat)" if "103 \<le> (of_char c :: nat)"
    using that by linarith
  with assms show ?thesis
    by (auto simp: HexDigit_def p_util_hexdigit_def nth_append simp del: append_Cons split: if_splits)
qed

lemma hexdigit_chars: "0 \<le> HexDigit c \<Longrightarrow> c \<in> set ''0123456789ABCDEFabcdef''"
proof -
  assume "0 \<le> HexDigit c"
  then have "of_char c \<in> set ([48..<58 :: nat] @ [65..<71] @ [97..<103])"
    using hexdigit_codes [of c] unfolding set_append set_upt by blast
  then have "char_of (of_char c :: nat) \<in> set (map char_of ([48..<58 :: nat] @ [65..<71] @ [97..<103]))"
    unfolding set_map by (rule imageI)
  moreover have "map char_of ([48..<58 :: nat] @ [65..<71] @ [97..<103]) = ''0123456789ABCDEFabcdef''"
    by (simp add: upt_rec_numeral char_of_def bit_0)
  ultimately show ?thesis
    by (simp only: char_of_char)
qed

lemma hexmap_hexdigit: "0 \<le> HexDigit c \<Longrightarrow> hexmap ! nat (HexDigit c) = ToLower c"
proof -
  assume "0 \<le> HexDigit c"
  from hexdigit_chars [OF this] show ?thesis
    by (simp only: list.set) (elim insertE emptyE; simp add: HexDigit_def p_util_hexdigit_def hexmap_def ToLower_def nth_append nth_Cons' char_of_def bit_0)
qed

section \<open>Round trips\<close>

lemma HexStr_simps [simp]: "HexStr [] = []" "HexStr (b # bs) = byte_to_hex b @ HexStr bs"
  by (simp_all add: HexStr_def)

lemma length_HexStr: "length (HexStr bs) = 2 * length bs"
  by (induction bs) (simp_all add: byte_to_hex_def)

lemma HexStr_append: "HexStr (a @ b) = HexStr a @ HexStr b"
  by (simp add: HexStr_def)

lemma nibbles_less: "unat (drop_bit 4 (b :: byte)) < 16" "unat (b AND 15 :: byte) < 16"
proof -
  show "unat (drop_bit 4 b) < 16"
    using unat_u8_less [of b] by (simp add: unat_drop_bit_div)
  show "unat (b AND 15) < 16"
    using and_mask_mod [of b 4] by (simp add: mask_eq_exp_minus_1)
qed

lemma mask_nibble: "(15 :: byte) = mask 4"
  by (simp add: mask_eq_exp_minus_1)

lemma nibbles_join: "(b AND 15) OR push_bit 4 (drop_bit 4 b) = (b :: byte)"
  unfolding mask_nibble
proof (rule bit_word_eqI)
  fix n assume "n < LENGTH(8)"
  then show "bit ((b AND mask 4) OR push_bit 4 (drop_bit 4 b)) n \<longleftrightarrow> bit b n"
    by (cases "4 \<le> n") (auto simp: bit_simps)
qed

lemma of_int_HexDigit_hexmap: "unat n < 16 \<Longrightarrow> of_int (HexDigit (hexmap ! unat n)) = (n :: byte)"
  by (simp add: hexdigit_hexmap)

lemma IsHex_HexStr: "0 < length bs \<Longrightarrow> IsHex (HexStr bs)"
proof -
  have "\<not> list_ex (\<lambda>c. HexDigit c < 0) (HexStr bs)"
    by (induction bs) (simp_all add: byte_to_hex_def hexdigit_hexmap nibbles_less)
  then show "0 < length bs \<Longrightarrow> IsHex (HexStr bs)"
    by (simp add: IsHex_def length_HexStr)
qed

lemma FromHex_loop_HexStr: "FromHex_loop (rev (HexStr (rev bs)) @ s) = bs @ FromHex_loop s"
  by (induction bs) (simp_all add: HexStr_append byte_to_hex_def of_int_HexDigit_hexmap nibbles_less nibbles_join)

lemma nibbles_of_pair:
  assumes "l < 16" "h < 16"
  shows "drop_bit 4 (of_nat l OR push_bit 4 (of_nat h) :: byte) = of_nat h"
    and "(of_nat l OR push_bit 4 (of_nat h) :: byte) AND 15 = of_nat l"
proof -
  have l: "\<not> bit l m" and h: "\<not> bit h m" if "4 \<le> m" for m
    using that assms bit_nat_less [of l 4 m] bit_nat_less [of h 4 m] by simp_all
  show "drop_bit 4 (of_nat l OR push_bit 4 (of_nat h) :: byte) = of_nat h"
  proof (rule bit_word_eqI)
    fix n assume "n < LENGTH(8)"
    then show "bit (drop_bit 4 (of_nat l OR push_bit 4 (of_nat h) :: byte)) n = bit (of_nat h :: byte) n"
      using l [of "n + 4"] h [of n] by (cases "4 \<le> n") (auto simp: bit_simps add.commute)
  qed
  show "(of_nat l OR push_bit 4 (of_nat h) :: byte) AND 15 = of_nat l"
  proof (unfold mask_nibble, rule bit_word_eqI)
    fix n assume "n < LENGTH(8)"
    then show "bit ((of_nat l OR push_bit 4 (of_nat h) :: byte) AND mask 4) n = bit (of_nat l :: byte) n"
      using l [of n] by (cases "4 \<le> n") (auto simp: bit_simps)
  qed
qed

lemma HexDigit_nat:
  assumes "0 \<le> HexDigit c"
  obtains n :: nat where "HexDigit c = int n" "n < 16"
proof -
  from hexdigit_chars [OF assms] have "HexDigit c < 16"
    by (simp only: list.set) (elim insertE emptyE; simp add: HexDigit_def p_util_hexdigit_def nth_append nth_Cons')
  with assms that [of "nat (HexDigit c)"] show ?thesis by auto
qed

lemma hex_pair:
  assumes "0 \<le> HexDigit lo" "0 \<le> HexDigit hi"
  shows "byte_to_hex (of_int (HexDigit lo) OR push_bit 4 (of_int (HexDigit hi))) = [ToLower hi, ToLower lo]"
proof -
  obtain l h where lh: "HexDigit lo = int l" "l < 16" "HexDigit hi = int h" "h < 16"
    using HexDigit_nat assms by metis
  then have "unat (of_nat l :: byte) = l" "unat (of_nat h :: byte) = h"
    by (simp_all add: unat_of_nat)
  with lh show ?thesis
    using hexmap_hexdigit [OF assms(1)] hexmap_hexdigit [OF assms(2)] by (simp add: byte_to_hex_def nibbles_of_pair del: drop_bit_or)
qed

lemma length_FromHex_loop: "even (length s) \<Longrightarrow> 2 * length (FromHex_loop s) = length s"
  by (induction s rule: FromHex_loop.induct) simp_all

lemma HexStr_FromHex_loop:
  "even (length s) \<Longrightarrow> \<forall>c \<in> set s. 0 \<le> HexDigit c \<Longrightarrow>
   HexStr (rev (FromHex_loop s)) = map ToLower (rev s)"
  by (induction s rule: FromHex_loop.induct) (simp_all add: HexStr_append hex_pair)

text \<open>The number a byte list stands for, least significant byte first.\<close>

fun le_val :: "bytes \<Rightarrow> nat" where
  "le_val [] = 0"
| "le_val (b # bs) = unat b + 256 * le_val bs"

text \<open>The number a string of hexadecimal digits stands for, most significant digit first.\<close>

definition hex_val :: "string \<Rightarrow> nat" where
  "hex_val s = foldl (\<lambda>v c. 16 * v + nat (HexDigit c)) 0 s"

lemma le_val_append: "le_val (a @ b) = le_val a + 256 ^ length a * le_val b"
  by (induction a) (simp_all add: algebra_simps)

lemma hex_val_append1: "hex_val (s @ [c]) = 16 * hex_val s + nat (HexDigit c)"
  by (simp add: hex_val_def)

lemma nibbles_value: "unat (b :: byte) = 16 * unat (drop_bit 4 b) + unat (b AND 15)"
  using and_mask_mod [of b 4] by (simp add: mask_eq_exp_minus_1 unat_drop_bit_div)

lemma hex_val_byte: "hex_val (s @ byte_to_hex b) = 256 * hex_val s + unat b"
  using hex_val_append1 [of "s @ [hexmap ! unat (drop_bit 4 b)]"] hex_val_append1 [of s] nibbles_value [of b]
  by (simp add: byte_to_hex_def hexdigit_hexmap nibbles_less)

lemma hex_val_GetHex: "hex_val (GetHex bs) = le_val bs"
proof (induction bs)
  case Nil
  then show ?case by (simp add: GetHex_def hex_val_def)
next
  case (Cons b bs)
  then show ?case using hex_val_byte [of "HexStr (rev bs)" b] by (simp add: GetHex_def HexStr_append)
qed

lemma le_val_WriteLE32: "le_val (WriteLE32 x) = unat x"
proof -
  have "unat x = unat x mod 2 ^ 8 + 2 ^ 8 * (unat x div 2 ^ 8 mod 2 ^ 8 +
      2 ^ 8 * (unat x div 2 ^ 16 mod 2 ^ 8 + 2 ^ 8 * (unat x div 2 ^ 24)))"
    by (simp add: div_mult2_eq [of _ "2 ^ 8" "2 ^ 8", simplified] div_mult2_eq [of _ "2 ^ 16" "2 ^ 8", simplified])
  moreover have "unat x div 2 ^ 24 < 2 ^ 8"
    using unat_u32_less [of x] by (simp add: div_less_of_lt_mult)
  ultimately show ?thesis
    by (simp add: WriteLE32_def unsigned_ucast_eq take_bit_eq_mod unat_drop_bit_div)
qed

lemma length_ArithToUint256 [width_simps]: "length (ArithToUint256 a) = 32"
  by (simp add: ArithToUint256_def WIDTH256_def length_concat comp_def width_simps sum_list_triv)

lemma le_val_ArithToUint256:
  assumes "length a = WIDTH256"
  shows "le_val (ArithToUint256 a) = uval a"
proof -
  have "le_val (concat (map WriteLE32 xs)) = uval xs" for xs
    by (induction xs) (simp_all add: le_val_append le_val_WriteLE32 width_simps LIMB_def)
  moreover have "map (\<lambda>x. WriteLE32 (a ! x)) [0..<WIDTH256] = map WriteLE32 (map ((!) a) [0..<length a])"
    by (simp add: assms)
  ultimately show ?thesis by (simp only: ArithToUint256_def map_nth)
qed

lemma uval_UintToArith256: "length bs = 32 \<Longrightarrow> uval (UintToArith256 bs) = le_val bs"
  using le_val_ArithToUint256 [of "UintToArith256 bs"] ArithToUint256_UintToArith256 [of bs]
  by (simp add: width_simps)

lemma FromHex_GetHex: "0 < n \<Longrightarrow> length b = n \<Longrightarrow> FromHex n (GetHex b) = Some b"
  using FromHex_loop_HexStr [of b "[]"] IsHex_HexStr [of "rev b"]
  by (simp add: FromHex_def GetHex_def length_HexStr mult.commute)

lemma GetHex_FromHex:
  assumes "FromHex n s = Some b"
  shows "length b = n \<and> GetHex b = map ToLower s"
proof -
  have s: "length s = 2 * n" "IsHex s" "b = FromHex_loop (rev s)"
    using assms by (simp_all add: FromHex_def split: if_splits)
  then have "\<forall>c \<in> set (rev s). 0 \<le> HexDigit c"
    by (auto simp: IsHex_def list_ex_iff not_less split: if_splits)
  with s show ?thesis
    using HexStr_FromHex_loop [of "rev s"] length_FromHex_loop [of "rev s"] by (simp add: GetHex_def)
qed

section \<open>Properties\<close>

text \<open>
  Hexadecimal text of blobs: printing a blob and reading the text back gives the blob; text
  that is accepted has exactly the width of the type and prints back as itself in lower case; and
  the text of a converted \<^verbatim>\<open>arith_uint256\<close> is the base-16 numeral of its value, as the
  class comment says.
\<close>

theorem uint256_hex_roundtrip:
  assumes "0 < n"
  shows "(length b = n \<longrightarrow> FromHex n (GetHex b) = Some b) \<and>
    (FromHex n s = Some b' \<longrightarrow> length b' = n \<and> GetHex b' = map ToLower s) \<and>
    (length a = WIDTH256 \<longrightarrow> hex_val (GetHex (ArithToUint256 a)) = uval a)"
  using assms FromHex_GetHex GetHex_FromHex hex_val_GetHex le_val_ArithToUint256 by auto

theorem uint256_hex_roundtrip_witness:
  "FromHex 2 (GetHex [0x12, 0xab]) = Some [0x12, 0xab] \<and> FromHex 2 ''AB12'' = Some [0x12, 0xab] \<and>
   GetHex [0x12, 0xab] = map ToLower ''AB12''"
proof -
  have "FromHex 2 ''AB12'' = Some [0x12, 0xab]" by code_simp
  moreover have "length [0x12, 0xab :: byte] = 2" "0 < (2 :: nat)" by simp_all
  ultimately show ?thesis
    using uint256_hex_roundtrip [of 2 "[0x12, 0xab]" "''AB12''" "[0x12, 0xab]"] by blast
qed

end
