(* ===== verification/Params.thy ===== *)
theory Params
  imports Uint256 Double
begin

text \<open>
  The consensus parameters: \<^verbatim>\<open>src/consensus/params.h\<close>, \<^verbatim>\<open>src/consensus/amount.h\<close> and
  the consensus part of the five networks of \<^verbatim>\<open>src/kernel/chainparams.cpp\<close>. The target
  spacing is interpolated with \<^verbatim>\<open>double\<close> arithmetic in the code and in the model; the
  lemmas bound the result of the interpolation for every height and fix it at the ends of a ramp.
\<close>

section \<open>Model\<close>

subsection \<open>Amounts\<close>

type_synonym CAmount = int

definition COIN :: CAmount where
  "COIN = 100000000"

definition MAX_MONEY :: CAmount where
  "MAX_MONEY = 100915200 * COIN"

definition MoneyRange :: "CAmount \<Rightarrow> bool" where
  "MoneyRange nValue \<longleftrightarrow> 0 \<le> nValue \<and> nValue \<le> MAX_MONEY"

subsection \<open>Deployments and parameters\<close>

datatype BuriedDeployment =
  DEPLOYMENT_HEIGHTINCB | DEPLOYMENT_CLTV | DEPLOYMENT_DERSIG | DEPLOYMENT_CSV | DEPLOYMENT_SEGWIT

datatype DeploymentPos = DEPLOYMENT_TESTDUMMY | DEPLOYMENT_TAPROOT

record BIP9Deployment =
  dep_bit :: int
  nStartTime :: int
  nTimeout :: int
  min_activation_height :: int
  period :: u32
  threshold :: u32

definition NO_TIMEOUT :: int where
  "NO_TIMEOUT = INT64_MAX"

definition ALWAYS_ACTIVE :: int where
  "ALWAYS_ACTIVE = -1"

definition NEVER_ACTIVE :: int where
  "NEVER_ACTIVE = -2"

record Params =
  nSubsidyInitial :: int
  nCoinbaseMaturity :: int
  hashGenesisBlock :: uint256
  nSubsidyHalvingInterval :: int
  script_flag_exceptions :: "(uint256 \<times> u32) list"
  BIP34Height :: int
  BIP34Hash :: uint256
  BIP65Height :: int
  BIP66Height :: int
  CSVHeight :: int
  SegwitHeight :: int
  MinBIP9WarningHeight :: int
  vDeployments :: "DeploymentPos \<Rightarrow> BIP9Deployment"
  powLimit :: uint256
  fPowAllowMinDifficultyBlocks :: bool
  enforce_BIP94 :: bool
  fPowNoRetargeting :: bool
  nPowTargetSpacing :: int
  nPowAveragingWindow :: int
  powSpacingRamps :: "(int \<times> int) list"
  nMinimumChainWork :: uint256
  defaultAssumeValid :: uint256
  signet_blocks :: bool
  signet_challenge :: bytes

definition DeploymentHeight :: "Params \<Rightarrow> BuriedDeployment \<Rightarrow> int" where
  "DeploymentHeight params dep =
     (case dep of
        DEPLOYMENT_HEIGHTINCB \<Rightarrow> BIP34Height params
      | DEPLOYMENT_CLTV \<Rightarrow> BIP65Height params
      | DEPLOYMENT_DERSIG \<Rightarrow> BIP66Height params
      | DEPLOYMENT_CSV \<Rightarrow> CSVHeight params
      | DEPLOYMENT_SEGWIT \<Rightarrow> SegwitHeight params)"

definition DifficultyAdjustmentInterval :: "Params \<Rightarrow> int" where
  "DifficultyAdjustmentInterval params = nPowAveragingWindow params"

subsection \<open>The target spacing\<close>

text \<open>
  The loop over the ramp stages; \<open>prev\<close> is the stage before the current one. After the last
  stage the loop ends and the code returns the spacing of the last stage, which then is \<open>prev\<close>.
\<close>

text \<open>
  Heights are subtracted as \<^verbatim>\<open>int32_t\<close>. Where the difference does not fit, which is undefined in
  the source, the model has the wrapped value.
\<close>

definition int32_diff :: "int \<Rightarrow> int \<Rightarrow> int" where
  "int32_diff a b = signed_take_bit 31 (a - b)"

definition interpolate :: "int \<Rightarrow> int \<Rightarrow> int \<Rightarrow> int \<Rightarrow> int \<Rightarrow> int" where
  "interpolate height h1 h2 s1 s2 =
     (let alpha = double_div (double_of_int (int32_diff height h1)) (double_of_int (int32_diff h2 h1))
      in s1 + double_trunc (double_mul (double_of_int (s2 - s1)) alpha))"

fun ramp_loop :: "int \<Rightarrow> int \<times> int \<Rightarrow> (int \<times> int) list \<Rightarrow> int" where
  "ramp_loop height prev [] = snd prev"
| "ramp_loop height prev (stage # rest) =
     (if height \<le> fst stage
      then (if fst stage = fst prev then snd stage
            else interpolate height (fst prev) (fst stage) (snd prev) (snd stage))
      else ramp_loop height stage rest)"

definition GetTargetSpacing :: "Params \<Rightarrow> int \<Rightarrow> int" where
  "GetTargetSpacing params height =
     (case powSpacingRamps params of
        [] \<Rightarrow> nPowTargetSpacing params
      | prev # rest \<Rightarrow>
          if height \<le> fst prev then snd prev else ramp_loop height prev (prev # rest))"

subsection \<open>The networks\<close>

text \<open>
  The fields of \<^verbatim>\<open>Consensus::Params\<close> that the constructors of the networks set. The hash of
  the genesis block is computed by the code and is an argument here. Only the main network sets
  \<^verbatim>\<open>nCoinbaseMaturity\<close>; elsewhere the member is left uninitialised and the argument
  \<open>uninit\<close> stands for whatever value it has.
\<close>

definition deployment :: "int \<Rightarrow> int \<Rightarrow> int \<Rightarrow> int \<Rightarrow> u32 \<Rightarrow> u32 \<Rightarrow> BIP9Deployment" where
  "deployment b start timeout minh per thr =
     \<lparr>dep_bit = b, nStartTime = start, nTimeout = timeout, min_activation_height = minh,
      period = per, threshold = thr\<rparr>"

definition CMainParams :: "uint256 \<Rightarrow> Params" where
  "CMainParams genesis_hash =
     \<lparr>nSubsidyInitial = 18 * COIN, nCoinbaseMaturity = 200, hashGenesisBlock = genesis_hash,
      nSubsidyHalvingInterval = 2803200, script_flag_exceptions = [],
      BIP34Height = 0, BIP34Hash = uint256_zero, BIP65Height = 0, BIP66Height = 0,
      CSVHeight = 0, SegwitHeight = 0, MinBIP9WarningHeight = 0,
      vDeployments = (\<lambda>pos. case pos of
         DEPLOYMENT_TAPROOT \<Rightarrow> deployment 2 NEVER_ACTIVE NO_TIMEOUT 0 2016 0
       | DEPLOYMENT_TESTDUMMY \<Rightarrow> deployment 28 NEVER_ACTIVE NO_TIMEOUT 0 2016 0),
      powLimit = uint256_hex ''00000fffffffffffffffffffffffffffffffffffffffffffffffffffffffffff'',
      fPowAllowMinDifficultyBlocks = False, enforce_BIP94 = False, fPowNoRetargeting = False,
      nPowTargetSpacing = 45, nPowAveragingWindow = 60,
      powSpacingRamps = [(0, 120), (3000, 90), (6000, 60), (10000, 45)],
      nMinimumChainWork = uint256_zero, defaultAssumeValid = uint256_zero,
      signet_blocks = False, signet_challenge = []\<rparr>"

definition CTestNetParams :: "int \<Rightarrow> uint256 \<Rightarrow> Params" where
  "CTestNetParams uninit genesis_hash =
     \<lparr>nSubsidyInitial = 18 * COIN, nCoinbaseMaturity = uninit, hashGenesisBlock = genesis_hash,
      nSubsidyHalvingInterval = 1000000,
      script_flag_exceptions =
        [(uint256_hex ''00000000dd30457c001f4095d208cc1296b0eed002427aa599874af7a432b105'', 0)],
      BIP34Height = 21111,
      BIP34Hash = uint256_hex ''0000000023b3a96d3484e5abb3755c413e7d41500f8e2a5c3f0dd01299cd8ef8'',
      BIP65Height = 581885, BIP66Height = 330776, CSVHeight = 770112, SegwitHeight = 834624,
      MinBIP9WarningHeight = 836640,
      vDeployments = (\<lambda>pos. case pos of
         DEPLOYMENT_TESTDUMMY \<Rightarrow> deployment 28 NEVER_ACTIVE NO_TIMEOUT 0 2016 1512
       | DEPLOYMENT_TAPROOT \<Rightarrow> deployment 2 1619222400 1628640000 0 2016 1512),
      powLimit = uint256_hex ''00000000ffffffffffffffffffffffffffffffffffffffffffffffffffffffff'',
      fPowAllowMinDifficultyBlocks = True, enforce_BIP94 = False, fPowNoRetargeting = False,
      nPowTargetSpacing = 10 * 60, nPowAveragingWindow = 60, powSpacingRamps = [],
      nMinimumChainWork =
        uint256_hex ''0000000000000000000000000000000000000000000015f5e0c9f13455b0eb17'',
      defaultAssumeValid = uint256_zero,
      signet_blocks = False, signet_challenge = []\<rparr>"

definition CTestNet4Params :: "int \<Rightarrow> uint256 \<Rightarrow> Params" where
  "CTestNet4Params uninit genesis_hash =
     \<lparr>nSubsidyInitial = 18 * COIN, nCoinbaseMaturity = uninit, hashGenesisBlock = genesis_hash,
      nSubsidyHalvingInterval = 1000000, script_flag_exceptions = [],
      BIP34Height = 1, BIP34Hash = uint256_zero, BIP65Height = 1, BIP66Height = 1,
      CSVHeight = 1, SegwitHeight = 1, MinBIP9WarningHeight = 0,
      vDeployments = (\<lambda>pos. case pos of
         DEPLOYMENT_TESTDUMMY \<Rightarrow> deployment 28 NEVER_ACTIVE NO_TIMEOUT 0 2016 1512
       | DEPLOYMENT_TAPROOT \<Rightarrow> deployment 2 ALWAYS_ACTIVE NO_TIMEOUT 0 2016 1512),
      powLimit = uint256_hex ''00000000ffffffffffffffffffffffffffffffffffffffffffffffffffffffff'',
      fPowAllowMinDifficultyBlocks = True, enforce_BIP94 = True, fPowNoRetargeting = False,
      nPowTargetSpacing = 10 * 60, nPowAveragingWindow = 60, powSpacingRamps = [],
      nMinimumChainWork =
        uint256_hex ''0000000000000000000000000000000000000000000001d6dce8651b6094e4c1'',
      defaultAssumeValid =
        uint256_hex ''0000000000003ed4f08dbdf6f7d6b271a6bcffce25675cb40aa9fa43179a89f3'',
      signet_blocks = False, signet_challenge = []\<rparr>"

definition SigNetParams :: "int \<Rightarrow> bytes \<Rightarrow> uint256 \<Rightarrow> Params" where
  "SigNetParams uninit challenge genesis_hash =
     \<lparr>nSubsidyInitial = 18 * COIN, nCoinbaseMaturity = uninit, hashGenesisBlock = genesis_hash,
      nSubsidyHalvingInterval = 1000000, script_flag_exceptions = [],
      BIP34Height = 1, BIP34Hash = uint256_zero, BIP65Height = 1, BIP66Height = 1,
      CSVHeight = 1, SegwitHeight = 1, MinBIP9WarningHeight = 0,
      vDeployments = (\<lambda>pos. case pos of
         DEPLOYMENT_TESTDUMMY \<Rightarrow> deployment 28 NEVER_ACTIVE NO_TIMEOUT 0 2016 1815
       | DEPLOYMENT_TAPROOT \<Rightarrow> deployment 2 ALWAYS_ACTIVE NO_TIMEOUT 0 2016 1815),
      powLimit = uint256_hex ''7fffffffffffffffffffffffffffffffffffffffffffffffffffffffffffffff'',
      fPowAllowMinDifficultyBlocks = True, enforce_BIP94 = False, fPowNoRetargeting = False,
      nPowTargetSpacing = 60, nPowAveragingWindow = 60, powSpacingRamps = [],
      nMinimumChainWork = uint256_zero, defaultAssumeValid = uint256_zero,
      signet_blocks = True, signet_challenge = challenge\<rparr>"

text \<open>
  The regression test network takes options: the height of a buried deployment or the
  parameters of a version-bits deployment can be overridden, in the order of the option lists.
\<close>

record VersionBitsParameters =
  vb_start_time :: int
  vb_timeout :: int
  vb_min_activation_height :: int

record RegTestOptions =
  version_bits_parameters :: "(DeploymentPos \<times> VersionBitsParameters) list"
  activation_heights :: "(BuriedDeployment \<times> int) list"
  opt_enforce_bip94 :: bool

definition override_height :: "BuriedDeployment \<times> int \<Rightarrow> Params \<Rightarrow> Params" where
  "override_height dh params =
     (case fst dh of
        DEPLOYMENT_SEGWIT \<Rightarrow> params\<lparr>SegwitHeight := snd dh\<rparr>
      | DEPLOYMENT_HEIGHTINCB \<Rightarrow> params\<lparr>BIP34Height := snd dh\<rparr>
      | DEPLOYMENT_DERSIG \<Rightarrow> params\<lparr>BIP66Height := snd dh\<rparr>
      | DEPLOYMENT_CLTV \<Rightarrow> params\<lparr>BIP65Height := snd dh\<rparr>
      | DEPLOYMENT_CSV \<Rightarrow> params\<lparr>CSVHeight := snd dh\<rparr>)"

definition override_deployment ::
  "DeploymentPos \<times> VersionBitsParameters \<Rightarrow> Params \<Rightarrow> Params" where
  "override_deployment dv params =
     params\<lparr>vDeployments := (vDeployments params)(fst dv :=
       (vDeployments params (fst dv))\<lparr>nStartTime := vb_start_time (snd dv),
          nTimeout := vb_timeout (snd dv),
          min_activation_height := vb_min_activation_height (snd dv)\<rparr>)\<rparr>"

definition CRegTestParams :: "int \<Rightarrow> RegTestOptions \<Rightarrow> uint256 \<Rightarrow> Params" where
  "CRegTestParams uninit opts genesis_hash =
     fold override_deployment (version_bits_parameters opts)
       (fold override_height (activation_heights opts)
     \<lparr>nSubsidyInitial = 18 * COIN, nCoinbaseMaturity = uninit, hashGenesisBlock = genesis_hash,
      nSubsidyHalvingInterval = 150, script_flag_exceptions = [],
      BIP34Height = 1, BIP34Hash = uint256_zero, BIP65Height = 1, BIP66Height = 1,
      CSVHeight = 1, SegwitHeight = 0, MinBIP9WarningHeight = 0,
      vDeployments = (\<lambda>pos. case pos of
         DEPLOYMENT_TESTDUMMY \<Rightarrow> deployment 28 0 NO_TIMEOUT 0 144 108
       | DEPLOYMENT_TAPROOT \<Rightarrow> deployment 2 ALWAYS_ACTIVE NO_TIMEOUT 0 144 108),
      powLimit = uint256_hex ''7fffffffffffffffffffffffffffffffffffffffffffffffffffffffffffffff'',
      fPowAllowMinDifficultyBlocks = True, enforce_BIP94 = opt_enforce_bip94 opts,
      fPowNoRetargeting = True, nPowTargetSpacing = 45, nPowAveragingWindow = 60,
      powSpacingRamps = [], nMinimumChainWork = uint256_zero, defaultAssumeValid = uint256_zero,
      signet_blocks = False, signet_challenge = []\<rparr>)"

section \<open>The target spacing\<close>

lemma int32_diff_exact: "b < a \<Longrightarrow> a - b \<le> 2147483647 \<Longrightarrow> int32_diff a b = a - b"
  by (simp add: int32_diff_def signed_take_bit_int_eq_self)

lemma interpolate_between:
  assumes "h1 < height" "height \<le> h2" "h2 - h1 \<le> 2147483647" "\<bar>s2 - s1\<bar> < 2 ^ 53"
  shows "min s1 s2 \<le> interpolate height h1 h2 s1 s2 \<and> interpolate height h1 h2 s1 s2 \<le> max s1 s2"
proof -
  obtain m k where a: "double_div (double_of_int (height - h1)) (double_of_int (h2 - h1)) = (int m, - int k)"
    and m: "m \<le> 2 ^ k"
  proof (rule double_fraction [of "height - h1" "h2 - h1"])
  qed (use assms that in auto)
  obtain t where "double_trunc (double_mul (double_of_int (s2 - s1)) (int m, - int k)) = sgn (s2 - s1) * t"
    "0 \<le> t" "t \<le> \<bar>s2 - s1\<bar>"
    using double_scale_bounds [OF assms(4) m] by blast
  with a show ?thesis
    using assms(1-3) by (auto simp: interpolate_def int32_diff_exact sgn_if)
qed

lemma interpolate_end:
  assumes "h1 < h2" "h2 - h1 \<le> 2147483647" "\<bar>s2 - s1\<bar> < 2 ^ 53"
  shows "interpolate h2 h1 h2 s1 s2 = s2"
proof -
  obtain m k where a: "double_div (double_of_int (h2 - h1)) (double_of_int (h2 - h1)) = (int m, - int k)"
    and m: "m = 2 ^ k"
  proof (rule double_fraction [of "h2 - h1" "h2 - h1"])
  qed (use assms that in auto)
  then show ?thesis
    using double_scale_one [OF assms(3), of k] assms(1,2) by (simp add: interpolate_def int32_diff_exact)
qed

lemma interpolate_start:
  assumes "h1 < height" "(height - h1) * 32 \<le> h2 - h1" "h2 - h1 \<le> 2147483647" "\<bar>s2 - s1\<bar> < 32"
  shows "interpolate height h1 h2 s1 s2 = s1"
  using double_scale_small [of "height - h1" 5 "h2 - h1" "s2 - s1"] assms by (simp add: interpolate_def Let_def int32_diff_exact)

text \<open>Ramps whose stages are heights from 0 on, of 32 bits, and spacings in a given range. Their differences fit.\<close>

definition ramps_within :: "int \<Rightarrow> int \<Rightarrow> (int \<times> int) list \<Rightarrow> bool" where
  "ramps_within lo hi ramps \<longleftrightarrow>
     list_all (\<lambda>(h, s). 0 \<le> h \<and> fits_int32 h \<and> lo \<le> s \<and> s \<le> hi) ramps"

lemma ramps_within_simps [simp]:
  "ramps_within lo hi []"
  "ramps_within lo hi ((h, s) # ramps) \<longleftrightarrow> 0 \<le> h \<and> fits_int32 h \<and> lo \<le> s \<and> s \<le> hi \<and> ramps_within lo hi ramps"
  by (simp_all add: ramps_within_def)

lemma ramp_loop_within:
  assumes "ramps_within lo hi (prev # ramps)" "fst prev < height" "hi - lo < 2 ^ 53"
  shows "lo \<le> ramp_loop height prev ramps \<and> ramp_loop height prev ramps \<le> hi"
  using assms
proof (induction ramps arbitrary: prev)
  case Nil
  then show ?case by (cases prev) simp
next
  case (Cons stage ramps)
  obtain h1 s1 h2 s2 where e: "prev = (h1, s1)" "stage = (h2, s2)" by (metis surj_pair)
  show ?case
  proof (cases "height \<le> h2")
    case True
    have "h2 - h1 \<le> 2147483647"
      using Cons.prems by (auto simp: e int_limits)
    then have "min s1 s2 \<le> interpolate height h1 h2 s1 s2 \<and> interpolate height h1 h2 s1 s2 \<le> max s1 s2"
      using Cons.prems True by (intro interpolate_between) (auto simp: e)
    then show ?thesis
      using Cons.prems True by (auto simp: e)
  next
    case False
    then show ?thesis using Cons.IH [of stage] Cons.prems by (simp add: e)
  qed
qed

lemma GetTargetSpacing_within:
  assumes "ramps_within lo hi (powSpacingRamps params)" "hi - lo < 2 ^ 53"
    and "powSpacingRamps params = [] \<Longrightarrow> lo \<le> nPowTargetSpacing params \<and> nPowTargetSpacing params \<le> hi"
  shows "lo \<le> GetTargetSpacing params height \<and> GetTargetSpacing params height \<le> hi"
proof (cases "powSpacingRamps params")
  case Nil
  then show ?thesis using assms by (simp add: GetTargetSpacing_def)
next
  case (Cons prev rest)
  then have "ramps_within lo hi (prev # prev # rest)"
    using assms by (cases prev) simp
  then show ?thesis
    using ramp_loop_within [of lo hi prev "prev # rest" height] assms Cons
    by (cases prev) (auto simp: GetTargetSpacing_def)
qed

lemma ramp_loop_stage:
  assumes "ramps_within lo hi (prev # ramps)" "hi - lo < 2 ^ 53"
    and "sorted_wrt (<) (map fst (prev # ramps))" "(h, s) \<in> set ramps"
  shows "ramp_loop h prev ramps = s"
  using assms
proof (induction ramps arbitrary: prev)
  case (Cons stage ramps)
  obtain h1 s1 h2 s2 where e: "prev = (h1, s1)" "stage = (h2, s2)" by (metis surj_pair)
  show ?case
  proof (cases "h \<le> h2")
    case True
    with Cons.prems have "h = h2" "s = s2"
      by (force simp: e)+
    moreover have "interpolate h2 h1 h2 s1 s2 = s2"
      using Cons.prems by (intro interpolate_end) (auto simp: e int_limits)
    ultimately show ?thesis by (simp add: e)
  next
    case False
    then show ?thesis using Cons.IH [of stage] Cons.prems by (auto simp: e)
  qed
qed simp

section \<open>Facts of the main network\<close>

lemma main_spacing: "45 \<le> GetTargetSpacing (CMainParams g) h \<and> GetTargetSpacing (CMainParams g) h \<le> 120"
  by (rule GetTargetSpacing_within) (simp_all add: CMainParams_def int_limits)

lemma main_spacing_start: "0 \<le> h \<Longrightarrow> h \<le> 93 \<Longrightarrow> GetTargetSpacing (CMainParams g) h = 120"
  using interpolate_start [of 0 h 3000 90 120]
  by (cases "h = 0") (simp_all add: GetTargetSpacing_def CMainParams_def)

lemma main_powLimit: "powLimit (CMainParams g) = replicate 29 0xff @ [0xf, 0, 0]"
proof -
  have "uint256_hex ''00000fffffffffffffffffffffffffffffffffffffffffffffffffffffffffff'' = replicate 29 0xff @ [0xf, 0, 0]"
    by code_simp
  then show ?thesis by (simp add: CMainParams_def)
qed

lemma le_val_replicate_ff: "le_val (replicate n 0xff) = 256 ^ n - 1"
proof -
  have "le_val (replicate n 0xff) + 1 = 256 ^ n"
    by (induction n) simp_all
  then show ?thesis by simp
qed

lemma main_powLimit_value: "uval (UintToArith256 (powLimit (CMainParams g))) = 2 ^ 236 - 1"
  unfolding main_powLimit by (simp add: uval_UintToArith256 le_val_append le_val_replicate_ff)

section \<open>Properties\<close>

text \<open>
  The target spacing follows the ramp table: with non-negative int32 heights, so that no difference
  of heights overflows, and spacings between \<open>lo\<close> and \<open>hi\<close> the interpolated value never leaves that range at any height, whatever the rounding
  of the \<^verbatim>\<open>double\<close> arithmetic does; and with strictly increasing heights it is exactly the
  stage's spacing at the height of each stage.
\<close>

theorem GetTargetSpacing_ramp:
  assumes "ramps_within lo hi (powSpacingRamps params)" "hi - lo < 2 ^ 53" "powSpacingRamps params \<noteq> []"
  shows "lo \<le> GetTargetSpacing params height \<and> GetTargetSpacing params height \<le> hi \<and>
    (sorted_wrt (<) (map fst (powSpacingRamps params)) \<and> (h, s) \<in> set (powSpacingRamps params)
       \<longrightarrow> GetTargetSpacing params h = s)"
proof -
  obtain prev rest where r: "powSpacingRamps params = prev # rest"
    using assms(3) by (cases "powSpacingRamps params") auto
  have "GetTargetSpacing params h = s"
    if "sorted_wrt (<) (map fst (prev # rest))" "(h, s) \<in> set (prev # rest)"
  proof (cases "(h, s) = prev")
    case True
    then show ?thesis by (auto simp: GetTargetSpacing_def r)
  next
    case False
    then have hs: "(h, s) \<in> set rest" "fst prev < h"
      using that by force+
    then show ?thesis
      using ramp_loop_stage [of lo hi prev rest h s] that assms by (simp add: GetTargetSpacing_def r)
  qed
  then show ?thesis
    using GetTargetSpacing_within [OF assms(1,2)] assms(3) by (simp add: r)
qed

theorem GetTargetSpacing_ramp_witness:
  "45 \<le> GetTargetSpacing (CMainParams uint256_zero) 7777 \<and> GetTargetSpacing (CMainParams uint256_zero) 7777 \<le> 120 \<and>
   GetTargetSpacing (CMainParams uint256_zero) 6000 = 60"
  using GetTargetSpacing_ramp [of 45 120 "CMainParams uint256_zero" 7777 6000 60]
  by (simp add: CMainParams_def int_limits)

end
