(* ===== verification/Serialize.thy ===== *)
theory Serialize
  imports Uint256
begin

text \<open>
  The serialization layer of \<^verbatim>\<open>src/serialize.h\<close> and the reading side of
  \<^verbatim>\<open>DataStream\<close> in \<^verbatim>\<open>src/streams.h\<close>. A writer is a function to bytes; a reader takes
  the unread bytes and gives the value and the bytes left, or the \<^verbatim>\<open>std::ios_base::failure\<close>
  the code throws (or a failed assertion while reading). The interface is the locale \<open>codec\<close>: reading back what was written, and
  nothing else, gives the value. It is interpreted for the fixed-width integers, CompactSize and
  VarInt, and lifted to pairs, vectors and byte vectors, so that every composite format of the
  node (headers, transactions, blocks, coins) obtains its round trip and the uniqueness of its
  encoding from its parts.
\<close>

section \<open>Model\<close>

datatype ios_failure =
    EndOfData | NonCanonicalCompactSize | CompactSizeTooLarge | VarIntTooLarge
  | SuperfluousWitness | UnknownOptionalData | AssertionFailed

type_synonym 'a reader = "bytes \<Rightarrow> ios_failure + ('a \<times> bytes)"

text \<open>Sequencing of readers: the failure of a read leaves the function.\<close>

definition rret :: "'a \<Rightarrow> 'a reader" where
  "rret x s = Inr (x, s)"

definition rbind :: "'a reader \<Rightarrow> ('a \<Rightarrow> 'b reader) \<Rightarrow> 'b reader" where
  "rbind r f s = (case r s of Inl e \<Rightarrow> Inl e | Inr (x, s') \<Rightarrow> f x s')"

definition rfail :: "ios_failure \<Rightarrow> 'a reader" where
  "rfail e s = Inl e"

text \<open>\<^verbatim>\<open>DataStream::read\<close> into a buffer of \<open>n\<close> bytes.\<close>

definition stream_read :: "nat \<Rightarrow> bytes reader" where
  "stream_read n s = (if length s < n then Inl EndOfData else Inr (take n s, drop n s))"

text \<open>The bytes of an integer in memory, least significant first, and back.\<close>

fun LE_split :: "nat \<Rightarrow> 'a::len word \<Rightarrow> bytes" where
  "LE_split 0 x = []"
| "LE_split (Suc n) x = ucast x # LE_split n (drop_bit 8 x)"

fun LE_join :: "bytes \<Rightarrow> 'a::len word" where
  "LE_join [] = 0"
| "LE_join (b # bs) = ucast b + 256 * LE_join bs"

definition ser_writedata8 :: "u8 \<Rightarrow> bytes" where
  "ser_writedata8 obj = LE_split 1 obj"

definition ser_writedata16 :: "u16 \<Rightarrow> bytes" where
  "ser_writedata16 obj = LE_split 2 obj"

definition ser_writedata16be :: "u16 \<Rightarrow> bytes" where
  "ser_writedata16be obj = rev (LE_split 2 obj)"

definition ser_writedata32 :: "u32 \<Rightarrow> bytes" where
  "ser_writedata32 obj = LE_split 4 obj"

definition ser_writedata32be :: "u32 \<Rightarrow> bytes" where
  "ser_writedata32be obj = rev (LE_split 4 obj)"

definition ser_writedata64 :: "u64 \<Rightarrow> bytes" where
  "ser_writedata64 obj = LE_split 8 obj"

definition ser_readdata8 :: "u8 reader" where
  "ser_readdata8 = rbind (stream_read 1) (\<lambda>b. rret (LE_join b))"

definition ser_readdata16 :: "u16 reader" where
  "ser_readdata16 = rbind (stream_read 2) (\<lambda>b. rret (LE_join b))"

definition ser_readdata16be :: "u16 reader" where
  "ser_readdata16be = rbind (stream_read 2) (\<lambda>b. rret (LE_join (rev b)))"

definition ser_readdata32 :: "u32 reader" where
  "ser_readdata32 = rbind (stream_read 4) (\<lambda>b. rret (LE_join b))"

definition ser_readdata32be :: "u32 reader" where
  "ser_readdata32be = rbind (stream_read 4) (\<lambda>b. rret (LE_join (rev b)))"

definition ser_readdata64 :: "u64 reader" where
  "ser_readdata64 = rbind (stream_read 8) (\<lambda>b. rret (LE_join b))"

text \<open>Signed integers go through the unsigned type of their width.\<close>

definition ser_int32 :: "int \<Rightarrow> bytes" where
  "ser_int32 a = ser_writedata32 (word_of_int a)"

definition unser_int32 :: "int reader" where
  "unser_int32 = rbind ser_readdata32 (\<lambda>w. rret (sint w))"

definition ser_int64 :: "int \<Rightarrow> bytes" where
  "ser_int64 a = ser_writedata64 (word_of_int a)"

definition unser_int64 :: "int reader" where
  "unser_int64 = rbind ser_readdata64 (\<lambda>w. rret (sint w))"

definition ser_bool :: "bool \<Rightarrow> bytes" where
  "ser_bool a = ser_writedata8 (if a then 1 else 0)"

definition unser_bool :: "bool reader" where
  "unser_bool = rbind ser_readdata8 (\<lambda>f. rret (f \<noteq> 0))"

subsection \<open>CompactSize\<close>

definition MAX_SIZE :: u64 where
  "MAX_SIZE = 0x02000000"

definition GetSizeOfCompactSize :: "u64 \<Rightarrow> nat" where
  "GetSizeOfCompactSize nSize =
     (if nSize < 253 then 1
      else if nSize \<le> 0xffff then 1 + 2
      else if nSize \<le> 0xffffffff then 1 + 4
      else 1 + 8)"

definition WriteCompactSize :: "u64 \<Rightarrow> bytes" where
  "WriteCompactSize nSize =
     (if nSize < 253 then ser_writedata8 (ucast nSize)
      else if nSize \<le> 0xffff then ser_writedata8 253 @ ser_writedata16 (ucast nSize)
      else if nSize \<le> 0xffffffff then ser_writedata8 254 @ ser_writedata32 (ucast nSize)
      else ser_writedata8 255 @ ser_writedata64 nSize)"

definition compact_range :: "bool \<Rightarrow> u64 \<Rightarrow> u64 reader" where
  "compact_range range_check nSizeRet =
     (if range_check \<and> nSizeRet > MAX_SIZE then rfail CompactSizeTooLarge else rret nSizeRet)"

definition compact_canonical :: "bool \<Rightarrow> u64 \<Rightarrow> u64 \<Rightarrow> u64 reader" where
  "compact_canonical range_check least nSizeRet =
     (if nSizeRet < least then rfail NonCanonicalCompactSize else compact_range range_check nSizeRet)"

definition ReadCompactSize :: "bool \<Rightarrow> u64 reader" where
  "ReadCompactSize range_check =
     rbind ser_readdata8 (\<lambda>chSize.
       if chSize < 253 then compact_range range_check (ucast chSize)
       else if chSize = 253
       then rbind ser_readdata16 (\<lambda>n. compact_canonical range_check 253 (ucast n))
       else if chSize = 254
       then rbind ser_readdata32 (\<lambda>n. compact_canonical range_check 0x10000 (ucast n))
       else rbind ser_readdata64 (\<lambda>n. compact_canonical range_check 0x100000000 n))"

subsection \<open>VarInt\<close>

text \<open>
  The template type enters through its largest value \<open>imax\<close>. The loop of the writer fills
  \<^verbatim>\<open>tmp\<close> from the last digit; the bytes leave in the reverse order. The numbers stay within
  the type by the checks of the reader, so they are naturals here.
\<close>

function VarInt_tmp :: "bool \<Rightarrow> nat \<Rightarrow> bytes" where
  "VarInt_tmp len n =
     (of_nat (n mod 128) OR (if len then 0x80 else 0x00)) #
     (if n \<le> 0x7f then [] else VarInt_tmp True (n div 128 - 1))"
  by pat_completeness auto
termination
  by (relation "measure snd") (auto simp: less_imp_diff_less)

declare VarInt_tmp.simps [simp del]

definition WriteVarInt :: "nat \<Rightarrow> bytes" where
  "WriteVarInt n = rev (VarInt_tmp False n)"

function GetSizeOfVarInt :: "nat \<Rightarrow> nat" where
  "GetSizeOfVarInt n = 1 + (if n \<le> 0x7f then 0 else GetSizeOfVarInt (n div 128 - 1))"
  by pat_completeness auto
termination
  by (relation "measure id") (auto simp: less_imp_diff_less)

declare GetSizeOfVarInt.simps [simp del]

fun ReadVarInt_loop :: "nat \<Rightarrow> nat \<Rightarrow> nat reader" where
  "ReadVarInt_loop imax n [] = Inl EndOfData"
| "ReadVarInt_loop imax n (chData # s) =
     (if n > imax div 128 then Inl VarIntTooLarge
      else let n' = n * 128 + unat (chData AND 0x7f) in
           if chData AND 0x80 \<noteq> 0
           then (if n' = imax then Inl VarIntTooLarge else ReadVarInt_loop imax (n' + 1) s)
           else Inr (n', s))"

definition ReadVarInt :: "nat \<Rightarrow> nat reader" where
  "ReadVarInt imax s = ReadVarInt_loop imax 0 s"

subsection \<open>Vectors\<close>

definition VectorFormatter_Ser :: "('a \<Rightarrow> bytes) \<Rightarrow> 'a list \<Rightarrow> bytes" where
  "VectorFormatter_Ser ser v = WriteCompactSize (of_nat (length v)) @ concat (map ser v)"

fun read_many :: "'a reader \<Rightarrow> nat \<Rightarrow> 'a list reader" where
  "read_many unser 0 = rret []"
| "read_many unser (Suc n) = rbind unser (\<lambda>x. rbind (read_many unser n) (\<lambda>xs. rret (x # xs)))"

definition VectorFormatter_Unser :: "'a reader \<Rightarrow> 'a list reader" where
  "VectorFormatter_Unser unser =
     rbind (ReadCompactSize True) (\<lambda>size. read_many unser (unat size))"

text \<open>
  Byte vectors (\<^verbatim>\<open>std::vector<unsigned char>\<close>, \<^verbatim>\<open>prevector\<close>, scripts) are
  written as a block and read in blocks of at most 5000000 bytes.
\<close>

function read_blocks :: "nat \<Rightarrow> bytes reader" where
  "read_blocks n =
     (if n = 0 then rret []
      else let blk = min n (1 + 4999999)
           in rbind (stream_read blk) (\<lambda>a. rbind (read_blocks (n - blk)) (\<lambda>b. rret (a @ b))))"
  by pat_completeness auto
termination
  by (relation "measure id") auto

declare read_blocks.simps [simp del]

definition ser_bytevec :: "bytes \<Rightarrow> bytes" where
  "ser_bytevec v = WriteCompactSize (of_nat (length v)) @ v"

definition unser_bytevec :: "bytes reader" where
  "unser_bytevec = rbind (ReadCompactSize True) (\<lambda>nSize. read_blocks (unat nSize))"

text \<open>Blobs have their width and no length prefix.\<close>

definition ser_blob :: "base_blob \<Rightarrow> bytes" where
  "ser_blob m_data = m_data"

definition unser_blob :: "nat \<Rightarrow> base_blob reader" where
  "unser_blob WIDTH = stream_read WIDTH"

section \<open>Readers\<close>

lemma rret_simp [simp]: "rret x s = Inr (x, s)"
  by (simp add: rret_def)

lemma rfail_simp [simp]: "rfail e s = Inl e"
  by (simp add: rfail_def)

lemma rbind_Inr_iff: "rbind r f s = Inr y \<longleftrightarrow> (\<exists>x s'. r s = Inr (x, s') \<and> f x s' = Inr y)"
  by (auto simp: rbind_def split: sum.splits)

lemma rbind_step: "r s = Inr (x, s') \<Longrightarrow> rbind r f s = f x s'"
  by (simp add: rbind_def)

lemma rbind_Inl: "r s = Inl e \<Longrightarrow> rbind r f s = Inl e"
  by (simp add: rbind_def)

lemma stream_read_iff: "stream_read n s = Inr (x, s') \<longleftrightarrow> length x = n \<and> s = x @ s'"
  by (auto simp: stream_read_def min_def)

lemma stream_read_append: "length x = n \<Longrightarrow> stream_read n (x @ s) = Inr (x, s)"
  by (simp add: stream_read_iff)

lemma read_blocks_eq: "read_blocks n = stream_read n"
proof (induction n rule: less_induct)
  case (less n)
  show ?case
  proof (rule ext)
    fix s
    show "read_blocks n s = stream_read n s"
    proof (cases "n = 0")
      case True
      then show ?thesis by (simp add: read_blocks.simps stream_read_def)
    next
      case False
      define blk where "blk = min n (1 + 4999999)"
      have b: "0 < blk" "blk \<le> n" using False by (simp_all add: blk_def)
      then have "read_blocks (n - blk) = stream_read (n - blk)"
        using less.IH False by simp
      then have "read_blocks n s = rbind (stream_read blk) (\<lambda>a. rbind (stream_read (n - blk)) (\<lambda>b. rret (a @ b))) s"
        using False by (simp add: read_blocks.simps [of n] Let_def blk_def)
      also have "\<dots> = stream_read n s"
        using b by (auto simp: rbind_def stream_read_def take_add [symmetric])
      finally show ?thesis .
    qed
  qed
qed

section \<open>The codec interface\<close>

locale codec =
  fixes ok :: "'a \<Rightarrow> bool" and enc :: "'a \<Rightarrow> bytes" and dec :: "'a reader"
  assumes dec_enc: "ok x \<Longrightarrow> dec (enc x @ s) = Inr (x, s)"
    and dec_canonical: "dec s = Inr (x, s') \<Longrightarrow> ok x \<and> s = enc x @ s'"
begin

lemma dec_iff: "dec s = Inr (x, s') \<longleftrightarrow> ok x \<and> s = enc x @ s'"
  using dec_enc dec_canonical by blast

text \<open>No encoding is a prefix of another: a stream has one reading.\<close>

lemma enc_inject: "ok x \<Longrightarrow> ok y \<Longrightarrow> enc x @ s = enc y @ t \<Longrightarrow> x = y \<and> s = t"
  by (metis dec_enc Inr_inject prod.inject)

lemma many_iff:
  "read_many dec n s = Inr (xs, s') \<longleftrightarrow> length xs = n \<and> list_all ok xs \<and> s = concat (map enc xs) @ s'"
proof (induction n arbitrary: s xs)
  case 0
  then show ?case by auto
next
  case (Suc n)
  then show ?case by (cases xs) (auto simp: rbind_Inr_iff dec_iff)
qed

end

lemma codec_pair:
  assumes "codec ok1 enc1 dec1" "codec ok2 enc2 dec2"
  shows "codec (\<lambda>(x, y). ok1 x \<and> ok2 y) (\<lambda>(x, y). enc1 x @ enc2 y)
    (rbind dec1 (\<lambda>x. rbind dec2 (\<lambda>y. rret (x, y))))"
  by unfold_locales
     (auto simp: rbind_Inr_iff codec.dec_iff [OF assms(1)] codec.dec_iff [OF assms(2)])

lemma codec_iso:
  assumes "codec ok enc dec" "\<And>y. ok' y \<Longrightarrow> ok (g y) \<and> f (g y) = y" "\<And>x. ok x \<Longrightarrow> ok' (f x) \<and> g (f x) = x"
  shows "codec ok' (\<lambda>y. enc (g y)) (rbind dec (\<lambda>x. rret (f x)))"
  by unfold_locales (use assms(2,3) in \<open>auto simp: rbind_Inr_iff codec.dec_iff [OF assms(1)]\<close>)

section \<open>Integers\<close>

lemma length_LE_split [simp]: "length (LE_split n x) = n"
  by (induction n arbitrary: x) simp_all

lemma LE_join_of_nat: "LE_join bs = of_nat (le_val bs)"
  by (induction bs) (simp_all add: of_nat_unat)

lemma le_val_less: "le_val bs < 256 ^ length bs"
proof (induction bs)
  case (Cons b bs)
  then have "unat b + 256 * le_val bs < 256 * 256 ^ length bs"
    using unat_u8_less [of b] by linarith
  then show ?case by simp
qed simp

lemma le_val_Cons_parts: "le_val (b # bs) mod 256 = unat b" "le_val (b # bs) div 256 = le_val bs"
  using unat_u8_less [of b] by simp_all

lemma le_val_inject: "length a = length b \<Longrightarrow> le_val a = le_val b \<Longrightarrow> a = b"
proof (induction a b rule: list_induct2)
  case (Cons x xs y ys)
  have "unat x = unat y" "le_val xs = le_val ys"
    using le_val_Cons_parts [of x xs] le_val_Cons_parts [of y ys] Cons.prems by metis+
  with Cons.IH show ?case by (simp add: word_unat_eq_iff)
qed simp

lemma le_val_LE_split: "le_val (LE_split n x) = unat x mod 256 ^ n"
proof (induction n arbitrary: x)
  case (Suc n)
  have "unat (ucast x :: byte) = unat x mod 256"
    by (simp add: unsigned_ucast_eq take_bit_eq_mod)
  then show ?case
    using Suc by (simp add: unat_drop_bit_div mod_mult2_eq)
qed simp

lemma LE_join_LE_split: "LENGTH('a) = 8 * n \<Longrightarrow> LE_join (LE_split n x) = (x :: 'a::len word)"
  using unat_less_2p [of x] by (simp add: LE_join_of_nat le_val_LE_split power_mult)

lemma LE_split_LE_join:
  assumes "LENGTH('a) = 8 * length bs"
  shows "LE_split (length bs) (LE_join bs :: 'a::len word) = bs"
proof (rule le_val_inject)
  show "le_val (LE_split (length bs) (LE_join bs :: 'a word)) = le_val bs"
    using le_val_less [of bs] assms
    by (simp add: le_val_LE_split LE_join_of_nat unat_of_nat power_mult)
qed (use assms in simp)

lemma LE_split_LE_join_rev:
  "LENGTH('a) = 8 * length bs \<Longrightarrow> LE_split (length bs) (LE_join (rev bs) :: 'a::len word) = rev bs"
  using LE_split_LE_join [of "rev bs", where 'a = 'a] by simp

text \<open>A fixed-width integer is a codec of its bytes.\<close>

lemma codec_LE:
  assumes "LENGTH('a) = 8 * n"
  shows "codec (\<lambda>_. True) (LE_split n) (rbind (stream_read n) (\<lambda>b. rret (LE_join b :: 'a::len word)))"
  using assms
  by unfold_locales (auto simp: rbind_Inr_iff stream_read_iff LE_join_LE_split LE_split_LE_join)

lemma codec_BE:
  assumes "LENGTH('a) = 8 * n"
  shows "codec (\<lambda>_. True) (\<lambda>x. rev (LE_split n x))
    (rbind (stream_read n) (\<lambda>b. rret (LE_join (rev b) :: 'a::len word)))"
  using assms
  by unfold_locales (auto simp: rbind_Inr_iff stream_read_iff LE_join_LE_split LE_split_LE_join_rev)

interpretation data8: codec "\<lambda>_. True" ser_writedata8 ser_readdata8
  unfolding ser_writedata8_def [abs_def] ser_readdata8_def by (rule codec_LE) simp

interpretation data16: codec "\<lambda>_. True" ser_writedata16 ser_readdata16
  unfolding ser_writedata16_def [abs_def] ser_readdata16_def by (rule codec_LE) simp

interpretation data16be: codec "\<lambda>_. True" ser_writedata16be ser_readdata16be
  unfolding ser_writedata16be_def [abs_def] ser_readdata16be_def by (rule codec_BE) simp

interpretation data32: codec "\<lambda>_. True" ser_writedata32 ser_readdata32
  unfolding ser_writedata32_def [abs_def] ser_readdata32_def by (rule codec_LE) simp

interpretation data32be: codec "\<lambda>_. True" ser_writedata32be ser_readdata32be
  unfolding ser_writedata32be_def [abs_def] ser_readdata32be_def by (rule codec_BE) simp

interpretation data64: codec "\<lambda>_. True" ser_writedata64 ser_readdata64
  unfolding ser_writedata64_def [abs_def] ser_readdata64_def by (rule codec_LE) simp

lemma sint_32_fits: "fits_int32 (sint (w :: u32))"
  using sint_range_size [of w] by (simp add: int_limits word_size)

lemma sint_64_fits: "fits_int64 (sint (w :: u64))"
  using sint_range_size [of w] by (simp add: int_limits word_size)

lemma sint_of_int32: "fits_int32 a \<Longrightarrow> sint (word_of_int a :: u32) = a"
  by (simp add: int_limits sint_sbintrunc' signed_take_bit_int_eq_self)

lemma sint_of_int64: "fits_int64 a \<Longrightarrow> sint (word_of_int a :: u64) = a"
  by (simp add: int_limits sint_sbintrunc' signed_take_bit_int_eq_self)

interpretation int32: codec fits_int32 ser_int32 unser_int32
proof -
  have "codec fits_int32 (\<lambda>a. ser_writedata32 (word_of_int a)) (rbind ser_readdata32 (\<lambda>w. rret (sint w)))"
    by (rule codec_iso [OF data32.codec_axioms]) (simp_all add: sint_32_fits sint_of_int32)
  then show "codec fits_int32 ser_int32 unser_int32"
    by (simp add: ser_int32_def [abs_def] unser_int32_def)
qed

interpretation int64: codec fits_int64 ser_int64 unser_int64
proof -
  have "codec fits_int64 (\<lambda>a. ser_writedata64 (word_of_int a)) (rbind ser_readdata64 (\<lambda>w. rret (sint w)))"
    by (rule codec_iso [OF data64.codec_axioms]) (simp_all add: sint_64_fits sint_of_int64)
  then show "codec fits_int64 ser_int64 unser_int64"
    by (simp add: ser_int64_def [abs_def] unser_int64_def)
qed

interpretation blob256: codec "\<lambda>b. length b = 32" ser_blob "unser_blob 32"
  by unfold_locales (simp_all add: ser_blob_def unser_blob_def stream_read_iff)

lemmas int_codecs = data8.dec_iff data16.dec_iff data32.dec_iff data64.dec_iff int32.dec_iff int64.dec_iff blob256.dec_iff

section \<open>CompactSize\<close>

lemma ucast_down_up: "unat n < 2 ^ LENGTH('b) \<Longrightarrow> ucast (ucast (n :: 'a::len word) :: 'b::len word) = n"
  by (rule word_unat_eq_iff [THEN iffD2])
     (simp add: unsigned_ucast_eq unsigned_take_bit_eq take_bit_nat_eq_self)

lemma ucast_up_down: "LENGTH('b) \<le> LENGTH('a) \<Longrightarrow> ucast (ucast (x :: 'b::len word) :: 'a::len word) = x"
  by (rule bit_word_eqI) (auto simp: bit_ucast_iff)

lemma unat_ucast_down: "unat n < 2 ^ LENGTH('b) \<Longrightarrow> unat (ucast (n :: 'a::len word) :: 'b::len word) = unat n"
  by (simp add: unsigned_ucast_eq take_bit_nat_eq_self)

lemma unat_ucast_up: "LENGTH('b) \<le> LENGTH('a) \<Longrightarrow> unat (ucast (x :: 'b::len word) :: 'a::len word) = unat x"
  using less_le_trans [OF unat_less_2p [of x] power_increasing [of "LENGTH('b)" "LENGTH('a)" 2]]
  by (simp add: unsigned_ucast_eq take_bit_nat_eq_self)

lemma compact_dec_enc:
  assumes "rc \<longrightarrow> n \<le> MAX_SIZE"
  shows "ReadCompactSize rc (WriteCompactSize n @ s) = Inr (n, s)"
proof -
  have rng: "compact_range rc n t = Inr (n, t)" for t
    using assms by (auto simp: compact_range_def)
  consider "n < 253" | "253 \<le> n" "n \<le> 0xffff" | "0x10000 \<le> n" "n \<le> 0xffffffff" | "0x100000000 \<le> n"
    by (force simp: word_le_nat_alt word_less_nat_alt not_le)
  then show ?thesis
  proof cases
    case 1
    then have "ucast (ucast n :: u8) = n" "(ucast n :: u8) < 253"
      by (simp_all add: ucast_down_up unat_ucast_down word_less_nat_alt)
    with 1 show ?thesis
      by (simp add: ReadCompactSize_def WriteCompactSize_def rbind_def data8.dec_enc rng)
  next
    case 2
    then have "ucast (ucast n :: u16) = n" "\<not> n < 253"
      by (simp_all add: ucast_down_up word_less_nat_alt word_le_nat_alt)
    with 2 show ?thesis
      by (simp add: ReadCompactSize_def WriteCompactSize_def rbind_def data8.dec_enc data16.dec_enc
          compact_canonical_def rng)
  next
    case 3
    then have "ucast (ucast n :: u32) = n" "\<not> n < 0x10000" "\<not> n < 253" "\<not> n \<le> 0xffff"
      by (simp_all add: ucast_down_up word_less_nat_alt word_le_nat_alt)
    with 3 show ?thesis
      by (simp add: ReadCompactSize_def WriteCompactSize_def rbind_def data8.dec_enc data32.dec_enc
          compact_canonical_def rng)
  next
    case 4
    then have "\<not> n < 0x100000000" "\<not> n < 253" "\<not> n \<le> 0xffff" "\<not> n \<le> 0xffffffff"
      by (simp_all add: word_less_nat_alt word_le_nat_alt)
    with 4 show ?thesis
      by (simp add: ReadCompactSize_def WriteCompactSize_def rbind_def data8.dec_enc data64.dec_enc
          compact_canonical_def rng)
  qed
qed

lemma compact_range_iff: "compact_range rc m t = Inr (n, s') \<longleftrightarrow> n = m \<and> s' = t \<and> (rc \<longrightarrow> m \<le> MAX_SIZE)"
  by (auto simp: compact_range_def not_less)

lemma compact_canonical_iff:
  "compact_canonical rc least m t = Inr (n, s') \<longleftrightarrow> n = m \<and> s' = t \<and> least \<le> m \<and> (rc \<longrightarrow> m \<le> MAX_SIZE)"
  by (auto simp: compact_canonical_def compact_range_iff not_less)

lemma compact_canonical_read:
  assumes "ReadCompactSize rc s = Inr (n, s')"
  shows "(rc \<longrightarrow> n \<le> MAX_SIZE) \<and> s = WriteCompactSize n @ s'"
proof -
  obtain ch t where ch: "s = ser_writedata8 ch @ t"
    and rest: "(if ch < 253 then compact_range rc (ucast ch)
       else if ch = 253 then rbind ser_readdata16 (\<lambda>n. compact_canonical rc 253 (ucast n))
       else if ch = 254 then rbind ser_readdata32 (\<lambda>n. compact_canonical rc 0x10000 (ucast n))
       else rbind ser_readdata64 (\<lambda>n. compact_canonical rc 0x100000000 n)) t = Inr (n, s')"
    using assms by (auto simp: ReadCompactSize_def rbind_Inr_iff int_codecs)
  consider "ch < 253" | "ch = 253" | "ch = 254" | "ch = 255"
    using unat_u8_less [of ch] by (simp add: word_less_nat_alt word_unat_eq_iff) linarith
  then show ?thesis
  proof cases
    case 1
    then have "unat (ucast ch :: u64) < 253" "ucast (ucast ch :: u64) = ch"
      by (simp_all add: unat_ucast_up word_less_nat_alt ucast_up_down)
    with 1 rest show ?thesis
      by (auto simp: ch compact_range_iff WriteCompactSize_def word_less_nat_alt)
  next
    case 2
    with rest obtain m :: u16 where m: "t = ser_writedata16 m @ s'" "n = ucast m" "253 \<le> n" "rc \<longrightarrow> n \<le> MAX_SIZE"
      by (auto simp: rbind_Inr_iff int_codecs compact_canonical_iff)
    then have "\<not> n < 253" "n \<le> 0xffff" "ucast n = m"
      using unat_less_2p [of m] by (simp_all add: word_le_nat_alt word_less_nat_alt unat_ucast_up ucast_up_down)
    with 2 m show ?thesis by (simp add: ch WriteCompactSize_def)
  next
    case 3
    with rest obtain m :: u32 where m: "t = ser_writedata32 m @ s'" "n = ucast m" "0x10000 \<le> n" "rc \<longrightarrow> n \<le> MAX_SIZE"
      by (auto simp: rbind_Inr_iff int_codecs compact_canonical_iff)
    then have "\<not> n < 253" "\<not> n \<le> 0xffff" "n \<le> 0xffffffff" "ucast n = m"
      using unat_less_2p [of m] by (simp_all add: word_le_nat_alt word_less_nat_alt unat_ucast_up ucast_up_down)
    with 3 m show ?thesis by (simp add: ch WriteCompactSize_def)
  next
    case 4
    with rest have m: "t = ser_writedata64 n @ s'" "0x100000000 \<le> n" "rc \<longrightarrow> n \<le> MAX_SIZE"
      by (auto simp: rbind_Inr_iff int_codecs compact_canonical_iff)
    then have "\<not> n < 253" "\<not> n \<le> 0xffff" "\<not> n \<le> 0xffffffff"
      by (simp_all add: word_le_nat_alt word_less_nat_alt)
    with 4 m show ?thesis by (simp add: ch WriteCompactSize_def)
  qed
qed

interpretation compact_size: codec "\<lambda>n. rc \<longrightarrow> n \<le> MAX_SIZE" WriteCompactSize "ReadCompactSize rc" for rc
  by unfold_locales (use compact_dec_enc compact_canonical_read in blast)+

lemma length_WriteCompactSize: "length (WriteCompactSize n) = GetSizeOfCompactSize n"
  by (simp add: WriteCompactSize_def GetSizeOfCompactSize_def ser_writedata8_def ser_writedata16_def
      ser_writedata32_def ser_writedata64_def del: LE_split.simps)

section \<open>VarInt\<close>

lemma mask_7: "(0x7f :: byte) = mask 7"
  by (simp add: mask_eq_exp_minus_1)

lemma top_bit: "(0x80 :: byte) = push_bit 7 1"
  by (simp add: push_bit_eq_mult)

lemma top_bit_set: "(ch AND 0x80 :: byte) \<noteq> 0 \<longleftrightarrow> bit ch 7"
  using and_exp_eq_0_iff_not_bit [of ch 7] by simp

lemma varint_digit_last:
  assumes "d < 128"
  shows "unat (of_nat d AND 0x7f :: byte) = d" "(of_nat d AND 0x80 :: byte) = 0"
proof -
  have "(of_nat d AND mask 7 :: byte) = of_nat d"
    using assms bit_nat_less [of d 7] by (auto intro!: bit_word_eqI simp: bit_simps) (meson not_less)
  then show "unat (of_nat d AND 0x7f :: byte) = d"
    using assms by (simp add: mask_7 unat_of_nat)
  show "(of_nat d AND 0x80 :: byte) = 0"
    using top_bit_set [of "of_nat d"] assms bit_nat_less [of d 7 7] by (auto simp: bit_simps)
qed

lemma varint_digit_more:
  assumes "d < 128"
  shows "unat ((of_nat d OR 0x80) AND 0x7f :: byte) = d" "((of_nat d OR 0x80) AND 0x80 :: byte) \<noteq> 0"
proof -
  have "((of_nat d OR 0x80) AND mask 7 :: byte) = of_nat d AND mask 7"
    unfolding top_bit by (rule bit_word_eqI) (auto simp: bit_simps simp del: push_bit_of_1)
  then show "unat ((of_nat d OR 0x80) AND 0x7f :: byte) = d"
    using varint_digit_last [OF assms] by (simp add: mask_7)
  show "((of_nat d OR 0x80) AND 0x80 :: byte) \<noteq> 0"
    unfolding top_bit_set unfolding top_bit by (simp add: bit_simps del: push_bit_of_1)
qed

lemma varint_byte:
  shows "(ch AND 0x80 :: byte) = 0 \<Longrightarrow> of_nat (unat (ch AND 0x7f)) OR 0 = ch"
    and "(ch AND 0x80 :: byte) \<noteq> 0 \<Longrightarrow> of_nat (unat (ch AND 0x7f)) OR 0x80 = ch"
proof -
  have b: "n = 7" if "7 \<le> n" "n < 8" for n :: nat using that by simp
  show "of_nat (unat (ch AND 0x7f)) OR 0 = ch" if "(ch AND 0x80 :: byte) = 0"
  proof -
    have "\<not> bit ch 7" using that top_bit_set [of ch] by blast
    then have "ch AND mask 7 = ch"
      by (auto intro!: bit_word_eqI simp: bit_simps) (metis b not_less)
    then show ?thesis by (simp add: mask_7)
  qed
  show "of_nat (unat (ch AND 0x7f)) OR 0x80 = ch" if "(ch AND 0x80 :: byte) \<noteq> 0"
  proof -
    have "bit ch 7" using that top_bit_set [of ch] by blast
    then have "(ch AND mask 7) OR push_bit 7 1 = ch"
      by (auto intro!: bit_word_eqI simp: bit_simps simp del: push_bit_of_1) (metis b not_less)+
    then show ?thesis by (simp add: mask_7 top_bit del: push_bit_of_1)
  qed
qed

text \<open>The digits before the last one, all with the continuation bit.\<close>

definition varint_prefix :: "nat \<Rightarrow> bytes" where
  "varint_prefix acc = (if acc = 0 then [] else rev (VarInt_tmp True (acc - 1)))"

lemma varint_prefix_step: "varint_prefix (n + 1) = varint_prefix (n div 128) @ [of_nat (n mod 128) OR 0x80]"
  by (simp add: varint_prefix_def VarInt_tmp.simps [of True n] div_eq_0_iff)

lemma WriteVarInt_prefix: "WriteVarInt n = varint_prefix (n div 128) @ [of_nat (n mod 128)]"
  by (simp add: WriteVarInt_def varint_prefix_def VarInt_tmp.simps [of False n] div_eq_0_iff)

lemma ReadVarInt_prefix:
  "acc \<le> imax \<Longrightarrow> ReadVarInt_loop imax 0 (varint_prefix acc @ s) = ReadVarInt_loop imax acc s"
proof (induction acc arbitrary: s rule: less_induct)
  case (less acc)
  show ?case
  proof (cases "acc = 0")
    case True
    then show ?thesis by (simp add: varint_prefix_def)
  next
    case False
    then obtain n where n: "acc = n + 1" by (metis Suc_eq_plus1 not0_implies_Suc)
    have "n div 128 \<le> imax div 128" "n div 128 < acc" "n div 128 \<le> imax" "n \<noteq> imax"
      using less.prems n div_le_dividend [of n 128] by (simp_all add: div_le_mono)
    moreover have "n div 128 * 128 + n mod 128 = n" by simp
    ultimately show ?thesis
      using less.IH [of "n div 128"] varint_digit_more [of "n mod 128"]
      unfolding n varint_prefix_step by simp
  qed
qed

lemma ReadVarInt_WriteVarInt:
  assumes "n \<le> imax"
  shows "ReadVarInt imax (WriteVarInt n @ s) = Inr (n, s)"
proof -
  have "n div 128 \<le> imax div 128" "n div 128 \<le> imax" "n div 128 * 128 + n mod 128 = n"
    using assms div_le_dividend [of n 128] by (simp_all add: div_le_mono)
  then show ?thesis
    using ReadVarInt_prefix [of "n div 128" imax] varint_digit_last [of "n mod 128"]
    by (simp add: ReadVarInt_def WriteVarInt_prefix)
qed

lemma ReadVarInt_loop_canonical:
  assumes "imax mod 128 = 127" "ReadVarInt_loop imax acc s = Inr (n, s')"
  shows "n \<le> imax \<and> varint_prefix acc @ s = WriteVarInt n @ s'"
  using assms(2)
proof (induction s arbitrary: acc)
  case (Cons ch t)
  define d where "d = unat (ch AND 0x7f)"
  have d: "d < 128"
    using and_mask_mod [of ch 7] by (simp add: d_def mask_7)
  have acc: "\<not> acc > imax div 128"
    using Cons.prems by (auto split: if_splits)
  have n': "(acc * 128 + d) div 128 = acc" "(acc * 128 + d) mod 128 = d"
    using d by simp_all
  show ?case
  proof (cases "ch AND 0x80 = 0")
    case True
    with Cons.prems acc have n: "n = acc * 128 + d" "s' = t"
      by (simp_all add: d_def Let_def)
    moreover have "acc * 128 + d \<le> imax"
      using acc d assms(1) div_mult_mod_eq [of imax 128] by linarith
    ultimately show ?thesis
      using varint_byte(1) [OF True, folded d_def] d by (simp add: WriteVarInt_prefix n')
  next
    case False
    with Cons.prems acc have "ReadVarInt_loop imax (acc * 128 + d + 1) t = Inr (n, s')"
      by (simp add: d_def Let_def split: if_splits)
    from Cons.IH [OF this] show ?thesis
      using varint_byte(2) [OF False, folded d_def] varint_prefix_step [of "acc * 128 + d"] d by (simp add: n')
  qed
qed simp


lemma codec_VarInt:
  assumes "imax mod 128 = 127"
  shows "codec (\<lambda>n. n \<le> imax) WriteVarInt (ReadVarInt imax)"
proof
  fix n s s'
  show "n \<le> imax \<Longrightarrow> ReadVarInt imax (WriteVarInt n @ s) = Inr (n, s)"
    by (rule ReadVarInt_WriteVarInt)
  show "ReadVarInt imax s = Inr (n, s') \<Longrightarrow> n \<le> imax \<and> s = WriteVarInt n @ s'"
    using ReadVarInt_loop_canonical [OF assms, of 0 s n s'] by (simp add: ReadVarInt_def varint_prefix_def)
qed

definition UINT32_MAX :: nat where
  "UINT32_MAX = 2 ^ 32 - 1"

definition UINT64_MAX :: nat where
  "UINT64_MAX = 2 ^ 64 - 1"

interpretation varint32: codec "\<lambda>n. n \<le> UINT32_MAX" WriteVarInt "ReadVarInt UINT32_MAX"
  by (rule codec_VarInt) (simp add: UINT32_MAX_def)

interpretation varint64: codec "\<lambda>n. n \<le> UINT64_MAX" WriteVarInt "ReadVarInt UINT64_MAX"
  by (rule codec_VarInt) (simp add: UINT64_MAX_def)

lemma length_VarInt_tmp: "length (VarInt_tmp len n) = GetSizeOfVarInt n"
proof (induction n arbitrary: len rule: less_induct)
  case (less n)
  show ?case
  proof (cases "n \<le> 0x7f")
    case True
    then show ?thesis by (simp add: VarInt_tmp.simps [of len n] GetSizeOfVarInt.simps [of n])
  next
    case False
    then have "n div 128 - 1 < n" by (simp add: less_imp_diff_less)
    with less [of "n div 128 - 1" True] False show ?thesis
      by (simp add: VarInt_tmp.simps [of len n] GetSizeOfVarInt.simps [of n])
  qed
qed

lemma length_WriteVarInt: "length (WriteVarInt n) = GetSizeOfVarInt n"
  by (simp add: WriteVarInt_def length_VarInt_tmp)

section \<open>Vectors\<close>

lemma MAX_SIZE_nat: "unat MAX_SIZE = 33554432"
  by (simp add: MAX_SIZE_def)

lemma unat_of_length: "n \<le> 33554432 \<Longrightarrow> unat (of_nat n :: u64) = n"
  by (simp add: unat_of_nat)

lemma of_length_MAX_SIZE: "n \<le> 33554432 \<Longrightarrow> (of_nat n :: u64) \<le> MAX_SIZE"
  by (simp add: word_le_nat_alt MAX_SIZE_nat unat_of_length)

definition vec_ok :: "('a \<Rightarrow> bool) \<Rightarrow> 'a list \<Rightarrow> bool" where
  "vec_ok ok v \<longleftrightarrow> length v \<le> unat MAX_SIZE \<and> list_all ok v"

text \<open>
  Vectors of any codec: the reader accepts at most \<open>MAX_SIZE\<close> elements, and what it accepts
  has one encoding.
\<close>

lemma codec_vector:
  assumes "codec ok ser unser"
  shows "codec (vec_ok ok) (VectorFormatter_Ser ser) (VectorFormatter_Unser unser)"
proof
  fix v s s'
  show "VectorFormatter_Unser unser (VectorFormatter_Ser ser v @ s) = Inr (v, s)" if "vec_ok ok v"
    using that compact_size.dec_enc [of True "of_nat (length v)"] codec.many_iff [OF assms, of "length v" _ v s]
    by (simp add: VectorFormatter_Unser_def VectorFormatter_Ser_def vec_ok_def rbind_def
        MAX_SIZE_nat unat_of_length of_length_MAX_SIZE)
  show "vec_ok ok v \<and> s = VectorFormatter_Ser ser v @ s'" if "VectorFormatter_Unser unser s = Inr (v, s')"
    using that
    by (auto simp: VectorFormatter_Unser_def VectorFormatter_Ser_def vec_ok_def rbind_Inr_iff
        compact_size.dec_iff codec.many_iff [OF assms] word_le_nat_alt)
qed

interpretation bytevec: codec "\<lambda>v. length v \<le> unat MAX_SIZE" ser_bytevec unser_bytevec
proof
  fix v s s'
  show "unser_bytevec (ser_bytevec v @ s) = Inr (v, s)" if "length v \<le> unat MAX_SIZE"
    using that compact_size.dec_enc [of True "of_nat (length v)"] stream_read_append [of v "length v"]
    by (simp add: unser_bytevec_def ser_bytevec_def rbind_def read_blocks_eq
        MAX_SIZE_nat unat_of_length of_length_MAX_SIZE)
  show "length v \<le> unat MAX_SIZE \<and> s = ser_bytevec v @ s'" if "unser_bytevec s = Inr (v, s')"
    using that
    by (auto simp: unser_bytevec_def ser_bytevec_def rbind_Inr_iff read_blocks_eq stream_read_iff
        compact_size.dec_iff word_le_nat_alt)
qed

section \<open>Properties\<close>

text \<open>
  C27. CompactSize is a bijection between its range and its encodings: a size that passes the
  range check is read back from what was written, with the rest of the stream untouched; and every
  byte sequence the reader accepts is the one the writer produces for the value, of the length that
  \<^verbatim>\<open>GetSizeOfCompactSize\<close> computes (longer encodings of a small size are refused).
\<close>

theorem CompactSize_bijective:
  "((range_check \<longrightarrow> n \<le> MAX_SIZE) \<longrightarrow> ReadCompactSize range_check (WriteCompactSize n @ s) = Inr (n, s)) \<and>
   (ReadCompactSize range_check t = Inr (m, t') \<longrightarrow>
      t = WriteCompactSize m @ t' \<and> (range_check \<longrightarrow> m \<le> MAX_SIZE)) \<and>
   length (WriteCompactSize n) = GetSizeOfCompactSize n"
  using compact_size.dec_enc [of range_check n s] compact_size.dec_canonical [of range_check t m t']
    length_WriteCompactSize [of n] by blast

theorem CompactSize_bijective_witness:
  "ReadCompactSize True (WriteCompactSize 515 @ [7]) = Inr (515, [7]) \<and>
   ReadCompactSize True [253, 3, 2, 7] = Inr (515, [7]) \<and> [253, 3, 2, 7] = WriteCompactSize 515 @ [7]"
proof -
  have "ReadCompactSize True [253, 3, 2, 7] = Inr (515, [7])" "(515 :: u64) \<le> MAX_SIZE" by code_simp+
  then show ?thesis
    using CompactSize_bijective [of True 515 "[7]" "[253, 3, 2, 7]" 515 "[7]"] by blast
qed

text \<open>
  C28. VarInt is a bijection between the values of its type and its encodings, as the comment
  says: every value has exactly one encoding. Stated for the unsigned types of 32 and 64 bits: the
  reader returns what was written and nothing else is accepted for a value; and the length is the
  one \<^verbatim>\<open>GetSizeOfVarInt\<close> computes.
\<close>

theorem VarInt_bijective:
  assumes "imax \<in> {UINT32_MAX, UINT64_MAX}"
  shows "(n \<le> imax \<longrightarrow> ReadVarInt imax (WriteVarInt n @ s) = Inr (n, s)) \<and>
   (ReadVarInt imax t = Inr (m, t') \<longrightarrow> m \<le> imax \<and> t = WriteVarInt m @ t') \<and>
   length (WriteVarInt n) = GetSizeOfVarInt n"
  using assms varint32.dec_enc [of n s] varint32.dec_canonical [of t m t']
    varint64.dec_enc [of n s] varint64.dec_canonical [of t m t'] length_WriteVarInt [of n] by blast

theorem VarInt_bijective_witness:
  "ReadVarInt UINT32_MAX (WriteVarInt 16511 @ [9]) = Inr (16511, [9]) \<and>
   ReadVarInt UINT32_MAX [0xff, 0x7f, 9] = Inr (16511, [9]) \<and> [0xff, 0x7f, 9] = WriteVarInt 16511 @ [9]"
proof -
  have "ReadVarInt UINT32_MAX [0xff, 0x7f, 9] = Inr (16511, [9])" "16511 \<le> UINT32_MAX"
    by (simp_all add: ReadVarInt_def UINT32_MAX_def)
  then show ?thesis
    using VarInt_bijective [of UINT32_MAX 16511 "[9]" "[0xff, 0x7f, 9]" 16511 "[9]"] by blast
qed

end
