(* ===== verification/Transaction.thy ===== *)
theory Transaction
  imports Params Serialize
begin

text \<open>
  Transactions: \<^verbatim>\<open>src/primitives/transaction.h\<close> and \<^verbatim>\<open>src/primitives/transaction.cpp\<close>,
  with the weight functions of \<^verbatim>\<open>src/consensus/validation.h\<close>. The hash functions are
  arguments (\<^verbatim>\<open>HashWriter\<close> hashes the bytes it is given). The lemmas show that the witness
  serialization is a codec: reading gives back what was written, every accepted byte string is the
  serialization of the transaction it decodes to, and the transaction id does not depend on the
  witness.
\<close>

section \<open>Model\<close>

type_synonym CScript = bytes

record COutPoint =
  op_hash :: uint256
  op_n :: u32

definition NULL_INDEX :: u32 where
  "NULL_INDEX = 0xffffffff"

definition COutPoint_SetNull :: COutPoint where
  "COutPoint_SetNull = \<lparr>op_hash = uint256_zero, op_n = NULL_INDEX\<rparr>"

definition COutPoint_IsNull :: "COutPoint \<Rightarrow> bool" where
  "COutPoint_IsNull outpoint \<longleftrightarrow> IsNull (op_hash outpoint) \<and> op_n outpoint = NULL_INDEX"

definition COutPoint_less :: "COutPoint \<Rightarrow> COutPoint \<Rightarrow> bool" where
  "COutPoint_less a b \<longleftrightarrow>
     Compare (op_hash a) (op_hash b) < 0 \<or>
     (\<not> Compare (op_hash b) (op_hash a) < 0 \<and> op_n a < op_n b)"

record CTxIn =
  prevout :: COutPoint
  scriptSig :: CScript
  nSequence :: u32
  scriptWitness :: "bytes list"

definition SEQUENCE_FINAL :: u32 where
  "SEQUENCE_FINAL = 0xffffffff"

definition MAX_SEQUENCE_NONFINAL :: u32 where
  "MAX_SEQUENCE_NONFINAL = SEQUENCE_FINAL - 1"

definition SEQUENCE_LOCKTIME_DISABLE_FLAG :: u32 where
  "SEQUENCE_LOCKTIME_DISABLE_FLAG = push_bit 31 1"

definition SEQUENCE_LOCKTIME_TYPE_FLAG :: u32 where
  "SEQUENCE_LOCKTIME_TYPE_FLAG = push_bit 22 1"

definition SEQUENCE_LOCKTIME_MASK :: u32 where
  "SEQUENCE_LOCKTIME_MASK = 0x0000ffff"

definition SEQUENCE_LOCKTIME_GRANULARITY :: nat where
  "SEQUENCE_LOCKTIME_GRANULARITY = 9"

record CTxOut =
  nValue :: CAmount
  scriptPubKey :: CScript

definition CTxOut_SetNull :: CTxOut where
  "CTxOut_SetNull = \<lparr>nValue = -1, scriptPubKey = []\<rparr>"

definition CTxOut_IsNull :: "CTxOut \<Rightarrow> bool" where
  "CTxOut_IsNull txout \<longleftrightarrow> nValue txout = -1"

record CTransaction =
  vin :: "CTxIn list"
  vout :: "CTxOut list"
  version :: u32
  nLockTime :: u32

subsection \<open>Serialization\<close>

definition ser_COutPoint :: "COutPoint \<Rightarrow> bytes" where
  "ser_COutPoint obj = ser_blob (op_hash obj) @ ser_writedata32 (op_n obj)"

definition unser_COutPoint :: "COutPoint reader" where
  "unser_COutPoint =
     rbind (unser_blob 32) (\<lambda>h. rbind ser_readdata32 (\<lambda>n. rret \<lparr>op_hash = h, op_n = n\<rparr>))"

definition ser_CTxIn :: "CTxIn \<Rightarrow> bytes" where
  "ser_CTxIn obj = ser_COutPoint (prevout obj) @ ser_bytevec (scriptSig obj) @ ser_writedata32 (nSequence obj)"

definition unser_CTxIn :: "CTxIn reader" where
  "unser_CTxIn =
     rbind unser_COutPoint (\<lambda>p. rbind unser_bytevec (\<lambda>sc. rbind ser_readdata32 (\<lambda>q.
       rret \<lparr>prevout = p, scriptSig = sc, nSequence = q, scriptWitness = []\<rparr>)))"

definition ser_CTxOut :: "CTxOut \<Rightarrow> bytes" where
  "ser_CTxOut obj = ser_int64 (nValue obj) @ ser_bytevec (scriptPubKey obj)"

definition unser_CTxOut :: "CTxOut reader" where
  "unser_CTxOut =
     rbind unser_int64 (\<lambda>v. rbind unser_bytevec (\<lambda>sc. rret \<lparr>nValue = v, scriptPubKey = sc\<rparr>))"

definition ser_stack :: "bytes list \<Rightarrow> bytes" where
  "ser_stack = VectorFormatter_Ser ser_bytevec"

definition unser_stack :: "bytes list reader" where
  "unser_stack = VectorFormatter_Unser unser_bytevec"

definition ComputeHasWitness :: "CTxIn list \<Rightarrow> bool" where
  "ComputeHasWitness ins = list_ex (\<lambda>input. scriptWitness input \<noteq> []) ins"

definition HasWitness :: "CTransaction \<Rightarrow> bool" where
  "HasWitness tx = ComputeHasWitness (vin tx)"

definition SerializeTransaction :: "bool \<Rightarrow> CTransaction \<Rightarrow> bytes" where
  "SerializeTransaction fAllowWitness tx =
     (let flags = (if fAllowWitness \<and> HasWitness tx then 1 else 0 :: u8) in
      ser_writedata32 (version tx) @
      (if flags \<noteq> 0 then VectorFormatter_Ser ser_CTxIn [] @ ser_writedata8 flags else []) @
      VectorFormatter_Ser ser_CTxIn (vin tx) @
      VectorFormatter_Ser ser_CTxOut (vout tx) @
      (if flags AND 1 \<noteq> 0 then concat (map (\<lambda>i. ser_stack (scriptWitness i)) (vin tx)) else []) @
      ser_writedata32 (nLockTime tx))"

fun read_witnesses :: "CTxIn list \<Rightarrow> CTxIn list reader" where
  "read_witnesses [] = rret []"
| "read_witnesses (i # ins) =
     rbind unser_stack (\<lambda>w. rbind (read_witnesses ins) (\<lambda>ins'. rret (i\<lparr>scriptWitness := w\<rparr> # ins')))"

definition read_vin_vout :: "bool \<Rightarrow> (u8 \<times> CTxIn list \<times> CTxOut list) reader" where
  "read_vin_vout fAllowWitness =
     rbind (VectorFormatter_Unser unser_CTxIn) (\<lambda>ins.
       if ins = [] \<and> fAllowWitness
       then rbind ser_readdata8 (\<lambda>flags.
              if flags \<noteq> 0
              then rbind (VectorFormatter_Unser unser_CTxIn) (\<lambda>ins.
                   rbind (VectorFormatter_Unser unser_CTxOut) (\<lambda>outs. rret (flags, ins, outs)))
              else rret (flags, [], []))
       else rbind (VectorFormatter_Unser unser_CTxOut) (\<lambda>outs. rret (0, ins, outs)))"

definition read_witness_part :: "bool \<Rightarrow> u8 \<Rightarrow> CTxIn list \<Rightarrow> (u8 \<times> CTxIn list) reader" where
  "read_witness_part fAllowWitness flags ins =
     (if flags AND 1 \<noteq> 0 \<and> fAllowWitness
      then rbind (read_witnesses ins) (\<lambda>ins'.
             if \<not> ComputeHasWitness ins' then rfail SuperfluousWitness else rret (flags XOR 1, ins'))
      else rret (flags, ins))"

definition UnserializeTransaction :: "bool \<Rightarrow> CTransaction reader" where
  "UnserializeTransaction fAllowWitness =
     rbind ser_readdata32 (\<lambda>ver.
     rbind (read_vin_vout fAllowWitness) (\<lambda>(flags, ins, outs).
     rbind (read_witness_part fAllowWitness flags ins) (\<lambda>(flags', ins').
       if flags' \<noteq> 0 then rfail UnknownOptionalData
       else rbind ser_readdata32 (\<lambda>lock.
              rret \<lparr>vin = ins', vout = outs, version = ver, nLockTime = lock\<rparr>))))"

subsection \<open>Derived values\<close>

text \<open>The sum is one of \<^verbatim>\<open>int64_t\<close> values without a check; \<open>None\<close> is its overflow.\<close>

fun accumulate_values :: "CAmount \<Rightarrow> CTxOut list \<Rightarrow> CAmount option" where
  "accumulate_values acc [] = Some acc"
| "accumulate_values acc (txout # outs) =
     (if fits_int64 (acc + nValue txout) then accumulate_values (acc + nValue txout) outs else None)"

definition CalculateOutputValue :: "CTransaction \<Rightarrow> CAmount option" where
  "CalculateOutputValue tx = accumulate_values 0 (vout tx)"

definition IsCoinBase :: "CTransaction \<Rightarrow> bool" where
  "IsCoinBase tx \<longleftrightarrow> length (vin tx) = 1 \<and> COutPoint_IsNull (prevout (vin tx ! 0))"

definition CTransaction_IsNull :: "CTransaction \<Rightarrow> bool" where
  "CTransaction_IsNull tx \<longleftrightarrow> vin tx = [] \<and> vout tx = []"

datatype value_error = ValueOutOfRange

text \<open>The loop of \<^verbatim>\<open>GetValueOut\<close>; the exception is \<open>Inl\<close>.\<close>

fun GetValueOut_loop :: "CAmount \<Rightarrow> CTxOut list \<Rightarrow> value_error + CAmount" where
  "GetValueOut_loop nValueOut [] = Inr nValueOut"
| "GetValueOut_loop nValueOut (tx_out # rest) =
     (if \<not> MoneyRange (nValue tx_out) \<or> \<not> MoneyRange (nValueOut + nValue tx_out)
      then Inl ValueOutOfRange
      else GetValueOut_loop (nValueOut + nValue tx_out) rest)"

definition GetValueOut :: "CTransaction \<Rightarrow> value_error + CAmount" where
  "GetValueOut tx = GetValueOut_loop 0 (vout tx)"

definition ComputeHash :: "(bytes \<Rightarrow> uint256) \<Rightarrow> CTransaction \<Rightarrow> uint256" where
  "ComputeHash H tx = H (SerializeTransaction False tx)"

definition ComputeWitnessHash :: "(bytes \<Rightarrow> uint256) \<Rightarrow> CTransaction \<Rightarrow> uint256" where
  "ComputeWitnessHash H tx =
     (if \<not> HasWitness tx then ComputeHash H tx else H (SerializeTransaction True tx))"

definition GetTotalSize :: "CTransaction \<Rightarrow> nat" where
  "GetTotalSize tx = length (SerializeTransaction True tx)"

definition WITNESS_SCALE_FACTOR :: nat where
  "WITNESS_SCALE_FACTOR = 4"

definition GetTransactionWeight :: "CTransaction \<Rightarrow> nat" where
  "GetTransactionWeight tx =
     length (SerializeTransaction False tx) * (WITNESS_SCALE_FACTOR - 1) +
     length (SerializeTransaction True tx)"

definition GetTransactionInputWeight :: "CTxIn \<Rightarrow> nat" where
  "GetTransactionInputWeight txin =
     length (ser_CTxIn txin) * (WITNESS_SCALE_FACTOR - 1) + length (ser_CTxIn txin) +
     length (ser_stack (scriptWitness txin))"

section \<open>Codecs of the parts\<close>

definition outpoint_ok :: "COutPoint \<Rightarrow> bool" where
  "outpoint_ok p \<longleftrightarrow> length (op_hash p) = 32"

definition txin_ok :: "CTxIn \<Rightarrow> bool" where
  "txin_ok i \<longleftrightarrow> outpoint_ok (prevout i) \<and> length (scriptSig i) \<le> unat MAX_SIZE"

definition txout_ok :: "CTxOut \<Rightarrow> bool" where
  "txout_ok out \<longleftrightarrow> fits_int64 (nValue out) \<and> length (scriptPubKey out) \<le> unat MAX_SIZE"

definition stack_ok :: "bytes list \<Rightarrow> bool" where
  "stack_ok = vec_ok (\<lambda>v. length v \<le> unat MAX_SIZE)"

text \<open>An input without its witness, as the basic format carries it.\<close>

definition strip :: "CTxIn \<Rightarrow> CTxIn" where
  "strip i = i\<lparr>scriptWitness := []\<rparr>"

lemma strip_simps [simp]:
  "prevout (strip i) = prevout i" "scriptSig (strip i) = scriptSig i" "nSequence (strip i) = nSequence i"
  "scriptWitness (strip i) = []" "txin_ok (strip i) = txin_ok i" "ser_CTxIn (strip i) = ser_CTxIn i"
  "strip (strip i) = strip i"
  by (simp_all add: strip_def txin_ok_def ser_CTxIn_def)

lemma strip_no_witness: "scriptWitness i = [] \<Longrightarrow> strip i = i"
  by (simp add: strip_def)

interpretation outpoint: codec outpoint_ok ser_COutPoint unser_COutPoint
proof
  fix p s s'
  show "outpoint_ok p \<Longrightarrow> unser_COutPoint (ser_COutPoint p @ s) = Inr (p, s)"
    by (simp add: unser_COutPoint_def ser_COutPoint_def outpoint_ok_def rbind_def blob256.dec_enc data32.dec_enc)
  show "unser_COutPoint s = Inr (p, s') \<Longrightarrow> outpoint_ok p \<and> s = ser_COutPoint p @ s'"
    by (auto simp: unser_COutPoint_def ser_COutPoint_def outpoint_ok_def rbind_Inr_iff int_codecs)
qed

interpretation txin: codec "\<lambda>i. txin_ok i \<and> scriptWitness i = []" ser_CTxIn unser_CTxIn
proof
  fix i s s'
  show "txin_ok i \<and> scriptWitness i = [] \<Longrightarrow> unser_CTxIn (ser_CTxIn i @ s) = Inr (i, s)"
    by (simp add: unser_CTxIn_def ser_CTxIn_def txin_ok_def rbind_def outpoint.dec_enc bytevec.dec_enc data32.dec_enc)
  show "unser_CTxIn s = Inr (i, s') \<Longrightarrow> (txin_ok i \<and> scriptWitness i = []) \<and> s = ser_CTxIn i @ s'"
    by (auto simp: unser_CTxIn_def ser_CTxIn_def txin_ok_def rbind_Inr_iff int_codecs outpoint.dec_iff bytevec.dec_iff)
qed

interpretation txout: codec txout_ok ser_CTxOut unser_CTxOut
proof
  fix out s s'
  show "txout_ok out \<Longrightarrow> unser_CTxOut (ser_CTxOut out @ s) = Inr (out, s)"
    by (simp add: unser_CTxOut_def ser_CTxOut_def txout_ok_def rbind_def int64.dec_enc bytevec.dec_enc)
  show "unser_CTxOut s = Inr (out, s') \<Longrightarrow> txout_ok out \<and> s = ser_CTxOut out @ s'"
    by (auto simp: unser_CTxOut_def ser_CTxOut_def txout_ok_def rbind_Inr_iff int_codecs bytevec.dec_iff)
qed

interpretation stack: codec stack_ok ser_stack unser_stack
  unfolding stack_ok_def ser_stack_def unser_stack_def by (rule codec_vector [OF bytevec.codec_axioms])

interpretation vins: codec "vec_ok (\<lambda>i. txin_ok i \<and> scriptWitness i = [])" "VectorFormatter_Ser ser_CTxIn"
    "VectorFormatter_Unser unser_CTxIn"
  by (rule codec_vector [OF txin.codec_axioms])

interpretation vouts: codec "vec_ok txout_ok" "VectorFormatter_Ser ser_CTxOut" "VectorFormatter_Unser unser_CTxOut"
  by (rule codec_vector [OF txout.codec_axioms])

section \<open>The transaction codec\<close>

lemma set_witness_iff: "i\<lparr>scriptWitness := w\<rparr> = j \<longleftrightarrow> strip j = strip i \<and> w = scriptWitness j"
  by (cases i; cases j) (auto simp: strip_def)

lemma read_witnesses_iff:
  "read_witnesses ins s = Inr (ins', s') \<longleftrightarrow>
     map strip ins' = map strip ins \<and> list_all (\<lambda>i. stack_ok (scriptWitness i)) ins' \<and>
     s = concat (map (\<lambda>i. ser_stack (scriptWitness i)) ins') @ s'"
proof (induction ins arbitrary: ins' s)
  case Nil
  then show ?case by auto
next
  case (Cons i ins)
  show ?case
  proof (cases ins')
    case Nil
    then show ?thesis by (auto simp: rbind_Inr_iff)
  next
    case (Cons j js)
    then show ?thesis
      by (auto simp: rbind_Inr_iff stack.dec_iff Cons.IH set_witness_iff)
  qed
qed

lemma vec_ok_Nil [simp]: "vec_ok ok []"
  by (simp add: vec_ok_def)

lemma vins_ok_split:
  "vec_ok (\<lambda>i. txin_ok i \<and> scriptWitness i = []) ins \<longleftrightarrow>
   vec_ok txin_ok ins \<and> list_all (\<lambda>i. scriptWitness i = []) ins"
  by (auto simp: vec_ok_def list_all_iff)

lemma ser_no_outputs: "VectorFormatter_Ser ser_CTxOut [] = ser_writedata8 0"
  by (simp add: VectorFormatter_Ser_def WriteCompactSize_def)

text \<open>The bytes from which the inputs and outputs are read, with the marker and flag if there is one.\<close>

definition vin_vout_wire :: "bool \<Rightarrow> u8 \<Rightarrow> CTxIn list \<Rightarrow> CTxOut list \<Rightarrow> bytes \<Rightarrow> bytes \<Rightarrow> bool" where
  "vin_vout_wire fAllowWitness flags ins outs s s' \<longleftrightarrow>
     vec_ok txin_ok ins \<and> list_all (\<lambda>i. scriptWitness i = []) ins \<and> vec_ok txout_ok outs \<and>
     (if fAllowWitness \<and> flags \<noteq> 0
      then s = VectorFormatter_Ser ser_CTxIn [] @ ser_writedata8 flags @
             VectorFormatter_Ser ser_CTxIn ins @ VectorFormatter_Ser ser_CTxOut outs @ s'
      else flags = 0 \<and> (fAllowWitness \<longrightarrow> ins \<noteq> [] \<or> outs = []) \<and>
           s = VectorFormatter_Ser ser_CTxIn ins @ VectorFormatter_Ser ser_CTxOut outs @ s')"

lemma read_vin_vout_accepts:
  assumes "vin_vout_wire fAllowWitness flags ins outs s s'"
  shows "read_vin_vout fAllowWitness s = Inr ((flags, ins, outs), s')"
proof -
  have ok: "vec_ok (\<lambda>i. txin_ok i \<and> scriptWitness i = []) ins" "vec_ok txout_ok outs"
    using assms by (simp_all add: vins_ok_split vin_vout_wire_def)
  show ?thesis
  proof (cases "fAllowWitness \<and> flags \<noteq> 0")
    case True
    with ok assms show ?thesis
      by (simp add: vin_vout_wire_def read_vin_vout_def rbind_def vins.dec_enc vouts.dec_enc data8.dec_enc)
  next
    case False
    with ok assms show ?thesis
      by (cases "ins = []")
         (auto simp: vin_vout_wire_def read_vin_vout_def rbind_def vins.dec_enc vouts.dec_enc
           data8.dec_enc ser_no_outputs)
  qed
qed

lemma read_vin_vout_canonical:
  assumes "read_vin_vout fAllowWitness s = Inr ((flags, ins, outs), s')"
  shows "vin_vout_wire fAllowWitness flags ins outs s s'"
proof -
  obtain ins0 t where 0: "vec_ok txin_ok ins0" "list_all (\<lambda>i. scriptWitness i = []) ins0"
    "s = VectorFormatter_Ser ser_CTxIn ins0 @ t"
    and rest: "(if ins0 = [] \<and> fAllowWitness
     then rbind ser_readdata8 (\<lambda>flags.
            if flags \<noteq> 0
            then rbind (VectorFormatter_Unser unser_CTxIn) (\<lambda>ins.
                 rbind (VectorFormatter_Unser unser_CTxOut) (\<lambda>outs. rret (flags, ins, outs)))
            else rret (flags, [], []))
     else rbind (VectorFormatter_Unser unser_CTxOut) (\<lambda>outs. rret (0, ins0, outs))) t = Inr ((flags, ins, outs), s')"
    using assms
    unfolding read_vin_vout_def rbind_Inr_iff [of "VectorFormatter_Unser unser_CTxIn"] vins.dec_iff vins_ok_split
    by blast
  show ?thesis
  proof (cases "ins0 = [] \<and> fAllowWitness")
    case True
    with rest obtain f u where f: "t = ser_writedata8 f @ u"
      and u: "(if f \<noteq> 0
            then rbind (VectorFormatter_Unser unser_CTxIn) (\<lambda>ins.
                 rbind (VectorFormatter_Unser unser_CTxOut) (\<lambda>outs. rret (f, ins, outs)))
            else rret (f, [], [])) u = Inr ((flags, ins, outs), s')"
      by (auto simp: rbind_Inr_iff [of ser_readdata8] data8.dec_iff)
    show ?thesis
      by (cases "f = 0")
         (use u f 0 True in \<open>auto simp: vin_vout_wire_def ser_no_outputs rbind_Inr_iff vins.dec_iff
           vouts.dec_iff vins_ok_split\<close>)
  next
    case False
    with rest 0 show ?thesis
      by (auto simp: vin_vout_wire_def rbind_Inr_iff vouts.dec_iff)
  qed
qed

lemma read_vin_vout_iff:
  "read_vin_vout fAllowWitness s = Inr ((flags, ins, outs), s') \<longleftrightarrow> vin_vout_wire fAllowWitness flags ins outs s s'"
  using read_vin_vout_accepts read_vin_vout_canonical by blast

lemma ser_vin_strip [simp]: "VectorFormatter_Ser ser_CTxIn (map strip ins) = VectorFormatter_Ser ser_CTxIn ins"
  by (simp add: VectorFormatter_Ser_def comp_def)

lemma vec_ok_strip [simp]: "vec_ok txin_ok (map strip ins) = vec_ok txin_ok ins"
  by (simp add: vec_ok_def list_all_iff)

lemma ser_vin_cong: "map strip ins = map strip ins' \<Longrightarrow> VectorFormatter_Ser ser_CTxIn ins = VectorFormatter_Ser ser_CTxIn ins'"
  by (metis ser_vin_strip)

lemma vec_ok_cong: "map strip ins = map strip ins' \<Longrightarrow> vec_ok txin_ok ins = vec_ok txin_ok ins'"
  by (metis vec_ok_strip)

lemma no_witness_iff: "\<not> ComputeHasWitness ins \<longleftrightarrow> list_all (\<lambda>i. scriptWitness i = []) ins"
  by (induction ins) (auto simp: ComputeHasWitness_def)

lemma witness_nonempty: "ComputeHasWitness ins \<Longrightarrow> ins \<noteq> []"
  by (auto simp: ComputeHasWitness_def)

lemma flags_xor: "(flags :: u8) XOR 1 = 0 \<longleftrightarrow> flags = 1"
proof -
  have "(flags XOR 1) XOR 1 = flags" by (simp add: xor.assoc)
  then show ?thesis by (metis xor.left_neutral xor_self_eq)
qed

lemma read_witness_part_iff:
  "read_witness_part True flags ins u = Inr ((0, ins'), w) \<longleftrightarrow>
     (if ComputeHasWitness ins'
      then flags = 1 \<and> map strip ins' = map strip ins \<and> list_all (\<lambda>i. stack_ok (scriptWitness i)) ins' \<and>
           u = concat (map (\<lambda>i. ser_stack (scriptWitness i)) ins') @ w
      else flags = 0 \<and> ins' = ins \<and> u = w) \<or>
     (flags = 0 \<and> ins' = ins \<and> u = w)"
  by (auto simp: read_witness_part_def rbind_Inr_iff read_witnesses_iff flags_xor)

definition tx_ok :: "CTransaction \<Rightarrow> bool" where
  "tx_ok tx \<longleftrightarrow> vec_ok txin_ok (vin tx) \<and> list_all (\<lambda>i. stack_ok (scriptWitness i)) (vin tx) \<and>
     vec_ok txout_ok (vout tx)"

text \<open>
  A transaction without inputs but with outputs cannot be told from the extended format, whose
  marker is an empty input vector; every other transaction can be written and read.
\<close>

definition tx_wire_ok :: "CTransaction \<Rightarrow> bool" where
  "tx_wire_ok tx \<longleftrightarrow> tx_ok tx \<and> (vin tx \<noteq> [] \<or> vout tx = [])"

lemma stack_ok_Nil [simp]: "stack_ok []"
  by (simp add: stack_ok_def)

lemma tx_dec_enc:
  assumes "tx_wire_ok tx"
  shows "UnserializeTransaction True (SerializeTransaction True tx @ s) = Inr (tx, s)"
proof -
  note ok = assms [unfolded tx_wire_ok_def tx_ok_def]
  let ?W = "concat (map (\<lambda>i. ser_stack (scriptWitness i)) (vin tx))"
  let ?rest = "ser_writedata32 (nLockTime tx) @ s"
  show ?thesis
  proof (cases "HasWitness tx")
    case True
    have "read_vin_vout True (VectorFormatter_Ser ser_CTxIn [] @ ser_writedata8 1 @ VectorFormatter_Ser ser_CTxIn (vin tx) @
        VectorFormatter_Ser ser_CTxOut (vout tx) @ ?W @ ?rest) = Inr ((1, map strip (vin tx), vout tx), ?W @ ?rest)"
      using ok by (simp add: read_vin_vout_iff vin_vout_wire_def list_all_iff)
    moreover have "read_witness_part True 1 (map strip (vin tx)) (?W @ ?rest) = Inr ((0, vin tx), ?rest)"
      using True ok by (simp add: read_witness_part_iff HasWitness_def)
    ultimately show ?thesis
      using True by (simp add: UnserializeTransaction_def SerializeTransaction_def rbind_def data32.dec_enc)
  next
    case False
    have "read_vin_vout True (VectorFormatter_Ser ser_CTxIn (vin tx) @ VectorFormatter_Ser ser_CTxOut (vout tx) @ ?rest) =
        Inr ((0, vin tx, vout tx), ?rest)"
      using ok False by (simp add: read_vin_vout_iff vin_vout_wire_def HasWitness_def no_witness_iff)
    moreover have "read_witness_part True 0 (vin tx) ?rest = Inr ((0, vin tx), ?rest)"
      by (simp add: read_witness_part_iff)
    ultimately show ?thesis
      using False by (simp add: UnserializeTransaction_def SerializeTransaction_def rbind_def data32.dec_enc)
  qed
qed

lemma tx_canonical:
  assumes "UnserializeTransaction True s = Inr (tx, s')"
  shows "tx_wire_ok tx \<and> s = SerializeTransaction True tx @ s'"
proof -
  obtain ver t flags ins outs u ins' w lock where
    r: "s = ser_writedata32 ver @ t" "read_vin_vout True t = Inr ((flags, ins, outs), u)"
      "read_witness_part True flags ins u = Inr ((0, ins'), w)" "w = ser_writedata32 lock @ s'"
      "tx = \<lparr>vin = ins', vout = outs, version = ver, nLockTime = lock\<rparr>"
    using assms by (auto simp: UnserializeTransaction_def rbind_Inr_iff data32.dec_iff split: if_splits)
  note vv = r(2) [unfolded read_vin_vout_iff vin_vout_wire_def] and ww = r(3) [unfolded read_witness_part_iff]
  show ?thesis
  proof (cases "flags = 0")
    case True
    then have i: "ins' = ins" "u = w" using ww by (auto split: if_splits)
    have nw: "\<not> HasWitness tx"
      using vv by (simp add: HasWitness_def r(5) i no_witness_iff)
    have "list_all (\<lambda>j. stack_ok (scriptWitness j)) ins"
      using vv by (auto simp: list_all_iff)
    then show ?thesis
      using True vv nw by (simp add: r i SerializeTransaction_def tx_wire_ok_def tx_ok_def)
  next
    case False
    then have i: "ComputeHasWitness ins'" "flags = 1" "map strip ins' = map strip ins"
      "list_all (\<lambda>i. stack_ok (scriptWitness i)) ins'" "u = concat (map (\<lambda>i. ser_stack (scriptWitness i)) ins') @ w"
      using ww by (auto split: if_splits)
    have "HasWitness tx" using i(1) by (simp add: HasWitness_def r(5))
    then show ?thesis
      using vv i ser_vin_cong [OF i(3)] vec_ok_cong [OF i(3)] witness_nonempty [OF i(1)]
      by (simp add: r SerializeTransaction_def tx_wire_ok_def tx_ok_def)
  qed
qed

interpretation tx: codec tx_wire_ok "SerializeTransaction True" "UnserializeTransaction True"
  by unfold_locales (use tx_dec_enc tx_canonical in blast)+

text \<open>The basic format carries everything but the witness.\<close>

definition strip_tx :: "CTransaction \<Rightarrow> CTransaction" where
  "strip_tx tx = tx\<lparr>vin := map strip (vin tx)\<rparr>"

lemma ser_strip_tx: "SerializeTransaction False (strip_tx tx) = SerializeTransaction False tx"
  by (simp add: SerializeTransaction_def strip_tx_def)

lemma no_witness_strip_tx: "\<not> HasWitness tx \<Longrightarrow> strip_tx tx = tx"
  by (simp add: HasWitness_def no_witness_iff strip_tx_def strip_no_witness list_all_iff map_idI)

lemma basic_iff:
  "UnserializeTransaction False s = Inr (tx, s') \<longleftrightarrow>
     tx_ok tx \<and> \<not> HasWitness tx \<and> s = SerializeTransaction False tx @ s'"
proof
  assume "UnserializeTransaction False s = Inr (tx, s')"
  then obtain ver t ins outs lock where
    r: "s = ser_writedata32 ver @ t" "read_vin_vout False t = Inr ((0, ins, outs), ser_writedata32 lock @ s')"
      "tx = \<lparr>vin = ins, vout = outs, version = ver, nLockTime = lock\<rparr>"
    by (auto simp: UnserializeTransaction_def read_witness_part_def rbind_Inr_iff data32.dec_iff split: if_splits)
  note vv = r(2) [unfolded read_vin_vout_iff vin_vout_wire_def]
  then have "list_all (\<lambda>j. stack_ok (scriptWitness j)) ins" by (auto simp: list_all_iff)
  with vv show "tx_ok tx \<and> \<not> HasWitness tx \<and> s = SerializeTransaction False tx @ s'"
    by (simp add: r SerializeTransaction_def tx_ok_def HasWitness_def no_witness_iff)
next
  assume ok: "tx_ok tx \<and> \<not> HasWitness tx \<and> s = SerializeTransaction False tx @ s'"
  have "read_vin_vout False (VectorFormatter_Ser ser_CTxIn (vin tx) @ VectorFormatter_Ser ser_CTxOut (vout tx) @
      ser_writedata32 (nLockTime tx) @ s') = Inr ((0, vin tx, vout tx), ser_writedata32 (nLockTime tx) @ s')"
    using ok by (simp add: read_vin_vout_iff vin_vout_wire_def HasWitness_def no_witness_iff tx_ok_def)
  then show "UnserializeTransaction False s = Inr (tx, s')"
    using ok by (simp add: UnserializeTransaction_def SerializeTransaction_def read_witness_part_def rbind_def data32.dec_enc)
qed

lemma tx_ok_strip: "tx_ok tx \<Longrightarrow> tx_ok (strip_tx tx) \<and> \<not> HasWitness (strip_tx tx)"
  by (simp add: tx_ok_def strip_tx_def HasWitness_def no_witness_iff list_all_iff)

lemma basic_inject:
  assumes "tx_ok a" "tx_ok b" "SerializeTransaction False a = SerializeTransaction False b"
  shows "strip_tx a = strip_tx b"
proof -
  have "UnserializeTransaction False (SerializeTransaction False a) = Inr (strip_tx a, [])"
    "UnserializeTransaction False (SerializeTransaction False b) = Inr (strip_tx b, [])"
    using tx_ok_strip [OF assms(1)] tx_ok_strip [OF assms(2)] by (simp_all add: basic_iff ser_strip_tx)
  with assms(3) show ?thesis by simp
qed

section \<open>Sizes and values\<close>

lemma witness_size:
  "length (SerializeTransaction True tx) = length (SerializeTransaction False tx) +
     (if HasWitness tx then 2 + (\<Sum>i\<leftarrow>vin tx. length (ser_stack (scriptWitness i))) else 0)"
proof -
  have "length (VectorFormatter_Ser ser_CTxIn []) = 1" "length (ser_writedata8 1) = 1"
    by (simp_all add: VectorFormatter_Ser_def length_WriteCompactSize GetSizeOfCompactSize_def ser_writedata8_def)
  then show ?thesis
    by (simp add: SerializeTransaction_def length_concat comp_def)
qed

lemma weight_eq:
  "GetTransactionWeight tx = 4 * length (SerializeTransaction False tx) +
     (if HasWitness tx then 2 + (\<Sum>i\<leftarrow>vin tx. length (ser_stack (scriptWitness i))) else 0)"
  by (simp add: GetTransactionWeight_def WITNESS_SCALE_FACTOR_def witness_size)

lemma sum_list_nonneg_values: "list_all (\<lambda>out. MoneyRange (nValue out)) outs \<Longrightarrow> 0 \<le> (\<Sum>out\<leftarrow>outs. nValue out)"
  by (induction outs) (simp_all add: MoneyRange_def)

lemma GetValueOut_loop_iff:
  "MoneyRange a \<Longrightarrow> GetValueOut_loop a outs = Inr v \<longleftrightarrow>
     list_all (\<lambda>out. MoneyRange (nValue out)) outs \<and> v = a + (\<Sum>out\<leftarrow>outs. nValue out) \<and> MoneyRange v"
proof (induction outs arbitrary: a)
  case Nil
  then show ?case by auto
next
  case (Cons out outs)
  have "MoneyRange (a + nValue out)"
    if "list_all (\<lambda>out. MoneyRange (nValue out)) outs" "MoneyRange (nValue out)"
      "MoneyRange (a + (nValue out + (\<Sum>out\<leftarrow>outs. nValue out)))"
    using that Cons.prems sum_list_nonneg_values [of outs] by (simp add: MoneyRange_def)
  with Cons show ?case by (auto simp: add.assoc)
qed

lemma accumulate_values_total:
  "MoneyRange a \<Longrightarrow> list_all (\<lambda>out. MoneyRange (nValue out)) outs \<Longrightarrow> MoneyRange (a + (\<Sum>out\<leftarrow>outs. nValue out)) \<Longrightarrow>
     accumulate_values a outs = Some (a + (\<Sum>out\<leftarrow>outs. nValue out))"
proof (induction outs arbitrary: a)
  case (Cons out outs)
  have r: "MoneyRange (a + nValue out)"
    using Cons.prems sum_list_nonneg_values [of outs] by (simp add: MoneyRange_def)
  then have "fits_int64 (a + nValue out)" by (simp add: MoneyRange_def MAX_MONEY_def COIN_def int_limits)
  then show ?case using Cons.IH [OF r] Cons.prems by (simp add: add.assoc)
qed simp

lemma CalculateOutputValue_checked:
  "list_all (\<lambda>out. MoneyRange (nValue out)) (vout tx) \<Longrightarrow> MoneyRange (\<Sum>out\<leftarrow>vout tx. nValue out) \<Longrightarrow>
     CalculateOutputValue tx = Some (\<Sum>out\<leftarrow>vout tx. nValue out)"
  using accumulate_values_total [of 0 "vout tx"] by (simp add: CalculateOutputValue_def MoneyRange_def MAX_MONEY_def COIN_def)

section \<open>Properties\<close>

text \<open>
  C14. The witness format of transactions is canonical: \<^verbatim>\<open>UnserializeTransaction\<close> accepts
  exactly the byte strings that \<^verbatim>\<open>SerializeTransaction\<close> produces, with the rest of the stream
  untouched. A transaction that fits the wire (sizes, 64-bit amounts, not the ambiguous case of
  outputs without inputs) is read back as itself, and a byte string that is accepted is the
  serialization of what it decodes to: superfluous witness records and unknown flags are refused.
\<close>

theorem transaction_wire_format:
  "UnserializeTransaction True s = Inr (tx, s') \<longleftrightarrow> tx_wire_ok tx \<and> s = SerializeTransaction True tx @ s'"
  by (rule tx.dec_iff)

text \<open>
  The transaction id commits to the transaction without its witness and to nothing else:
  adding, removing or changing witnesses leaves it alone, and two well-formed transactions with the
  same hashed bytes agree in every other field. The weight counts the witness bytes once and all
  other bytes four times.
\<close>

theorem txid_commitment:
  assumes "tx_ok a" "tx_ok b"
  shows "(strip_tx a = strip_tx b \<longrightarrow> ComputeHash H a = ComputeHash H b) \<and>
    (SerializeTransaction False a = SerializeTransaction False b \<longrightarrow> strip_tx a = strip_tx b) \<and>
    GetTransactionWeight a = 4 * length (SerializeTransaction False a) +
      (if HasWitness a then 2 + (\<Sum>i\<leftarrow>vin a. length (ser_stack (scriptWitness i))) else 0)"
proof (intro conjI impI)
  show "ComputeHash H a = ComputeHash H b" if "strip_tx a = strip_tx b"
    using ser_strip_tx [of a] ser_strip_tx [of b] that by (simp add: ComputeHash_def)
qed (use assms basic_inject weight_eq in blast)+

definition sample_in :: "bytes list \<Rightarrow> CTxIn" where
  "sample_in w = \<lparr>prevout = \<lparr>op_hash = uint256_zero, op_n = 1\<rparr>, scriptSig = [1], nSequence = 5, scriptWitness = w\<rparr>"

definition sample_tx :: "bytes list \<Rightarrow> CTransaction" where
  "sample_tx w = \<lparr>vin = [sample_in w], vout = [\<lparr>nValue = 7, scriptPubKey = [2]\<rparr>], version = 2, nLockTime = 0\<rparr>"

theorem txid_commitment_witness:
  "ComputeHash (\<lambda>bs. take 32 bs) (sample_tx [[1]]) = ComputeHash (\<lambda>bs. take 32 bs) (sample_tx []) \<and>
   GetTransactionWeight (sample_tx []) = 4 * length (SerializeTransaction False (sample_tx []))"
proof -
  have "tx_ok (sample_tx [[1]])" "tx_ok (sample_tx [])"
    by (simp_all add: tx_ok_def sample_tx_def sample_in_def vec_ok_def txin_ok_def outpoint_ok_def
        txout_ok_def stack_ok_def MAX_SIZE_nat int_limits uint256_zero_def)
  moreover have "strip_tx (sample_tx [[1]]) = strip_tx (sample_tx [])" "\<not> HasWitness (sample_tx [])"
    by (simp_all add: strip_tx_def strip_def sample_tx_def sample_in_def HasWitness_def ComputeHasWitness_def)
  ultimately show ?thesis
    using txid_commitment [of "sample_tx [[1]]" "sample_tx []" "\<lambda>bs. take 32 bs"]
      txid_commitment [of "sample_tx []" "sample_tx []"] by simp
qed

text \<open>
  C29. \<^verbatim>\<open>GetValueOut\<close> throws exactly when an output or the total is out of the money range,
  and otherwise returns the sum of the outputs, which is what \<^verbatim>\<open>CalculateOutputValue\<close> computes without
  overflow; the running sum stays within 64 bits throughout.
\<close>

theorem GetValueOut_sum:
  "(GetValueOut tx = Inr v \<longleftrightarrow>
     list_all (\<lambda>out. MoneyRange (nValue out)) (vout tx) \<and> v = (\<Sum>out\<leftarrow>vout tx. nValue out) \<and> CalculateOutputValue tx = Some v \<and> MoneyRange v) \<and>
   (MoneyRange a \<and> MoneyRange b \<longrightarrow> fits_int64 (a + b))"
  using GetValueOut_loop_iff [of 0 "vout tx" v] CalculateOutputValue_checked [of tx]
  by (auto simp: GetValueOut_def MoneyRange_def MAX_MONEY_def COIN_def int_limits)

theorem GetValueOut_sum_witness:
  "GetValueOut (sample_tx []) = Inr 7 \<and> fits_int64 (MAX_MONEY + MAX_MONEY)"
  using GetValueOut_sum [of "sample_tx []" 7 MAX_MONEY MAX_MONEY]
  by (simp add: sample_tx_def CalculateOutputValue_def MoneyRange_def MAX_MONEY_def COIN_def int_limits)

end
