(* ===== verification/Block.thy ===== *)
theory Block
  imports Transaction
begin

text \<open>
  Block headers, blocks and locators: \<^verbatim>\<open>src/primitives/block.h\<close> and
  \<^verbatim>\<open>src/primitives/block.cpp\<close>, with the block functions of
  \<^verbatim>\<open>src/consensus/validation.h\<close>. A block extends the header record as the class inherits
  from \<^verbatim>\<open>CBlockHeader\<close>; BLAKE3, which hashes the 80 header bytes, is an argument. The lemmas
  give the codecs of headers and blocks and the fact that the header hash commits to every field.
\<close>

section \<open>Model\<close>

record CBlockHeader =
  bh_nVersion :: int
  hashPrevBlock :: uint256
  bh_hashMerkleRoot :: uint256
  bh_nTime :: u32
  bh_nBits :: u32
  bh_nNonce :: u32

record CBlock = CBlockHeader +
  vtx :: "CTransaction list"
  fChecked :: bool
  m_checked_witness_commitment :: bool
  m_checked_merkle_root :: bool

definition CBlockHeader_SetNull :: CBlockHeader where
  "CBlockHeader_SetNull =
     \<lparr>bh_nVersion = 0, hashPrevBlock = uint256_zero, bh_hashMerkleRoot = uint256_zero,
      bh_nTime = 0, bh_nBits = 0, bh_nNonce = 0\<rparr>"

definition CBlockHeader_IsNull :: "'a CBlockHeader_scheme \<Rightarrow> bool" where
  "CBlockHeader_IsNull h \<longleftrightarrow> bh_nBits h = 0"

definition CBlockHeader_GetBlockTime :: "'a CBlockHeader_scheme \<Rightarrow> int" where
  "CBlockHeader_GetBlockTime h = uint (bh_nTime h)"

text \<open>\<^verbatim>\<open>CBlock(const CBlockHeader&)\<close> and \<^verbatim>\<open>CBlock::GetBlockHeader\<close>.\<close>

definition CBlock_of_header :: "CBlockHeader \<Rightarrow> CBlock" where
  "CBlock_of_header h =
     \<lparr>bh_nVersion = bh_nVersion h, hashPrevBlock = hashPrevBlock h,
      bh_hashMerkleRoot = bh_hashMerkleRoot h, bh_nTime = bh_nTime h, bh_nBits = bh_nBits h,
      bh_nNonce = bh_nNonce h, vtx = [], fChecked = False, m_checked_witness_commitment = False,
      m_checked_merkle_root = False\<rparr>"

definition CBlock_GetBlockHeader :: "'a CBlockHeader_scheme \<Rightarrow> CBlockHeader" where
  "CBlock_GetBlockHeader b =
     \<lparr>bh_nVersion = bh_nVersion b, hashPrevBlock = hashPrevBlock b,
      bh_hashMerkleRoot = bh_hashMerkleRoot b, bh_nTime = bh_nTime b, bh_nBits = bh_nBits b,
      bh_nNonce = bh_nNonce b\<rparr>"

definition ser_CBlockHeader :: "'a CBlockHeader_scheme \<Rightarrow> bytes" where
  "ser_CBlockHeader obj =
     ser_int32 (bh_nVersion obj) @ ser_blob (hashPrevBlock obj) @ ser_blob (bh_hashMerkleRoot obj) @
     ser_writedata32 (bh_nTime obj) @ ser_writedata32 (bh_nBits obj) @ ser_writedata32 (bh_nNonce obj)"

definition unser_CBlockHeader :: "CBlockHeader reader" where
  "unser_CBlockHeader =
     rbind unser_int32 (\<lambda>ver. rbind (unser_blob 32) (\<lambda>prev. rbind (unser_blob 32) (\<lambda>root.
     rbind ser_readdata32 (\<lambda>tm. rbind ser_readdata32 (\<lambda>bts. rbind ser_readdata32 (\<lambda>non.
       rret \<lparr>bh_nVersion = ver, hashPrevBlock = prev, bh_hashMerkleRoot = root,
             bh_nTime = tm, bh_nBits = bts, bh_nNonce = non\<rparr>))))))"

definition GetHash :: "(bytes \<Rightarrow> uint256) \<Rightarrow> 'a CBlockHeader_scheme \<Rightarrow> uint256" where
  "GetHash blake3 h = blake3 (ser_CBlockHeader h)"

definition ser_CBlock :: "bool \<Rightarrow> CBlock \<Rightarrow> bytes" where
  "ser_CBlock fAllowWitness obj =
     ser_CBlockHeader obj @ VectorFormatter_Ser (SerializeTransaction fAllowWitness) (vtx obj)"

definition unser_CBlock :: "bool \<Rightarrow> CBlock reader" where
  "unser_CBlock fAllowWitness =
     rbind unser_CBlockHeader (\<lambda>h.
     rbind (VectorFormatter_Unser (UnserializeTransaction fAllowWitness)) (\<lambda>txs.
       rret ((CBlock_of_header h)\<lparr>vtx := txs\<rparr>)))"

definition GetBlockWeight :: "CBlock \<Rightarrow> nat" where
  "GetBlockWeight block =
     length (ser_CBlock False block) * (WITNESS_SCALE_FACTOR - 1) + length (ser_CBlock True block)"

subsection \<open>The witness commitment output\<close>

definition OP_RETURN :: byte where
  "OP_RETURN = 0x6a"

definition NO_WITNESS_COMMITMENT :: int where
  "NO_WITNESS_COMMITMENT = -1"

definition MINIMUM_WITNESS_COMMITMENT :: nat where
  "MINIMUM_WITNESS_COMMITMENT = 38"

definition is_commitment :: "CScript \<Rightarrow> bool" where
  "is_commitment spk \<longleftrightarrow>
     MINIMUM_WITNESS_COMMITMENT \<le> length spk \<and> spk ! 0 = OP_RETURN \<and> spk ! 1 = 0x24 \<and>
     spk ! 2 = 0xaa \<and> spk ! 3 = 0x21 \<and> spk ! 4 = 0xa9 \<and> spk ! 5 = 0xed"

fun commitment_loop :: "int \<Rightarrow> int \<Rightarrow> CTxOut list \<Rightarrow> int" where
  "commitment_loop pos _ [] = pos"
| "commitment_loop pos o_idx (out # outs) =
     commitment_loop (if is_commitment (scriptPubKey out) then o_idx else pos) (o_idx + 1) outs"

definition GetWitnessCommitmentIndex :: "CBlock \<Rightarrow> int" where
  "GetWitnessCommitmentIndex block =
     (case vtx block of
        [] \<Rightarrow> NO_WITNESS_COMMITMENT
      | coinbase # _ \<Rightarrow> commitment_loop NO_WITNESS_COMMITMENT 0 (vout coinbase))"

subsection \<open>Locators\<close>

record CBlockLocator =
  vHave :: "uint256 list"

definition LOCATOR_DUMMY_VERSION :: int where
  "LOCATOR_DUMMY_VERSION = 70016"

definition ser_CBlockLocator :: "CBlockLocator \<Rightarrow> bytes" where
  "ser_CBlockLocator obj =
     ser_int32 LOCATOR_DUMMY_VERSION @ VectorFormatter_Ser ser_blob (vHave obj)"

definition unser_CBlockLocator :: "CBlockLocator reader" where
  "unser_CBlockLocator =
     rbind unser_int32 (\<lambda>_. rbind (VectorFormatter_Unser (unser_blob 32)) (\<lambda>have. rret \<lparr>vHave = have\<rparr>))"

section \<open>Codecs\<close>

definition header_ok :: "'a CBlockHeader_scheme \<Rightarrow> bool" where
  "header_ok h \<longleftrightarrow> fits_int32 (bh_nVersion h) \<and> length (hashPrevBlock h) = 32 \<and> length (bh_hashMerkleRoot h) = 32"

interpretation header: codec header_ok ser_CBlockHeader unser_CBlockHeader
proof
  fix h :: CBlockHeader and s s'
  show "header_ok h \<Longrightarrow> unser_CBlockHeader (ser_CBlockHeader h @ s) = Inr (h, s)"
    by (simp add: unser_CBlockHeader_def ser_CBlockHeader_def header_ok_def rbind_def
        blob256.dec_enc data32.dec_enc int32.dec_enc)
  show "unser_CBlockHeader s = Inr (h, s') \<Longrightarrow> header_ok h \<and> s = ser_CBlockHeader h @ s'"
    by (auto simp: unser_CBlockHeader_def ser_CBlockHeader_def header_ok_def rbind_Inr_iff int_codecs)
qed

definition block_wire_ok :: "CBlock \<Rightarrow> bool" where
  "block_wire_ok b \<longleftrightarrow> header_ok b \<and> vec_ok tx_wire_ok (vtx b) \<and>
     \<not> fChecked b \<and> \<not> m_checked_witness_commitment b \<and> \<not> m_checked_merkle_root b"

interpretation txs: codec "vec_ok tx_wire_ok" "VectorFormatter_Ser (SerializeTransaction True)"
    "VectorFormatter_Unser (UnserializeTransaction True)"
  by (rule codec_vector [OF tx.codec_axioms])

lemma block_parts:
  "block_wire_ok b \<Longrightarrow> (CBlock_of_header (CBlock_GetBlockHeader b))\<lparr>vtx := vtx b\<rparr> = b"
  by (simp add: block_wire_ok_def CBlock_of_header_def CBlock_GetBlockHeader_def)

lemma header_of_block [simp]:
  "ser_CBlockHeader (CBlock_GetBlockHeader b) = ser_CBlockHeader b"
  "header_ok (CBlock_GetBlockHeader b) = header_ok b"
  "ser_CBlockHeader ((CBlock_of_header h)\<lparr>vtx := txs\<rparr>) = ser_CBlockHeader h"
  "header_ok ((CBlock_of_header h)\<lparr>vtx := txs\<rparr>) = header_ok h"
  by (simp_all add: ser_CBlockHeader_def CBlock_GetBlockHeader_def CBlock_of_header_def header_ok_def)

interpretation block: codec block_wire_ok "ser_CBlock True" "unser_CBlock True"
proof
  fix b s s'
  show "unser_CBlock True (ser_CBlock True b @ s) = Inr (b, s)" if ok: "block_wire_ok b"
  proof -
    have "unser_CBlockHeader (ser_CBlockHeader b @ t) = Inr (CBlock_GetBlockHeader b, t)" for t
      using header.dec_enc [of "CBlock_GetBlockHeader b" t] ok by (simp add: block_wire_ok_def)
    then show ?thesis
      using ok block_parts [OF ok]
      by (simp add: unser_CBlock_def ser_CBlock_def rbind_def txs.dec_enc block_wire_ok_def)
  qed
  show "block_wire_ok b \<and> s = ser_CBlock True b @ s'" if "unser_CBlock True s = Inr (b, s')"
    using that
    by (auto simp: unser_CBlock_def ser_CBlock_def rbind_Inr_iff header.dec_iff txs.dec_iff block_wire_ok_def)
       (simp_all add: CBlock_of_header_def)
qed

interpretation hashes: codec "vec_ok (\<lambda>b. length b = 32)" "VectorFormatter_Ser ser_blob"
    "VectorFormatter_Unser (unser_blob 32)"
  by (rule codec_vector [OF blob256.codec_axioms])

lemma length_ser_CBlockHeader: "header_ok h \<Longrightarrow> length (ser_CBlockHeader h) = 80"
  by (simp add: ser_CBlockHeader_def header_ok_def ser_int32_def ser_writedata32_def ser_blob_def)

lemma header_inject:
  assumes "header_ok g" "header_ok h" "ser_CBlockHeader g = ser_CBlockHeader h"
  shows "CBlock_GetBlockHeader g = CBlock_GetBlockHeader h"
  using header.enc_inject [of "CBlock_GetBlockHeader g" "CBlock_GetBlockHeader h" "[]" "[]"] assms by simp

text \<open>The commitment is the last matching output of the coinbase transaction.\<close>

lemma commitment_loop_last:
  "commitment_loop pos i outs =
     (if \<exists>k < length outs. is_commitment (scriptPubKey (outs ! k))
      then i + int (Max {k. k < length outs \<and> is_commitment (scriptPubKey (outs ! k))}) else pos)"
proof (induction outs arbitrary: pos i rule: rev_induct)
  case Nil
  then show ?case by simp
next
  case (snoc out outs)
  have app: "commitment_loop pos i (xs @ [out]) =
      (if is_commitment (scriptPubKey out) then i + int (length xs) else commitment_loop pos i xs)" for pos i xs
    by (induction xs arbitrary: pos i) simp_all
  let ?S = "\<lambda>os. {k. k < length os \<and> is_commitment (scriptPubKey (os ! k))}"
  show ?case
  proof (cases "is_commitment (scriptPubKey out)")
    case True
    then have "Max (?S (outs @ [out])) = length outs"
      by (intro Max_eqI) auto
    with True show ?thesis by (auto simp: app)
  next
    case False
    then have "?S (outs @ [out]) = ?S outs"
      by (auto simp: nth_append less_Suc_eq)
    moreover have "(\<exists>k < length (outs @ [out]). is_commitment (scriptPubKey ((outs @ [out]) ! k))) \<longleftrightarrow>
        (\<exists>k < length outs. is_commitment (scriptPubKey (outs ! k)))"
      using False by (auto simp: nth_append less_Suc_eq)
    ultimately show ?thesis by (simp only: app False snoc.IH if_False)
  qed
qed

section \<open>Properties\<close>

text \<open>
  C23. Blocks have a canonical wire format too: \<^verbatim>\<open>CBlock\<close> deserialization with witnesses
  accepts exactly the serializations of well-formed blocks. The header is always 80 bytes, and two
  headers with the same hashed bytes are the same in every field, so a header hash commits to the
  whole header.
\<close>

theorem block_wire_format:
  "(unser_CBlock True s = Inr (b, s') \<longleftrightarrow> block_wire_ok b \<and> s = ser_CBlock True b @ s') \<and>
   (header_ok g \<and> header_ok h \<longrightarrow> length (ser_CBlockHeader g) = 80 \<and>
      (ser_CBlockHeader g = ser_CBlockHeader h \<longrightarrow> CBlock_GetBlockHeader g = CBlock_GetBlockHeader h))"
  using block.dec_iff [of s b s'] length_ser_CBlockHeader [of g] header_inject [of g h] by blast

theorem block_wire_format_witness:
  "length (ser_CBlockHeader CBlockHeader_SetNull) = 80 \<and>
   unser_CBlock True (ser_CBlock True (CBlock_of_header CBlockHeader_SetNull)) =
     Inr (CBlock_of_header CBlockHeader_SetNull, [])"
proof -
  have "header_ok CBlockHeader_SetNull" "block_wire_ok (CBlock_of_header CBlockHeader_SetNull)"
    by (simp_all add: CBlockHeader_SetNull_def CBlock_of_header_def block_wire_ok_def header_ok_def
        int_limits uint256_zero_def)
  then show ?thesis
    using block_wire_format [of "ser_CBlock True (CBlock_of_header CBlockHeader_SetNull)"
        "CBlock_of_header CBlockHeader_SetNull" "[]" CBlockHeader_SetNull CBlockHeader_SetNull] by simp
qed

end
