(* ===== verification/Chain.thy ===== *)
theory Chain
  imports Block
begin

text \<open>
  The block index and the active chain: \<^verbatim>\<open>src/chain.h\<close> and \<^verbatim>\<open>src/chain.cpp\<close>. The
  entries live in \<^verbatim>\<open>BlockManager::m_block_index\<close>, a hash map whose nodes never move, so a
  pointer to an entry is modelled by the key of the entry and the store is a map from keys to
  entries. A failed assertion or a dereference outside the store is \<open>None\<close>. The pointer-chasing
  loops are \<open>partial_function\<close>s; the lemmas show that on a well-formed index they end and that the
  skip list, the tip update, the fork search, the locator and the binary search compute what their
  naive versions compute.
\<close>

section \<open>Model\<close>

subsection \<open>Block files\<close>

record CBlockFileInfo =
  nBlocks :: u32
  nSize :: u32
  nUndoSize :: u32
  nHeightFirst :: u32
  nHeightLast :: u32
  nTimeFirst :: u64
  nTimeLast :: u64

definition AddBlock :: "u32 \<Rightarrow> u64 \<Rightarrow> CBlockFileInfo \<Rightarrow> CBlockFileInfo" where
  "AddBlock nHeightIn nTimeIn f =
     f\<lparr>nHeightFirst := (if nBlocks f = 0 \<or> nHeightFirst f > nHeightIn then nHeightIn else nHeightFirst f),
       nTimeFirst := (if nBlocks f = 0 \<or> nTimeFirst f > nTimeIn then nTimeIn else nTimeFirst f),
       nBlocks := nBlocks f + 1,
       nHeightLast := (if nHeightIn > nHeightLast f then nHeightIn else nHeightLast f),
       nTimeLast := (if nTimeIn > nTimeLast f then nTimeIn else nTimeLast f)\<rparr>"

subsection \<open>Status\<close>

definition BLOCK_VALID_UNKNOWN :: u32 where "BLOCK_VALID_UNKNOWN = 0"
definition BLOCK_VALID_RESERVED :: u32 where "BLOCK_VALID_RESERVED = 1"
definition BLOCK_VALID_TREE :: u32 where "BLOCK_VALID_TREE = 2"
definition BLOCK_VALID_TRANSACTIONS :: u32 where "BLOCK_VALID_TRANSACTIONS = 3"
definition BLOCK_VALID_CHAIN :: u32 where "BLOCK_VALID_CHAIN = 4"
definition BLOCK_VALID_SCRIPTS :: u32 where "BLOCK_VALID_SCRIPTS = 5"

definition BLOCK_VALID_MASK :: u32 where
  "BLOCK_VALID_MASK =
     BLOCK_VALID_RESERVED OR BLOCK_VALID_TREE OR BLOCK_VALID_TRANSACTIONS OR
     BLOCK_VALID_CHAIN OR BLOCK_VALID_SCRIPTS"

definition BLOCK_HAVE_DATA :: u32 where "BLOCK_HAVE_DATA = 8"
definition BLOCK_HAVE_UNDO :: u32 where "BLOCK_HAVE_UNDO = 16"
definition BLOCK_FAILED_VALID :: u32 where "BLOCK_FAILED_VALID = 32"
definition BLOCK_FAILED_CHILD :: u32 where "BLOCK_FAILED_CHILD = 64"

definition BLOCK_FAILED_MASK :: u32 where
  "BLOCK_FAILED_MASK = BLOCK_FAILED_VALID OR BLOCK_FAILED_CHILD"

subsection \<open>Index entries\<close>

type_synonym ptr = uint256

record CBlockIndex =
  phashBlock :: "uint256 option"
  pprev :: "ptr option"
  pskip :: "ptr option"
  nHeight :: int
  nFile :: int
  nDataPos :: u32
  nUndoPos :: u32
  nChainWork :: arith_uint256
  nTx :: u32
  m_chain_tx_count :: u64
  nStatus :: u32
  nVersion :: int
  hashMerkleRoot :: uint256
  nTime :: u32
  nBits :: u32
  nNonce :: u32
  nSequenceId :: int
  nTimeMax :: u32

type_synonym BlockMap = "ptr \<rightharpoonup> CBlockIndex"

definition CBlockIndex_of_header :: "'a CBlockHeader_scheme \<Rightarrow> CBlockIndex" where
  "CBlockIndex_of_header block =
     \<lparr>phashBlock = None, pprev = None, pskip = None, nHeight = 0, nFile = 0, nDataPos = 0,
      nUndoPos = 0, nChainWork = base_uint_zero WIDTH256, nTx = 0, m_chain_tx_count = 0,
      nStatus = 0, nVersion = bh_nVersion block, hashMerkleRoot = bh_hashMerkleRoot block,
      nTime = bh_nTime block, nBits = bh_nBits block, nNonce = bh_nNonce block,
      nSequenceId = 0, nTimeMax = 0\<rparr>"

text \<open>The result of \<^verbatim>\<open>GetBlockHeader\<close> is \<open>None\<close> if the predecessor has no hash.\<close>

definition GetBlockHeader :: "BlockMap \<Rightarrow> CBlockIndex \<Rightarrow> CBlockHeader option" where
  "GetBlockHeader m b =
     (let header = (\<lambda>prev. \<lparr>bh_nVersion = nVersion b, hashPrevBlock = prev,
            bh_hashMerkleRoot = hashMerkleRoot b, bh_nTime = nTime b, bh_nBits = nBits b,
            bh_nNonce = nNonce b\<rparr>)
      in case pprev b of
           None \<Rightarrow> Some (header uint256_zero)
         | Some q \<Rightarrow> (case m q of None \<Rightarrow> None | Some c \<Rightarrow> map_option header (phashBlock c)))"

definition HaveNumChainTxs :: "CBlockIndex \<Rightarrow> bool" where
  "HaveNumChainTxs b \<longleftrightarrow> m_chain_tx_count b \<noteq> 0"

definition GetBlockTime :: "CBlockIndex \<Rightarrow> int" where
  "GetBlockTime b = uint (nTime b)"

definition GetBlockTimeMax :: "CBlockIndex \<Rightarrow> int" where
  "GetBlockTimeMax b = uint (nTimeMax b)"

definition nMedianTimeSpan :: nat where
  "nMedianTimeSpan = 11"

fun median_times :: "BlockMap \<Rightarrow> nat \<Rightarrow> ptr option \<Rightarrow> int list" where
  "median_times m 0 pindex = []"
| "median_times m (Suc i) None = []"
| "median_times m (Suc i) (Some p) =
     (case m p of None \<Rightarrow> [] | Some b \<Rightarrow> GetBlockTime b # median_times m i (pprev b))"

definition GetMedianTimePast :: "BlockMap \<Rightarrow> ptr \<Rightarrow> int" where
  "GetMedianTimePast m p =
     (let pmedian = sort (median_times m nMedianTimeSpan (Some p)) in pmedian ! (length pmedian div 2))"

definition IsValid :: "CBlockIndex \<Rightarrow> u32 \<Rightarrow> bool option" where
  "IsValid b nUpTo =
     (if nUpTo AND NOT BLOCK_VALID_MASK \<noteq> 0 then None
      else if nStatus b AND BLOCK_FAILED_MASK \<noteq> 0 then Some False
      else Some (nStatus b AND BLOCK_VALID_MASK \<ge> nUpTo))"

definition RaiseValidity :: "CBlockIndex \<Rightarrow> u32 \<Rightarrow> (bool \<times> CBlockIndex) option" where
  "RaiseValidity b nUpTo =
     (if nUpTo AND NOT BLOCK_VALID_MASK \<noteq> 0 then None
      else if nStatus b AND BLOCK_FAILED_MASK \<noteq> 0 then Some (False, b)
      else if nStatus b AND BLOCK_VALID_MASK < nUpTo
      then Some (True, b\<lparr>nStatus := (nStatus b AND NOT BLOCK_VALID_MASK) OR nUpTo\<rparr>)
      else Some (False, b))"

subsection \<open>The skip list\<close>

definition InvertLowestOne :: "int \<Rightarrow> int" where
  "InvertLowestOne n = n AND (n - 1)"

definition GetSkipHeight :: "int \<Rightarrow> int" where
  "GetSkipHeight height =
     (if height < 2 then 0
      else if height AND 1 \<noteq> 0 then InvertLowestOne (InvertLowestOne (height - 1)) + 1
      else InvertLowestOne height)"

lemma InvertLowestOne_bounds: "0 < n \<Longrightarrow> 0 \<le> InvertLowestOne n \<and> InvertLowestOne n < n"
  using AND_upper1 [of "n - 1" n] by (simp add: InvertLowestOne_def and.commute)

lemma InvertLowestOne_0: "InvertLowestOne 0 = 0"
  by (simp add: InvertLowestOne_def)

lemma GetSkipHeight_bounds: "0 < h \<Longrightarrow> 0 \<le> GetSkipHeight h \<and> GetSkipHeight h < h"
proof -
  assume h: "0 < h"
  show ?thesis
  proof (cases "h < 2 \<or> h AND 1 = 0")
    case True
    then show ?thesis using h InvertLowestOne_bounds [of h] by (auto simp: GetSkipHeight_def)
  next
    case False
    let ?a = "InvertLowestOne (h - 1)"
    have a: "0 \<le> ?a \<and> ?a < h - 1" using False InvertLowestOne_bounds [of "h - 1"] by simp
    then have "0 \<le> InvertLowestOne ?a \<and> InvertLowestOne ?a \<le> ?a"
      using InvertLowestOne_bounds [of ?a] by (cases "?a = 0") (auto simp: InvertLowestOne_0)
    with a False show ?thesis by (simp add: GetSkipHeight_def)
  qed
qed

text \<open>
  The walk of \<^verbatim>\<open>GetAncestor\<close>. The caller has \<open>0 \<le> height\<close>, so the second disjunct of the
  exit, which makes the recursion well-founded for any argument, adds nothing.
\<close>

function ancestor_walk :: "BlockMap \<Rightarrow> ptr \<Rightarrow> int \<Rightarrow> int \<Rightarrow> ptr option" where
  "ancestor_walk m pindexWalk heightWalk height =
     (if heightWalk \<le> height \<or> heightWalk \<le> 0 then Some pindexWalk
      else case m pindexWalk of
        None \<Rightarrow> None
      | Some b \<Rightarrow>
          let heightSkip = GetSkipHeight heightWalk;
              heightSkipPrev = GetSkipHeight (heightWalk - 1)
          in if pskip b \<noteq> None \<and>
                (heightSkip = height \<or>
                 (heightSkip > height \<and>
                  \<not> (heightSkipPrev < heightSkip - 2 \<and> heightSkipPrev \<ge> height)))
             then ancestor_walk m (the (pskip b)) heightSkip height
             else (case pprev b of
                     None \<Rightarrow> None
                   | Some q \<Rightarrow> ancestor_walk m q (heightWalk - 1) height))"
  by pat_completeness auto
termination
  by (relation "measure (\<lambda>(m, p, hw, h). nat hw)") (auto simp: GetSkipHeight_bounds)

declare ancestor_walk.simps [simp del]

definition GetAncestor :: "BlockMap \<Rightarrow> ptr \<Rightarrow> int \<Rightarrow> ptr option option" where
  "GetAncestor m p height =
     (case m p of
        None \<Rightarrow> None
      | Some b \<Rightarrow>
          if height > nHeight b \<or> height < 0 then Some None
          else map_option Some (ancestor_walk m p (nHeight b) height))"

definition BuildSkip :: "BlockMap \<Rightarrow> ptr \<Rightarrow> BlockMap option" where
  "BuildSkip m p =
     (case m p of
        None \<Rightarrow> None
      | Some b \<Rightarrow>
          (case pprev b of
             None \<Rightarrow> Some m
           | Some q \<Rightarrow>
               map_option (\<lambda>r. m(p \<mapsto> b\<lparr>pskip := r\<rparr>)) (GetAncestor m q (GetSkipHeight (nHeight b)))))"

subsection \<open>Work\<close>

definition GetBlockProof :: "u32 \<Rightarrow> uint_error + arith_uint256" where
  "GetBlockProof bts =
     (let r = SetCompact bts; bnTarget = cr_value r in
      if cr_negative r \<or> cr_overflow r \<or> EqualTo bnTarget 0 then Inr (arith_of_u64 0)
      else case base_uint_div (base_uint_not bnTarget) (base_uint_add bnTarget (arith_of_u64 1)) of
             Inl e \<Rightarrow> Inl e
           | Inr q \<Rightarrow> Inr (base_uint_add q (arith_of_u64 1)))"

definition GetBlockProofEquivalentTime ::
  "CBlockIndex \<Rightarrow> CBlockIndex \<Rightarrow> CBlockIndex \<Rightarrow> Params \<Rightarrow> uint_error + int" where
  "GetBlockProofEquivalentTime b_to b_from tip params =
     (let (r, sign) =
        (if CompareTo (nChainWork b_to) (nChainWork b_from) > 0
         then (base_uint_sub (nChainWork b_to) (nChainWork b_from), 1)
         else (base_uint_sub (nChainWork b_from) (nChainWork b_to), -1))
      in case GetBlockProof (nBits tip) of
           Inl e \<Rightarrow> Inl e
         | Inr prf \<Rightarrow>
             (case base_uint_div (base_uint_mul r (arith_of_u64 (word_of_int (nPowTargetSpacing params)))) prf of
                Inl e \<Rightarrow> Inl e
              | Inr q \<Rightarrow>
                  if bits q > 63 then Inr (sign * INT64_MAX)
                  else Inr (sign * sint (GetLow64 q))))"

subsection \<open>The active chain\<close>

type_synonym CChain = "ptr option list"

definition Genesis :: "CChain \<Rightarrow> ptr option" where
  "Genesis vChain = (if length vChain > 0 then vChain ! 0 else None)"

definition Tip :: "CChain \<Rightarrow> ptr option" where
  "Tip vChain = (if length vChain > 0 then vChain ! (length vChain - 1) else None)"

definition chain_at :: "CChain \<Rightarrow> int \<Rightarrow> ptr option" where
  "chain_at vChain height =
     (if height < 0 \<or> height \<ge> int (length vChain) then None else vChain ! nat height)"

definition Contains :: "BlockMap \<Rightarrow> CChain \<Rightarrow> ptr \<Rightarrow> bool option" where
  "Contains m vChain pindex = map_option (\<lambda>b. chain_at vChain (nHeight b) = Some pindex) (m pindex)"

definition Next :: "BlockMap \<Rightarrow> CChain \<Rightarrow> ptr \<Rightarrow> ptr option option" where
  "Next m vChain pindex =
     map_option (\<lambda>b. if chain_at vChain (nHeight b) = Some pindex
                     then chain_at vChain (nHeight b + 1) else None) (m pindex)"

definition Height :: "CChain \<Rightarrow> int" where
  "Height vChain = int (length vChain) - 1"

definition resize :: "nat \<Rightarrow> CChain \<Rightarrow> CChain" where
  "resize n vChain = take n vChain @ replicate (n - length vChain) None"

partial_function (option) SetTip_loop :: "BlockMap \<Rightarrow> CChain \<Rightarrow> ptr option \<Rightarrow> CChain option" where
  "SetTip_loop m vChain pindex =
     (case pindex of
        None \<Rightarrow> Some vChain
      | Some p \<Rightarrow>
          (case m p of
             None \<Rightarrow> None
           | Some b \<Rightarrow>
               if vChain ! nat (nHeight b) = Some p then Some vChain
               else SetTip_loop m (vChain[nat (nHeight b) := Some p]) (pprev b)))"

definition SetTip :: "BlockMap \<Rightarrow> CChain \<Rightarrow> ptr \<Rightarrow> CChain option" where
  "SetTip m vChain block =
     (case m block of
        None \<Rightarrow> None
      | Some b \<Rightarrow> SetTip_loop m (resize (nat (nHeight b + 1)) vChain) (Some block))"

partial_function (option) locator_loop ::
  "BlockMap \<Rightarrow> int \<Rightarrow> uint256 list \<Rightarrow> ptr \<Rightarrow> uint256 list option" where
  "locator_loop m step found index =
     (case m index of
        None \<Rightarrow> None
      | Some b \<Rightarrow>
          (case phashBlock b of
             None \<Rightarrow> None
           | Some h \<Rightarrow>
               if nHeight b = 0 then Some (found @ [h])
               else (case GetAncestor m index (max (nHeight b - step) 0) of
                       None \<Rightarrow> None
                     | Some None \<Rightarrow> Some (found @ [h])
                     | Some (Some q) \<Rightarrow>
                         if length (found @ [h]) > 10
                         then (if fits_int32 (step * 2) then locator_loop m (step * 2) (found @ [h]) q
                               else None)
                         else locator_loop m step (found @ [h]) q)))"

definition LocatorEntries :: "BlockMap \<Rightarrow> ptr option \<Rightarrow> uint256 list option" where
  "LocatorEntries m index =
     (case index of None \<Rightarrow> Some [] | Some p \<Rightarrow> locator_loop m 1 [] p)"

definition GetLocator :: "BlockMap \<Rightarrow> CChain \<Rightarrow> CBlockLocator option" where
  "GetLocator m vChain = map_option (\<lambda>h. \<lparr>vHave = h\<rparr>) (LocatorEntries m (Tip vChain))"

partial_function (option) fork_loop :: "BlockMap \<Rightarrow> CChain \<Rightarrow> ptr option \<Rightarrow> ptr option option" where
  "fork_loop m vChain pindex =
     (case pindex of
        None \<Rightarrow> Some None
      | Some p \<Rightarrow>
          (case m p of
             None \<Rightarrow> None
           | Some b \<Rightarrow>
               if chain_at vChain (nHeight b) = Some p then Some (Some p)
               else fork_loop m vChain (pprev b)))"

definition FindFork :: "BlockMap \<Rightarrow> CChain \<Rightarrow> ptr option \<Rightarrow> ptr option option" where
  "FindFork m vChain pindex =
     (case pindex of
        None \<Rightarrow> Some None
      | Some p \<Rightarrow>
          (case m p of
             None \<Rightarrow> None
           | Some b \<Rightarrow>
               if nHeight b > Height vChain
               then (case GetAncestor m p (Height vChain) of
                       None \<Rightarrow> None
                     | Some q \<Rightarrow> fork_loop m vChain q)
               else fork_loop m vChain (Some p)))"

partial_function (option) common_loop :: "BlockMap \<Rightarrow> ptr option \<Rightarrow> ptr option \<Rightarrow> ptr option option" where
  "common_loop m pa pb =
     (if pa \<noteq> pb \<and> pa \<noteq> None \<and> pb \<noteq> None
      then (case (m (the pa), m (the pb)) of
              (Some a, Some b) \<Rightarrow> common_loop m (pprev a) (pprev b)
            | _ \<Rightarrow> None)
      else if pa = pb then Some pa else None)"

definition LastCommonAncestor :: "BlockMap \<Rightarrow> ptr \<Rightarrow> ptr \<Rightarrow> ptr option option" where
  "LastCommonAncestor m pa pb =
     (case (m pa, m pb) of
        (Some a, Some b) \<Rightarrow>
          if nHeight a > nHeight b
          then (case GetAncestor m pa (nHeight b) of None \<Rightarrow> None | Some q \<Rightarrow> common_loop m q (Some pb))
          else if nHeight b > nHeight a
          then (case GetAncestor m pb (nHeight a) of None \<Rightarrow> None | Some q \<Rightarrow> common_loop m (Some pa) q)
          else common_loop m (Some pa) (Some pb)
      | _ \<Rightarrow> None)"

text \<open>
  \<^verbatim>\<open>std::lower_bound\<close>: the half-interval search for the first element where \<open>cmp\<close> fails. The
  comparison reads through a pointer, so it may have no value.
\<close>

function lower_bound :: "('a \<Rightarrow> bool option) \<Rightarrow> 'a list \<Rightarrow> nat \<Rightarrow> nat \<Rightarrow> nat option" where
  "lower_bound cmp xs first count =
     (if count = 0 then Some first
      else let step = count div 2 in
           case cmp (xs ! (first + step)) of
             None \<Rightarrow> None
           | Some True \<Rightarrow> lower_bound cmp xs (first + step + 1) (count - (step + 1))
           | Some False \<Rightarrow> lower_bound cmp xs first step)"
  by pat_completeness auto
termination
  by (relation "measure (\<lambda>(c, xs, first, count). count)") auto

declare lower_bound.simps [simp del]

definition earlier :: "BlockMap \<Rightarrow> int \<Rightarrow> int \<Rightarrow> ptr option \<Rightarrow> bool option" where
  "earlier m time height pBlock =
     (case pBlock of
        None \<Rightarrow> None
      | Some p \<Rightarrow> map_option (\<lambda>b. GetBlockTimeMax b < time \<or> nHeight b < height) (m p))"

definition FindEarliestAtLeast :: "BlockMap \<Rightarrow> CChain \<Rightarrow> int \<Rightarrow> int \<Rightarrow> ptr option option" where
  "FindEarliestAtLeast m vChain time height =
     map_option (\<lambda>lower. if lower = length vChain then None else vChain ! lower)
       (lower_bound (earlier m time height) vChain 0 (length vChain))"

section \<open>Well-formed indexes\<close>

text \<open>The reference definition of an ancestor: \<open>n\<close> steps along \<^verbatim>\<open>pprev\<close>.\<close>

fun parent_n :: "BlockMap \<Rightarrow> nat \<Rightarrow> ptr \<Rightarrow> ptr option" where
  "parent_n m 0 p = Some p"
| "parent_n m (Suc n) p =
     (case m p of None \<Rightarrow> None | Some b \<Rightarrow> (case pprev b of None \<Rightarrow> None | Some q \<Rightarrow> parent_n m n q))"

definition ancestor_at :: "BlockMap \<Rightarrow> ptr \<Rightarrow> int \<Rightarrow> ptr option" where
  "ancestor_at m p h =
     (case m p of
        None \<Rightarrow> None
      | Some b \<Rightarrow> if h > nHeight b \<or> h < 0 then None else parent_n m (nat (nHeight b - h)) p)"

definition wf_tree :: "BlockMap \<Rightarrow> bool" where
  "wf_tree m \<longleftrightarrow>
     (\<forall>p b. m p = Some b \<longrightarrow>
        (case pprev b of
           None \<Rightarrow> nHeight b = 0
         | Some q \<Rightarrow> \<exists>c. m q = Some c \<and> nHeight b = nHeight c + 1 \<and> 0 \<le> nHeight c))"

definition wf_skip :: "BlockMap \<Rightarrow> bool" where
  "wf_skip m \<longleftrightarrow>
     (\<forall>p b s. m p = Some b \<longrightarrow> pskip b = Some s \<longrightarrow>
        parent_n m (nat (nHeight b - GetSkipHeight (nHeight b))) p = Some s)"

definition wf_index :: "BlockMap \<Rightarrow> bool" where
  "wf_index m \<longleftrightarrow> wf_tree m \<and> wf_skip m \<and> (\<forall>p b. m p = Some b \<longrightarrow> phashBlock b = Some p)"

lemma wf_treeD:
  assumes "wf_tree m" "m p = Some b"
  obtains (root) "pprev b = None" "nHeight b = 0"
    | (child) q c where "pprev b = Some q" "m q = Some c" "nHeight b = nHeight c + 1" "0 \<le> nHeight c"
  using assms by (auto simp: wf_tree_def split: option.splits) blast

lemma wf_height: "wf_tree m \<Longrightarrow> m p = Some b \<Longrightarrow> 0 \<le> nHeight b"
  by (erule wf_treeD) auto

lemma wf_root: "wf_tree m \<Longrightarrow> m p = Some b \<Longrightarrow> pprev b = None \<longleftrightarrow> nHeight b = 0"
  by (erule wf_treeD) auto

lemma wf_child:
  assumes "wf_tree m" "m p = Some b" "pprev b = Some q"
  shows "\<exists>c. m q = Some c \<and> nHeight b = nHeight c + 1 \<and> 0 \<le> nHeight c"
  using assms by (auto simp: wf_tree_def split: option.splits) blast

lemma parent_n_exists:
  assumes "wf_tree m" "m p = Some b" "int n \<le> nHeight b"
  shows "\<exists>q c. parent_n m n p = Some q \<and> m q = Some c \<and> nHeight c = nHeight b - int n"
  using assms(2,3)
proof (induction n arbitrary: p b)
  case (Suc n)
  from assms(1) Suc.prems(1) show ?case
  proof (cases rule: wf_treeD)
    case root
    with Suc.prems show ?thesis by simp
  next
    case (child q c)
    with Suc.IH [of q c] Suc.prems show ?thesis by auto
  qed
qed auto

lemma parent_n_add: "parent_n m (i + j) p = Option.bind (parent_n m i p) (parent_n m j)"
  by (induction i arbitrary: p) (auto split: option.splits)

lemma parent_n_height:
  assumes "wf_tree m" "m p = Some b" "parent_n m n p = Some q"
  shows "int n \<le> nHeight b"
  using assms(2,3)
proof (induction n arbitrary: p b)
  case 0
  then show ?case using wf_height [OF assms(1)] by simp
next
  case (Suc n)
  from assms(1) Suc.prems(1) show ?case
  proof (cases rule: wf_treeD)
    case root
    with Suc.prems show ?thesis by simp
  next
    case (child r c)
    with Suc.IH [of r c] Suc.prems show ?thesis by simp
  qed
qed

lemma ancestor_at_exists:
  assumes "wf_tree m" "m p = Some b" "0 \<le> h" "h \<le> nHeight b"
  shows "\<exists>q c. ancestor_at m p h = Some q \<and> m q = Some c \<and> nHeight c = h"
  using parent_n_exists [OF assms(1,2), of "nat (nHeight b - h)"] assms by (auto simp: ancestor_at_def)

lemma ancestor_at_self: "wf_tree m \<Longrightarrow> m p = Some b \<Longrightarrow> ancestor_at m p (nHeight b) = Some p"
  using wf_height [of m p b] by (simp add: ancestor_at_def)

lemma ancestor_at_parent:
  assumes "wf_tree m" "m p = Some b" "pprev b = Some q" "h < nHeight b"
  shows "ancestor_at m p h = ancestor_at m q h"
proof -
  obtain c where c: "m q = Some c" "nHeight b = nHeight c + 1"
    using wf_child [OF assms(1-3)] by blast
  then have "nat (nHeight b - h) = Suc (nat (nHeight c - h))"
    using assms(4) by linarith
  with assms c show ?thesis by (simp add: ancestor_at_def)
qed

lemma ancestor_at_trans:
  assumes "wf_tree m" "ancestor_at m p k = Some q" "h \<le> k"
  shows "ancestor_at m q h = ancestor_at m p h"
proof -
  obtain b where b: "m p = Some b" "k \<le> nHeight b" "0 \<le> k" "parent_n m (nat (nHeight b - k)) p = Some q"
    using assms(2) by (auto simp: ancestor_at_def split: option.splits if_splits)
  obtain c where c: "m q = Some c" "nHeight c = k"
    using ancestor_at_exists [OF assms(1) b(1,3,2)] assms(2) by auto
  have "nat (nHeight b - h) = nat (nHeight b - k) + nat (k - h)"
    using b assms(3) by linarith
  then have "parent_n m (nat (nHeight b - h)) p = parent_n m (nat (k - h)) q"
    using b(4) by (simp add: parent_n_add)
  with b c assms(3) show ?thesis by (simp add: ancestor_at_def)
qed

section \<open>The skip list finds the ancestor\<close>

lemma ancestor_walk_correct:
  assumes "wf_tree m" "wf_skip m" "m p = Some b" "0 \<le> height" "height \<le> nHeight b"
  shows "ancestor_walk m p (nHeight b) height = ancestor_at m p height"
  using assms(3,5)
proof (induction "nat (nHeight b)" arbitrary: p b rule: less_induct)
  case less
  show ?case
  proof (cases "nHeight b \<le> height")
    case True
    then have "height = nHeight b" using less.prems by simp
    then show ?thesis
      using less.prems ancestor_at_self [OF assms(1)] by (simp add: ancestor_walk.simps)
  next
    case False
    then have pos: "0 < nHeight b" using assms(4) by simp
    let ?s = "GetSkipHeight (nHeight b)"
    obtain q where q: "pprev b = Some q"
      using wf_root [OF assms(1) less.prems(1)] pos by auto
    obtain c where c: "m q = Some c" "nHeight b = nHeight c + 1"
      using wf_child [OF assms(1) less.prems(1) q] by blast
    have prev: "ancestor_walk m q (nHeight b - 1) height = ancestor_at m p height"
      using less.hyps [of c q] c False pos ancestor_at_parent [OF assms(1) less.prems(1) q] by simp
    have skip: "ancestor_walk m s ?s height = ancestor_at m p height"
      if s: "pskip b = Some s" and ge: "height \<le> ?s" for s
    proof -
      have "ancestor_at m p ?s = Some s"
        using assms(2) less.prems(1) s GetSkipHeight_bounds [OF pos] by (auto simp: wf_skip_def ancestor_at_def)
      moreover obtain d where "m s = Some d" "nHeight d = ?s"
        using ancestor_at_exists [OF assms(1) less.prems(1), of ?s] GetSkipHeight_bounds [OF pos] calculation by force
      ultimately show ?thesis
        using less.hyps [of d s] ge GetSkipHeight_bounds [OF pos] ancestor_at_trans [OF assms(1), of p ?s s height] by simp
    qed
    show ?thesis
      unfolding ancestor_walk.simps [of m p]
      using False pos less.prems(1) q prev skip by (auto simp: Let_def)
  qed
qed

lemma GetAncestor_correct:
  assumes "wf_index m" "m p = Some b"
  shows "GetAncestor m p height = Some (ancestor_at m p height)"
proof (cases "height > nHeight b \<or> height < 0")
  case True
  with assms show ?thesis by (auto simp: GetAncestor_def ancestor_at_def)
next
  case False
  with assms have "ancestor_walk m p (nHeight b) height = ancestor_at m p height"
    by (intro ancestor_walk_correct) (auto simp: wf_index_def)
  moreover obtain q where "ancestor_at m p height = Some q"
    using ancestor_at_exists [of m p b height] False assms by (auto simp: wf_index_def)
  ultimately show ?thesis using False assms by (auto simp: GetAncestor_def)
qed

section \<open>The active chain\<close>

text \<open>The chain vector holds a path of the tree, indexed by height.\<close>

definition chain_ok :: "BlockMap \<Rightarrow> CChain \<Rightarrow> bool" where
  "chain_ok m vChain \<longleftrightarrow>
     (\<forall>i < length vChain. \<exists>p b. vChain ! i = Some p \<and> m p = Some b \<and> nHeight b = int i \<and>
        (0 < i \<longrightarrow> pprev b = vChain ! (i - 1)))"

definition chain_to :: "BlockMap \<Rightarrow> ptr \<Rightarrow> int \<Rightarrow> CChain" where
  "chain_to m p h = map (\<lambda>i. ancestor_at m p (int i)) [0..<nat (h + 1)]"

lemma chain_ok_nth: "chain_ok m v \<Longrightarrow> i < length v \<Longrightarrow> \<exists>p. v ! i = Some p"
  by (auto simp: chain_ok_def)

lemma chain_ok_entry:
  assumes "chain_ok m v" "i < length v" "v ! i = Some p"
  shows "\<exists>b. m p = Some b \<and> nHeight b = int i \<and> (0 < i \<longrightarrow> pprev b = v ! (i - 1))"
  using assms by (fastforce simp: chain_ok_def)

lemma chain_ok_ancestor:
  assumes "wf_tree m" "chain_ok m v" "i < length v" "v ! i = Some q" "j \<le> i"
  shows "v ! j = ancestor_at m q (int j)"
  using assms(3-5)
proof (induction i arbitrary: q)
  case 0
  then obtain b where "m q = Some b" "nHeight b = 0"
    using chain_ok_entry [OF assms(2), of 0 q] by auto
  then show ?case using 0 ancestor_at_self [OF assms(1), of q b] by simp
next
  case (Suc i)
  obtain b where b: "m q = Some b" "nHeight b = int (Suc i)" "pprev b = v ! i"
    using chain_ok_entry [OF assms(2) Suc.prems(1,2)] by auto
  show ?case
  proof (cases "j = Suc i")
    case True
    then show ?thesis using b Suc.prems ancestor_at_self [OF assms(1) b(1)] by simp
  next
    case False
    obtain r where r: "v ! i = Some r"
      using chain_ok_nth [OF assms(2), of i] Suc.prems(1) by auto
    then show ?thesis
      using Suc.IH [of r] Suc.prems False ancestor_at_parent [OF assms(1) b(1), of r "int j"] b by simp
  qed
qed

lemma SetTip_loop_correct:
  assumes wf: "wf_tree m" and old: "chain_ok m old" and p: "m p = Some b"
  shows "\<lbrakk>m q = Some c; ancestor_at m p (nHeight c) = Some q; length v = nat (nHeight b + 1);
     \<And>i. nat (nHeight c) < i \<Longrightarrow> i < length v \<Longrightarrow> v ! i = ancestor_at m p (int i);
     \<And>i. i \<le> nat (nHeight c) \<Longrightarrow> v ! i = (if i < length old then old ! i else None)\<rbrakk>
    \<Longrightarrow> SetTip_loop m v (Some q) = Some (chain_to m p (nHeight b))"
proof (induction "nat (nHeight c)" arbitrary: q c v rule: less_induct)
  case less
  let ?h = "nat (nHeight c)"
  have h: "0 \<le> nHeight c" "nHeight c \<le> nHeight b"
    using wf_height [OF wf less.prems(1)] less.prems(2) p by (auto simp: ancestor_at_def split: if_splits)
  then have len: "?h < length v" using less.prems(3) by simp
  show ?case
  proof (cases "v ! ?h = Some q")
    case True
    then have o: "?h < length old" "old ! ?h = Some q"
      using less.prems(5) [of ?h] by (auto split: if_splits)
    have "v ! i = ancestor_at m p (int i)" if "i < length v" for i
    proof (cases "?h < i")
      case False
      then have "v ! i = old ! i" using less.prems(5) [of i] o by simp
      also have "\<dots> = ancestor_at m q (int i)"
        using chain_ok_ancestor [OF wf old o] False by simp
      also have "\<dots> = ancestor_at m p (int i)"
        using ancestor_at_trans [OF wf less.prems(2)] False h by simp
      finally show ?thesis .
    qed (use less.prems(4) that in blast)
    then have "v = chain_to m p (nHeight b)"
      using less.prems(3) by (intro nth_equalityI) (simp_all add: chain_to_def)
    then show ?thesis using True less.prems(1) by (simp add: SetTip_loop.simps)
  next
    case False
    let ?v = "v[?h := Some q]"
    have step: "SetTip_loop m v (Some q) = SetTip_loop m ?v (pprev c)"
      using False less.prems(1) by (simp add: SetTip_loop.simps [of m v])
    have upper: "?v ! i = ancestor_at m p (int i)" if "?h \<le> i" "i < length v" for i
      using that less.prems(2) less.prems(4) [of i] h by (cases "i = ?h") auto
    show ?thesis
    proof (cases "pprev c")
      case None
      then have "nHeight c = 0" using wf_root [OF wf less.prems(1)] by simp
      then have "?v = chain_to m p (nHeight b)"
        using upper less.prems(3) by (intro nth_equalityI) (simp_all add: chain_to_def)
      then show ?thesis using step None by (simp add: SetTip_loop.simps)
    next
      case (Some r)
      obtain d where d: "m r = Some d" "nHeight c = nHeight d + 1" "0 \<le> nHeight d"
        using wf_child [OF wf less.prems(1) Some] by blast
      have anc: "ancestor_at m p (nHeight d) = Some r"
        using ancestor_at_trans [OF wf less.prems(2), of "nHeight d"] ancestor_at_self [OF wf d(1)]
          ancestor_at_parent [OF wf less.prems(1) Some, of "nHeight d"] d by simp
      have "SetTip_loop m ?v (Some r) = Some (chain_to m p (nHeight b))"
      proof (rule less.hyps [OF _ d(1) anc])
        show "?v ! i = ancestor_at m p (int i)" if "nat (nHeight d) < i" "i < length ?v" for i
          using upper [of i] that d by simp
        show "?v ! i = (if i < length old then old ! i else None)" if "i \<le> nat (nHeight d)" for i
          using less.prems(5) [of i] that d by simp
      qed (use d less.prems(3) in simp_all)
      then show ?thesis using step Some by simp
    qed
  qed
qed

lemma chain_ok_chain_to:
  assumes "wf_tree m" "m p = Some b"
  shows "chain_ok m (chain_to m p (nHeight b))"
  unfolding chain_ok_def
proof (intro allI impI)
  fix i assume i: "i < length (chain_to m p (nHeight b))"
  then have h: "int i \<le> nHeight b" by (simp add: chain_to_def)
  obtain q c where q: "ancestor_at m p (int i) = Some q" "m q = Some c" "nHeight c = int i"
    using ancestor_at_exists [OF assms, of "int i"] h by auto
  have "pprev c = ancestor_at m p (int (i - 1))" if pos: "0 < i"
  proof -
    obtain r where r0: "pprev c = Some r"
      using wf_root [OF assms(1) q(2)] q(3) pos by auto
    then obtain d where r: "pprev c = Some r" "m r = Some d" "nHeight c = nHeight d + 1"
      using wf_child [OF assms(1) q(2)] by blast
    then show ?thesis
      using ancestor_at_trans [OF assms(1) q(1), of "int (i - 1)"] ancestor_at_self [OF assms(1) r(2)]
        ancestor_at_parent [OF assms(1) q(2) r(1), of "int (i - 1)"] q(3) pos
      by (simp add: of_nat_diff)
  qed
  with q i show "\<exists>q c. chain_to m p (nHeight b) ! i = Some q \<and> m q = Some c \<and> nHeight c = int i \<and>
      (0 < i \<longrightarrow> pprev c = chain_to m p (nHeight b) ! (i - 1))"
    by (auto simp: chain_to_def)
qed

lemma SetTip_correct:
  assumes "wf_tree m" "chain_ok m v" "m p = Some b"
  shows "SetTip m v p = Some (chain_to m p (nHeight b))"
proof -
  have h: "0 \<le> nHeight b" using wf_height assms by blast
  have "SetTip_loop m (resize (nat (nHeight b + 1)) v) (Some p) = Some (chain_to m p (nHeight b))"
    by (rule SetTip_loop_correct [OF assms(1,2,3) assms(3) ancestor_at_self [OF assms(1,3)]])
       (use h in \<open>auto simp: resize_def nth_append min_def\<close>)
  then show ?thesis using assms(3) by (simp add: SetTip_def)
qed

section \<open>Forks and common ancestors\<close>

text \<open>
  \<open>r\<close> is the highest block at or below height \<open>hi\<close> on which the branch of \<open>p\<close> and the branch
  given by \<open>other\<close> agree, and \<open>None\<close> if they agree nowhere.
\<close>

definition last_agreement :: "(int \<Rightarrow> ptr option) \<Rightarrow> (int \<Rightarrow> ptr option) \<Rightarrow> int \<Rightarrow> ptr option \<Rightarrow> bool" where
  "last_agreement branch other hi r \<longleftrightarrow>
     (case r of
        None \<Rightarrow> \<forall>h. 0 \<le> h \<and> h \<le> hi \<longrightarrow> branch h \<noteq> other h
      | Some f \<Rightarrow> \<exists>k. 0 \<le> k \<and> k \<le> hi \<and> branch k = Some f \<and> other k = Some f \<and>
          (\<forall>h. k < h \<and> h \<le> hi \<longrightarrow> branch h \<noteq> other h))"

lemma last_agreement_extend:
  assumes "last_agreement branch other hi r" "\<And>h. hi < h \<Longrightarrow> h \<le> hi' \<Longrightarrow> branch h \<noteq> other h" "hi \<le> hi'"
  shows "last_agreement branch other hi' r"
proof (cases r)
  case None
  with assms show ?thesis by (auto simp: last_agreement_def) (metis not_le)
next
  case (Some f)
  with assms(1) obtain k where "0 \<le> k \<and> k \<le> hi \<and> branch k = Some f \<and> other k = Some f \<and>
      (\<forall>h. k < h \<and> h \<le> hi \<longrightarrow> branch h \<noteq> other h)"
    by (auto simp: last_agreement_def)
  with assms(2,3) Some show ?thesis
    unfolding last_agreement_def by (auto intro!: exI [of _ k]) (metis not_le)
qed

lemma last_agreement_step:
  assumes "last_agreement branch other hi r" "branch (hi + 1) \<noteq> other (hi + 1)"
  shows "last_agreement branch other (hi + 1) r"
  using assms(1)
proof (rule last_agreement_extend)
  fix h assume "hi < h" "h \<le> hi + 1"
  then have "h = hi + 1" by simp
  with assms(2) show "branch h \<noteq> other h" by simp
qed simp

lemma fork_loop_correct:
  assumes wf: "wf_tree m"
  shows "m q = Some c \<Longrightarrow> \<exists>r. fork_loop m v (Some q) = Some r \<and>
    last_agreement (ancestor_at m q) (chain_at v) (nHeight c) r"
proof (induction "nat (nHeight c)" arbitrary: q c rule: less_induct)
  case less
  note self = ancestor_at_self [OF wf less.prems]
  have h: "0 \<le> nHeight c" using wf_height wf less.prems by blast
  show ?case
  proof (cases "chain_at v (nHeight c) = Some q")
    case True
    with less.prems self h show ?thesis
      by (auto simp: fork_loop.simps [of m v] last_agreement_def intro!: exI [of _ "nHeight c"])
  next
    case False
    then have step: "fork_loop m v (Some q) = fork_loop m v (pprev c)"
      using less.prems by (simp add: fork_loop.simps [of m v "Some q"])
    show ?thesis
    proof (cases "pprev c")
      case None
      then have "nHeight c = 0" using wf_root [OF wf less.prems] by simp
      then have "last_agreement (ancestor_at m q) (chain_at v) (nHeight c) None"
        using False self by (auto simp: last_agreement_def)
      with step None show ?thesis by (simp add: fork_loop.simps)
    next
      case (Some s)
      then obtain d where d: "m s = Some d" "nHeight c = nHeight d + 1" "0 \<le> nHeight d"
        using wf_child [OF wf less.prems] by blast
      then obtain r where r: "fork_loop m v (Some s) = Some r"
          "last_agreement (ancestor_at m s) (chain_at v) (nHeight d) r"
        using less.hyps [of d s] by auto
      have "last_agreement (ancestor_at m q) (chain_at v) (nHeight d) r"
        using r(2) ancestor_at_parent [OF wf less.prems Some] d
        by (auto simp: last_agreement_def split: option.splits)
      then have "last_agreement (ancestor_at m q) (chain_at v) (nHeight c) r"
        using last_agreement_step [of _ _ "nHeight d"] d False self by simp
      with step Some r show ?thesis by simp
    qed
  qed
qed

lemma FindFork_correct:
  assumes "wf_index m" "m p = Some b"
  shows "\<exists>r. FindFork m v (Some p) = Some r \<and> last_agreement (ancestor_at m p) (chain_at v) (nHeight b) r"
proof -
  have wf: "wf_tree m" using assms(1) by (simp add: wf_index_def)
  show ?thesis
  proof (cases "nHeight b > Height v")
    case False
    with fork_loop_correct [OF wf assms(2)] assms(2) show ?thesis by (simp add: FindFork_def)
  next
    case True
    have above: "ancestor_at m p h \<noteq> chain_at v h" if "Height v < h" "h \<le> nHeight b" for h
    proof -
      have "chain_at v h = None" "0 \<le> h" using that by (auto simp: chain_at_def Height_def)
      then show ?thesis using ancestor_at_exists [OF wf assms(2), of h] that by auto
    qed
    show ?thesis
    proof (cases "v = []")
      case True
      then have "FindFork m v (Some p) = Some None"
        using assms \<open>Height v < nHeight b\<close> GetAncestor_correct [OF assms]
        by (simp add: FindFork_def Height_def fork_loop.simps ancestor_at_def)
      moreover have "last_agreement (ancestor_at m p) (chain_at v) (nHeight b) None"
        using above True by (auto simp: last_agreement_def Height_def)
      ultimately show ?thesis by blast
    next
      case False
      then have hv: "0 \<le> Height v" by (cases v) (simp_all add: Height_def)
      then obtain q c where q: "ancestor_at m p (Height v) = Some q" "m q = Some c" "nHeight c = Height v"
        using ancestor_at_exists [OF wf assms(2), of "Height v"] True by auto
      obtain r where r: "fork_loop m v (Some q) = Some r" "last_agreement (ancestor_at m q) (chain_at v) (Height v) r"
        using fork_loop_correct [OF wf q(2), of v] q(3) by auto
      have "last_agreement (ancestor_at m p) (chain_at v) (Height v) r"
        using r(2) ancestor_at_trans [OF wf q(1)] by (auto simp: last_agreement_def split: option.splits)
      then have "last_agreement (ancestor_at m p) (chain_at v) (nHeight b) r"
        by (rule last_agreement_extend) (use above True in auto)
      with r(1) q True assms GetAncestor_correct [OF assms] show ?thesis by (auto simp: FindFork_def)
    qed
  qed
qed

lemma common_loop_correct:
  assumes wf: "wf_tree m"
  shows "m pa = Some a \<Longrightarrow> m pb = Some b \<Longrightarrow> nHeight a = nHeight b \<Longrightarrow>
    \<exists>r. common_loop m (Some pa) (Some pb) = Some r \<and>
      last_agreement (ancestor_at m pa) (ancestor_at m pb) (nHeight a) r"
proof (induction "nat (nHeight a)" arbitrary: pa a pb b rule: less_induct)
  case less
  note selfa = ancestor_at_self [OF wf less.prems(1)] and selfb = ancestor_at_self [OF wf less.prems(2)]
  have h: "0 \<le> nHeight a" using wf_height wf less.prems(1) by blast
  show ?case
  proof (cases "pa = pb")
    case True
    with less.prems selfa h show ?thesis
      by (auto simp: common_loop.simps [of m] last_agreement_def intro!: exI [of _ "nHeight a"])
  next
    case False
    then have step: "common_loop m (Some pa) (Some pb) = common_loop m (pprev a) (pprev b)"
      using less.prems by (simp add: common_loop.simps [of m "Some pa"])
    show ?thesis
    proof (cases "pprev a")
      case None
      then have "nHeight a = 0" "pprev b = None"
        using wf_root [OF wf less.prems(1)] wf_root [OF wf less.prems(2)] less.prems(3) by auto
      then have "last_agreement (ancestor_at m pa) (ancestor_at m pb) (nHeight a) None"
        using False selfa selfb less.prems(3) by (auto simp: last_agreement_def)
      with step None \<open>pprev b = None\<close> show ?thesis by (simp add: common_loop.simps)
    next
      case (Some qa)
      then obtain c where c: "m qa = Some c" "nHeight a = nHeight c + 1" "0 \<le> nHeight c"
        using wf_child [OF wf less.prems(1)] by blast
      obtain qb where qb: "pprev b = Some qb"
        using wf_root [OF wf less.prems(2)] less.prems(3) c by auto
      then obtain d where d: "m qb = Some d" "nHeight b = nHeight d + 1"
        using wf_child [OF wf less.prems(2)] by blast
      obtain r where r: "common_loop m (Some qa) (Some qb) = Some r"
          "last_agreement (ancestor_at m qa) (ancestor_at m qb) (nHeight c) r"
        using less.hyps [of c qa qb d] c d less.prems(3) by auto
      have "last_agreement (ancestor_at m pa) (ancestor_at m pb) (nHeight c) r"
        using r(2) ancestor_at_parent [OF wf less.prems(1) Some] ancestor_at_parent [OF wf less.prems(2) qb] c d less.prems(3)
        by (auto simp: last_agreement_def split: option.splits)
      then have "last_agreement (ancestor_at m pa) (ancestor_at m pb) (nHeight a) r"
        using last_agreement_step [of _ _ "nHeight c"] c False selfa selfb less.prems(3) by simp
      with step Some qb r show ?thesis by simp
    qed
  qed
qed

lemma last_agreement_cong:
  "(\<And>h. h \<le> hi \<Longrightarrow> f h = f' h) \<Longrightarrow> (\<And>h. h \<le> hi \<Longrightarrow> g h = g' h) \<Longrightarrow>
   last_agreement f g hi r = last_agreement f' g' hi r"
  unfolding last_agreement_def by (cases r) (auto cong: conj_cong)

lemma LastCommonAncestor_correct:
  assumes "wf_index m" "m pa = Some a" "m pb = Some b"
  shows "\<exists>r. LastCommonAncestor m pa pb = Some r \<and>
    last_agreement (ancestor_at m pa) (ancestor_at m pb) (min (nHeight a) (nHeight b)) r"
proof -
  have wf: "wf_tree m" using assms(1) by (simp add: wf_index_def)
  have ha: "0 \<le> nHeight a" and hb: "0 \<le> nHeight b"
    using wf_height [OF wf] assms by blast+
  consider "nHeight a > nHeight b" | "nHeight b > nHeight a" | "nHeight a = nHeight b" by linarith
  then show ?thesis
  proof cases
    case 1
    obtain q c where q: "ancestor_at m pa (nHeight b) = Some q" "m q = Some c" "nHeight c = nHeight b"
      using ancestor_at_exists [OF wf assms(2) hb] 1 by auto
    obtain r where r: "common_loop m (Some q) (Some pb) = Some r"
        "last_agreement (ancestor_at m q) (ancestor_at m pb) (nHeight b) r"
      using common_loop_correct [OF wf q(2) assms(3) q(3)] q(3) by auto
    have "last_agreement (ancestor_at m pa) (ancestor_at m pb) (nHeight b) r"
      using r(2) last_agreement_cong [of "nHeight b" "ancestor_at m q" "ancestor_at m pa" "ancestor_at m pb"]
        ancestor_at_trans [OF wf q(1)] by simp
    with 1 r q assms GetAncestor_correct [OF assms(1,2)] show ?thesis
      by (simp add: LastCommonAncestor_def min_def)
  next
    case 2
    obtain q c where q: "ancestor_at m pb (nHeight a) = Some q" "m q = Some c" "nHeight c = nHeight a"
      using ancestor_at_exists [OF wf assms(3) ha] 2 by auto
    obtain r where r: "common_loop m (Some pa) (Some q) = Some r"
        "last_agreement (ancestor_at m pa) (ancestor_at m q) (nHeight a) r"
      using common_loop_correct [OF wf assms(2) q(2)] q(3) by auto
    have "last_agreement (ancestor_at m pa) (ancestor_at m pb) (nHeight a) r"
      using r(2) last_agreement_cong [of "nHeight a" "ancestor_at m pa" "ancestor_at m pa" "ancestor_at m q" "ancestor_at m pb"]
        ancestor_at_trans [OF wf q(1)] by simp
    with 2 r q assms GetAncestor_correct [OF assms(1,3)] show ?thesis
      by (simp add: LastCommonAncestor_def min_def)
  next
    case 3
    with common_loop_correct [OF wf assms(2,3)] assms show ?thesis
      by (auto simp: LastCommonAncestor_def)
  qed
qed

section \<open>Locators\<close>

text \<open>The heights a locator names: ten steps of one, then steps that double.\<close>

function locator_heights :: "nat \<Rightarrow> int \<Rightarrow> int \<Rightarrow> int list" where
  "locator_heights n step h =
     h # (if h \<le> 0 \<or> step \<le> 0 then []
          else locator_heights (n + 1) (if n + 1 > 10 then step * 2 else step) (max (h - step) 0))"
  by pat_completeness auto
termination
  by (relation "measure (\<lambda>(n, step, h). nat h)") auto

declare locator_heights.simps [simp del]

lemma locator_heights_hd: "hd (locator_heights n step h) = h"
  by (subst locator_heights.simps) simp

lemma locator_heights_descend:
  "0 < step \<Longrightarrow> 0 \<le> h \<Longrightarrow>
   sorted_wrt (>) (locator_heights n step h) \<and> last (locator_heights n step h) = 0 \<and>
   (\<forall>x \<in> set (locator_heights n step h). 0 \<le> x \<and> x \<le> h)"
proof (induction n step h rule: locator_heights.induct)
  case (1 n step h)
  show ?case
  proof (cases "h \<le> 0")
    case True
    with 1 show ?thesis by (simp add: locator_heights.simps [of n])
  next
    case False
    let ?t = "locator_heights (n + 1) (if n + 1 > 10 then step * 2 else step) (max (h - step) 0)"
    have "sorted_wrt (>) ?t \<and> last ?t = 0 \<and> (\<forall>x \<in> set ?t. 0 \<le> x \<and> x \<le> max (h - step) 0)"
      using 1 False by simp
    moreover have "max (h - step) 0 < h" using 1 False by simp
    moreover have "?t \<noteq> []" by (subst locator_heights.simps) simp
    ultimately show ?thesis
      using 1 False by (subst (1 2 3) locator_heights.simps) fastforce
  qed
qed

lemma locator_phase2:
  assumes wf: "wf_index m"
  shows "m q = Some c \<Longrightarrow> 10 \<le> length found \<Longrightarrow> 0 < step \<Longrightarrow> nHeight c \<le> step * (2 ^ k - 1) \<Longrightarrow>
    step * 2 ^ k \<le> 2 ^ 30 \<Longrightarrow>
    locator_loop m step found q =
      Some (found @ map (the \<circ> ancestor_at m q) (locator_heights (length found) step (nHeight c))) \<and>
    length (locator_heights (length found) step (nHeight c)) \<le> k + 1"
proof (induction k arbitrary: q c found step)
  case 0
  then have "nHeight c = 0" using wf wf_height [of m q c] by (simp add: wf_index_def)
  with 0 wf show ?case
    using ancestor_at_self [of m q c]
    by (simp add: locator_loop.simps [of m] locator_heights.simps [of "length found"] wf_index_def)
next
  case (Suc k)
  have wft: "wf_tree m" and ph: "phashBlock c = Some q" using wf Suc.prems(1) by (auto simp: wf_index_def)
  have h0: "0 \<le> nHeight c" using wf_height [OF wft Suc.prems(1)] .
  note self = ancestor_at_self [OF wft Suc.prems(1)]
  show ?case
  proof (cases "nHeight c = 0")
    case True
    with Suc.prems ph self show ?thesis
      by (simp add: locator_loop.simps [of m] locator_heights.simps [of "length found"])
  next
    case False
    let ?h = "max (nHeight c - step) 0"
    obtain r d where r: "ancestor_at m q ?h = Some r" "m r = Some d" "nHeight d = ?h"
      using ancestor_at_exists [OF wft Suc.prems(1), of ?h] Suc.prems(3) h0 by auto
    have le: "?h \<le> (step * 2) * (2 ^ k - 1)"
    proof -
      have "nHeight c - step \<le> (step * 2) * (2 ^ k - 1)" using Suc.prems(4) by (simp add: algebra_simps)
      moreover have "0 \<le> (step * 2) * (2 ^ k - 1)" using Suc.prems(3) by simp
      ultimately show ?thesis by simp
    qed
    have fit: "step * 2 \<le> 2 ^ 30" 
    proof -
      have "step * 1 \<le> step * 2 ^ k" using Suc.prems(3) by (intro mult_left_mono) auto
      then show ?thesis using Suc.prems(5) unfolding power_Suc by linarith
    qed
    have IH: "locator_loop m (step * 2) (found @ [q]) r =
        Some ((found @ [q]) @ map (the \<circ> ancestor_at m r) (locator_heights (Suc (length found)) (step * 2) ?h)) \<and>
      length (locator_heights (Suc (length found)) (step * 2) ?h) \<le> k + 1"
      using Suc.IH [OF r(2), of "found @ [q]" "step * 2"] r(3) le Suc.prems(2,3,5) by (simp add: mult.assoc)
    have anc: "map (the \<circ> ancestor_at m r) (locator_heights n s ?h) = map (the \<circ> ancestor_at m q) (locator_heights n s ?h)"
      if "0 < s" for n s
      using locator_heights_descend [of s ?h n] that ancestor_at_trans [OF wft r(1)] by auto
    have "locator_heights (length found) step (nHeight c) =
        nHeight c # locator_heights (Suc (length found)) (step * 2) ?h"
      using False h0 Suc.prems(2,3) by (subst locator_heights.simps) simp
    moreover have "locator_loop m step found q = locator_loop m (step * 2) (found @ [q]) r"
      using Suc.prems(1,2) ph False r(1) GetAncestor_correct [OF wf Suc.prems(1)] fit Suc.prems(3)
      by (subst locator_loop.simps) (simp add: fits_int32_def INT32_MIN_def INT32_MAX_def)
    ultimately show ?thesis
      using IH anc [of "step * 2"] Suc.prems(3) self by simp
  qed
qed

lemma locator_phase1:
  assumes wf: "wf_index m" and k: "k \<le> 30"
  shows "m q = Some c \<Longrightarrow> nHeight c < 2 ^ k \<Longrightarrow> length found \<le> 10 \<Longrightarrow>
    locator_loop m 1 found q =
      Some (found @ map (the \<circ> ancestor_at m q) (locator_heights (length found) 1 (nHeight c))) \<and>
    length (locator_heights (length found) 1 (nHeight c)) \<le> (10 - length found) + k + 1"
proof (induction "10 - length found" arbitrary: q c found)
  case 0
  moreover have "(2::int) ^ k \<le> 2 ^ 30" using k by (intro power_increasing) auto
  ultimately show ?case using locator_phase2 [OF wf 0(2), of found 1 k] by simp
next
  case (Suc n)
  have wft: "wf_tree m" and ph: "phashBlock c = Some q" using wf Suc.prems(1) by (auto simp: wf_index_def)
  have h0: "0 \<le> nHeight c" using wf_height [OF wft Suc.prems(1)] .
  note self = ancestor_at_self [OF wft Suc.prems(1)]
  show ?case
  proof (cases "nHeight c = 0")
    case True
    with Suc.prems ph self show ?thesis
      by (simp add: locator_loop.simps [of m] locator_heights.simps [of "length found"])
  next
    case False
    let ?h = "nHeight c - 1"
    obtain r d where r: "ancestor_at m q ?h = Some r" "m r = Some d" "nHeight d = ?h"
      using ancestor_at_exists [OF wft Suc.prems(1), of ?h] False h0 by auto
    have IH: "locator_loop m 1 (found @ [q]) r =
        Some ((found @ [q]) @ map (the \<circ> ancestor_at m r) (locator_heights (Suc (length found)) 1 ?h)) \<and>
      length (locator_heights (Suc (length found)) 1 ?h) \<le> (10 - Suc (length found)) + k + 1"
      using Suc.hyps(1) [of "found @ [q]" r d] Suc.hyps(2) r Suc.prems(2) by simp
    have anc: "map (the \<circ> ancestor_at m r) (locator_heights n 1 ?h) = map (the \<circ> ancestor_at m q) (locator_heights n 1 ?h)" for n
      using locator_heights_descend [of 1 ?h n] ancestor_at_trans [OF wft r(1)] False h0 by auto
    have mx: "max (nHeight c - 1) 0 = ?h" using False h0 by simp
    have "locator_heights (length found) 1 (nHeight c) = nHeight c # locator_heights (Suc (length found)) 1 ?h"
      using False h0 Suc.hyps(2) by (subst locator_heights.simps) (auto simp: mx)
    moreover have "locator_loop m 1 found q = locator_loop m 1 (found @ [q]) r"
      using Suc.prems(1) Suc.hyps(2) ph False h0 r(1) GetAncestor_correct [OF wf Suc.prems(1)]
      by (subst locator_loop.simps) (auto simp: mx)
    ultimately show ?thesis
      using IH anc self Suc.hyps(2) by (auto simp del: map_eq_conv)
  qed
qed

lemma LocatorEntries_correct:
  assumes "wf_index m" "m p = Some b" "nHeight b < 2 ^ k" "k \<le> 30"
  shows "\<exists>hs. LocatorEntries m (Some p) = Some (map (the \<circ> ancestor_at m p) hs) \<and>
    hd hs = nHeight b \<and> last hs = 0 \<and> sorted_wrt (>) hs \<and> length hs \<le> 11 + k"
proof -
  let ?hs = "locator_heights 0 1 (nHeight b)"
  have "0 \<le> nHeight b" using wf_height [of m p b] assms(1,2) by (simp add: wf_index_def)
  then have "last ?hs = 0 \<and> sorted_wrt (>) ?hs"
    using locator_heights_descend [OF zero_less_one, of "nHeight b" 0] by blast
  moreover have "LocatorEntries m (Some p) = Some (map (the \<circ> ancestor_at m p) ?hs)" "length ?hs \<le> 11 + k"
    using locator_phase1 [OF assms(1,4,2,3), of "[]"] by (simp_all add: LocatorEntries_def)
  ultimately show ?thesis using locator_heights_hd by blast
qed

section \<open>Binary search\<close>

lemma lower_bound_partition:
  assumes "\<And>i. i < k \<Longrightarrow> cmp (xs ! i) = Some True"
    "\<And>i. k \<le> i \<Longrightarrow> i < length xs \<Longrightarrow> cmp (xs ! i) = Some False"
  shows "first \<le> k \<Longrightarrow> k \<le> first + count \<Longrightarrow> first + count \<le> length xs \<Longrightarrow>
    lower_bound cmp xs first count = Some k"
proof (induction count arbitrary: first rule: less_induct)
  case (less count)
  show ?case
  proof (cases "count = 0")
    case True
    with less.prems show ?thesis by (simp add: lower_bound.simps)
  next
    case False
    let ?mid = "first + count div 2"
    have lt: "count div 2 < count" "count - (count div 2 + 1) < count" "?mid < length xs"
      using False less.prems(3) by auto
    show ?thesis
    proof (cases "?mid < k")
      case True
      then have "lower_bound cmp xs (?mid + 1) (count - (count div 2 + 1)) = Some k"
        using less.prems lt by (intro less.IH) auto
      then show ?thesis using True assms(1) [of ?mid] False by (subst lower_bound.simps) (simp add: Let_def)
    next
      case mid: False
      then have "lower_bound cmp xs first (count div 2) = Some k"
        using less.prems lt by (intro less.IH) auto
      then show ?thesis using mid assms(2) [of ?mid] False lt by (subst lower_bound.simps) (simp add: Let_def)
    qed
  qed
qed

text \<open>\<open>nTimeMax\<close> is the greatest time of the branch, so it never decreases along the chain.\<close>

definition wf_times :: "BlockMap \<Rightarrow> bool" where
  "wf_times m \<longleftrightarrow>
     (\<forall>p b. m p = Some b \<longrightarrow> nTimeMax b =
        (case pprev b of
           None \<Rightarrow> nTime b
         | Some q \<Rightarrow> (case m q of None \<Rightarrow> nTime b | Some c \<Rightarrow> max (nTimeMax c) (nTime b))))"

lemma earlier_down:
  assumes "wf_times m" "chain_ok m v" "Suc i < length v" "earlier m t h (v ! Suc i) = Some True"
  shows "earlier m t h (v ! i) = Some True"
proof -
  obtain p b where p: "v ! Suc i = Some p" "m p = Some b" "nHeight b = int (Suc i)" "pprev b = v ! i"
    using assms(2,3) by (fastforce simp: chain_ok_def)
  obtain q c where q: "v ! i = Some q" "m q = Some c" "nHeight c = int i"
    using chain_ok_nth [OF assms(2), of i] chain_ok_entry [OF assms(2), of i] assms(3) by auto
  have "nTimeMax b = max (nTimeMax c) (nTime b)"
    using assms(1) p q by (auto simp: wf_times_def)
  then have "uint (nTimeMax c) \<le> uint (nTimeMax b)"
    using max.cobounded1 word_le_def by metis
  with assms(4) p q show ?thesis by (auto simp: earlier_def GetBlockTimeMax_def)
qed

lemma earlier_value:
  assumes "chain_ok m v" "i < length v"
  shows "\<exists>x. earlier m t h (v ! i) = Some x"
  using assms by (fastforce simp: chain_ok_def earlier_def)

lemma FindEarliestAtLeast_correct:
  assumes "wf_times m" "chain_ok m v"
  shows "\<exists>k \<le> length v. (\<forall>i < k. earlier m t h (v ! i) = Some True) \<and>
    (\<forall>i. k \<le> i \<and> i < length v \<longrightarrow> earlier m t h (v ! i) = Some False) \<and>
    FindEarliestAtLeast m v t h = Some (if k = length v then None else v ! k)"
proof -
  define late where "late i \<longleftrightarrow> i = length v \<or> (i < length v \<and> earlier m t h (v ! i) = Some False)" for i
  define k where "k = (LEAST i. late i)"
  have "late (length v)" by (simp add: late_def)
  then have late: "late k" "k \<le> length v" unfolding k_def by (rule LeastI, rule Least_le)
  have before: "earlier m t h (v ! i) = Some True" if "i < k" for i
  proof -
    have "\<not> late i" using not_less_Least [of i late] that by (simp add: k_def)
    then show ?thesis using that late(2) earlier_value [OF assms(2), of i t h] by (auto simp: late_def)
  qed
  have after: "earlier m t h (v ! i) = Some False" if "k \<le> i" "i < length v" for i
    using that
  proof (induction i rule: dec_induct)
    case base
    then show ?case using late by (simp add: late_def)
  next
    case (step i)
    then show ?case
      using earlier_down [OF assms step.prems, of t h] earlier_value [OF assms(2) step.prems, of t h] by auto
  qed
  have "lower_bound (earlier m t h) v 0 (length v) = Some k"
    using before after late(2) by (intro lower_bound_partition) auto
  with before after late(2) show ?thesis by (auto simp: FindEarliestAtLeast_def intro!: exI [of _ k])
qed

section \<open>Median time past\<close>

lemma filter_sorted_ge:
  assumes "sorted xs" "j < length xs"
  shows "v \<le> xs ! j \<longleftrightarrow> length xs - j \<le> length (filter (\<lambda>x. v \<le> x) xs)"
  using assms
proof (induction xs arbitrary: j)
  case (Cons x xs)
  show ?case
  proof (cases "v \<le> x")
    case True
    then have "\<forall>y \<in> set (x # xs). v \<le> y" using Cons.prems(1) by auto
    moreover from this have "filter (\<lambda>x. v \<le> x) (x # xs) = x # xs" by (simp add: filter_id_conv)
    ultimately show ?thesis using Cons.prems(2) nth_mem by (metis diff_le_self)
  next
    case False
    have "length (filter (\<lambda>x. v \<le> x) xs) < Suc (length xs)"
      by (rule le_imp_less_Suc [OF length_filter_le])
    with False show ?thesis using Cons by (cases j) (auto simp: not_le)
  qed
qed simp

definition median :: "int list \<Rightarrow> int" where
  "median xs = sort xs ! (length xs div 2)"

lemma median_ge:
  assumes "xs \<noteq> []"
  shows "v \<le> median xs \<longleftrightarrow> length xs - length xs div 2 \<le> length (filter (\<lambda>x. v \<le> x) xs)"
proof -
  have "length (filter (\<lambda>x. v \<le> x) (sort xs)) = length (filter (\<lambda>x. v \<le> x) xs)"
    by (simp add: filter_sort)
  then show ?thesis
    using filter_sorted_ge [of "sort xs" "length xs div 2" v] assms by (simp add: median_def)
qed

lemma median_push:
  assumes "xs \<noteq> []" "length xs \<le> Suc n" "even n" "median xs < t"
  shows "median xs \<le> median (t # take n xs)"
proof -
  let ?c = "\<lambda>l. length (filter (\<lambda>x. median xs \<le> x) l)"
  have c: "length xs - length xs div 2 \<le> ?c xs" using median_ge [OF assms(1), of "median xs"] by simp
  show ?thesis
  proof (cases "length xs \<le> n")
    case True
    then show ?thesis using c assms(4) median_ge [of "t # xs" "median xs"] by simp
  next
    case False
    then have len: "length xs = Suc n" using assms(2) by simp
    have "?c xs = ?c (take n xs) + ?c (drop n xs)"
      by (metis append_take_drop_id filter_append length_append)
    moreover have "?c (drop n xs) \<le> 1"
      using order_trans [OF length_filter_le, of "drop n xs" 1] len by simp
    ultimately have "?c xs \<le> Suc (?c (take n xs))" by simp
    then show ?thesis using c assms(4) len median_ge [of "t # take n xs" "median xs"] by simp
  qed
qed

lemma median_times_take: "n \<le> n' \<Longrightarrow> median_times m n p = take n (median_times m n' p)"
proof (induction m n p arbitrary: n' rule: median_times.induct)
  case (3 m i p)
  then obtain k where "n' = Suc k" "i \<le> k" by (cases n') auto
  with 3 show ?case by (auto split: option.splits)
qed (auto split: option.splits, case_tac n', auto)

lemma length_median_times: "length (median_times m n p) \<le> n"
  by (induction m n p rule: median_times.induct) (auto split: option.splits)

lemma GetMedianTimePast_median: "GetMedianTimePast m p = median (median_times m nMedianTimeSpan (Some p))"
  by (simp add: GetMedianTimePast_def median_def Let_def)

lemma median_times_step:
  assumes "m p = Some b" "pprev b = Some q"
  shows "median_times m nMedianTimeSpan (Some p) = GetBlockTime b # take 10 (median_times m nMedianTimeSpan (Some q))"
proof -
  have "median_times m (Suc 10) (Some p) = GetBlockTime b # median_times m 10 (Some q)"
    unfolding median_times.simps using assms by simp
  then show ?thesis
    using median_times_take [of 10 11 m "Some q"] by (simp add: nMedianTimeSpan_def)
qed

lemma GetMedianTimePast_step:
  assumes "m p = Some b" "pprev b = Some q" "m q = Some c" "GetMedianTimePast m q < GetBlockTime b"
  shows "GetMedianTimePast m q \<le> GetMedianTimePast m p"
proof -
  let ?l = "median_times m nMedianTimeSpan (Some q)"
  have "?l \<noteq> []" using assms(3) by (simp add: nMedianTimeSpan_def eval_nat_numeral)
  moreover have "length ?l \<le> Suc 10"
    using length_median_times [of m nMedianTimeSpan "Some q"] by (simp add: nMedianTimeSpan_def)
  ultimately show ?thesis
    using assms median_times_step [of m p b q] median_push [of ?l 10 "GetBlockTime b"]
    by (simp add: GetMedianTimePast_median)
qed

text \<open>The rule \<^verbatim>\<open>time-too-old\<close> of \<^verbatim>\<open>ContextualCheckBlockHeader\<close>, for every block of the tree.\<close>

definition times_checked :: "BlockMap \<Rightarrow> bool" where
  "times_checked m \<longleftrightarrow>
     (\<forall>p b q. m p = Some b \<longrightarrow> pprev b = Some q \<longrightarrow> GetMedianTimePast m q < GetBlockTime b)"

lemma GetMedianTimePast_parent_n:
  assumes "wf_tree m" "times_checked m"
  shows "m p = Some b \<Longrightarrow> parent_n m n p = Some q \<Longrightarrow> GetMedianTimePast m q \<le> GetMedianTimePast m p"
proof (induction n arbitrary: p b)
  case (Suc n)
  then obtain r where r: "pprev b = Some r" "parent_n m n r = Some q" by (auto split: option.splits)
  obtain c where c: "m r = Some c" using wf_child [OF assms(1) Suc.prems(1) r(1)] by blast
  have "GetMedianTimePast m r < GetBlockTime b"
    using assms(2) Suc.prems(1) r(1) by (auto simp: times_checked_def)
  then show ?case
    using GetMedianTimePast_step [of m p b r c] Suc.prems(1) r(1) c Suc.IH [OF c r(2)] by linarith
qed simp

section \<open>Work and validity\<close>

lemma compact_number_not_max: "compact_number c + 1 \<noteq> 2 ^ 256"
proof (cases "compact_size c \<le> 3")
  case True
  then have "compact_number c < 2 ^ 23"
    using mantissa_less [of c] by (auto simp: compact_number_def intro: le_less_trans [OF div_le_dividend])
  moreover have "(2::nat) ^ 23 < 2 ^ 256" by (rule power_strict_increasing) auto
  ultimately show ?thesis by simp
next
  case False
  then have "even (compact_number c)"
    by (auto simp: compact_number_def)
  then have "odd (compact_number c + 1)" by simp
  moreover have "even ((2::nat) ^ 256)" by simp
  ultimately show ?thesis by metis
qed

lemma GetBlockProof_value:
  "\<exists>w. GetBlockProof c = Inr w \<and> length w = WIDTH256 \<and>
     uval w = (if cr_negative (SetCompact c) \<or> 2 ^ 256 \<le> compact_number c \<or> compact_number c = 0 then 0
               else 2 ^ 256 div (compact_number c + 1))"
proof (cases "cr_negative (SetCompact c) \<or> 2 ^ 256 \<le> compact_number c \<or> compact_number c = 0")
  case True
  then have "cr_negative (SetCompact c) \<or> cr_overflow (SetCompact c) \<or> EqualTo (cr_value (SetCompact c)) 0"
    using SetCompact_overflow_iff [of c] EqualTo_iff [of "cr_value (SetCompact c)" 0]
      length_SetCompact [of c] uval_SetCompact [of c] by auto
  with True show ?thesis by (simp add: GetBlockProof_def Let_def width_simps uval_simps)
next
  case False
  let ?t = "cr_value (SetCompact c)"
  have v: "uval ?t = compact_number c" using False uval_SetCompact [of c] by simp
  have n: "\<not> (cr_negative (SetCompact c) \<or> cr_overflow (SetCompact c) \<or> EqualTo ?t 0)"
    using False SetCompact_overflow_iff [of c] EqualTo_iff [of ?t 0] length_SetCompact [of c] v by auto
  have "compact_number c + 1 < 2 ^ 256" using False compact_number_not_max [of c] by linarith
  then obtain q where "base_uint_div (base_uint_not ?t) (base_uint_add ?t (arith_of_u64 1)) = Inr q"
      "length (base_uint_add q (arith_of_u64 1)) = WIDTH256"
      "uval (base_uint_add q (arith_of_u64 1)) = 2 ^ 256 div (compact_number c + 1)"
    using u256.complement_quotient [of ?t "arith_of_u64 1"] False v length_SetCompact [of c]
    by (auto simp: width_simps uval_of_u64)
  with n False show ?thesis by (simp add: GetBlockProof_def Let_def)
qed

lemma GetBlockProof_pos:
  assumes "GetBlockProof c = Inr w" "\<not> cr_negative (SetCompact c)" "compact_number c < 2 ^ 256" "0 < compact_number c"
  shows "0 < uval w \<and> uval w * compact_number c < 2 ^ 256"
proof -
  have w: "uval w = 2 ^ 256 div (compact_number c + 1)" using GetBlockProof_value [of c] assms by auto
  have "compact_number c + 1 \<le> 2 ^ 256" using assms(3) by linarith
  then have "0 < uval w" unfolding w by (simp add: div_greater_zero_iff)
  moreover have "uval w * (compact_number c + 1) \<le> 2 ^ 256" unfolding w by (rule div_times_less_eq_dividend)
  ultimately show ?thesis by (simp add: algebra_simps)
qed

text \<open>The validity field and the failure bits of \<^verbatim>\<open>nStatus\<close>.\<close>

lemma status_bits:
  "BLOCK_VALID_MASK AND BLOCK_FAILED_MASK = 0"
  by (simp add: BLOCK_VALID_MASK_def BLOCK_FAILED_MASK_def BLOCK_FAILED_VALID_def BLOCK_FAILED_CHILD_def
     BLOCK_VALID_RESERVED_def BLOCK_VALID_TREE_def BLOCK_VALID_TRANSACTIONS_def BLOCK_VALID_CHAIN_def BLOCK_VALID_SCRIPTS_def)

lemma field_set:
  fixes s n k f :: u32
  assumes "n AND NOT k = 0"
  shows "((s AND NOT k) OR n) AND k = n" "((s AND NOT k) OR n) AND NOT k = s AND NOT k"
    and "k AND f = 0 \<Longrightarrow> ((s AND NOT k) OR n) AND f = s AND f"
  using assms by (auto simp: bit_eq_iff bit_simps)

lemma RaiseValidity_spec:
  assumes "n AND NOT BLOCK_VALID_MASK = 0"
  shows "\<exists>r b'. RaiseValidity b n = Some (r, b') \<and> b'\<lparr>nStatus := nStatus b\<rparr> = b \<and>
    nStatus b' AND NOT BLOCK_VALID_MASK = nStatus b AND NOT BLOCK_VALID_MASK \<and>
    nStatus b AND BLOCK_VALID_MASK \<le> nStatus b' AND BLOCK_VALID_MASK \<and>
    (r \<longleftrightarrow> b' \<noteq> b) \<and>
    (nStatus b AND BLOCK_FAILED_MASK = 0 \<longrightarrow> IsValid b' n = Some True) \<and>
    (nStatus b AND BLOCK_FAILED_MASK \<noteq> 0 \<longrightarrow> b' = b)"
proof -
  note f = field_set(1,2) [OF assms, of "nStatus b"] field_set(3) [OF assms status_bits, of "nStatus b"]
  consider "nStatus b AND BLOCK_FAILED_MASK \<noteq> 0" 
    | "nStatus b AND BLOCK_FAILED_MASK = 0" "nStatus b AND BLOCK_VALID_MASK < n"
    | "nStatus b AND BLOCK_FAILED_MASK = 0" "n \<le> nStatus b AND BLOCK_VALID_MASK"
    by (metis not_le)
  then show ?thesis
  proof cases
    case 2
    let ?b = "b\<lparr>nStatus := (nStatus b AND NOT BLOCK_VALID_MASK) OR n\<rparr>"
    have "RaiseValidity b n = Some (True, ?b)" using 2 assms by (simp add: RaiseValidity_def)
    moreover have "IsValid ?b n = Some True" using 2 assms f by (simp add: IsValid_def)
    moreover have "nStatus ?b \<noteq> nStatus b" using f(1) 2(2) by auto
    then have "?b \<noteq> b" by metis
    ultimately show ?thesis using 2 f by (intro exI [of _ True] exI [of _ ?b]) simp
  qed (use assms in \<open>auto simp: RaiseValidity_def IsValid_def\<close>)
qed

section \<open>Properties\<close>

text \<open>A tree of four blocks with a fork above its root, for the concrete instances.\<close>

definition sample_block :: "ptr \<Rightarrow> ptr option \<Rightarrow> ptr option \<Rightarrow> int \<Rightarrow> u32 \<Rightarrow> CBlockIndex" where
  "sample_block p prev skip h t =
     (CBlockIndex_of_header (CBlockHeader_SetNull))
       \<lparr>phashBlock := Some p, pprev := prev, pskip := skip, nHeight := h, nTime := t, nTimeMax := t\<rparr>"

definition sample_index :: BlockMap where
  "sample_index =
     [[0] \<mapsto> sample_block [0] None None 0 100,
      [1] \<mapsto> sample_block [1] (Some [0]) (Some [0]) 1 200,
      [2] \<mapsto> sample_block [2] (Some [0]) (Some [0]) 1 300,
      [3] \<mapsto> sample_block [3] (Some [2]) (Some [0]) 2 400]"

lemma sample_index_cases:
  "sample_index p = Some b \<Longrightarrow>
     p = [0] \<and> b = sample_block [0] None None 0 100 \<or> p = [1] \<and> b = sample_block [1] (Some [0]) (Some [0]) 1 200 \<or>
     p = [2] \<and> b = sample_block [2] (Some [0]) (Some [0]) 1 300 \<or> p = [3] \<and> b = sample_block [3] (Some [2]) (Some [0]) 2 400"
  by (auto simp: sample_index_def split: if_splits)

lemma sample_index_at:
  "sample_index [0] = Some (sample_block [0] None None 0 100)"
  "sample_index [1] = Some (sample_block [1] (Some [0]) (Some [0]) 1 200)"
  "sample_index [2] = Some (sample_block [2] (Some [0]) (Some [0]) 1 300)"
  "sample_index [3] = Some (sample_block [3] (Some [2]) (Some [0]) 2 400)"
  by (simp_all add: sample_index_def)

lemma sample_block_sel [simp]:
  "phashBlock (sample_block p prev skip h t) = Some p" "pprev (sample_block p prev skip h t) = prev"
  "pskip (sample_block p prev skip h t) = skip" "nHeight (sample_block p prev skip h t) = h"
  "nTime (sample_block p prev skip h t) = t" "nTimeMax (sample_block p prev skip h t) = t"
  by (simp_all add: sample_block_def)

lemma sample_index_wf: "wf_index sample_index"
proof -
  have "wf_tree sample_index"
    unfolding wf_tree_def by (auto dest!: sample_index_cases simp: sample_index_at)
  moreover have "wf_skip sample_index"
    unfolding wf_skip_def
    by (auto dest!: sample_index_cases simp: sample_index_at GetSkipHeight_def InvertLowestOne_def eval_nat_numeral)
  ultimately show ?thesis by (auto simp: wf_index_def dest!: sample_index_cases)
qed

lemma median_times_numeral:
  "median_times m (numeral k) None = []"
  "median_times m (numeral k) (Some p) =
     (case m p of None \<Rightarrow> [] | Some b \<Rightarrow> GetBlockTime b # median_times m (pred_numeral k) (pprev b))"
  by (simp_all add: numeral_eq_Suc)

lemma sample_times_checked: "times_checked sample_index"
  unfolding times_checked_def GetMedianTimePast_def nMedianTimeSpan_def
  by (auto dest!: sample_index_cases simp: sample_index_at GetBlockTime_def median_times_numeral)

text \<open>
  C17. On a well-formed index the skip-list walk of \<^verbatim>\<open>GetAncestor\<close> gives exactly what
  following \<^verbatim>\<open>pprev\<close> one block at a time gives, the null pointer outside the heights of the
  branch included, and its assertion on \<^verbatim>\<open>pprev\<close> never fails.
\<close>

theorem GetAncestor_equals_parent_walk:
  assumes "wf_index m" "m p = Some b"
  shows "GetAncestor m p height =
    Some (if height > nHeight b \<or> height < 0 then None else parent_n m (nat (nHeight b - height)) p)"
  using GetAncestor_correct [OF assms] assms(2) by (simp add: ancestor_at_def)

theorem GetAncestor_equals_parent_walk_witness:
  "GetAncestor sample_index [3] 0 = Some (Some [0])"
  using GetAncestor_equals_parent_walk [OF sample_index_wf sample_index_at(4), of 0]
  by (simp add: eval_nat_numeral sample_index_at)

text \<open>
  C19. \<^verbatim>\<open>SetTip\<close> turns the vector of any branch into the vector of the branch of the new tip:
  the result is again a path of the tree, it ends in the new tip, and at every height it holds the
  ancestor of the tip at that height, although the loop stops at the first entry that agrees.
\<close>

theorem SetTip_rebuilds_path:
  assumes "wf_tree m" "chain_ok m v" "m p = Some b"
  shows "\<exists>v'. SetTip m v p = Some v' \<and> chain_ok m v' \<and> Tip v' = Some p \<and> Height v' = nHeight b \<and>
    (\<forall>h. chain_at v' h = ancestor_at m p h)"
proof -
  let ?v = "chain_to m p (nHeight b)"
  have h: "0 \<le> nHeight b" using wf_height assms by blast
  have at: "chain_at ?v k = ancestor_at m p k" for k
    using assms(3) h by (auto simp: chain_at_def chain_to_def Height_def ancestor_at_def)
  moreover have "Height ?v = nHeight b" using h by (simp add: Height_def chain_to_def)
  moreover have "Tip ?v = Some p"
    using h ancestor_at_self [OF assms(1,3)] by (simp add: Tip_def chain_to_def nth_append)
  ultimately show ?thesis
    using SetTip_correct [OF assms] chain_ok_chain_to [OF assms(1,3)] by blast
qed

theorem SetTip_rebuilds_path_witness:
  "\<exists>v'. SetTip sample_index [Some [0], Some [1]] [3] = Some v' \<and> chain_ok sample_index v' \<and>
     Tip v' = Some [3] \<and> Height v' = 2"
proof -
  have "chain_ok sample_index [Some [0], Some [1]]"
    by (auto simp: chain_ok_def less_Suc_eq nth_Cons' sample_index_at)
  from SetTip_rebuilds_path [OF _ this sample_index_at(4)] sample_index_wf show ?thesis
    by (auto simp: wf_index_def)
qed

text \<open>
  The two fork searches agree with their specification on a well-formed index, for any
  chain vector: \<^verbatim>\<open>FindFork\<close> gives the highest block of the branch that the chain also has at
  its height and \<^verbatim>\<open>LastCommonAncestor\<close> the highest block two branches share; there is no
  higher one, the null pointer means that there is none, and the final assertion cannot fail.
\<close>

theorem fork_searches:
  assumes "wf_index m" "m p = Some b" "m q = Some c"
  shows "(\<exists>r. FindFork m v (Some p) = Some r \<and> last_agreement (ancestor_at m p) (chain_at v) (nHeight b) r) \<and>
    (\<exists>r. LastCommonAncestor m p q = Some r \<and>
       last_agreement (ancestor_at m p) (ancestor_at m q) (min (nHeight b) (nHeight c)) r)"
  using FindFork_correct [OF assms(1,2)] LastCommonAncestor_correct [OF assms] by blast

theorem fork_searches_witness:
  "\<exists>r. LastCommonAncestor sample_index [3] [1] = Some r \<and>
     last_agreement (ancestor_at sample_index [3]) (ancestor_at sample_index [1]) 1 r"
  using fork_searches [OF sample_index_wf sample_index_at(4) sample_index_at(2)] by simp

text \<open>
  C30. \<^verbatim>\<open>LocatorEntries\<close> returns for every block below height \<open>2 ^ 30\<close>: no shift of the step
  overflows, the hashes are those of ancestors at strictly decreasing heights from the block itself
  down to the genesis block, and there are at most \<open>11 + k\<close> of them below height \<open>2 ^ k\<close>.
\<close>

theorem LocatorEntries_logarithmic:
  assumes "wf_index m" "m p = Some b" "nHeight b < 2 ^ k" "k \<le> 30"
  shows "\<exists>hs. LocatorEntries m (Some p) = Some (map (the \<circ> ancestor_at m p) hs) \<and>
    hd hs = nHeight b \<and> last hs = 0 \<and> sorted_wrt (>) hs \<and> length hs \<le> 11 + k"
  by (rule LocatorEntries_correct [OF assms])

theorem LocatorEntries_logarithmic_witness:
  "\<exists>hs. LocatorEntries sample_index (Some [3]) = Some (map (the \<circ> ancestor_at sample_index [3]) hs) \<and>
     hd hs = 2 \<and> last hs = 0"
  using LocatorEntries_logarithmic [OF sample_index_wf sample_index_at(4), of 2] by auto

text \<open>
  C31. Where every block is later than the median time of its predecessor, which is the rule that
  \<^verbatim>\<open>ContextualCheckBlockHeader\<close> enforces, the median time past never decreases along a branch,
  although block times may.
\<close>

theorem GetMedianTimePast_monotone:
  assumes "wf_tree m" "times_checked m" "m p = Some b" "ancestor_at m p h = Some q"
  shows "GetMedianTimePast m q \<le> GetMedianTimePast m p"
proof -
  have "parent_n m (nat (nHeight b - h)) p = Some q"
    using assms(3,4) by (auto simp: ancestor_at_def split: if_splits)
  then show ?thesis by (rule GetMedianTimePast_parent_n [OF assms(1-3)])
qed

theorem GetMedianTimePast_monotone_witness:
  "GetMedianTimePast sample_index [0] \<le> GetMedianTimePast sample_index [3]"
proof -
  have "ancestor_at sample_index [3] 0 = Some [0]"
    by (simp add: ancestor_at_def sample_index_at eval_nat_numeral)
  with GetMedianTimePast_monotone [OF _ sample_times_checked sample_index_at(4)] sample_index_wf
  show ?thesis by (auto simp: wf_index_def)
qed

text \<open>
  \<^verbatim>\<open>GetBlockProof\<close> never divides by zero and is \<open>2 ^ 256 div (target + 1)\<close> for every
  valid compact target and zero for the others, so that the work counted for a block and its target
  multiply to less than \<open>2 ^ 256\<close>.
\<close>

theorem GetBlockProof_work:
  "\<exists>w. GetBlockProof c = Inr w \<and> length w = WIDTH256 \<and> uval w * compact_number c < 2 ^ 256 \<and>
     uval w = (if cr_negative (SetCompact c) \<or> 2 ^ 256 \<le> compact_number c \<or> compact_number c = 0 then 0
               else 2 ^ 256 div (compact_number c + 1))"
proof -
  obtain w where w: "GetBlockProof c = Inr w" "length w = WIDTH256"
      "uval w = (if cr_negative (SetCompact c) \<or> 2 ^ 256 \<le> compact_number c \<or> compact_number c = 0 then 0
               else 2 ^ 256 div (compact_number c + 1))"
    using GetBlockProof_value by blast
  moreover have "uval w * compact_number c < 2 ^ 256"
    using w(3) GetBlockProof_pos [OF w(1)] by (auto split: if_splits)
  ultimately show ?thesis by blast
qed

end
