(* ===== verification/BlockStorage.thy ===== *)
theory BlockStorage
  imports Chain "HOL-Library.Monad_Syntax" "HOL-Library.Product_Lexorder"
begin

unbundle bit_operations_syntax

text \<open>
  The block manager of \<^verbatim>\<open>node/blockstorage.cpp\<close>: the tree of block headers it maintains
  (\<^verbatim>\<open>AddToBlockIndex\<close>, \<^verbatim>\<open>InsertBlockIndex\<close>, the pass of \<^verbatim>\<open>LoadBlockIndex\<close> that
  recomputes the derived fields after a restart), the comparator that orders candidate tips, the
  allocation of positions in block and undo files, and pruning of one file.

  \<^verbatim>\<open>m_block_index\<close> is an unordered map, so the passes over it take the iteration order as an
  argument. Disk access (flushing, extending a file) is an argument too; locks and logging have no
  counterpart. A failed assertion or an invalid dereference is \<open>None\<close>.
\<close>

section \<open>Model\<close>

record FlatFilePos =
  ffp_nFile :: int
  ffp_nPos :: u32

definition FlatFilePos_null :: FlatFilePos where
  "FlatFilePos_null = \<lparr>ffp_nFile = -1, ffp_nPos = 0\<rparr>"

definition FlatFilePos_IsNull :: "FlatFilePos \<Rightarrow> bool" where
  "FlatFilePos_IsNull pos \<longleftrightarrow> ffp_nFile pos = -1"

datatype BlockfileType = NORMAL | ASSUMED

record BlockfileCursor =
  file_num :: int
  undo_height :: int

record BlockManager =
  m_block_index :: BlockMap
  m_dirty_blockindex :: "ptr set"
  m_blocks_unlinked :: "(ptr option \<times> ptr) list"
  m_blockfile_info :: "CBlockFileInfo list"
  m_dirty_fileinfo :: "int set"
  m_blockfile_cursors :: "BlockfileType \<Rightarrow> BlockfileCursor option"
  m_snapshot_height :: "int option"
  m_have_pruned :: bool
  m_check_for_pruning :: bool

definition CBlockFileInfo_init :: CBlockFileInfo where
  "CBlockFileInfo_init =
     \<lparr>nBlocks = 0, nSize = 0, nUndoSize = 0, nHeightFirst = 0, nHeightLast = 0, nTimeFirst = 0, nTimeLast = 0\<rparr>"

subsection \<open>Comparators\<close>

text \<open>\<open>addr\<close> is the address of a block index entry, the last tie breaker.\<close>

definition CBlockIndexWorkComparator :: "(ptr \<Rightarrow> nat) \<Rightarrow> BlockMap \<Rightarrow> ptr \<Rightarrow> ptr \<Rightarrow> bool option" where
  "CBlockIndexWorkComparator addr m pa pb =
     (case (m pa, m pb) of
        (Some a, Some b) \<Rightarrow>
          Some (if CompareTo (nChainWork a) (nChainWork b) > 0 then False
                else if CompareTo (nChainWork a) (nChainWork b) < 0 then True
                else if nSequenceId a < nSequenceId b then False
                else if nSequenceId a > nSequenceId b then True
                else if addr pa < addr pb then False
                else if addr pa > addr pb then True
                else False)
      | _ \<Rightarrow> None)"

definition CBlockIndexHeightOnlyComparator :: "BlockMap \<Rightarrow> ptr \<Rightarrow> ptr \<Rightarrow> bool option" where
  "CBlockIndexHeightOnlyComparator m pa pb =
     (case (m pa, m pb) of (Some a, Some b) \<Rightarrow> Some (nHeight a < nHeight b) | _ \<Rightarrow> None)"

subsection \<open>The tree\<close>

definition LookupBlockIndex :: "BlockManager \<Rightarrow> uint256 \<Rightarrow> ptr option" where
  "LookupBlockIndex bm hash = (if m_block_index bm hash = None then None else Some hash)"

text \<open>The entry \<^verbatim>\<open>pprev\<close> points to; the outer \<open>None\<close> is a dangling pointer.\<close>

definition prev_entry :: "BlockMap \<Rightarrow> CBlockIndex \<Rightarrow> CBlockIndex option option" where
  "prev_entry m b = (case pprev b of None \<Rightarrow> Some None | Some q \<Rightarrow> map_option Some (m q))"

definition time_max_of :: "CBlockIndex option \<Rightarrow> CBlockIndex \<Rightarrow> u32" where
  "time_max_of prev b = (case prev of None \<Rightarrow> nTime b | Some c \<Rightarrow> max (nTimeMax c) (nTime b))"

definition chain_work_of :: "CBlockIndex option \<Rightarrow> CBlockIndex \<Rightarrow> arith_uint256 option" where
  "chain_work_of prev b =
     (case GetBlockProof (nBits b) of
        Inl e \<Rightarrow> None
      | Inr w \<Rightarrow> Some (base_uint_add (case prev of None \<Rightarrow> arith_of_u64 0 | Some c \<Rightarrow> nChainWork c) w))"

text \<open>The entry after \<^verbatim>\<open>try_emplace\<close>, and linked to its predecessor if that is known.\<close>

definition link_new :: "BlockMap \<Rightarrow> ptr \<Rightarrow> 'a CBlockHeader_scheme \<Rightarrow> BlockMap option" where
  "link_new m hash block =
     (let new = (CBlockIndex_of_header block)\<lparr>nSequenceId := 0, phashBlock := Some hash\<rparr>;
          m0 = m(hash \<mapsto> new)
      in case m0 (hashPrevBlock block) of
           None \<Rightarrow> Some m0
         | Some c \<Rightarrow>
             BuildSkip (m0(hash \<mapsto> new\<lparr>pprev := Some (hashPrevBlock block), nHeight := nHeight c + 1\<rparr>)) hash)"

definition best_of :: "BlockMap \<Rightarrow> ptr option \<Rightarrow> ptr \<Rightarrow> CBlockIndex \<Rightarrow> ptr option option" where
  "best_of m best_header hash b =
     (case best_header of
        None \<Rightarrow> Some (Some hash)
      | Some q \<Rightarrow>
          map_option (\<lambda>c. if CompareTo (nChainWork c) (nChainWork b) < 0 then Some hash else Some q) (m q))"

definition AddToBlockIndex ::
  "(bytes \<Rightarrow> uint256) \<Rightarrow> BlockManager \<Rightarrow> 'a CBlockHeader_scheme \<Rightarrow> ptr option \<Rightarrow>
   (ptr \<times> BlockManager \<times> ptr option) option" where
  "AddToBlockIndex blake3 bm block best_header =
     (let hash = GetHash blake3 block in
      if m_block_index bm hash \<noteq> None then Some (hash, bm, best_header)
      else do {
        m1 \<leftarrow> link_new (m_block_index bm) hash block;
        b \<leftarrow> m1 hash;
        prev \<leftarrow> prev_entry m1 b;
        work \<leftarrow> chain_work_of prev b;
        (_, b') \<leftarrow> RaiseValidity (b\<lparr>nTimeMax := time_max_of prev b, nChainWork := work\<rparr>) BLOCK_VALID_TREE;
        best \<leftarrow> best_of (m1(hash \<mapsto> b')) best_header hash b';
        Some (hash,
              bm\<lparr>m_block_index := m1(hash \<mapsto> b'), m_dirty_blockindex := insert hash (m_dirty_blockindex bm)\<rparr>,
              best)
      })"

definition InsertBlockIndex :: "BlockManager \<Rightarrow> uint256 \<Rightarrow> ptr option \<times> BlockManager" where
  "InsertBlockIndex bm hash =
     (if IsNull hash then (None, bm)
      else if m_block_index bm hash \<noteq> None then (Some hash, bm)
      else (Some hash,
            bm\<lparr>m_block_index := (m_block_index bm)
                 (hash \<mapsto> (CBlockIndex_of_header CBlockHeader_SetNull)\<lparr>phashBlock := Some hash\<rparr>)\<rparr>))"

subsection \<open>Loading\<close>

definition load_tx_count ::
  "ptr option \<Rightarrow> int option \<Rightarrow> CBlockIndex \<Rightarrow> CBlockIndex option \<Rightarrow>
   (u64 \<times> bool) option" where
  "load_tx_count snapshot_blockhash snapshot_height b prev =
     (if nTx b > 0
      then (case prev of
              None \<Rightarrow> Some (ucast (nTx b), False)
            | Some c \<Rightarrow>
                if snapshot_height = Some (nHeight b) \<and> phashBlock b = snapshot_blockhash
                then (if m_chain_tx_count b > 0 then Some (m_chain_tx_count b, False) else None)
                else if m_chain_tx_count c > 0
                then Some (m_chain_tx_count c + ucast (nTx b), False)
                else Some (0, True))
      else Some (m_chain_tx_count b, False))"

text \<open>One iteration of the pass over the blocks sorted by height.\<close>

definition load_entry :: "ptr option \<Rightarrow> BlockManager \<Rightarrow> ptr \<Rightarrow> BlockManager option" where
  "load_entry snapshot_blockhash bm p =
     (let m = m_block_index bm in do {
        b \<leftarrow> m p;
        prev \<leftarrow> prev_entry m b;
        work \<leftarrow> chain_work_of prev b;
        (count, unlinked) \<leftarrow> load_tx_count snapshot_blockhash (m_snapshot_height bm) b prev;
        let failed = (nStatus b AND BLOCK_FAILED_MASK = 0 \<and>
                      (case prev of None \<Rightarrow> False | Some c \<Rightarrow> nStatus c AND BLOCK_FAILED_MASK \<noteq> 0));
        let b' = b\<lparr>nChainWork := work, nTimeMax := time_max_of prev b, m_chain_tx_count := count,
                   nStatus := (if failed then nStatus b OR BLOCK_FAILED_CHILD else nStatus b)\<rparr>;
        let m' = m(p \<mapsto> b');
        let bm' = bm\<lparr>m_blocks_unlinked :=
                        (if unlinked then m_blocks_unlinked bm @ [(pprev b, p)] else m_blocks_unlinked bm),
                     m_dirty_blockindex :=
                        (if failed then insert p (m_dirty_blockindex bm) else m_dirty_blockindex bm)\<rparr>;
        m2 \<leftarrow> (if pprev b = None then Some m' else BuildSkip m' p);
        Some (bm'\<lparr>m_block_index := m2\<rparr>)
      })"

text \<open>
  The pass itself, over the iteration order of \<^verbatim>\<open>m_block_index\<close> sorted by height. The result is
  \<open>False\<close> when a height is missing.
\<close>

fun load_pass ::
  "ptr option \<Rightarrow> BlockManager \<Rightarrow> int option \<Rightarrow> ptr list \<Rightarrow> (bool \<times> BlockManager) option" where
  "load_pass snapshot_blockhash bm previous [] = Some (True, bm)"
| "load_pass snapshot_blockhash bm previous (p # ps) =
     (case m_block_index bm p of
        None \<Rightarrow> None
      | Some b \<Rightarrow>
          if (case previous of None \<Rightarrow> False | Some h \<Rightarrow> nHeight b > h + 1) then Some (False, bm)
          else case load_entry snapshot_blockhash bm p of
                 None \<Rightarrow> None
               | Some bm' \<Rightarrow> load_pass snapshot_blockhash bm' (Some (nHeight b)) ps)"

definition LoadBlockIndex_pass :: "ptr option \<Rightarrow> BlockManager \<Rightarrow> ptr list \<Rightarrow> (bool \<times> BlockManager) option" where
  "LoadBlockIndex_pass snapshot_blockhash bm order =
     load_pass snapshot_blockhash bm None
       (sort_key (\<lambda>p. case m_block_index bm p of None \<Rightarrow> 0 | Some b \<Rightarrow> nHeight b) order)"

subsection \<open>Availability and pruning\<close>

definition IsBlockPruned :: "BlockManager \<Rightarrow> CBlockIndex \<Rightarrow> bool" where
  "IsBlockPruned bm b \<longleftrightarrow> m_have_pruned bm \<and> nStatus b AND BLOCK_HAVE_DATA = 0 \<and> nTx b > 0"

partial_function (option) first_block_loop ::
  "BlockMap \<Rightarrow> u32 \<Rightarrow> ptr option \<Rightarrow> ptr \<Rightarrow> ptr option" where
  "first_block_loop m status_mask lower_block last_block =
     (case m last_block of
        None \<Rightarrow> None
      | Some b \<Rightarrow>
          (case pprev b of
             None \<Rightarrow> Some last_block
           | Some q \<Rightarrow>
               (case m q of
                  None \<Rightarrow> None
                | Some c \<Rightarrow>
                    if nStatus c AND status_mask = status_mask
                    then (case lower_block of
                            None \<Rightarrow> first_block_loop m status_mask lower_block q
                          | Some l \<Rightarrow>
                              if last_block = l then Some l
                              else (case m l of
                                      None \<Rightarrow> None
                                    | Some d \<Rightarrow>
                                        if nHeight b \<ge> nHeight d
                                        then first_block_loop m status_mask lower_block q
                                        else None))
                    else Some last_block)))"

definition GetFirstBlock :: "BlockMap \<Rightarrow> ptr \<Rightarrow> u32 \<Rightarrow> ptr option \<Rightarrow> ptr option" where
  "GetFirstBlock m upper_block status_mask lower_block =
     (case m upper_block of
        None \<Rightarrow> None
      | Some b \<Rightarrow>
          if nStatus b AND status_mask = status_mask
          then first_block_loop m status_mask lower_block upper_block
          else None)"

definition CheckBlockDataAvailability :: "BlockMap \<Rightarrow> ptr \<Rightarrow> ptr \<Rightarrow> bool option" where
  "CheckBlockDataAvailability m upper_block lower_block =
     (case m upper_block of
        None \<Rightarrow> None
      | Some b \<Rightarrow>
          if nStatus b AND BLOCK_HAVE_DATA = 0 then Some False
          else map_option (\<lambda>r. r = lower_block)
                 (GetFirstBlock m upper_block BLOCK_HAVE_DATA (Some lower_block)))"

definition prune_entry :: "int \<Rightarrow> BlockManager \<Rightarrow> ptr \<Rightarrow> BlockManager" where
  "prune_entry fileNumber bm p =
     (case m_block_index bm p of
        None \<Rightarrow> bm
      | Some b \<Rightarrow>
          if nFile b = fileNumber
          then bm\<lparr>m_block_index := (m_block_index bm)
                    (p \<mapsto> b\<lparr>nStatus := (nStatus b AND NOT BLOCK_HAVE_DATA) AND NOT BLOCK_HAVE_UNDO,
                            nFile := 0, nDataPos := 0, nUndoPos := 0\<rparr>),
                  m_dirty_blockindex := insert p (m_dirty_blockindex bm),
                  m_blocks_unlinked := filter (\<lambda>e. e \<noteq> (pprev b, p)) (m_blocks_unlinked bm)\<rparr>
          else bm)"

definition PruneOneBlockFile :: "ptr list \<Rightarrow> BlockManager \<Rightarrow> int \<Rightarrow> BlockManager option" where
  "PruneOneBlockFile order bm fileNumber =
     (let bm' = foldl (prune_entry fileNumber) bm order in
      if 0 \<le> fileNumber \<and> nat fileNumber < length (m_blockfile_info bm')
      then Some (bm'\<lparr>m_blockfile_info := (m_blockfile_info bm')[nat fileNumber := CBlockFileInfo_init],
                     m_dirty_fileinfo := insert fileNumber (m_dirty_fileinfo bm')\<rparr>)
      else None)"

definition CalculateCurrentUsage :: "BlockManager \<Rightarrow> u64" where
  "CalculateCurrentUsage bm =
     foldl (\<lambda>retval f. retval + ucast (nSize f + nUndoSize f)) 0 (m_blockfile_info bm)"

subsection \<open>Positions in the block files\<close>

definition MAX_BLOCKFILE_SIZE :: u32 where
  "MAX_BLOCKFILE_SIZE = 0x8000000"

definition BlockfileTypeForHeight :: "BlockManager \<Rightarrow> int \<Rightarrow> BlockfileType" where
  "BlockfileTypeForHeight bm height =
     (case m_snapshot_height bm of
        None \<Rightarrow> NORMAL
      | Some h \<Rightarrow> if height \<ge> h then ASSUMED else NORMAL)"

definition cursor_of :: "BlockfileCursor option \<Rightarrow> int" where
  "cursor_of c = (case c of None \<Rightarrow> 0 | Some k \<Rightarrow> file_num k)"

definition MaxBlockfileNum :: "BlockManager \<Rightarrow> int" where
  "MaxBlockfileNum bm =
     max (cursor_of (m_blockfile_cursors bm NORMAL)) (cursor_of (m_blockfile_cursors bm ASSUMED))"

definition new_cursor :: "int \<Rightarrow> BlockfileCursor" where
  "new_cursor n = \<lparr>file_num = n, undo_height = 0\<rparr>"

definition set_cursor :: "BlockManager \<Rightarrow> BlockfileType \<Rightarrow> BlockfileCursor \<Rightarrow> BlockManager" where
  "set_cursor bm t c = bm\<lparr>m_blockfile_cursors := (m_blockfile_cursors bm)(t := Some c)\<rparr>"

definition grow_files :: "BlockManager \<Rightarrow> int \<Rightarrow> BlockManager" where
  "grow_files bm n =
     (if int (length (m_blockfile_info bm)) \<le> n
      then bm\<lparr>m_blockfile_info := m_blockfile_info bm @
                 replicate (nat (n + 1) - length (m_blockfile_info bm)) CBlockFileInfo_init\<rparr>
      else bm)"

text \<open>The search for a file with room; \<open>finalize_undo\<close> only steers the flush and is left out.\<close>

partial_function (option) next_file_loop ::
  "BlockfileType \<Rightarrow> u32 \<Rightarrow> u32 \<Rightarrow> BlockManager \<Rightarrow> int \<Rightarrow> (int \<times> BlockManager) option" where
  "next_file_loop chain_type nAddSize max_blockfile_size bm n =
     (if nSize (m_blockfile_info bm ! nat n) + nAddSize \<ge> max_blockfile_size
      then (let n' = MaxBlockfileNum bm + 1
            in next_file_loop chain_type nAddSize max_blockfile_size
                 (grow_files (set_cursor bm chain_type (new_cursor n')) n') n')
      else Some (n, bm))"

definition max_size_for :: "bool \<Rightarrow> u32 \<Rightarrow> u32" where
  "max_size_for fast_prune nAddSize =
     (if fast_prune then (if nAddSize \<ge> 0x10000 then nAddSize + 1 else 0x10000) else MAX_BLOCKFILE_SIZE)"

text \<open>
  \<open>allocate\<close> is \<^verbatim>\<open>m_block_file_seq.Allocate\<close>: the bytes allocated and whether the disk is full.
\<close>

definition FindNextBlockPos ::
  "(FlatFilePos \<Rightarrow> u32 \<Rightarrow> nat \<times> bool) \<Rightarrow> bool \<Rightarrow> bool \<Rightarrow> BlockManager \<Rightarrow> u32 \<Rightarrow> u32 \<Rightarrow> u64 \<Rightarrow>
   (FlatFilePos \<times> BlockManager) option" where
  "FindNextBlockPos allocate fast_prune prune_mode bm nAddSize height time =
     (let chain_type = BlockfileTypeForHeight bm (sint height);
          max_blockfile_size = max_size_for fast_prune nAddSize
      in do {
        bm1 \<leftarrow> (case m_blockfile_cursors bm chain_type of
                  Some c \<Rightarrow> Some bm
                | None \<Rightarrow> if chain_type = ASSUMED
                          then Some (set_cursor bm chain_type (new_cursor (MaxBlockfileNum bm + 1)))
                          else None);
        let last_blockfile = cursor_of (m_blockfile_cursors bm1 chain_type);
        let bm2 = grow_files bm1 last_blockfile;
        (if nAddSize < max_blockfile_size then Some () else None);
        (n, bm3) \<leftarrow> next_file_loop chain_type nAddSize max_blockfile_size bm2 last_blockfile;
        let info = m_blockfile_info bm3 ! nat n;
        let pos = \<lparr>ffp_nFile = n, ffp_nPos = nSize info\<rparr>;
        let bm4 = (if n \<noteq> last_blockfile then set_cursor bm3 chain_type (new_cursor n) else bm3);
        let bm5 = bm4\<lparr>m_blockfile_info := (m_blockfile_info bm4)
                        [nat n := (AddBlock height time info)\<lparr>nSize := nSize info + nAddSize\<rparr>]\<rparr>;
        let (bytes_allocated, out_of_space) = allocate pos nAddSize;
        if out_of_space then Some (FlatFilePos_null, bm5)
        else Some (pos, bm5\<lparr>m_check_for_pruning := (bytes_allocated \<noteq> 0 \<and> prune_mode \<or> m_check_for_pruning bm5),
                           m_dirty_fileinfo := insert n (m_dirty_fileinfo bm5)\<rparr>)
      })"

definition UpdateBlockInfo :: "BlockManager \<Rightarrow> CBlock \<Rightarrow> u32 \<Rightarrow> FlatFilePos \<Rightarrow> BlockManager option" where
  "UpdateBlockInfo bm block height pos =
     (let chain_type = BlockfileTypeForHeight bm (sint height);
          n = ffp_nFile pos;
          bm1 = (case m_blockfile_cursors bm chain_type of
                   None \<Rightarrow> set_cursor bm chain_type (new_cursor n)
                 | Some c \<Rightarrow> if file_num c < n then set_cursor bm chain_type (new_cursor n) else bm);
          added_size = word_of_nat (length (ser_CBlock True block));
          bm2 = grow_files bm1 n
      in if n < 0 then None
         else let info = AddBlock height (word_of_int (CBlockHeader_GetBlockTime block)) (m_blockfile_info bm2 ! nat n)
              in Some (bm2\<lparr>m_blockfile_info := (m_blockfile_info bm2)
                             [nat n := info\<lparr>nSize := max (ffp_nPos pos + added_size) (nSize info)\<rparr>],
                           m_dirty_fileinfo := insert n (m_dirty_fileinfo bm2)\<rparr>))"

definition FindUndoPos ::
  "(FlatFilePos \<Rightarrow> u32 \<Rightarrow> nat \<times> bool) \<Rightarrow> bool \<Rightarrow> BlockManager \<Rightarrow> int \<Rightarrow> u32 \<Rightarrow>
   (bool \<times> FlatFilePos \<times> BlockManager) option" where
  "FindUndoPos allocate prune_mode bm n nAddSize =
     (if n < 0 \<or> nat n \<ge> length (m_blockfile_info bm) then None
      else let info = m_blockfile_info bm ! nat n;
               pos = \<lparr>ffp_nFile = n, ffp_nPos = nUndoSize info\<rparr>;
               bm1 = bm\<lparr>m_blockfile_info := (m_blockfile_info bm)
                          [nat n := info\<lparr>nUndoSize := nUndoSize info + nAddSize\<rparr>],
                        m_dirty_fileinfo := insert n (m_dirty_fileinfo bm)\<rparr>;
               (bytes_allocated, out_of_space) = allocate pos nAddSize
           in if out_of_space then Some (False, pos, bm1)
              else Some (True, pos,
                     bm1\<lparr>m_check_for_pruning := (bytes_allocated \<noteq> 0 \<and> prune_mode \<or> m_check_for_pruning bm1)\<rparr>))"

text \<open>\<^verbatim>\<open>FlatFileSeq::Allocate\<close> up to the disk: \<open>space\<close> and \<open>opens\<close> answer for it.\<close>

definition Allocate :: "nat \<Rightarrow> (nat \<Rightarrow> bool) \<Rightarrow> bool \<Rightarrow> FlatFilePos \<Rightarrow> u32 \<Rightarrow> nat \<times> bool" where
  "Allocate chunk_size space opens pos add_size =
     (let old_chunks = (unat (ffp_nPos pos) + chunk_size - 1) div chunk_size;
          new_chunks = (unat (ffp_nPos pos) + unat add_size + chunk_size - 1) div chunk_size
      in if new_chunks > old_chunks
         then (let inc_size = new_chunks * chunk_size - unat (ffp_nPos pos)
               in if space inc_size then (if opens then inc_size else 0, False) else (0, True))
         else (0, False))"

section \<open>The index invariant\<close>

text \<open>What the derived fields of an entry must be, and when an index is in order.\<close>

definition derived_ok :: "BlockMap \<Rightarrow> CBlockIndex \<Rightarrow> bool" where
  "derived_ok m b \<longleftrightarrow>
     length (nChainWork b) = WIDTH256 \<and> (pprev b \<noteq> None \<longrightarrow> pskip b \<noteq> None) \<and>
     (\<exists>prev. prev_entry m b = Some prev \<and> nTimeMax b = time_max_of prev b \<and>
        chain_work_of prev b = Some (nChainWork b))"

definition index_inv :: "BlockMap \<Rightarrow> bool" where
  "index_inv m \<longleftrightarrow> wf_index m \<and> (\<forall>p b. m p = Some b \<longrightarrow> derived_ok m b)"

text \<open>Two indexes with the same tree: only the fields outside it may differ.\<close>

definition same_tree :: "BlockMap \<Rightarrow> BlockMap \<Rightarrow> bool" where
  "same_tree m m' \<longleftrightarrow>
     (\<forall>p. map_option (\<lambda>b. (pprev b, nHeight b, phashBlock b)) (m p) =
          map_option (\<lambda>b. (pprev b, nHeight b, phashBlock b)) (m' p))"

lemma same_treeD:
  assumes "same_tree m m'" "m' p = Some b'"
  shows "\<exists>b. m p = Some b \<and> pprev b = pprev b' \<and> nHeight b = nHeight b' \<and> phashBlock b = phashBlock b'"
  using spec [OF assms(1) [unfolded same_tree_def], of p] assms(2) by (cases "m p") simp_all

lemma same_tree_sym: "same_tree m m' \<Longrightarrow> same_tree m' m"
  by (simp add: same_tree_def)

lemma same_tree_refl: "same_tree m m"
  by (simp add: same_tree_def)

lemma same_tree_trans: "same_tree m m' \<Longrightarrow> same_tree m' m'' \<Longrightarrow> same_tree m m''"
  by (simp add: same_tree_def)

lemma same_tree_update:
  assumes "m p = Some b" "pprev b' = pprev b" "nHeight b' = nHeight b" "phashBlock b' = phashBlock b"
  shows "same_tree m (m(p \<mapsto> b'))"
  using assms by (simp add: same_tree_def)

lemma same_tree_parent_n:
  assumes "same_tree m m'"
  shows "parent_n m n p = parent_n m' n p"
proof (induction n arbitrary: p)
  case (Suc n)
  show ?case
  proof (cases "m' p")
    case None
    then have "m p = None" using spec [OF assms [unfolded same_tree_def], of p] by (cases "m p") simp_all
    with None show ?thesis by simp
  next
    case (Some b')
    then obtain b where "m p = Some b" "pprev b = pprev b'" using same_treeD [OF assms] by blast
    with Some Suc show ?thesis by (simp split: option.split)
  qed
qed simp

lemma same_tree_wf_tree:
  assumes "same_tree m m'" "wf_tree m"
  shows "wf_tree m'"
  unfolding wf_tree_def
proof (intro allI impI)
  fix p b' assume b': "m' p = Some b'"
  obtain b where b: "m p = Some b" "pprev b = pprev b'" "nHeight b = nHeight b'"
    using same_treeD [OF assms(1) b'] by blast
  show "case pprev b' of None \<Rightarrow> nHeight b' = 0
      | Some q \<Rightarrow> \<exists>c. m' q = Some c \<and> nHeight b' = nHeight c + 1 \<and> 0 \<le> nHeight c"
  proof (cases "pprev b'")
    case None
    then show ?thesis using b wf_root [OF assms(2) b(1)] by simp
  next
    case (Some q)
    then obtain c where c: "m q = Some c" "nHeight b = nHeight c + 1" "0 \<le> nHeight c"
      using wf_child [OF assms(2) b(1)] b by auto
    then obtain c' where "m' q = Some c'" "nHeight c' = nHeight c"
      using same_treeD [OF same_tree_sym [OF assms(1)] c(1)] by auto
    with Some b c show ?thesis by simp
  qed
qed

lemma wf_index_update:
  assumes "wf_index m" "m p = Some b" "pprev b' = pprev b" "nHeight b' = nHeight b"
    "phashBlock b' = phashBlock b"
    "\<And>s. pskip b' = Some s \<Longrightarrow> parent_n m (nat (nHeight b - GetSkipHeight (nHeight b))) p = Some s"
  shows "wf_index (m(p \<mapsto> b'))"
proof -
  have st: "same_tree m (m(p \<mapsto> b'))" using assms(2-5) by (rule same_tree_update)
  have "wf_skip (m(p \<mapsto> b'))"
    unfolding wf_skip_def
  proof (intro allI impI)
    fix q c s assume c: "(m(p \<mapsto> b')) q = Some c" "pskip c = Some s"
    show "parent_n (m(p \<mapsto> b')) (nat (nHeight c - GetSkipHeight (nHeight c))) q = Some s"
      unfolding same_tree_parent_n [OF st, symmetric]
      using c assms(1,4) assms(6) [of s] by (cases "q = p") (auto simp: wf_index_def wf_skip_def)
  qed
  moreover have "wf_tree (m(p \<mapsto> b'))" using same_tree_wf_tree [OF st] assms(1) by (simp add: wf_index_def)
  ultimately show ?thesis using assms(1,2,5) by (auto simp: wf_index_def)
qed

lemma wf_index_no_self: "wf_tree m \<Longrightarrow> m p = Some b \<Longrightarrow> pprev b \<noteq> Some p"
  using wf_child by fastforce

text \<open>\<^verbatim>\<open>BuildSkip\<close> never fails on a well-formed index, and gives one.\<close>

lemma BuildSkip_wf:
  assumes "wf_index m" "m p = Some b"
  shows "\<exists>r. (BuildSkip m p = Some (m(p \<mapsto> b\<lparr>pskip := r\<rparr>)) \<or> BuildSkip m p = Some m \<and> r = pskip b) \<and>
    wf_index (m(p \<mapsto> b\<lparr>pskip := r\<rparr>)) \<and> (pprev b \<noteq> None \<longrightarrow> r \<noteq> None)"
proof (cases "pprev b")
  case None
  then have "BuildSkip m p = Some m" using assms by (simp add: BuildSkip_def)
  moreover have "m(p \<mapsto> b\<lparr>pskip := pskip b\<rparr>) = m" using assms(2) by auto
  ultimately show ?thesis using assms(1) None by metis
next
  case (Some q)
  have wf: "wf_tree m" using assms(1) by (simp add: wf_index_def)
  obtain c where c: "m q = Some c" "nHeight b = nHeight c + 1" "0 \<le> nHeight c"
    using wf_child [OF wf assms(2) Some] by blast
  let ?h = "GetSkipHeight (nHeight b)" and ?r = "ancestor_at m q (GetSkipHeight (nHeight b))"
  have h: "0 \<le> ?h" "?h < nHeight b" using GetSkipHeight_bounds [of "nHeight b"] c by auto
  have "?r = parent_n m (nat (nHeight b - ?h)) p"
    using ancestor_at_parent [OF wf assms(2) Some h(2)] h assms(2) by (simp add: ancestor_at_def)
  then have "wf_index (m(p \<mapsto> b\<lparr>pskip := ?r\<rparr>))"
    by (intro wf_index_update [OF assms]) auto
  moreover have "BuildSkip m p = Some (m(p \<mapsto> b\<lparr>pskip := ?r\<rparr>))"
    using assms(2) Some GetAncestor_correct [OF assms(1) c(1)] by (simp add: BuildSkip_def)
  moreover have "?r \<noteq> None" using ancestor_at_exists [OF wf c(1) h(1)] h(2) c(2) by auto
  ultimately show ?thesis by blast
qed

lemma BuildSkip_spec:
  assumes "wf_index m" "m p = Some b"
  shows "\<exists>r. BuildSkip m p = Some (m(p \<mapsto> b\<lparr>pskip := r\<rparr>)) \<and> wf_index (m(p \<mapsto> b\<lparr>pskip := r\<rparr>)) \<and>
    (pprev b \<noteq> None \<longrightarrow> r \<noteq> None)"
proof -
  have "m = m(p \<mapsto> b\<lparr>pskip := pskip b\<rparr>)" using assms(2) by auto
  then show ?thesis using BuildSkip_wf [OF assms] by metis
qed

lemma parent_n_fresh:
  assumes "wf_tree m" "m p = None"
  shows "m q = Some c \<Longrightarrow> parent_n (m(p \<mapsto> b)) n q = parent_n m n q"
proof (induction n arbitrary: q c)
  case (Suc n)
  have "q \<noteq> p" using Suc.prems assms(2) by auto
  moreover have "\<exists>d. m r = Some d" if "pprev c = Some r" for r
    using wf_child [OF assms(1) Suc.prems that] by blast
  ultimately show ?case using Suc by (auto split: option.split)
qed simp

lemma wf_index_insert:
  assumes "wf_index m" "m p = None" "phashBlock b = Some p" "pskip b = None"
    "pprev b = None \<and> nHeight b = 0 \<or> (\<exists>q c. pprev b = Some q \<and> m q = Some c \<and> nHeight b = nHeight c + 1)"
  shows "wf_index (m(p \<mapsto> b))"
proof -
  have wf: "wf_tree m" "wf_skip m" using assms(1) by (auto simp: wf_index_def)
  have "wf_tree (m(p \<mapsto> b))"
    unfolding wf_tree_def
  proof (intro allI impI)
    fix q c assume c: "(m(p \<mapsto> b)) q = Some c"
    show "case pprev c of None \<Rightarrow> nHeight c = 0
      | Some r \<Rightarrow> \<exists>d. (m(p \<mapsto> b)) r = Some d \<and> nHeight c = nHeight d + 1 \<and> 0 \<le> nHeight d"
    proof (cases "q = p")
      case True
      with c assms(2,5) wf_height [OF wf(1)] show ?thesis by auto
    next
      case False
      then have mc: "m q = Some c" using c by simp
      show ?thesis
        using wf_root [OF wf(1) mc] wf_child [OF wf(1) mc] assms(2) by (force split: option.split)
    qed
  qed
  moreover have "wf_skip (m(p \<mapsto> b))"
    using wf(2) assms(4) parent_n_fresh [OF wf(1) assms(2)] by (auto simp: wf_skip_def)
  ultimately show ?thesis using assms(1,3) by (auto simp: wf_index_def)
qed

section \<open>Adding a header\<close>

lemma chain_work_of_total:
  assumes "\<And>c. prev = Some c \<Longrightarrow> length (nChainWork c) = WIDTH256"
  shows "\<exists>w. chain_work_of prev b = Some w \<and> length w = WIDTH256"
  using GetBlockProof_value [of "nBits b"] assms
  by (auto simp: chain_work_of_def width_simps split: option.splits)

lemma RaiseValidity_fresh:
  "nStatus b = 0 \<Longrightarrow> RaiseValidity b BLOCK_VALID_TREE = Some (True, b\<lparr>nStatus := BLOCK_VALID_TREE\<rparr>)"
  by (simp add: RaiseValidity_def BLOCK_VALID_TREE_def BLOCK_VALID_MASK_def BLOCK_VALID_RESERVED_def
      BLOCK_VALID_TRANSACTIONS_def BLOCK_VALID_CHAIN_def BLOCK_VALID_SCRIPTS_def)

definition linked_entry :: "BlockMap \<Rightarrow> ptr \<Rightarrow> 'a CBlockHeader_scheme \<Rightarrow> ptr option \<Rightarrow> CBlockIndex" where
  "linked_entry m hash block skip =
     (CBlockIndex_of_header block)
       \<lparr>phashBlock := Some hash,
        pprev := (if m (hashPrevBlock block) = None then None else Some (hashPrevBlock block)),
        nHeight := (case m (hashPrevBlock block) of None \<Rightarrow> 0 | Some c \<Rightarrow> nHeight c + 1),
        pskip := skip\<rparr>"

lemma linked_entry_sel [simp]:
  "phashBlock (linked_entry m hash block skip) = Some hash"
  "pprev (linked_entry m hash block skip) = (if m (hashPrevBlock block) = None then None else Some (hashPrevBlock block))"
  "nHeight (linked_entry m hash block skip) = (case m (hashPrevBlock block) of None \<Rightarrow> 0 | Some c \<Rightarrow> nHeight c + 1)"
  "pskip (linked_entry m hash block skip) = skip" "nStatus (linked_entry m hash block skip) = 0"
  "nTime (linked_entry m hash block skip) = bh_nTime block" "nBits (linked_entry m hash block skip) = bh_nBits block"
  "(linked_entry m hash block skip)\<lparr>pskip := r\<rparr> = linked_entry m hash block r"
  by (simp_all add: linked_entry_def CBlockIndex_of_header_def)

lemma wf_index_linked:
  assumes "wf_index m" "m hash = None"
  shows "wf_index (m(hash \<mapsto> linked_entry m hash block None))"
  using assms by (intro wf_index_insert) (auto split: option.split)

lemma link_new_spec:
  assumes "wf_index m" "m hash = None" "hashPrevBlock block \<noteq> hash"
  shows "\<exists>s. link_new m hash block = Some (m(hash \<mapsto> linked_entry m hash block s)) \<and>
    wf_index (m(hash \<mapsto> linked_entry m hash block s)) \<and> (m (hashPrevBlock block) \<noteq> None \<longrightarrow> s \<noteq> None)"
proof (cases "m (hashPrevBlock block)")
  case None
  then have "link_new m hash block = Some (m(hash \<mapsto> linked_entry m hash block None))"
    using assms(3) by (simp add: link_new_def Let_def linked_entry_def CBlockIndex_of_header_def)
  then show ?thesis using wf_index_linked [OF assms(1,2)] None by blast
next
  case (Some c)
  let ?m = "m(hash \<mapsto> linked_entry m hash block None)"
  have "link_new m hash block = BuildSkip ?m hash"
    using assms(3) Some by (simp add: link_new_def Let_def linked_entry_def CBlockIndex_of_header_def)
  moreover obtain r where "BuildSkip ?m hash = Some (?m(hash \<mapsto> linked_entry m hash block r)) \<and>
      wf_index (?m(hash \<mapsto> linked_entry m hash block r)) \<and> r \<noteq> None"
    using Some BuildSkip_spec [OF wf_index_linked [OF assms(1,2), of block], of hash "linked_entry m hash block None"]
    by auto
  ultimately show ?thesis by auto
qed

lemma prev_entry_other:
  assumes "pprev b \<noteq> Some p"
  shows "prev_entry (m(p \<mapsto> c)) b = prev_entry m b"
  using assms by (auto simp: prev_entry_def split: option.split)

lemma derived_ok_other: "pprev b \<noteq> Some p \<Longrightarrow> derived_ok (m(p \<mapsto> c)) b = derived_ok m b"
  by (simp add: derived_ok_def prev_entry_other)

lemma time_max_of_cong: "nTime b' = nTime b \<Longrightarrow> time_max_of prev b' = time_max_of prev b"
  by (simp add: time_max_of_def split: option.split)

lemma chain_work_of_cong: "nBits b' = nBits b \<Longrightarrow> chain_work_of prev b' = chain_work_of prev b"
  by (simp add: chain_work_of_def)

lemma index_invD:
  assumes "index_inv m" "m p = Some b"
  shows "derived_ok m b" "length (nChainWork b) = WIDTH256" "wf_index m" "wf_tree m"
  using assms by (auto simp: index_inv_def derived_ok_def wf_index_def)

lemma index_inv_empty: "index_inv Map.empty"
  by (simp add: index_inv_def wf_index_def wf_tree_def wf_skip_def)

text \<open>The entry the new block ends up with.\<close>

definition added_entry :: "BlockMap \<Rightarrow> ptr \<Rightarrow> 'a CBlockHeader_scheme \<Rightarrow> ptr option \<Rightarrow> arith_uint256 \<Rightarrow> CBlockIndex" where
  "added_entry m hash block s w =
     (linked_entry m hash block s)
       \<lparr>nTimeMax := time_max_of (m (hashPrevBlock block)) (linked_entry m hash block s), nChainWork := w,
        nStatus := BLOCK_VALID_TREE\<rparr>"

definition best_ok :: "BlockMap \<Rightarrow> ptr option \<Rightarrow> bool" where
  "best_ok m best \<longleftrightarrow>
     (case best of
        None \<Rightarrow> m = Map.empty
      | Some q \<Rightarrow> \<exists>c. m q = Some c \<and> (\<forall>p b. m p = Some b \<longrightarrow> uval (nChainWork b) \<le> uval (nChainWork c)))"

lemma prev_entry_linked:
  assumes "wf_index m" "hashPrevBlock block \<noteq> hash"
  shows "prev_entry (m(hash \<mapsto> x)) (linked_entry m hash block s) = Some (m (hashPrevBlock block))"
  using assms by (auto simp: prev_entry_def)

lemma added_entry_inv:
  assumes inv: "index_inv m" and fresh: "m hash = None" "hashPrevBlock block \<noteq> hash"
    and wf: "wf_index (m(hash \<mapsto> linked_entry m hash block s))" "m (hashPrevBlock block) \<noteq> None \<longrightarrow> s \<noteq> None"
    and w: "chain_work_of (m (hashPrevBlock block)) (linked_entry m hash block s) = Some w" "length w = WIDTH256"
  shows "index_inv (m(hash \<mapsto> added_entry m hash block s w))"
proof -
  let ?b = "added_entry m hash block s w" and ?l = "linked_entry m hash block s"
  have sel: "pprev ?b = pprev ?l" "nHeight ?b = nHeight ?l" "phashBlock ?b = phashBlock ?l" "pskip ?b = pskip ?l"
    "nTime ?b = nTime ?l" "nBits ?b = nBits ?l" "nChainWork ?b = w"
    "nTimeMax ?b = time_max_of (m (hashPrevBlock block)) ?l"
    by (simp_all add: added_entry_def)
  have "wf_index ((m(hash \<mapsto> ?l))(hash \<mapsto> ?b))"
    using wf sel by (intro wf_index_update [OF wf(1)]) (auto simp: wf_index_def wf_skip_def simp del: linked_entry_sel(2,3))
  then have "wf_index (m(hash \<mapsto> ?b))" by simp
  moreover have "derived_ok (m(hash \<mapsto> ?b)) ?b"
    using prev_entry_linked [of m block hash ?b s] inv fresh w sel wf(2)
    by (auto simp: derived_ok_def index_inv_def prev_entry_def time_max_of_cong [OF sel(5)] chain_work_of_cong [OF sel(6)]
        simp del: linked_entry_sel(2))
  moreover have "derived_ok (m(hash \<mapsto> ?b)) c" if "m q = Some c" for q c
  proof -
    have "pprev c \<noteq> Some hash"
      using wf_child [OF index_invD(4) [OF inv that] that, of hash] fresh by auto
    then show ?thesis using index_invD(1) [OF inv that] by (simp add: derived_ok_other)
  qed
  ultimately show ?thesis by (auto simp: index_inv_def)
qed

lemma best_of_spec:
  assumes "best_ok m best" "index_inv m" "m hash = None" "length (nChainWork b) = WIDTH256"
  shows "\<exists>best'. best_of (m(hash \<mapsto> b)) best hash b = Some best' \<and> best_ok (m(hash \<mapsto> b)) best'"
proof (cases best)
  case None
  with assms(1) show ?thesis by (auto simp: best_ok_def best_of_def)
next
  case (Some q)
  with assms(1) obtain c where c: "m q = Some c" "\<And>p b. m p = Some b \<Longrightarrow> uval (nChainWork b) \<le> uval (nChainWork c)"
    by (auto simp: best_ok_def)
  have q: "q \<noteq> hash" using c assms(3) by auto
  have "CompareTo (nChainWork c) (nChainWork b) < 0 \<longleftrightarrow> uval (nChainWork c) < uval (nChainWork b)"
    using CompareTo_ge [of "nChainWork c" "nChainWork b"] index_invD(2) [OF assms(2) c(1)] assms(4) by linarith
  then show ?thesis
    using c q Some by (fastforce simp: best_of_def best_ok_def)
qed

lemma AddToBlockIndex_spec:
  assumes inv: "index_inv (m_block_index bm)" and best: "best_ok (m_block_index bm) best_header"
    and fresh: "m_block_index bm (GetHash blake3 block) = None" "hashPrevBlock block \<noteq> GetHash blake3 block"
  shows "\<exists>s w best'. let m' = (m_block_index bm)(GetHash blake3 block \<mapsto> added_entry (m_block_index bm) (GetHash blake3 block) block s w) in
    AddToBlockIndex blake3 bm block best_header =
      Some (GetHash blake3 block,
            bm\<lparr>m_block_index := m', m_dirty_blockindex := insert (GetHash blake3 block) (m_dirty_blockindex bm)\<rparr>, best') \<and>
    index_inv m' \<and> best_ok m' best'"
proof -
  let ?m = "m_block_index bm" and ?h = "GetHash blake3 block" and ?prev = "m_block_index bm (hashPrevBlock block)"
  have wf: "wf_index ?m" using inv by (simp add: index_inv_def)
  obtain s where s: "link_new ?m ?h block = Some (?m(?h \<mapsto> linked_entry ?m ?h block s))"
      "wf_index (?m(?h \<mapsto> linked_entry ?m ?h block s))" "?prev \<noteq> None \<longrightarrow> s \<noteq> None"
    using link_new_spec [OF wf fresh] by blast
  obtain w where w: "chain_work_of ?prev (linked_entry ?m ?h block s) = Some w" "length w = WIDTH256"
    using chain_work_of_total [of ?prev "linked_entry ?m ?h block s"] index_invD(2) [OF inv] by blast
  let ?b = "added_entry ?m ?h block s w"
  have work: "length (nChainWork ?b) = WIDTH256" using w by (simp add: added_entry_def)
  obtain best' where b: "best_of (?m(?h \<mapsto> ?b)) best_header ?h ?b = Some best'" "best_ok (?m(?h \<mapsto> ?b)) best'"
    using best_of_spec [OF best inv fresh(1) work] by blast
  have "AddToBlockIndex blake3 bm block best_header =
      Some (?h, bm\<lparr>m_block_index := ?m(?h \<mapsto> ?b), m_dirty_blockindex := insert ?h (m_dirty_blockindex bm)\<rparr>, best')"
    using s(1) w(1) b(1) fresh prev_entry_linked [OF wf fresh(2)] RaiseValidity_fresh
    by (simp add: AddToBlockIndex_def Let_def added_entry_def)
  with added_entry_inv [OF inv fresh s(2,3) w] b(2) show ?thesis by (auto simp: Let_def)
qed

text \<open>The indexes a node can build by accepting headers one after the other.\<close>

inductive reachable_index :: "(bytes \<Rightarrow> uint256) \<Rightarrow> BlockManager \<Rightarrow> ptr option \<Rightarrow> bool" for blake3 where
  start: "m_block_index bm = Map.empty \<Longrightarrow> reachable_index blake3 bm None"
| add: "reachable_index blake3 bm best \<Longrightarrow> hashPrevBlock (block :: CBlockHeader) \<noteq> GetHash blake3 block \<Longrightarrow>
    AddToBlockIndex blake3 bm block best = Some (p, bm', best') \<Longrightarrow> reachable_index blake3 bm' best'"

lemma reachable_index_inv:
  "reachable_index blake3 bm best \<Longrightarrow> index_inv (m_block_index bm) \<and> best_ok (m_block_index bm) best"
proof (induction rule: reachable_index.induct)
  case (start bm)
  then show ?case by (simp add: index_inv_empty best_ok_def)
next
  case (add bm best block p bm' best')
  show ?case
  proof (cases "m_block_index bm (GetHash blake3 block)")
    case None
    with AddToBlockIndex_spec [of bm best blake3 block] add show ?thesis by (auto simp: Let_def fun_upd_def)
  next
    case (Some b)
    with add show ?thesis by (auto simp: AddToBlockIndex_def Let_def)
  qed
qed

section \<open>Loading the index\<close>

definition failure_closed :: "BlockMap \<Rightarrow> CBlockIndex \<Rightarrow> bool" where
  "failure_closed m b \<longleftrightarrow>
     (\<forall>q c. pprev b = Some q \<longrightarrow> m q = Some c \<longrightarrow> nStatus c AND BLOCK_FAILED_MASK \<noteq> 0 \<longrightarrow>
        nStatus b AND BLOCK_FAILED_MASK \<noteq> 0)"

definition load_inv :: "BlockMap \<Rightarrow> ptr set \<Rightarrow> bool" where
  "load_inv m S \<longleftrightarrow> wf_index m \<and>
     (\<forall>p \<in> S. \<exists>b. m p = Some b \<and> derived_ok m b \<and> failure_closed m b)"

lemma failure_closed_other: "pprev b \<noteq> Some p \<Longrightarrow> failure_closed (m(p \<mapsto> c)) b = failure_closed m b"
  by (auto simp: failure_closed_def)

lemma failed_child: "(s OR BLOCK_FAILED_CHILD) AND BLOCK_FAILED_MASK \<noteq> 0"
proof -
  have "bit ((s OR BLOCK_FAILED_CHILD) AND BLOCK_FAILED_MASK) 6"
    by (simp add: bit_simps BLOCK_FAILED_CHILD_def BLOCK_FAILED_MASK_def BLOCK_FAILED_VALID_def)
  then show ?thesis by (metis bit_0_eq bot_apply bot_bool_def)
qed

lemma load_tx_count_total: "\<exists>r. load_tx_count None None b prev = Some r"
  by (auto simp: load_tx_count_def split: option.split)

text \<open>The entry one iteration leaves behind, up to the fields that do not matter here.\<close>

definition loaded_entry :: "CBlockIndex \<Rightarrow> CBlockIndex option \<Rightarrow> arith_uint256 \<Rightarrow> u64 \<Rightarrow> u32 \<Rightarrow> ptr option \<Rightarrow> CBlockIndex" where
  "loaded_entry b prev work n status skip =
     b\<lparr>nChainWork := work, nTimeMax := time_max_of prev b, m_chain_tx_count := n, nStatus := status, pskip := skip\<rparr>"

lemma load_entry_value:
  assumes wf: "wf_index (m_block_index bm)" and p: "m_block_index bm p = Some b"
    and prev: "prev_entry (m_block_index bm) b = Some prev" and work: "chain_work_of prev b = Some work"
    and snap: "m_snapshot_height bm = None"
  shows "\<exists>bm' n status skip. load_entry None bm p = Some bm' \<and> m_snapshot_height bm' = None \<and>
    m_block_index bm' = (m_block_index bm)(p \<mapsto> loaded_entry b prev work n status skip) \<and>
    wf_index (m_block_index bm') \<and> (pprev b \<noteq> None \<longrightarrow> skip \<noteq> None) \<and>
    (\<forall>c. prev = Some c \<longrightarrow> nStatus c AND BLOCK_FAILED_MASK \<noteq> 0 \<longrightarrow> status AND BLOCK_FAILED_MASK \<noteq> 0)"
proof -
  let ?m = "m_block_index bm"
  obtain n u where tx: "load_tx_count None None b prev = Some (n, u)" using load_tx_count_total by (metis surj_pair)
  define failed where "failed \<longleftrightarrow> nStatus b AND BLOCK_FAILED_MASK = 0 \<and>
    (case prev of None \<Rightarrow> False | Some c \<Rightarrow> nStatus c AND BLOCK_FAILED_MASK \<noteq> 0)"
  define status where "status = (if failed then nStatus b OR BLOCK_FAILED_CHILD else nStatus b)"
  let ?b = "b\<lparr>nChainWork := work, nTimeMax := time_max_of prev b, m_chain_tx_count := n, nStatus := status\<rparr>"
  have wf': "wf_index (?m(p \<mapsto> ?b))"
    using wf p by (intro wf_index_update [OF wf p]) (auto simp: wf_index_def wf_skip_def)
  obtain skip where skip: "(if pprev b = None then Some (?m(p \<mapsto> ?b)) else BuildSkip (?m(p \<mapsto> ?b)) p) =
      Some (?m(p \<mapsto> ?b\<lparr>pskip := skip\<rparr>))" "wf_index (?m(p \<mapsto> ?b\<lparr>pskip := skip\<rparr>))" "pprev b \<noteq> None \<longrightarrow> skip \<noteq> None"
  proof (cases "pprev b = None")
    case True
    have "?b\<lparr>pskip := pskip b\<rparr> = ?b" by simp
    with True wf' that [of "pskip b"] show ?thesis by simp
  next
    case False
    then show ?thesis using BuildSkip_spec [OF wf', of p ?b] that by auto
  qed
  define BM where "BM = bm\<lparr>
    m_blocks_unlinked := (if u then m_blocks_unlinked bm @ [(pprev b, p)] else m_blocks_unlinked bm),
    m_dirty_blockindex := (if failed then insert p (m_dirty_blockindex bm) else m_dirty_blockindex bm)\<rparr>"
  have "load_entry None bm p =
      Option.bind (if pprev b = None then Some (?m(p \<mapsto> ?b)) else BuildSkip (?m(p \<mapsto> ?b)) p)
        (\<lambda>m2. Some (BM\<lparr>m_block_index := m2\<rparr>))"
    unfolding load_entry_def Let_def p prev option.case Option.bind.bind_lunit work snap tx prod.case
      status_def failed_def BM_def ..
  then have "\<exists>bm'. load_entry None bm p = Some bm' \<and> m_snapshot_height bm' = None \<and>
      m_block_index bm' = ?m(p \<mapsto> ?b\<lparr>pskip := skip\<rparr>)"
    using snap by (simp add: skip(1) BM_def)
  moreover have "status AND BLOCK_FAILED_MASK \<noteq> 0" if "prev = Some c" "nStatus c AND BLOCK_FAILED_MASK \<noteq> 0" for c
    using that failed_child by (auto simp: status_def failed_def)
  moreover have "?b\<lparr>pskip := skip\<rparr> = loaded_entry b prev work n status skip" by (simp add: loaded_entry_def)
  ultimately show ?thesis using skip(2,3) by metis
qed

lemma prev_entry_total:
  assumes "wf_tree m" "m p = Some b"
  shows "\<exists>prev. prev_entry m b = Some prev"
  using wf_child [OF assms] by (cases "pprev b") (auto simp: prev_entry_def)

lemma load_entry_step:
  assumes inv: "load_inv (m_block_index bm) S" and p: "m_block_index bm p = Some b" "p \<notin> S"
    and prevS: "\<And>q. pprev b = Some q \<Longrightarrow> q \<in> S"
    and later: "\<And>q c. q \<in> S \<Longrightarrow> m_block_index bm q = Some c \<Longrightarrow> pprev c \<noteq> Some p"
    and snap: "m_snapshot_height bm = None"
  shows "\<exists>bm'. load_entry None bm p = Some bm' \<and> load_inv (m_block_index bm') (insert p S) \<and>
    same_tree (m_block_index bm) (m_block_index bm') \<and> m_snapshot_height bm' = None"
proof -
  let ?m = "m_block_index bm"
  have wf: "wf_index ?m" "wf_tree ?m" using inv by (auto simp: load_inv_def wf_index_def)
  obtain prev where prev: "prev_entry ?m b = Some prev" using prev_entry_total [OF wf(2) p(1)] by blast
  have "length (nChainWork c) = WIDTH256" if pc: "prev = Some c" for c
  proof -
    obtain q where q: "pprev b = Some q" "?m q = Some c"
      using prev pc by (auto simp: prev_entry_def split: option.splits)
    then show ?thesis using inv prevS [OF q(1)] by (auto simp: load_inv_def derived_ok_def)
  qed
  then obtain work where work: "chain_work_of prev b = Some work" "length work = WIDTH256"
    using chain_work_of_total [of prev b] by blast
  obtain bm' n status skip where r: "load_entry None bm p = Some bm'" "m_snapshot_height bm' = None"
      "m_block_index bm' = ?m(p \<mapsto> loaded_entry b prev work n status skip)" "wf_index (m_block_index bm')" "pprev b \<noteq> None \<longrightarrow> skip \<noteq> None"
      "\<And>c. prev = Some c \<Longrightarrow> nStatus c AND BLOCK_FAILED_MASK \<noteq> 0 \<Longrightarrow> status AND BLOCK_FAILED_MASK \<noteq> 0"
    using load_entry_value [OF wf(1) p(1) prev work(1) snap] by blast
  let ?b = "loaded_entry b prev work n status skip"
  have sel: "pprev ?b = pprev b" "nHeight ?b = nHeight b" "phashBlock ?b = phashBlock b" "nTime ?b = nTime b"
    "nBits ?b = nBits b" "nChainWork ?b = work" "nTimeMax ?b = time_max_of prev b" "nStatus ?b = status" "pskip ?b = skip"
    by (simp_all add: loaded_entry_def)
  have self: "pprev b \<noteq> Some p" using wf_index_no_self [OF wf(2) p(1)] .
  have "derived_ok (?m(p \<mapsto> ?b)) ?b"
  proof -
    have "prev_entry (?m(p \<mapsto> ?b)) ?b = Some prev"
      using prev self sel(1) by (auto simp: prev_entry_def split: option.splits)
    then show ?thesis using work sel r(5)
      by (simp add: derived_ok_def time_max_of_cong [OF sel(4)] chain_work_of_cong [OF sel(5)])
  qed
  moreover have "failure_closed (?m(p \<mapsto> ?b)) ?b"
    using r(6) prev self sel by (auto simp: failure_closed_def prev_entry_def)
  moreover have "derived_ok (?m(p \<mapsto> ?b)) c \<and> failure_closed (?m(p \<mapsto> ?b)) c" if "q \<in> S" "?m q = Some c" for q c
    using inv that later [OF that] by (auto simp: load_inv_def derived_ok_other failure_closed_other)
  ultimately have "load_inv (m_block_index bm') (insert p S)"
    using r(3,4) inv p(2) by (auto simp: load_inv_def)
  moreover have "same_tree ?m (m_block_index bm')"
    unfolding r(3) using p(1) sel(1-3) by (rule same_tree_update)
  ultimately show ?thesis using r(1,2) by blast
qed

lemma load_pass_correct:
  assumes "load_inv (m_block_index bm) S" "S \<inter> set ps = {}" "distinct ps" "S \<union> set ps = dom (m_block_index bm)"
    "\<And>q b. m_block_index bm q = Some b \<Longrightarrow> nHeight b = H q"
    "sorted (map H ps)" "\<And>q p. q \<in> S \<Longrightarrow> p \<in> set ps \<Longrightarrow> H q \<le> H p"
    "case previous of None \<Rightarrow> S = {} | Some h \<Rightarrow> (\<exists>q \<in> S. H q = h) \<and> (\<forall>q \<in> S. H q \<le> h)"
    "m_snapshot_height bm = None"
  shows "\<exists>bm'. load_pass None bm previous ps = Some (True, bm') \<and>
    load_inv (m_block_index bm') (S \<union> set ps) \<and> same_tree (m_block_index bm) (m_block_index bm')"
  using assms
proof (induction ps arbitrary: bm S previous)
  case Nil
  then show ?case by (simp add: same_tree_refl)
next
  case (Cons p ps)
  let ?m = "m_block_index bm"
  have wf: "wf_tree ?m" using Cons.prems(1) by (simp add: load_inv_def wf_index_def)
  obtain b where b: "?m p = Some b" using Cons.prems(4) by auto
  have H: "nHeight b = H p" using Cons.prems(5) b by blast
  have parent: "q \<in> S \<and> H p = H q + 1" if "pprev b = Some q" for q
  proof -
    obtain c where c: "?m q = Some c" "nHeight b = nHeight c + 1" using wf_child [OF wf b \<open>pprev b = Some q\<close>] by blast
    then have "H p = H q + 1" using H Cons.prems(5) by auto
    moreover have "q \<notin> set (p # ps)" using calculation Cons.prems(6) by auto
    ultimately show ?thesis using c Cons.prems(4) by auto
  qed
  have later: "pprev c \<noteq> Some p" if "q \<in> S" "?m q = Some c" for q c
  proof
    assume "pprev c = Some p"
    then have "H q = H p + 1" using wf_child [OF wf that(2), of p] b Cons.prems(5) that(2) H by fastforce
    then show False using Cons.prems(7) [OF that(1), of p] by simp
  qed
  obtain bm1 where bm1: "load_entry None bm p = Some bm1" "load_inv (m_block_index bm1) (insert p S)"
      "same_tree ?m (m_block_index bm1)" "m_snapshot_height bm1 = None"
    using load_entry_step [OF Cons.prems(1) b _ _ _ Cons.prems(9)] Cons.prems(2) parent later by auto
  have contiguous: "\<not> (case previous of None \<Rightarrow> False | Some h \<Rightarrow> nHeight b > h + 1)"
  proof (cases "pprev b")
    case None
    then have "H p = 0" using wf_root [OF wf b] H by simp
    moreover have "0 \<le> H q" if "q \<in> S" for q
      using that Cons.prems(4,5) wf_height [OF wf, of q] by (metis UnI1 domD)
    ultimately show ?thesis using Cons.prems(8) H by (auto split: option.splits) (metis add_increasing2 not_less zero_le_one)
  next
    case (Some q)
    then show ?thesis using parent [OF Some] Cons.prems(8) H by (auto split: option.splits)
  qed
  have dom1: "dom (m_block_index bm1) = dom ?m"
    using same_treeD [OF bm1(3)] same_treeD [OF same_tree_sym [OF bm1(3)]] by fast
  have "\<exists>bm'. load_pass None bm1 (Some (nHeight b)) ps = Some (True, bm') \<and>
      load_inv (m_block_index bm') (insert p S \<union> set ps) \<and> same_tree (m_block_index bm1) (m_block_index bm')"
  proof (rule Cons.IH [OF bm1(2) _ _ _ _ _ _ _ bm1(4)])
    show "insert p S \<union> set ps = dom (m_block_index bm1)" using Cons.prems(4) dom1 by auto
    show "nHeight c = H q" if "m_block_index bm1 q = Some c" for q c
      using same_treeD [OF bm1(3) that] Cons.prems(5) by auto
    show "H q \<le> H r" if "q \<in> insert p S" "r \<in> set ps" for q r
      using that Cons.prems(6,7) by auto
    show "case Some (nHeight b) of None \<Rightarrow> insert p S = {}
      | Some h \<Rightarrow> (\<exists>q \<in> insert p S. H q = h) \<and> (\<forall>q \<in> insert p S. H q \<le> h)"
      using H Cons.prems(7) by auto
  qed (use Cons.prems(2,3,6) in auto)
  then show ?case using b bm1 contiguous same_tree_trans by (fastforce simp: insert_commute)
qed

lemma LoadBlockIndex_pass_correct:
  assumes "wf_index (m_block_index bm)" "distinct order" "set order = dom (m_block_index bm)"
    "m_snapshot_height bm = None"
  shows "\<exists>bm'. LoadBlockIndex_pass None bm order = Some (True, bm') \<and> index_inv (m_block_index bm') \<and>
    (\<forall>p b. m_block_index bm' p = Some b \<longrightarrow> failure_closed (m_block_index bm') b) \<and>
    same_tree (m_block_index bm) (m_block_index bm')"
proof -
  let ?H = "\<lambda>p. case m_block_index bm p of None \<Rightarrow> 0 | Some b \<Rightarrow> nHeight b"
  have "\<exists>bm'. load_pass None bm None (sort_key ?H order) = Some (True, bm') \<and>
      load_inv (m_block_index bm') ({} \<union> set (sort_key ?H order)) \<and> same_tree (m_block_index bm) (m_block_index bm')"
    using assms by (intro load_pass_correct [where H = ?H]) (auto simp: load_inv_def)
  then obtain bm' where r: "load_pass None bm None (sort_key ?H order) = Some (True, bm')"
      "load_inv (m_block_index bm') (dom (m_block_index bm))" "same_tree (m_block_index bm) (m_block_index bm')"
    using assms(3) by auto
  have "derived_ok (m_block_index bm') b \<and> failure_closed (m_block_index bm') b"
    if "m_block_index bm' p = Some b" for p b
    using same_treeD [OF r(3) that] r(2) that by (force simp: load_inv_def)
  moreover have "wf_index (m_block_index bm')" using r(2) by (simp add: load_inv_def)
  ultimately show ?thesis
    using r(1,3) by (simp add: LoadBlockIndex_pass_def index_inv_def)
qed

section \<open>Candidate order\<close>

lemma CompareTo_lt: "length a = length b \<Longrightarrow> CompareTo a b < 0 \<longleftrightarrow> uval a < uval b"
  using CompareTo_ge [of a b] by linarith

lemma CBlockIndexWorkComparator_key:
  assumes "index_inv m" "m pa = Some a" "m pb = Some b"
  shows "CBlockIndexWorkComparator addr m pa pb =
    Some ((uval (nChainWork a), - nSequenceId a, - int (addr pa)) < (uval (nChainWork b), - nSequenceId b, - int (addr pb)))"
  using CompareTo_gt [of "nChainWork a" "nChainWork b"] CompareTo_lt [of "nChainWork a" "nChainWork b"]
    index_invD(2) [OF assms(1,2)] index_invD(2) [OF assms(1,3)] assms(2,3)
  by (auto simp: CBlockIndexWorkComparator_def less_prod_def)

section \<open>Block file allocation\<close>

definition file_size :: "BlockManager \<Rightarrow> nat \<Rightarrow> nat" where
  "file_size bm k = (if k < length (m_blockfile_info bm) then unat (nSize (m_blockfile_info bm ! k)) else 0)"

definition files_ok :: "BlockManager \<Rightarrow> bool" where
  "files_ok bm \<longleftrightarrow> (\<forall>k. file_size bm k < unat MAX_BLOCKFILE_SIZE)"

definition cursors_ok :: "BlockManager \<Rightarrow> bool" where
  "cursors_ok bm \<longleftrightarrow> m_blockfile_cursors bm NORMAL \<noteq> None \<and>
     (\<forall>t c. m_blockfile_cursors bm t = Some c \<longrightarrow> 0 \<le> file_num c)"

lemma cursor_of_nonneg: "cursors_ok bm \<Longrightarrow> 0 \<le> cursor_of (m_blockfile_cursors bm t)"
  by (cases "m_blockfile_cursors bm t") (auto simp: cursor_of_def cursors_ok_def)

lemma MaxBlockfileNum_nonneg: "cursors_ok bm \<Longrightarrow> 0 \<le> MaxBlockfileNum bm"
  using cursor_of_nonneg [of bm NORMAL] by (simp add: MaxBlockfileNum_def)

lemma MaxBlockfileNum_set:
  "MaxBlockfileNum bm \<le> n \<Longrightarrow> MaxBlockfileNum (set_cursor bm t (new_cursor n)) = n"
  by (cases t) (simp_all add: MaxBlockfileNum_def set_cursor_def new_cursor_def cursor_of_def [of "Some _"])

lemma cursors_ok_set: "cursors_ok bm \<Longrightarrow> 0 \<le> n \<Longrightarrow> cursors_ok (set_cursor bm t (new_cursor n))"
  by (auto simp: cursors_ok_def set_cursor_def new_cursor_def)

lemma grow_files_sel [simp]:
  "m_blockfile_cursors (grow_files bm n) = m_blockfile_cursors bm"
  "m_block_index (grow_files bm n) = m_block_index bm"
  "file_size (grow_files bm n) k = file_size bm k"
  by (auto simp: grow_files_def file_size_def nth_append CBlockFileInfo_init_def)

lemma set_cursor_sel [simp]:
  "m_blockfile_info (set_cursor bm t c) = m_blockfile_info bm" "file_size (set_cursor bm t c) k = file_size bm k"
  "m_block_index (set_cursor bm t c) = m_block_index bm"
  by (simp_all add: set_cursor_def file_size_def)

lemma length_grow_files:
  "0 \<le> n \<Longrightarrow> length (m_blockfile_info (grow_files bm n)) = max (length (m_blockfile_info bm)) (nat (n + 1))"
  by (auto simp: grow_files_def max_def)

lemma cursors_ok_grow [simp]: "cursors_ok (grow_files bm n) = cursors_ok bm"
  by (simp add: cursors_ok_def)

lemma MaxBlockfileNum_grow [simp]: "MaxBlockfileNum (grow_files bm n) = MaxBlockfileNum bm"
  by (simp add: MaxBlockfileNum_def)

lemma fits_iff:
  assumes "files_ok bm" "nat n < length (m_blockfile_info bm)" "add < MAX_BLOCKFILE_SIZE"
  shows "nSize (m_blockfile_info bm ! nat n) + add \<ge> MAX_BLOCKFILE_SIZE \<longleftrightarrow>
    unat MAX_BLOCKFILE_SIZE \<le> file_size bm (nat n) + unat add"
proof -
  have b: "unat (nSize (m_blockfile_info bm ! nat n)) < 0x8000000" "unat add < 0x8000000"
    using assms spec [OF assms(1) [unfolded files_ok_def], of "nat n"]
    by (simp_all add: file_size_def MAX_BLOCKFILE_SIZE_def word_less_nat_alt)
  then have "unat (nSize (m_blockfile_info bm ! nat n) + add) = unat (nSize (m_blockfile_info bm ! nat n)) + unat add"
    by (intro unat_add_lem [THEN iffD1]) simp
  then show ?thesis using assms(2) by (simp add: word_le_nat_alt file_size_def)
qed

lemma next_file_loop_correct:
  assumes "files_ok bm" "cursors_ok bm" "0 \<le> n" "nat n < length (m_blockfile_info bm)" "add < MAX_BLOCKFILE_SIZE"
  shows "\<exists>n' bm'. next_file_loop t add MAX_BLOCKFILE_SIZE bm n = Some (n', bm') \<and> 0 \<le> n' \<and>
    nat n' < length (m_blockfile_info bm') \<and> (\<forall>k. file_size bm' k = file_size bm k) \<and> cursors_ok bm' \<and>
    m_block_index bm' = m_block_index bm \<and> file_size bm (nat n') + unat add < unat MAX_BLOCKFILE_SIZE"
  using assms
proof (induction "nat (int (length (m_blockfile_info bm)) - MaxBlockfileNum bm)" arbitrary: bm n rule: less_induct)
  case less
  show ?case
  proof (cases "unat MAX_BLOCKFILE_SIZE \<le> file_size bm (nat n) + unat add")
    case False
    then show ?thesis
      using fits_iff [OF less.prems(1,4,5)] less.prems by (subst next_file_loop.simps) auto
  next
    case True
    let ?n = "MaxBlockfileNum bm + 1"
    let ?bm = "grow_files (set_cursor bm t (new_cursor ?n)) ?n"
    have n: "0 \<le> ?n" using MaxBlockfileNum_nonneg [OF less.prems(2)] by simp
    have len: "length (m_blockfile_info ?bm) = max (length (m_blockfile_info bm)) (nat (?n + 1))"
      using length_grow_files [OF n, of "set_cursor bm t (new_cursor ?n)"] by simp
    have step: "next_file_loop t add MAX_BLOCKFILE_SIZE bm n = next_file_loop t add MAX_BLOCKFILE_SIZE ?bm ?n"
      using True fits_iff [OF less.prems(1,4,5)] by (subst next_file_loop.simps) (simp add: Let_def)
    have mx: "MaxBlockfileNum ?bm = ?n" using MaxBlockfileNum_set [of bm ?n t] by simp
    have ok: "files_ok ?bm" "cursors_ok ?bm" "nat ?n < length (m_blockfile_info ?bm)"
      using less.prems(1,2) n len by (auto simp: files_ok_def cursors_ok_set)
    show ?thesis
    proof (cases "nat ?n < length (m_blockfile_info bm)")
      case inside: True
      then have "length (m_blockfile_info ?bm) = length (m_blockfile_info bm)" using len by auto
      then have "nat (int (length (m_blockfile_info ?bm)) - MaxBlockfileNum ?bm) <
          nat (int (length (m_blockfile_info bm)) - MaxBlockfileNum bm)"
        using mx inside n by linarith
      from less.hyps [OF this ok(1,2) n ok(3) less.prems(5)] show ?thesis unfolding step by simp
    next
      case False
      then have z: "file_size bm (nat ?n) = 0" by (simp add: file_size_def)
      then have "\<not> nSize (m_blockfile_info ?bm ! nat ?n) + add \<ge> MAX_BLOCKFILE_SIZE"
        using fits_iff [OF ok(1,3) less.prems(5)] less.prems(5) by (simp add: word_less_nat_alt)
      then have "next_file_loop t add MAX_BLOCKFILE_SIZE ?bm ?n = Some (?n, ?bm)"
        by (subst next_file_loop.simps) simp
      then show ?thesis
        using step n ok less.prems(5) z by (auto simp: word_less_nat_alt)
    qed
  qed
qed

lemma FindNextBlockPos_correct:
  assumes files: "files_ok bm" and cursors: "cursors_ok bm" and add: "add < MAX_BLOCKFILE_SIZE"
  shows "\<exists>n bm'. FindNextBlockPos allocate False prune bm add height time =
      Some (if snd (allocate \<lparr>ffp_nFile = int n, ffp_nPos = word_of_nat (file_size bm n)\<rparr> add)
            then FlatFilePos_null else \<lparr>ffp_nFile = int n, ffp_nPos = word_of_nat (file_size bm n)\<rparr>, bm') \<and>
    (\<forall>k. file_size bm' k = (if k = n then file_size bm n + unat add else file_size bm k)) \<and>
    files_ok bm' \<and> cursors_ok bm' \<and> m_block_index bm' = m_block_index bm"
proof -
  define t where "t = BlockfileTypeForHeight bm (sint height)"
  define bm1 where "bm1 = (case m_blockfile_cursors bm t of Some c \<Rightarrow> bm
    | None \<Rightarrow> set_cursor bm t (new_cursor (MaxBlockfileNum bm + 1)))"
  have assumed: "t = ASSUMED" if "m_blockfile_cursors bm t = None"
    using that cursors by (cases t) (auto simp: cursors_ok_def)
  have c1: "cursors_ok bm1" "m_block_index bm1 = m_block_index bm" "\<And>k. file_size bm1 k = file_size bm k"
    using cursors MaxBlockfileNum_nonneg [OF cursors] by (auto simp: bm1_def cursors_ok_set split: option.split)
  define last_file where "last_file = cursor_of (m_blockfile_cursors bm1 t)"
  have l0: "0 \<le> last_file" using cursor_of_nonneg [OF c1(1)] by (simp add: last_file_def)
  let ?bm2 = "grow_files bm1 last_file"
  have ok2: "files_ok ?bm2" "cursors_ok ?bm2" "nat last_file < length (m_blockfile_info ?bm2)"
    using files c1 length_grow_files [OF l0, of bm1] l0 by (auto simp: files_ok_def)
  obtain n bm3 where r: "next_file_loop t add MAX_BLOCKFILE_SIZE ?bm2 last_file = Some (n, bm3)" "0 \<le> n"
      "nat n < length (m_blockfile_info bm3)" "\<And>k. file_size bm3 k = file_size bm k" "cursors_ok bm3"
      "m_block_index bm3 = m_block_index bm" "file_size bm (nat n) + unat add < unat MAX_BLOCKFILE_SIZE"
    using next_file_loop_correct [OF ok2(1,2) l0 ok2(3) add, of t] c1 by auto
  let ?info = "m_blockfile_info bm3 ! nat n"
  define bm4 where "bm4 = (if n \<noteq> last_file then set_cursor bm3 t (new_cursor n) else bm3)"
  let ?bm5 = "bm4\<lparr>m_blockfile_info := (m_blockfile_info bm4)
    [nat n := (AddBlock height time ?info)\<lparr>nSize := nSize ?info + add\<rparr>]\<rparr>"
  let ?pos = "\<lparr>ffp_nFile = n, ffp_nPos = nSize ?info\<rparr>"
  have size: "unat (nSize ?info) = file_size bm (nat n)" using r(3) r(4) [of "nat n"] by (simp add: file_size_def)
  have sum: "unat (nSize ?info + add) = file_size bm (nat n) + unat add"
    using r(7) size unat_add_lem [of "nSize ?info" add] by (simp add: MAX_BLOCKFILE_SIZE_def)
  have c4: "cursors_ok bm4" "m_blockfile_info bm4 = m_blockfile_info bm3" "m_block_index bm4 = m_block_index bm"
    using r by (auto simp: bm4_def cursors_ok_set)
  have f5: "file_size ?bm5 k = (if k = nat n then file_size bm (nat n) + unat add else file_size bm k)" for k
    using r(3) r(4) [of k] c4 sum by (auto simp: file_size_def nth_list_update)
  have c5: "cursors_ok ?bm5" using c4(1) by (simp add: cursors_ok_def)
  have f6: "file_size (bm\<lparr>m_check_for_pruning := x, m_dirty_fileinfo := y\<rparr>) k = file_size bm k" for bm x y k
    by (simp add: file_size_def)
  have run: "FindNextBlockPos allocate False prune bm add height time =
      (if snd (allocate ?pos add) then Some (FlatFilePos_null, ?bm5)
       else Some (?pos, ?bm5\<lparr>m_check_for_pruning := (fst (allocate ?pos add) \<noteq> 0 \<and> prune \<or> m_check_for_pruning ?bm5),
              m_dirty_fileinfo := insert n (m_dirty_fileinfo ?bm5)\<rparr>))"
  proof -
    have start: "(case m_blockfile_cursors bm t of Some c \<Rightarrow> Some bm
      | None \<Rightarrow> if t = ASSUMED then Some (set_cursor bm t (new_cursor (MaxBlockfileNum bm + 1))) else None) = Some bm1"
      using assumed by (auto simp: bm1_def split: option.split)
    have mx: "max_size_for False add = MAX_BLOCKFILE_SIZE" by (simp add: max_size_for_def)
    show ?thesis
      unfolding FindNextBlockPos_def Let_def t_def [symmetric] start mx Option.bind.bind_lunit
        last_file_def [symmetric] if_P [OF add] r(1) prod.case case_prod_beta by (simp add: bm4_def)
  qed
  have pos: "?pos = \<lparr>ffp_nFile = int (nat n), ffp_nPos = word_of_nat (file_size bm (nat n))\<rparr>"
    using r(2) by (simp flip: size)
  have ok: "files_ok bm'" if "\<And>k. file_size bm' k = (if k = nat n then file_size bm (nat n) + unat add else file_size bm k)" for bm'
    using that files r(7) by (simp add: files_ok_def)
  show ?thesis
  proof (cases "snd (allocate ?pos add)")
    case True
    then show ?thesis
      using run f5 c5 c4(3) ok [OF f5] unfolding pos by (intro exI [of _ "nat n"] exI [of _ ?bm5]) simp
  next
    case False
    define bm6 where "bm6 = ?bm5\<lparr>m_check_for_pruning := (fst (allocate ?pos add) \<noteq> 0 \<and> prune \<or> m_check_for_pruning ?bm5),
      m_dirty_fileinfo := insert n (m_dirty_fileinfo ?bm5)\<rparr>"
    have f: "file_size bm6 k = (if k = nat n then file_size bm (nat n) + unat add else file_size bm k)" for k
      unfolding bm6_def f6 by (rule f5)
    have "cursors_ok bm6" "m_block_index bm6 = m_block_index bm"
      using c4(1,3) by (simp_all add: bm6_def cursors_ok_def)
    moreover have "FindNextBlockPos allocate False prune bm add height time = Some (?pos, bm6)"
      using run False by (simp only: bm6_def if_False)
    ultimately show ?thesis
      using False f ok [OF f] unfolding pos by (intro exI [of _ "nat n"] exI [of _ bm6]) simp
  qed
qed

section \<open>The invariant in terms of branches\<close>

text \<open>
  What the invariant means without the code that maintains it. The branch of a block is the list of
  the entries from it to its root, and the work of an entry is the one its target stands for.
\<close>

fun branch :: "BlockMap \<Rightarrow> nat \<Rightarrow> ptr \<Rightarrow> CBlockIndex list" where
  "branch m 0 p = []"
| "branch m (Suc n) p =
     (case m p of None \<Rightarrow> [] | Some b \<Rightarrow> b # (case pprev b of None \<Rightarrow> [] | Some q \<Rightarrow> branch m n q))"

definition bits_work :: "u32 \<Rightarrow> nat" where
  "bits_work c =
     (if cr_negative (SetCompact c) \<or> 2 ^ 256 \<le> compact_number c \<or> compact_number c = 0 then 0
      else 2 ^ 256 div (compact_number c + 1))"

definition entry_exact :: "BlockMap \<Rightarrow> ptr \<Rightarrow> CBlockIndex \<Rightarrow> bool" where
  "entry_exact m p b \<longleftrightarrow>
     (let up = branch m (Suc (nat (nHeight b))) p in
      phashBlock b = Some p \<and> nHeight b = int (length up) - 1 \<and>
      (pprev b \<noteq> None \<longrightarrow> (\<exists>s. pskip b = Some s \<and> parent_n m (nat (nHeight b - GetSkipHeight (nHeight b))) p = Some s)) \<and>
      nTimeMax b = Max (nTime ` set up) \<and>
      length (nChainWork b) = WIDTH256 \<and> uval (nChainWork b) = sum_list (map (bits_work \<circ> nBits) up) mod 2 ^ 256)"

definition index_exact :: "BlockMap \<Rightarrow> bool" where
  "index_exact m \<longleftrightarrow> wf_tree m \<and> (\<forall>p b. m p = Some b \<longrightarrow> entry_exact m p b)"

lemma chain_work_of_value:
  assumes "chain_work_of prev b = Some w" "\<And>c. prev = Some c \<Longrightarrow> length (nChainWork c) = WIDTH256"
  shows "uval w = (bits_work (nBits b) + (case prev of None \<Rightarrow> 0 | Some c \<Rightarrow> uval (nChainWork c))) mod 2 ^ 256"
proof -
  obtain v where v: "GetBlockProof (nBits b) = Inr v" "length v = WIDTH256" "uval v = bits_work (nBits b)"
    using GetBlockProof_value [of "nBits b"] by (auto simp: bits_work_def)
  let ?a = "case prev of None \<Rightarrow> arith_of_u64 0 | Some c \<Rightarrow> nChainWork c"
  have a: "length ?a = WIDTH256" "uval ?a = (case prev of None \<Rightarrow> 0 | Some c \<Rightarrow> uval (nChainWork c))"
    using assms(2) by (auto simp: width_simps uval_simps split: option.split)
  have "w = base_uint_add ?a v" using assms(1) v(1) by (simp add: chain_work_of_def)
  then show ?thesis using uval_add [of ?a v] modulus_256 [OF a(1)] a v by (simp add: add.commute)
qed

lemma entry_exact_step:
  assumes "index_inv m" "m p = Some b" "\<And>q c. pprev b = Some q \<Longrightarrow> m q = Some c \<Longrightarrow> entry_exact m q c"
  shows "entry_exact m p b"
proof -
  note wf = index_invD(3,4) [OF assms(1,2)]
  obtain prev where d: "length (nChainWork b) = WIDTH256" "pprev b \<noteq> None \<longrightarrow> pskip b \<noteq> None" "prev_entry m b = Some prev"
      "nTimeMax b = time_max_of prev b" "chain_work_of prev b = Some (nChainWork b)"
    using index_invD(1) [OF assms(1,2)] by (auto simp: derived_ok_def)
  have common: "phashBlock b = Some p" "pprev b \<noteq> None \<longrightarrow> (\<exists>s. pskip b = Some s \<and> parent_n m (nat (nHeight b - GetSkipHeight (nHeight b))) p = Some s)"
    using wf(1) assms(2) d(2) by (auto simp: wf_index_def wf_skip_def)
  show ?thesis
  proof (cases "pprev b")
    case None
    then have "nHeight b = 0" "prev = None" using wf_root [OF wf(2) assms(2)] d(3) by (simp_all add: prev_entry_def)
    then show ?thesis using None common assms(2) d chain_work_of_value [OF d(5)]
      by (simp add: entry_exact_def Let_def time_max_of_def)
  next
    case (Some q)
    obtain c where c: "m q = Some c" "nHeight b = nHeight c + 1" "0 \<le> nHeight c" using wf_child [OF wf(2) assms(2) Some] by blast
    have q: "entry_exact m q c" by (rule assms(3) [OF Some c(1)])
    have prev: "prev = Some c" using d(3) Some c(1) by (simp add: prev_entry_def)
    let ?up = "branch m (Suc (nat (nHeight c))) q"
    have up: "branch m (Suc (nat (nHeight b))) p = b # ?up" using c(2,3) assms(2) Some by (simp add: nat_add_distrib del: branch.simps(2) add: branch.simps(2) [of m "Suc n" for n])
    have ne: "?up \<noteq> []" using c(1) by simp
    have "nTimeMax b = Max (nTime ` set (b # ?up))"
      using d(4) prev q ne by (simp add: time_max_of_def entry_exact_def Let_def max.commute del: branch.simps)
    moreover have "uval (nChainWork b) = sum_list (map (bits_work \<circ> nBits) (b # ?up)) mod 2 ^ 256"
      using chain_work_of_value [OF d(5)] prev q by (simp add: entry_exact_def Let_def mod_add_right_eq del: branch.simps)
    moreover have "nHeight b = int (length (b # ?up)) - 1" using q c(2) by (simp add: entry_exact_def Let_def del: branch.simps)
    ultimately show ?thesis using common d(1) unfolding entry_exact_def Let_def up by (intro conjI)
  qed
qed

lemma index_inv_exact:
  assumes "index_inv m"
  shows "index_exact m"
proof -
  have "m p = Some b \<Longrightarrow> entry_exact m p b" for p b
  proof (induction "nat (nHeight b)" arbitrary: p b rule: less_induct)
    case less
    show ?case
    proof (rule entry_exact_step [OF assms less.prems])
      fix q c assume q: "pprev b = Some q" "m q = Some c"
      then have "nat (nHeight c) < nat (nHeight b)" using wf_child [OF index_invD(4) [OF assms less.prems] less.prems q(1)] by auto
      then show "entry_exact m q c" using q(2) less.hyps by blast
    qed
  qed
  then show ?thesis using assms by (simp add: index_exact_def index_inv_def wf_index_def)
qed

section \<open>Pruning\<close>

definition pruned :: "int \<Rightarrow> CBlockIndex \<Rightarrow> CBlockIndex" where
  "pruned file b =
     (if nFile b = file
      then b\<lparr>nStatus := (nStatus b AND NOT BLOCK_HAVE_DATA) AND NOT BLOCK_HAVE_UNDO, nFile := 0, nDataPos := 0, nUndoPos := 0\<rparr>
      else b)"

lemma pruned_sel [simp]:
  "pprev (pruned f b) = pprev b" "nHeight (pruned f b) = nHeight b" "phashBlock (pruned f b) = phashBlock b"
  "pskip (pruned f b) = pskip b" "nTime (pruned f b) = nTime b" "nBits (pruned f b) = nBits b"
  "nTimeMax (pruned f b) = nTimeMax b" "nChainWork (pruned f b) = nChainWork b"
  by (simp_all add: pruned_def)

lemma prune_entry_index:
  "m_block_index (prune_entry file bm p) q =
     map_option (\<lambda>b. if q = p then pruned file b else b) (m_block_index bm q)"
  by (cases "q = p"; cases "m_block_index bm q") (auto simp: prune_entry_def pruned_def split: option.split)

lemma prune_entry_keeps: "m_blockfile_info (prune_entry file bm p) = m_blockfile_info bm"
  by (simp add: prune_entry_def split: option.split)

lemma pruned_idem: "pruned file (pruned file b) = pruned file b"
  by (simp add: pruned_def and.assoc and.left_commute [of "NOT BLOCK_HAVE_UNDO"])

lemma prune_fold_index:
  "m_block_index (foldl (prune_entry file) bm order) q =
     map_option (\<lambda>b. if q \<in> set order then pruned file b else b) (m_block_index bm q)"
proof (induction order arbitrary: bm)
  case (Cons p order)
  then show ?case by (cases "m_block_index bm q") (simp_all add: prune_entry_index pruned_idem)
qed (simp add: option.map_ident)

lemma prune_fold_keeps: "m_blockfile_info (foldl (prune_entry file) bm order) = m_blockfile_info bm"
  by (induction order arbitrary: bm) (simp_all add: prune_entry_keeps)

lemma prune_fold_dirty:
  "m_dirty_blockindex (foldl (prune_entry file) bm order) =
     m_dirty_blockindex bm \<union> {p \<in> set order. \<exists>b. m_block_index bm p = Some b \<and> nFile b = file}"
proof (induction order arbitrary: bm)
  case (Cons p order)
  define P where "P bm q \<longleftrightarrow> (\<exists>b. m_block_index bm q = Some b \<and> nFile b = file)" for bm :: BlockManager and q
  have "m_dirty_blockindex (prune_entry file bm p) = m_dirty_blockindex bm \<union> {q. q = p \<and> P bm p}"
    by (auto simp: prune_entry_def P_def split: option.split)
  moreover have "P (prune_entry file bm p) q \<Longrightarrow> P bm q" "P bm q \<Longrightarrow> q \<noteq> p \<Longrightarrow> P (prune_entry file bm p) q" for q
    by (auto simp: prune_entry_index P_def pruned_def split: if_splits)
  ultimately show ?case using Cons [of "prune_entry file bm p"] unfolding P_def [symmetric] by auto
qed simp

lemma pruned_exact:
  assumes "nFile b = file"
  shows "nStatus (pruned file b) AND (BLOCK_HAVE_DATA OR BLOCK_HAVE_UNDO) = 0"
    "nFile (pruned file b) = 0" "nDataPos (pruned file b) = 0" "nUndoPos (pruned file b) = 0"
    "k \<noteq> 3 \<Longrightarrow> k \<noteq> 4 \<Longrightarrow> bit (nStatus (pruned file b)) k = bit (nStatus b) k"
    "(pruned file b)\<lparr>nStatus := nStatus b, nFile := file, nDataPos := nDataPos b, nUndoPos := nUndoPos b\<rparr> = b"
proof -
  have e: "BLOCK_HAVE_DATA = 2 ^ 3" "BLOCK_HAVE_UNDO = 2 ^ 4" by (simp_all add: BLOCK_HAVE_DATA_def BLOCK_HAVE_UNDO_def)
  have w: "bit BLOCK_HAVE_DATA n \<Longrightarrow> n = 3" "bit BLOCK_HAVE_UNDO n \<Longrightarrow> n = 4" for n
    unfolding e bit_exp_iff by simp_all
  show "nStatus (pruned file b) AND (BLOCK_HAVE_DATA OR BLOCK_HAVE_UNDO) = 0"
    using assms by (intro bit_eqI) (auto simp: pruned_def bit_simps)
  show "bit (nStatus (pruned file b)) k = bit (nStatus b) k" if "k \<noteq> 3" "k \<noteq> 4"
    using assms that w by (auto simp: pruned_def bit_simps dest: bit_imp_le_length)
qed (use assms in \<open>simp_all add: pruned_def\<close>)

lemma pruned_other: "nFile b \<noteq> file \<Longrightarrow> pruned file b = b"
  by (simp add: pruned_def)

lemma branch_pruned: "branch (\<lambda>q. map_option (pruned f) (m q)) n p = map (pruned f) (branch m n p)"
  by (induction n arbitrary: p) (auto split: option.split)

lemma index_exact_pruned:
  assumes "index_exact m"
  shows "index_exact (\<lambda>q. map_option (pruned file) (m q))"
proof -
  let ?m = "\<lambda>q. map_option (pruned file) (m q)"
  have st: "same_tree m ?m" by (simp add: same_tree_def option.map_comp comp_def)
  have "entry_exact ?m p (pruned file b)" if "entry_exact m p b" for p b
    using that unfolding entry_exact_def Let_def branch_pruned same_tree_parent_n [OF st, symmetric]
    by (auto simp: image_image comp_def simp del: branch.simps)
  then show ?thesis using assms same_tree_wf_tree [OF st] by (auto simp: index_exact_def)
qed

section \<open>Properties\<close>

text \<open>A header with no predecessor and a child of it, and a function that stands for the hash.\<close>

definition sample_header :: "uint256 \<Rightarrow> CBlockHeader" where
  "sample_header prev = CBlockHeader_SetNull\<lparr>hashPrevBlock := prev, bh_nBits := 0x1d00ffff, bh_nTime := 7\<rparr>"

definition empty_manager :: BlockManager where
  "empty_manager =
     \<lparr>m_block_index = Map.empty, m_dirty_blockindex = {}, m_blocks_unlinked = [], m_blockfile_info = [],
      m_dirty_fileinfo = {}, m_blockfile_cursors = (\<lambda>t. if t = NORMAL then Some (new_cursor 0) else None),
      m_snapshot_height = None, m_have_pruned = False, m_check_for_pruning = False\<rparr>"

text \<open>
  Adding a header that is not in the index yet returns its hash, leaves every other entry as
  it was, marks exactly the new entry dirty and gives it the validity level \<^verbatim>\<open>TREE\<close>; adding a
  known header changes nothing.
\<close>

theorem AddToBlockIndex_effect:
  assumes "index_inv (m_block_index bm)" "best_ok (m_block_index bm) best"
    "hashPrevBlock block \<noteq> GetHash blake3 block"
  shows "\<exists>bm' best'. AddToBlockIndex blake3 bm block best = Some (GetHash blake3 block, bm', best') \<and>
    (m_block_index bm (GetHash blake3 block) \<noteq> None \<longrightarrow> bm' = bm \<and> best' = best) \<and>
    (m_block_index bm (GetHash blake3 block) = None \<longrightarrow>
       m_dirty_blockindex bm' = insert (GetHash blake3 block) (m_dirty_blockindex bm) \<and>
       (\<forall>q. q \<noteq> GetHash blake3 block \<longrightarrow> m_block_index bm' q = m_block_index bm q) \<and>
       (\<exists>b. m_block_index bm' (GetHash blake3 block) = Some b \<and> nStatus b = BLOCK_VALID_TREE \<and>
          pprev b = LookupBlockIndex bm (hashPrevBlock block) \<and> nBits b = bh_nBits block \<and> nTime b = bh_nTime block))"
proof (cases "m_block_index bm (GetHash blake3 block)")
  case (Some b)
  then show ?thesis by (simp add: AddToBlockIndex_def Let_def)
next
  case None
  then show ?thesis
    using AddToBlockIndex_spec [OF assms(1,2) None assms(3)]
    by (auto simp: Let_def added_entry_def LookupBlockIndex_def)
qed

theorem AddToBlockIndex_effect_witness:
  "\<exists>bm' best'. AddToBlockIndex (\<lambda>_. [1]) empty_manager (sample_header [0]) None = Some ([1], bm', best') \<and>
     m_dirty_blockindex bm' = {[1]}"
proof -
  have "index_inv (m_block_index empty_manager)" "best_ok (m_block_index empty_manager) None"
    "hashPrevBlock (sample_header [0]) \<noteq> GetHash (\<lambda>_. [1]) (sample_header [0])"
    by (simp_all add: empty_manager_def index_inv_empty best_ok_def sample_header_def GetHash_def)
  from AddToBlockIndex_effect [OF this] show ?thesis
    by (auto simp: empty_manager_def GetHash_def)
qed

text \<open>
  C15. Every index a node builds by adding headers, in any order and with any headers that do not
  contain their own hash, is in order: parents are present one level below, the skip pointer of every block
  but a root is the ancestor at the skip height, \<^verbatim>\<open>nTimeMax\<close> is the maximum of the times along the branch,
  \<^verbatim>\<open>nChainWork\<close> the sum of the works of its targets modulo $2^{256}$, \<^verbatim>\<open>best_header\<close> is an entry
  of most work, and a further header can always be added.
\<close>

theorem block_index_invariant:
  assumes "reachable_index blake3 bm best"
  shows "index_exact (m_block_index bm) \<and> best_ok (m_block_index bm) best \<and>
    (\<forall>block :: CBlockHeader. hashPrevBlock block = GetHash blake3 block \<or> AddToBlockIndex blake3 bm block best \<noteq> None)"
proof -
  have inv: "index_inv (m_block_index bm)" "best_ok (m_block_index bm) best" using reachable_index_inv [OF assms] by simp_all
  then show ?thesis using index_inv_exact AddToBlockIndex_effect [OF inv] by fastforce
qed

text \<open>A hash for which the sample headers form a chain: the first byte of the predecessor, plus one.\<close>

definition next_hash :: "bytes \<Rightarrow> uint256" where
  "next_hash x = [x ! 4 + 1]"

lemma sample_hashes: "GetHash next_hash (sample_header [n]) = [n + 1]"
proof -
  have "length (ser_int32 v) = 4" for v by (simp add: ser_int32_def ser_writedata32_def)
  then show ?thesis using nth_append_length [of "ser_int32 v" for v]
    by (simp add: GetHash_def next_hash_def ser_CBlockHeader_def sample_header_def ser_blob_def)
qed

theorem block_index_invariant_witness:
  "\<exists>bm best b. reachable_index next_hash bm best \<and> m_block_index bm [2] = Some b \<and> pskip b = Some [1] \<and> nTimeMax b = 7"
proof -
  have r0: "reachable_index next_hash empty_manager None"
    by (rule reachable_index.start) (simp add: empty_manager_def)
  have ne: "hashPrevBlock (sample_header [n]) \<noteq> GetHash next_hash (sample_header [n])" for n :: byte
    unfolding sample_hashes by (simp add: sample_header_def)
  note inv0 = reachable_index_inv [OF r0, THEN conjunct1] reachable_index_inv [OF r0, THEN conjunct2]
  obtain bm1 best1 b1 where 1: "AddToBlockIndex next_hash empty_manager (sample_header [0]) None = Some ([1], bm1, best1)"
      "m_block_index bm1 [1] = Some b1" "pprev b1 = None"
    using AddToBlockIndex_effect [OF inv0 ne [of 0]] unfolding sample_hashes
    by (auto simp: empty_manager_def LookupBlockIndex_def)
  have r1: "reachable_index next_hash bm1 best1" by (rule reachable_index.add [OF r0 ne 1(1)])
  note inv1 = reachable_index_inv [OF r1, THEN conjunct1] reachable_index_inv [OF r1, THEN conjunct2]
  have fresh: "m_block_index bm1 [2] = None"
    using AddToBlockIndex_effect [OF inv0 ne [of 0]] 1(1) unfolding sample_hashes by (auto simp: empty_manager_def)
  obtain bm2 best2 b2 where 2: "AddToBlockIndex next_hash bm1 (sample_header [1]) best1 = Some ([2], bm2, best2)"
      "m_block_index bm2 [2] = Some b2" "pprev b2 = Some [1]" "m_block_index bm2 [1] = Some b1" "nTime b2 = 7"
    using AddToBlockIndex_effect [OF inv1 ne [of 1]] 1(2) fresh unfolding sample_hashes
    by (auto simp: LookupBlockIndex_def sample_header_def)
  have r2: "reachable_index next_hash bm2 best2" by (rule reachable_index.add [OF r1 ne 2(1)])
  have "index_exact (m_block_index bm2)" using block_index_invariant [OF r2] by simp
  then have e: "wf_tree (m_block_index bm2)" "entry_exact (m_block_index bm2) [2] b2" using 2(2) by (auto simp: index_exact_def)
  have h: "nHeight b1 = 0" "nHeight b2 = 1" using wf_root [OF e(1) 2(4)] wf_child [OF e(1) 2(2,3)] 1(3) 2(4) by auto
  have "nTime b1 = 7" using AddToBlockIndex_effect [OF inv0 ne [of 0]] 1 unfolding sample_hashes by (auto simp: empty_manager_def sample_header_def)
  then have "pskip b2 = Some [1]" "nTimeMax b2 = 7" using e(2) h 2 1(3) by (auto simp: entry_exact_def Let_def GetSkipHeight_def)
  then show ?thesis using r2 2(2) by blast
qed

text \<open>
  C20. Loading rebuilds what was not stored: from any index whose tree is well formed, whatever its
  work, times and transaction counts, with or without skip pointers, and for any iteration order of the map, the pass by height
  finds no gap, restores the skip pointers, times and works of the running node without touching the tree, and leaves no
  block unmarked below a failed one.
\<close>

theorem LoadBlockIndex_restores:
  assumes "wf_index (m_block_index bm)" "distinct order" "set order = dom (m_block_index bm)"
    "m_snapshot_height bm = None"
  shows "\<exists>bm'. LoadBlockIndex_pass None bm order = Some (True, bm') \<and> index_exact (m_block_index bm') \<and>
    (\<forall>p b. m_block_index bm' p = Some b \<longrightarrow> failure_closed (m_block_index bm') b) \<and>
    same_tree (m_block_index bm) (m_block_index bm')"
  using LoadBlockIndex_pass_correct [OF assms] index_inv_exact by blast

theorem LoadBlockIndex_restores_witness:
  "\<exists>bm' b. LoadBlockIndex_pass None (empty_manager\<lparr>m_block_index := sample_index\<rparr>) [[3], [1], [0], [2]] = Some (True, bm') \<and>
     m_block_index bm' [3] = Some b \<and> pprev b = Some [2] \<and> pskip b \<noteq> None"
proof -
  let ?bm = "empty_manager\<lparr>m_block_index := sample_index\<rparr>"
  have "set [[3], [1], [0], [2]] = dom (m_block_index ?bm)"
    by (auto simp: sample_index_def)
  moreover have "m_snapshot_height ?bm = None" by (simp add: empty_manager_def)
  ultimately obtain bm' where r: "LoadBlockIndex_pass None ?bm [[3], [1], [0], [2]] = Some (True, bm')"
      "index_exact (m_block_index bm')" "same_tree sample_index (m_block_index bm')"
    using LoadBlockIndex_restores [of ?bm "[[3], [1], [0], [2]]"] sample_index_wf by auto
  obtain b where b: "m_block_index bm' [3] = Some b" "pprev b = Some [2]"
    using same_treeD [OF same_tree_sym [OF r(3)] sample_index_at(4)] by auto
  then have "pskip b \<noteq> None" using r(2) by (auto simp: index_exact_def entry_exact_def Let_def)
  with r(1) b show ?thesis by blast
qed

text \<open>
  Candidate tips are ordered by more work first, then by earlier arrival, then by address: the
  comparator is the lexicographic order of those three, so it is a strict order, total where
  addresses differ, as the set of candidates requires.
\<close>

theorem CBlockIndexWorkComparator_order:
  assumes "index_inv m" "m pa = Some a" "m pb = Some b"
  shows "CBlockIndexWorkComparator addr m pa pb =
    Some ((uval (nChainWork a), - nSequenceId a, - int (addr pa)) < (uval (nChainWork b), - nSequenceId b, - int (addr pb)))"
  by (rule CBlockIndexWorkComparator_key [OF assms])

theorem CBlockIndexWorkComparator_order_witness:
  "\<exists>m b. m [1] = Some b \<and> CBlockIndexWorkComparator (\<lambda>_. 0) m [1] [1] = Some False"
proof -
  have "index_inv (m_block_index empty_manager)" "best_ok (m_block_index empty_manager) None"
      "m_block_index empty_manager (GetHash (\<lambda>_. [1]) (sample_header [0])) = None"
      "hashPrevBlock (sample_header [0]) \<noteq> GetHash (\<lambda>_. [1]) (sample_header [0])"
    by (simp_all add: empty_manager_def index_inv_empty best_ok_def sample_header_def GetHash_def)
  from AddToBlockIndex_spec [OF this] have "\<exists>m b. index_inv m \<and> m [1] = Some b"
    unfolding Let_def GetHash_def by (metis fun_upd_same)
  then obtain m b where m: "index_inv m" "m [1] = Some b" by blast
  show ?thesis using CBlockIndexWorkComparator_order [OF m m(2), of "\<lambda>_. 0"] m(2) by auto
qed

text \<open>
  C32. Space in the block files is handed out without overlap: the position returned is the end of
  the used part of its file, that file grows by exactly the size asked for and stays below the
  maximum, no other file changes, and the search for a file with room always ends. When the disk
  is full the position is null.
\<close>

theorem FindNextBlockPos_no_overlap:
  assumes "files_ok bm" "cursors_ok bm" "add < MAX_BLOCKFILE_SIZE"
  shows "\<exists>n bm'. FindNextBlockPos allocate False prune bm add height time =
      Some (if snd (allocate \<lparr>ffp_nFile = int n, ffp_nPos = word_of_nat (file_size bm n)\<rparr> add)
            then FlatFilePos_null else \<lparr>ffp_nFile = int n, ffp_nPos = word_of_nat (file_size bm n)\<rparr>, bm') \<and>
    (\<forall>k. file_size bm' k = (if k = n then file_size bm n + unat add else file_size bm k)) \<and>
    files_ok bm' \<and> cursors_ok bm' \<and> m_block_index bm' = m_block_index bm"
  by (rule FindNextBlockPos_correct [OF assms])

theorem FindNextBlockPos_no_overlap_witness:
  "\<exists>n bm'. FindNextBlockPos (\<lambda>_ _. (0, False)) False False empty_manager 1000 5 6 =
      Some (\<lparr>ffp_nFile = int n, ffp_nPos = 0\<rparr>, bm') \<and> file_size bm' n = 1000"
proof -
  have e: "file_size empty_manager k = 0" for k by (simp add: file_size_def empty_manager_def)
  have "files_ok empty_manager" "cursors_ok empty_manager" "1000 < MAX_BLOCKFILE_SIZE"
    by (simp add: files_ok_def e MAX_BLOCKFILE_SIZE_def, simp add: cursors_ok_def empty_manager_def new_cursor_def,
        simp add: MAX_BLOCKFILE_SIZE_def)
  from FindNextBlockPos_no_overlap [OF this, of "\<lambda>_ _. (0, False)" False 5 6] show ?thesis
    by (auto simp: e)
qed

text \<open>
  Pruning a file takes the data and undo flags and the positions from exactly the blocks stored in it
  and changes nothing else in the index: the other status bits, the other fields and the entries of other files stay. It forgets
  the file, marks the entries it changed as dirty, and keeps the index in order.
\<close>

theorem PruneOneBlockFile_exact:
  assumes "index_exact (m_block_index bm)" "set order = dom (m_block_index bm)"
    "0 \<le> file" "nat file < length (m_blockfile_info bm)"
  shows "\<exists>bm'. PruneOneBlockFile order bm file = Some bm' \<and> index_exact (m_block_index bm') \<and>
    dom (m_block_index bm') = dom (m_block_index bm) \<and>
    (\<forall>p b b'. m_block_index bm p = Some b \<and> m_block_index bm' p = Some b' \<longrightarrow>
       (if nFile b = file
        then nStatus b' AND (BLOCK_HAVE_DATA OR BLOCK_HAVE_UNDO) = 0 \<and> nFile b' = 0 \<and> nDataPos b' = 0 \<and> nUndoPos b' = 0 \<and>
          (\<forall>k. k \<noteq> 3 \<longrightarrow> k \<noteq> 4 \<longrightarrow> bit (nStatus b') k = bit (nStatus b) k) \<and>
          b'\<lparr>nStatus := nStatus b, nFile := nFile b, nDataPos := nDataPos b, nUndoPos := nUndoPos b\<rparr> = b
        else b' = b)) \<and>
    m_dirty_blockindex bm' = m_dirty_blockindex bm \<union> {p. \<exists>b. m_block_index bm p = Some b \<and> nFile b = file} \<and>
    m_blockfile_info bm' = (m_blockfile_info bm)[nat file := CBlockFileInfo_init]"
proof -
  have i: "m_block_index (foldl (prune_entry file) bm order) = (\<lambda>q. map_option (pruned file) (m_block_index bm q))"
    using assms(2) by (auto simp: prune_fold_index fun_eq_iff intro!: map_option_cong)
  have d: "m_dirty_blockindex (foldl (prune_entry file) bm order) =
      m_dirty_blockindex bm \<union> {p. \<exists>b. m_block_index bm p = Some b \<and> nFile b = file}"
    unfolding prune_fold_dirty assms(2) by auto
  show ?thesis
    using assms(3,4) index_exact_pruned [OF assms(1), of "file"] pruned_exact [of _ "file"] pruned_other i d
    by (auto simp: PruneOneBlockFile_def prune_fold_keeps Let_def simp del: split_paired_All)
qed

text \<open>An index of one block whose data is in the second of two files.\<close>

definition stored_block :: "arith_uint256 \<Rightarrow> CBlockIndex" where
  "stored_block w = (CBlockIndex_of_header (sample_header [0]))
     \<lparr>phashBlock := Some [1], nTimeMax := 7, nChainWork := w, nStatus := BLOCK_HAVE_DATA, nFile := 1, nDataPos := 8\<rparr>"

definition stored_manager :: "arith_uint256 \<Rightarrow> BlockManager" where
  "stored_manager w = empty_manager
     \<lparr>m_block_index := [[1] \<mapsto> stored_block w], m_blockfile_info := [CBlockFileInfo_init, CBlockFileInfo_init]\<rparr>"

theorem PruneOneBlockFile_exact_witness:
  "\<exists>w bm' b. PruneOneBlockFile [[1]] (stored_manager w) 1 = Some bm' \<and> m_block_index bm' [1] = Some b \<and>
     nStatus b AND BLOCK_HAVE_DATA = 0 \<and> nFile b = 0 \<and> nDataPos b = 0 \<and> nTime b = 7 \<and> m_dirty_blockindex bm' = {[1]}"
proof -
  obtain w where w: "length w = WIDTH256" "uval w = bits_work 0x1d00ffff"
    using GetBlockProof_value [of "0x1d00ffff"] by (auto simp: bits_work_def)
  have sel: "pprev (stored_block w) = None" "nHeight (stored_block w) = 0" "phashBlock (stored_block w) = Some [1]"
    "nTimeMax (stored_block w) = 7" "nTime (stored_block w) = 7" "nBits (stored_block w) = 0x1d00ffff" "nChainWork (stored_block w) = w"
    "nFile (stored_block w) = 1"
    by (simp_all add: stored_block_def CBlockIndex_of_header_def sample_header_def)
  have mgr: "m_block_index (stored_manager w) = [[1] \<mapsto> stored_block w]" "length (m_blockfile_info (stored_manager w)) = 2"
    "m_dirty_blockindex (stored_manager w) = {}"
    by (simp_all add: stored_manager_def empty_manager_def)
  have "uval w mod 2 ^ 256 = uval w" using uval_mod_self [where pn = w] unfolding modulus_256 [OF w(1)] .
  then have "index_exact (m_block_index (stored_manager w))"
    using w by (auto simp: index_exact_def wf_tree_def entry_exact_def Let_def sel mgr split: if_splits)
  from PruneOneBlockFile_exact [OF this, of "[[1]]" 1] obtain bm' where bm': "PruneOneBlockFile [[1]] (stored_manager w) 1 = Some bm'"
      "dom (m_block_index bm') = {[1]}"
      "\<And>b'. m_block_index bm' [1] = Some b' \<Longrightarrow> nStatus b' AND (BLOCK_HAVE_DATA OR BLOCK_HAVE_UNDO) = 0 \<and> nFile b' = 0 \<and> nDataPos b' = 0 \<and>
         b'\<lparr>nStatus := nStatus (stored_block w), nFile := 1, nDataPos := nDataPos (stored_block w), nUndoPos := nUndoPos (stored_block w)\<rparr> = stored_block w"
      "m_dirty_blockindex bm' = {[1]}"
    by (auto simp: mgr sel split: if_splits)
  then obtain b where b: "m_block_index bm' [1] = Some b" by blast
  note r = bm'(3) [OF b]
  have "nTime b = 7" using arg_cong [OF r [THEN conjunct2, THEN conjunct2, THEN conjunct2], of nTime] sel(5) by simp
  moreover have "nStatus b AND BLOCK_HAVE_DATA = 0"
    using arg_cong [OF r [THEN conjunct1], of "\<lambda>x. x AND BLOCK_HAVE_DATA"] by (simp add: and.assoc BLOCK_HAVE_DATA_def BLOCK_HAVE_UNDO_def)
  ultimately show ?thesis using bm'(1,4) b r by blast
qed

end
