(* ===== verification/Pow.thy ===== *)
theory Pow
  imports Chain Params "HOL-Library.Monad_Syntax"
begin

text \<open>
  Proof of work, \<^verbatim>\<open>src/pow.cpp\<close>: the difficulty adjustment for every block by a linearly
  weighted moving average, the check of a hash against its compact target, \<^verbatim>\<open>DeriveTarget\<close> and
  the transition check of header synchronisation.

  \<^verbatim>\<open>GetNextWorkRequired\<close> writes the result into the header it is given although it takes it by
  pointer to const; the model returns the header as it is left. \<open>None\<close> is a null dereference, a
  failed assertion, a signed overflow or an uncaught \<^verbatim>\<open>uint_error\<close>.
\<close>

section \<open>Model\<close>

definition clamp :: "int \<Rightarrow> int \<Rightarrow> int \<Rightarrow> int" where
  "clamp v lo hi = (if v < lo then lo else if hi < v then hi else v)"

text \<open>The loop over the window, newest block first; \<open>i\<close> is the weight.\<close>

fun lwma_loop ::
  "BlockMap \<Rightarrow> Params \<Rightarrow> nat \<Rightarrow> int \<Rightarrow> ptr \<Rightarrow> arith_uint256 \<times> int \<times> int \<Rightarrow>
   (arith_uint256 \<times> int \<times> int) option" where
  "lwma_loop m params 0 i block acc = Some acc"
| "lwma_loop m params (Suc n) i block (sum_target, weighted_times, k) =
     (case m block of
        None \<Rightarrow> None
      | Some b \<Rightarrow>
          (case pprev b of
             None \<Rightarrow> Some (sum_target, weighted_times, k)
           | Some q \<Rightarrow>
               (case m q of
                  None \<Rightarrow> None
                | Some c \<Rightarrow>
                    let T = GetTargetSpacing params (nHeight b);
                        solvetime = clamp (GetBlockTime b - GetBlockTime c) (-6 * T) (6 * T);
                        weighted_times' = weighted_times + solvetime * i;
                        k' = k + i * T
                    in if fits_int64 weighted_times' \<and> fits_int64 k'
                       then lwma_loop m params n (i + 1) q
                              (base_uint_add sum_target (cr_value (SetCompact (nBits b))), weighted_times', k')
                       else None)))"

definition set_bits :: "u32 \<Rightarrow> CBlockHeader option \<Rightarrow> CBlockHeader option" where
  "set_bits bts pblock = map_option (\<lambda>h. h\<lparr>bh_nBits := bts\<rparr>) pblock"

definition div_result :: "uint_error + base_uint \<Rightarrow> base_uint option" where
  "div_result r = (case r of Inl e \<Rightarrow> None | Inr q \<Rightarrow> Some q)"

definition GetNextWorkRequired ::
  "BlockMap \<Rightarrow> ptr option \<Rightarrow> CBlockHeader option \<Rightarrow> Params \<Rightarrow> (u32 \<times> CBlockHeader option) option" where
  "GetNextWorkRequired m pindexLast pblock params =
     (if fPowNoRetargeting params
      then do { p \<leftarrow> pindexLast; b \<leftarrow> m p; Some (nBits b, set_bits (nBits b) pblock) }
      else
        let N = DifficultyAdjustmentInterval params in do {
          early \<leftarrow> (case pindexLast of None \<Rightarrow> Some True | Some p \<Rightarrow> map_option (\<lambda>b. nHeight b + 1 \<le> N) (m p));
          if early
          then do { pow_limit \<leftarrow> GetCompact (UintToArith256 (powLimit params)) False;
                    Some (pow_limit, set_bits pow_limit pblock) }
          else do {
            let pow_limit = UintToArith256 (powLimit params);
            p \<leftarrow> pindexLast;
            (sum_target, weighted_times, k) \<leftarrow> lwma_loop m params (nat N) 1 p (arith_of_u64 0, 0, 0);
            avg_target \<leftarrow> div_result (base_uint_div sum_target (arith_of_u64 (word_of_int N)));
            let weighted_times' = (if weighted_times < 1 then 1 else weighted_times);
            let scaled = base_uint_mul_u32 avg_target (word_of_int weighted_times');
            target \<leftarrow> div_result (base_uint_div scaled (arith_of_u64 (word_of_int k)));
            let target' = (if CompareTo target pow_limit > 0 then pow_limit else target);
            bts \<leftarrow> GetCompact target' False;
            Some (bts, set_bits bts pblock)
          }
        })"

definition CheckProofOfWork :: "uint256 \<Rightarrow> u32 \<Rightarrow> Params \<Rightarrow> bool" where
  "CheckProofOfWork hash bts params =
     (let r = SetCompact bts; bnTarget = cr_value r in
      \<not> (cr_negative r \<or> EqualTo bnTarget 0 \<or> cr_overflow r \<or> CompareTo (UintToArith256 hash) bnTarget > 0))"

definition CheckProofOfWork_header :: "(bytes \<Rightarrow> uint256) \<Rightarrow> 'a CBlockHeader_scheme \<Rightarrow> Params \<Rightarrow> bool" where
  "CheckProofOfWork_header blake3 block params = CheckProofOfWork (GetHash blake3 block) (bh_nBits block) params"

definition DeriveTarget :: "u32 \<Rightarrow> uint256 \<Rightarrow> arith_uint256 option" where
  "DeriveTarget bts pow_limit =
     (let r = SetCompact bts; target = cr_value r in
      if cr_negative r \<or> EqualTo target 0 \<or> cr_overflow r \<or> CompareTo target (UintToArith256 pow_limit) > 0
      then None else Some target)"

text \<open>
  The second argument of \<^verbatim>\<open>SetCompact\<close> is the negative flag, so \<open>overflow1\<close> and \<open>overflow2\<close>
  receive that one.
\<close>

definition PermittedDifficultyTransition :: "Params \<Rightarrow> int \<Rightarrow> u32 \<Rightarrow> u32 \<Rightarrow> bool" where
  "PermittedDifficultyTransition params height oldBits newBits =
     (if height < 1 then True
      else let r1 = SetCompact oldBits; r2 = SetCompact newBits;
               old_target = cr_value r1; new_target = cr_value r2;
               overflow1 = cr_negative r1; overflow2 = cr_negative r2
           in if overflow1 \<or> overflow2 \<or> EqualTo old_target 0 \<or> EqualTo new_target 0 then False
              else if CompareTo new_target (base_uint_mul_u32 old_target 4) > 0 then False
              else if CompareTo old_target (base_uint_mul_u32 new_target 4) > 0 then False
              else True)"

section \<open>The window\<close>

text \<open>The blocks the average is taken over, newest first, each with its predecessor.\<close>

fun lwma_window :: "BlockMap \<Rightarrow> nat \<Rightarrow> ptr \<Rightarrow> (CBlockIndex \<times> CBlockIndex) list" where
  "lwma_window m 0 p = []"
| "lwma_window m (Suc n) p =
     (case m p of
        None \<Rightarrow> []
      | Some b \<Rightarrow>
          (case pprev b of
             None \<Rightarrow> []
           | Some q \<Rightarrow> (case m q of None \<Rightarrow> [] | Some c \<Rightarrow> (b, c) # lwma_window m n q)))"

definition spacing_at :: "Params \<Rightarrow> CBlockIndex \<times> CBlockIndex \<Rightarrow> int" where
  "spacing_at params bc = GetTargetSpacing params (nHeight (fst bc))"

definition solve_time :: "Params \<Rightarrow> CBlockIndex \<times> CBlockIndex \<Rightarrow> int" where
  "solve_time params bc =
     clamp (GetBlockTime (fst bc) - GetBlockTime (snd bc)) (-6 * spacing_at params bc) (6 * spacing_at params bc)"

definition target_at :: "CBlockIndex \<times> CBlockIndex \<Rightarrow> nat" where
  "target_at bc = uval (cr_value (SetCompact (nBits (fst bc))))"

text \<open>\<open>weigh i [x, y, \<dots>]\<close> is \<open>i * x + (i + 1) * y + \<dots>\<close>.\<close>

fun weigh :: "int \<Rightarrow> int list \<Rightarrow> int" where
  "weigh i [] = 0"
| "weigh i (x # xs) = i * x + weigh (i + 1) xs"

definition pow_params_ok :: "Params \<Rightarrow> bool" where
  "pow_params_ok params \<longleftrightarrow>
     \<not> fPowNoRetargeting params \<and> 0 < nPowAveragingWindow params \<and> nPowAveragingWindow params \<le> 600"

lemma clamp_bounds: "lo \<le> hi \<Longrightarrow> lo \<le> clamp v lo hi \<and> clamp v lo hi \<le> hi"
  by (auto simp: clamp_def)

lemma length_lwma_window: "length (lwma_window m n p) \<le> n"
  by (induction m n p rule: lwma_window.induct) (auto split: option.split)

lemma length_lwma_window_full:
  assumes "wf_tree m"
  shows "m p = Some b \<Longrightarrow> int n \<le> nHeight b \<Longrightarrow> length (lwma_window m n p) = n"
proof (induction n arbitrary: p b)
  case (Suc n)
  then obtain q where q: "pprev b = Some q" using wf_root [OF assms Suc.prems(1)] by (cases "pprev b") auto
  then obtain c where "m q = Some c" "nHeight b = nHeight c + 1" using wf_child [OF assms Suc.prems(1)] by blast
  with Suc q show ?case by simp
qed simp

lemma weigh_bounds:
  assumes "\<And>x. x \<in> set xs \<Longrightarrow> lo \<le> x \<and> x \<le> hi" "0 \<le> i"
  shows "lo * weigh i (map (\<lambda>_. 1) xs) \<le> weigh i xs \<and> weigh i xs \<le> hi * weigh i (map (\<lambda>_. 1) xs)"
  using assms
proof (induction xs arbitrary: i)
  case (Cons x xs)
  have "lo * i \<le> x * i" "x * i \<le> hi * i" using Cons.prems by (auto intro!: mult_right_mono)
  moreover have "lo * weigh (i + 1) (map (\<lambda>_. 1) xs) \<le> weigh (i + 1) xs \<and> weigh (i + 1) xs \<le> hi * weigh (i + 1) (map (\<lambda>_. 1) xs)"
    using Cons by simp
  ultimately show ?case by (simp add: algebra_simps)
qed simp

lemma weigh_ones: "2 * weigh i (map (\<lambda>_. 1) xs) = int (length xs) * (2 * i + int (length xs) - 1)"
proof (induction xs arbitrary: i)
  case (Cons x xs)
  then have "2 * weigh (i + 1) (map (\<lambda>_. 1) xs) = int (length xs) * (2 * (i + 1) + int (length xs) - 1)" .
  then show ?case by (simp add: algebra_simps)
qed simp

lemma weigh_const: "weigh i (map (\<lambda>_. c) xs) = c * weigh i (map (\<lambda>_. 1) xs)"
  by (induction xs arbitrary: i) (auto simp: algebra_simps)

lemma lwma_loop_sums:
  assumes wf: "wf_tree m" and T: "\<And>h. 0 < GetTargetSpacing params h \<and> GetTargetSpacing params h \<le> 1000"
  shows "m p = Some b \<Longrightarrow> length s = WIDTH256 \<Longrightarrow> 1 \<le> i \<Longrightarrow> i + int n \<le> 601 \<Longrightarrow>
    \<bar>w\<bar> \<le> 6000 * (i * i) \<Longrightarrow> \<bar>k\<bar> \<le> 1000 * (i * i) \<Longrightarrow>
    \<exists>s'. lwma_loop m params n i p (s, w, k) =
      Some (s', w + weigh i (map (solve_time params) (lwma_window m n p)),
            k + weigh i (map (spacing_at params) (lwma_window m n p))) \<and> length s' = WIDTH256 \<and>
      uval s' = (uval s + sum_list (map target_at (lwma_window m n p))) mod 2 ^ 256"
proof (induction n arbitrary: p b s i w k)
  case 0
  then show ?case using u256.val_less [of s] by simp
next
  case (Suc n)
  show ?case
  proof (cases "pprev b")
    case None
    with Suc.prems show ?thesis using u256.val_less [of s] by simp
  next
    case (Some q)
    obtain c where c: "m q = Some c" using wf_child [OF wf Suc.prems(1) Some] by blast
    let ?T = "spacing_at params (b, c)" and ?x = "solve_time params (b, c)"
    have t: "0 < ?T" "?T \<le> 1000" using T by (auto simp: spacing_at_def)
    have x: "\<bar>?x\<bar> \<le> 6000"
      using clamp_bounds [of "-6 * ?T" "6 * ?T" "GetBlockTime b - GetBlockTime c"] t by (auto simp: solve_time_def)
    have i: "0 \<le> i" "i \<le> 601" using Suc.prems by auto
    have xi: "\<bar>?x * i\<bar> \<le> 6000 * i" "\<bar>i * ?T\<bar> \<le> 1000 * i"
      using x t i by (simp_all add: abs_mult mult_left_mono mult.commute [of _ i])
    have ii: "i * i \<le> 601 * 601" using i by (intro mult_mono) auto
    have next_sq: "(i + 1) * (i + 1) = i * i + 2 * i + 1" by (simp add: algebra_simps)
    have w': "\<bar>w + ?x * i\<bar> \<le> 6000 * ((i + 1) * (i + 1))" "\<bar>k + i * ?T\<bar> \<le> 1000 * ((i + 1) * (i + 1))"
      unfolding next_sq using Suc.prems(5,6) xi i by (auto simp: abs_le_iff)
    have fits: "fits_int64 (w + ?x * i)" "fits_int64 (k + i * ?T)"
      using Suc.prems(5,6) xi ii i by (auto simp: int_limits abs_le_iff)
    let ?s = "base_uint_add s (cr_value (SetCompact (nBits b)))"
    have s: "length ?s = WIDTH256" "uval ?s = (uval s + target_at (b, c)) mod 2 ^ 256"
      using Suc.prems(2) length_SetCompact [of "nBits b"] u256.val_add [of s] by (auto simp: width_simps target_at_def)
    obtain s' where s': "lwma_loop m params n (i + 1) q (?s, w + ?x * i, k + i * ?T) =
        Some (s', w + ?x * i + weigh (i + 1) (map (solve_time params) (lwma_window m n q)),
              k + i * ?T + weigh (i + 1) (map (spacing_at params) (lwma_window m n q)))"
        "length s' = WIDTH256" "uval s' = (uval ?s + sum_list (map target_at (lwma_window m n q))) mod 2 ^ 256"
      using Suc.IH [OF c s(1) _ _ w'] Suc.prems(3,4) by auto
    have "lwma_loop m params (Suc n) i p (s, w, k) = lwma_loop m params n (i + 1) q (?s, w + ?x * i, k + i * ?T)"
      using Suc.prems(1) Some c fits by (simp add: Let_def spacing_at_def solve_time_def)
    moreover have "uval s' = (uval s + sum_list (map target_at (lwma_window m (Suc n) p))) mod 2 ^ 256"
      using Suc.prems(1) Some c unfolding s'(3) s(2) by (simp add: mod_add_left_eq add.assoc del: power_numeral)
    ultimately show ?thesis
      using s'(1,2) Suc.prems(1) Some c by (simp add: add.assoc mult.commute [of i] del: power_numeral)
  qed
qed

section \<open>The next target\<close>

definition spacing_ok :: "Params \<Rightarrow> bool" where
  "spacing_ok params \<longleftrightarrow> (\<forall>h. 0 < GetTargetSpacing params h \<and> GetTargetSpacing params h \<le> 1000)"

text \<open>The number the loop and the two divisions compute, over natural numbers.\<close>

definition lwma_target :: "Params \<Rightarrow> (CBlockIndex \<times> CBlockIndex) list \<Rightarrow> nat" where
  "lwma_target params ws =
     ((sum_list (map target_at ws) mod 2 ^ 256) div nat (nPowAveragingWindow params) *
      nat (max 1 (weigh 1 (map (solve_time params) ws)))) mod 2 ^ 256
     div nat (weigh 1 (map (spacing_at params) ws))"

lemma weigh_ones_bounds:
  assumes "xs \<noteq> []" "length xs \<le> 600"
  shows "1 \<le> weigh 1 (map (\<lambda>_. 1) xs) \<and> weigh 1 (map (\<lambda>_. 1) xs) \<le> 180300"
proof -
  have "2 * weigh 1 (map (\<lambda>_. 1) xs) = int (length xs) * (int (length xs) + 1)"
    using weigh_ones [of 1 xs] by simp
  moreover have "int (length xs) * (int (length xs) + 1) \<le> 600 * 601" using assms(2) by (intro mult_mono) auto
  moreover have "1 * 2 \<le> int (length xs) * (int (length xs) + 1)"
    using assms(1) by (intro mult_mono) (auto simp: Suc_le_eq)
  ultimately show ?thesis by linarith
qed

lemma weighted_spacing_bounds:
  assumes "spacing_ok params" "ws \<noteq> []" "length ws \<le> 600"
  shows "1 \<le> weigh 1 (map (spacing_at params) ws) \<and> weigh 1 (map (spacing_at params) ws) \<le> 180300000"
proof -
  have o: "1 \<le> weigh 1 (map (\<lambda>_. 1) (map (spacing_at params) ws))" "weigh 1 (map (\<lambda>_. 1) (map (spacing_at params) ws)) \<le> 180300"
    using weigh_ones_bounds [of "map (spacing_at params) ws"] assms by auto
  have "1 \<le> x \<and> x \<le> 1000" if "x \<in> set (map (spacing_at params) ws)" for x
    using that assms(1) by (auto simp: spacing_ok_def spacing_at_def simp flip: zless_iff_Suc_zadd) (metis int_one_le_iff_zero_less)
  from weigh_bounds [of "map (spacing_at params) ws", OF this, of 1] o show ?thesis by linarith
qed

lemma weighted_time_bounds:
  assumes "spacing_ok params" "ws \<noteq> []" "length ws \<le> 600"
  shows "max 1 (weigh 1 (map (solve_time params) ws)) < 2 ^ 32"
proof -
  have o: "1 \<le> weigh 1 (map (\<lambda>_. 1) (map (solve_time params) ws))" "weigh 1 (map (\<lambda>_. 1) (map (solve_time params) ws)) \<le> 180300"
    using weigh_ones_bounds [of "map (solve_time params) ws"] assms by auto
  have "- 6000 \<le> solve_time params y \<and> solve_time params y \<le> 6000" for y
  proof -
    have t: "0 < spacing_at params y" "spacing_at params y \<le> 1000" using assms(1) by (auto simp: spacing_ok_def spacing_at_def)
    show ?thesis
      using clamp_bounds [of "-6 * spacing_at params y" "6 * spacing_at params y" "GetBlockTime (fst y) - GetBlockTime (snd y)"] t
      unfolding solve_time_def by linarith
  qed
  then have "- 6000 \<le> x \<and> x \<le> 6000" if "x \<in> set (map (solve_time params) ws)" for x
    using that by auto
  from weigh_bounds [of "map (solve_time params) ws", OF this, of 1] o show ?thesis by simp
qed

lemma unat_of_int: "0 \<le> x \<Longrightarrow> x < 2 ^ LENGTH('a) \<Longrightarrow> unat (word_of_int x :: 'a::len word) = nat x"
  by (simp add: unat_eq_nat_uint uint_word_of_int_eq take_bit_int_eq_self)

lemma GetCompact_total: "length a = WIDTH256 \<Longrightarrow> \<exists>c. GetCompact a False = Some c"
  using compact_number_GetCompact [of a] by blast

lemma GetNextWorkRequired_value:
  assumes wf: "wf_tree m" "m p = Some b" and ok: "pow_params_ok params" "spacing_ok params"
    and h: "nPowAveragingWindow params \<le> nHeight b"
  shows "\<exists>a c. length a = WIDTH256 \<and>
    uval a = min (uval (UintToArith256 (powLimit params)))
               (lwma_target params (lwma_window m (nat (nPowAveragingWindow params)) p)) \<and>
    GetCompact a False = Some c \<and> GetNextWorkRequired m (Some p) hdr params = Some (c, set_bits c hdr)"
proof -
  define N where "N = nPowAveragingWindow params"
  define ws where "ws = lwma_window m (nat N) p"
  define W where "W = max 1 (weigh 1 (map (solve_time params) ws))"
  define K where "K = weigh 1 (map (spacing_at params) ws)"
  have N: "0 < N" "N \<le> 600" using ok by (auto simp: pow_params_ok_def N_def)
  have ws: "length ws = nat N" "ws \<noteq> []" "length ws \<le> 600"
    using length_lwma_window_full [OF wf, of "nat N"] N h by (auto simp: ws_def N_def)
  have W: "1 \<le> W" "W < 2 ^ 32" using weighted_time_bounds [OF ok(2) ws(2,3)] by (auto simp: W_def)
  have K: "1 \<le> K" "K < 2 ^ 64" using weighted_spacing_bounds [OF ok(2) ws(2,3)] by (auto simp: K_def)
  obtain s where s: "lwma_loop m params (nat N) 1 p (arith_of_u64 0, 0, 0) =
      Some (s, weigh 1 (map (solve_time params) ws), K)" "length s = WIDTH256"
      "uval s = sum_list (map target_at ws) mod 2 ^ 256"
    using lwma_loop_sums [OF wf(1) _ wf(2), of params "arith_of_u64 0" 1 "nat N" 0 0] ok(2) N
    by (auto simp: spacing_ok_def ws_def K_def width_simps uval_of_u64)
  obtain avg where avg: "base_uint_div s (arith_of_u64 (word_of_int N)) = Inr avg" "length avg = WIDTH256"
      "uval avg = uval s div nat N"
    using base_uint_div_correct [of s "arith_of_u64 (word_of_int N)"] s(2) N
    by (auto simp: width_simps uval_of_u64 unat_of_int)
  let ?x = "base_uint_mul_u32 avg (word_of_int W)"
  have x: "length ?x = WIDTH256" "uval ?x = (uval avg * nat W) mod 2 ^ 256"
    using avg(2) W by (auto simp: width_simps uval_simps unat_of_int LIMB_WIDTH256 simp del: power_numeral)
  obtain t where t: "base_uint_div ?x (arith_of_u64 (word_of_int K)) = Inr t" "length t = WIDTH256"
      "uval t = uval ?x div nat K"
    using base_uint_div_correct [of ?x "arith_of_u64 (word_of_int K)"] x(1) K
    by (auto simp: width_simps uval_of_u64 unat_of_int)
  let ?L = "UintToArith256 (powLimit params)"
  define a where "a = (if CompareTo t ?L > 0 then ?L else t)"
  have tv: "uval t = lwma_target params ws"
    unfolding lwma_target_def N_def [symmetric] W_def [symmetric] K_def [symmetric] t(3) x(2) avg(3) s(3) ..
  have a: "length a = WIDTH256" "uval a = min (uval ?L) (lwma_target params ws)"
    using t(2) CompareTo_gt [of t ?L] by (auto simp: a_def tv width_simps)
  obtain c where c: "GetCompact a False = Some c" using GetCompact_total [OF a(1)] by blast
  have "GetNextWorkRequired m (Some p) hdr params = Some (c, set_bits c hdr)"
    using ok(1) wf(2) h s(1) avg(1) t(1) c
    by (simp add: GetNextWorkRequired_def DifficultyAdjustmentInterval_def pow_params_ok_def div_result_def
        W_def max_def a_def N_def not_less split: if_splits)
  with a c show ?thesis unfolding ws_def N_def by blast
qed

section \<open>The main network\<close>

lemma main_params [simp]:
  "nPowAveragingWindow (CMainParams g) = 60" "\<not> fPowNoRetargeting (CMainParams g)"
  by (simp_all add: CMainParams_def)

lemma main_pow_params_ok: "pow_params_ok (CMainParams g)"
  by (simp add: pow_params_ok_def)

lemma main_spacing_ok: "spacing_ok (CMainParams g)"
  unfolding spacing_ok_def
proof
  fix h show "0 < GetTargetSpacing (CMainParams g) h \<and> GetTargetSpacing (CMainParams g) h \<le> 1000"
    using main_spacing [of g h] by linarith
qed

lemma sum_targets_le: "(\<And>x. x \<in> set ws \<Longrightarrow> target_at x \<le> B) \<Longrightarrow> sum_list (map target_at ws) \<le> length ws * B"
  by (induction ws) (auto simp: add_mono)

text \<open>Without wrap-around in the sum and in the product the target is the exact average.\<close>

lemma lwma_target_exact:
  assumes "length ws = 60" "\<And>x. x \<in> set ws \<Longrightarrow> target_at x < 2 ^ 236"
    "weigh 1 (map (solve_time (CMainParams g)) ws) \<le> 2 ^ 20"
  shows "lwma_target (CMainParams g) ws =
    sum_list (map target_at ws) div 60 * nat (max 1 (weigh 1 (map (solve_time (CMainParams g)) ws)))
    div nat (weigh 1 (map (spacing_at (CMainParams g)) ws))"
proof -
  let ?S = "sum_list (map target_at ws)" and ?W = "nat (max 1 (weigh 1 (map (solve_time (CMainParams g)) ws)))"
  have "?S \<le> 60 * (2 ^ 236 - 1)"
    unfolding assms(1) [symmetric]
  proof (rule sum_targets_le)
    show "target_at x \<le> 2 ^ 236 - 1" if "x \<in> set ws" for x using assms(2) [OF that] by simp
  qed
  then have S: "?S < 2 ^ 256" "?S div 60 < 2 ^ 236" by simp_all
  have "?W \<le> 2 ^ 20" using assms(3) by simp
  then have "?S div 60 * ?W < 2 ^ 236 * 2 ^ 20"
    using S(2) by (meson le_less_trans mult_le_mono2 mult_less_mono1 zero_less_numeral zero_less_power)
  then have "?S div 60 * ?W < 2 ^ 256" by simp
  with S(1) show ?thesis by (simp add: lwma_target_def)
qed

lemma weigh_uniform:
  assumes "\<And>x. x \<in> set ws \<Longrightarrow> f x = c"
  shows "weigh i (map f ws) = c * weigh i (map (\<lambda>_. 1) ws)"
proof -
  have eq: "map f ws = map (\<lambda>_. c) ws" using assms by simp
  show ?thesis unfolding eq by (rule weigh_const)
qed

lemma weigh_ones_60: "length ws = 60 \<Longrightarrow> weigh 1 (map (\<lambda>_. 1) ws) = 1830"
  using weigh_ones [of 1 ws] by simp

lemma sum_targets_uniform: "(\<And>x. x \<in> set ws \<Longrightarrow> target_at x = t) \<Longrightarrow> sum_list (map target_at ws) = length ws * t"
  by (induction ws) auto

lemma main_weighted_spacing:
  assumes "length ws = 60"
  shows "1 \<le> weigh 1 (map (spacing_at (CMainParams g)) ws) \<and> weigh 1 (map (spacing_at (CMainParams g)) ws) \<le> 219600"
proof -
  have "45 \<le> x \<and> x \<le> 120" if "x \<in> set (map (spacing_at (CMainParams g)) ws)" for x
    using that main_spacing [of g] by (auto simp: spacing_at_def)
  from weigh_bounds [of "map (spacing_at (CMainParams g)) ws", OF this, of 1] weigh_ones_60 [of "map (spacing_at (CMainParams g)) ws"] assms
  show ?thesis by simp
qed

text \<open>Blocks on schedule at one difficulty keep it.\<close>

lemma lwma_target_steady:
  assumes "length ws = 60" "\<And>x. x \<in> set ws \<Longrightarrow> target_at x = t" "t < 2 ^ 236"
    "\<And>x. x \<in> set ws \<Longrightarrow> solve_time (CMainParams g) x = spacing_at (CMainParams g) x"
  shows "lwma_target (CMainParams g) ws = t"
proof -
  have e: "map (solve_time (CMainParams g)) ws = map (spacing_at (CMainParams g)) ws" using assms(4) by simp
  note K = main_weighted_spacing [OF assms(1), of g]
  have "lwma_target (CMainParams g) ws = sum_list (map target_at ws) div 60 *
      nat (max 1 (weigh 1 (map (solve_time (CMainParams g)) ws))) div nat (weigh 1 (map (spacing_at (CMainParams g)) ws))"
    using assms K by (intro lwma_target_exact) (auto simp: e)
  also have "sum_list (map target_at ws) div 60 = t"
    using sum_targets_uniform [of ws t] assms(1,2) by simp
  finally show ?thesis using K by (simp add: e max_def)
qed

lemma GetNextWorkRequired_steady:
  assumes "wf_tree m" "m p = Some b" "60 \<le> nHeight b"
    and c: "GetCompact (cr_value (SetCompact c)) False = Some c" "uval (cr_value (SetCompact c)) < 2 ^ 236"
    and win: "\<And>x. x \<in> set (lwma_window m 60 p) \<Longrightarrow> nBits (fst x) = c \<and>
      GetBlockTime (fst x) - GetBlockTime (snd x) = GetTargetSpacing (CMainParams g) (nHeight (fst x))"
  shows "GetNextWorkRequired m (Some p) hdr (CMainParams g) = Some (c, set_bits c hdr)"
proof -
  let ?ws = "lwma_window m 60 p" and ?t = "uval (cr_value (SetCompact c))"
  have len: "length ?ws = 60" using length_lwma_window_full [OF assms(1,2), of 60] assms(3) by simp
  have pos: "\<not> GetTargetSpacing (CMainParams g) h < 0" for h using main_spacing [of g h] by linarith
  have "lwma_target (CMainParams g) ?ws = ?t"
    using len c(2) win pos by (intro lwma_target_steady) (auto simp: target_at_def solve_time_def spacing_at_def clamp_def)
  moreover have "?t \<le> uval (UintToArith256 (powLimit (CMainParams g)))"
    using c(2) by (simp add: main_powLimit_value)
  moreover obtain a c' where a: "length a = WIDTH256"
      "uval a = min (uval (UintToArith256 (powLimit (CMainParams g)))) (lwma_target (CMainParams g) ?ws)"
      "GetCompact a False = Some c'" "GetNextWorkRequired m (Some p) hdr (CMainParams g) = Some (c', set_bits c' hdr)"
    using GetNextWorkRequired_value [OF assms(1,2) main_pow_params_ok main_spacing_ok, of g hdr] assms(3) by auto
  ultimately have "uval a = ?t" by simp
  then have "a = cr_value (SetCompact c)" using a(1) length_SetCompact [of c] by (intro uval_inject) auto
  with a c show ?thesis by simp
qed

section \<open>Evenly paced chains\<close>

text \<open>
  Sixty-one blocks at the easiest target of the main network, each found \<open>s\<close> seconds after the one
  before, where 120 are intended.
\<close>

definition paced_block :: "nat \<Rightarrow> nat \<Rightarrow> CBlockIndex" where
  "paced_block s i =
     (CBlockIndex_of_header CBlockHeader_SetNull)
       \<lparr>phashBlock := Some [word_of_nat i], pprev := (if i = 0 then None else Some [word_of_nat (i - 1)]),
        nHeight := int i, nTime := word_of_nat (s * i), nBits := 0x1e0fffff\<rparr>"

definition paced_index :: "nat \<Rightarrow> BlockMap" where
  "paced_index s p = (case p of [w] \<Rightarrow> if unat w \<le> 60 then Some (paced_block s (unat w)) else None | _ \<Rightarrow> None)"

lemma paced_block_sel [simp]:
  "pprev (paced_block s i) = (if i = 0 then None else Some [word_of_nat (i - 1)])" "nHeight (paced_block s i) = int i"
  "nTime (paced_block s i) = word_of_nat (s * i)" "nBits (paced_block s i) = 0x1e0fffff"
  by (simp_all add: paced_block_def)

lemma paced_index_at: "i \<le> 60 \<Longrightarrow> paced_index s [word_of_nat i] = Some (paced_block s i)"
  by (simp add: paced_index_def unat_of_nat)

lemma paced_indexD: "paced_index s p = Some b \<Longrightarrow> \<exists>i \<le> 60. b = paced_block s i"
  by (auto simp: paced_index_def split: list.splits if_splits)

lemma paced_index_wf: "wf_tree (paced_index s)"
  unfolding wf_tree_def
proof (intro allI impI)
  fix p b assume "paced_index s p = Some b"
  then obtain i where i: "i \<le> 60" "b = paced_block s i" using paced_indexD by blast
  then show "case pprev b of None \<Rightarrow> nHeight b = 0
      | Some q \<Rightarrow> \<exists>c. paced_index s q = Some c \<and> nHeight b = nHeight c + 1 \<and> 0 \<le> nHeight c"
    using paced_index_at [of "i - 1"] by (cases i) auto
qed

lemma window_elem:
  "(b, c) \<in> set (lwma_window m n p) \<Longrightarrow> \<exists>q r. m q = Some b \<and> pprev b = Some r \<and> m r = Some c"
proof (induction n arbitrary: p)
  case (Suc n)
  obtain b' where b': "m p = Some b'" using Suc.prems by (cases "m p") auto
  obtain q where q: "pprev b' = Some q" using Suc.prems b' by (cases "pprev b'") auto
  obtain c' where c': "m q = Some c'" using Suc.prems b' q by (cases "m q") auto
  have "(b, c) = (b', c') \<or> (b, c) \<in> set (lwma_window m n q)" using Suc.prems b' q c' by simp
  with Suc.IH [of q] b' q c' show ?case by blast
qed simp

lemma paced_window:
  assumes "(b, c) \<in> set (lwma_window (paced_index s) n p)"
  shows "\<exists>i. i < 60 \<and> b = paced_block s (Suc i) \<and> c = paced_block s i"
proof -
  obtain q r where q: "paced_index s q = Some b" "pprev b = Some r" "paced_index s r = Some c"
    using window_elem [OF assms] by blast
  obtain i where i: "i \<le> 60" "b = paced_block s i" using paced_indexD [OF q(1)] by blast
  then obtain j where j: "i = Suc j" using q(2) by (cases i) auto
  then have "c = paced_block s j" using q i paced_index_at [of j] by simp
  with i j show ?thesis by (intro exI [of _ j]) simp
qed

lemma paced_target: "uval (cr_value (SetCompact 0x1e0fffff)) = (2 ^ 20 - 1) * 2 ^ 216"
  by (simp add: uval_SetCompact compact_number_def compact_size_def compact_mantissa_def)

lemma paced_times:
  assumes "x \<in> set (lwma_window (paced_index s) n p)" "s \<le> 720"
  shows "target_at x = (2 ^ 20 - 1) * 2 ^ 216" "spacing_at (CMainParams g) x = 120"
    "solve_time (CMainParams g) x = int s" "nBits (fst x) = 0x1e0fffff"
    "GetBlockTime (fst x) - GetBlockTime (snd x) = int s"
proof -
  obtain i where i: "i < 60" "x = (paced_block s (Suc i), paced_block s i)"
    using paced_window [of "fst x" "snd x" s n p] assms(1) by (auto simp: prod_eq_iff)
  have T: "spacing_at (CMainParams g) x = 120" using i main_spacing_start [of "int (Suc i)" g] by (simp add: spacing_at_def)
  have t: "GetBlockTime (paced_block s j) = int (s * j)" if "j \<le> 60" for j
  proof -
    have "s * j \<le> 720 * 60" using assms(2) that by (rule mult_le_mono)
    then show ?thesis by (simp add: GetBlockTime_def unsigned_of_nat take_bit_nat_eq_self del: of_nat_mult)
  qed
  show d: "GetBlockTime (fst x) - GetBlockTime (snd x) = int s"
    using i t [of i] t [of "Suc i"] by (simp add: algebra_simps)
  show "spacing_at (CMainParams g) x = 120" by (rule T)
  show "target_at x = (2 ^ 20 - 1) * 2 ^ 216" "nBits (fst x) = 0x1e0fffff"
    using paced_target i by (simp_all add: target_at_def)
  show "solve_time (CMainParams g) x = int s" using T d assms(2) by (simp add: solve_time_def clamp_def)
qed

lemma length_paced_window: "length (lwma_window (paced_index s) 60 [60]) = 60"
  using length_lwma_window_full [OF paced_index_wf paced_index_at [of 60], of 60] by simp

lemma paced_sums:
  assumes "s \<le> 720" "ws = lwma_window (paced_index s) 60 [60]"
  shows "sum_list (map target_at ws) = 60 * ((2 ^ 20 - 1) * 2 ^ 216)"
    "weigh 1 (map (solve_time (CMainParams g)) ws) = int s * 1830"
    "weigh 1 (map (spacing_at (CMainParams g)) ws) = 219600"
proof -
  have len: "length ws = 60" using assms(2) length_paced_window by simp
  note pt = paced_times [OF _ assms(1), of _ 60 "[60]", folded assms(2)]
  show "sum_list (map target_at ws) = 60 * ((2 ^ 20 - 1) * 2 ^ 216)"
    using sum_targets_uniform [of ws, OF pt(1)] len by simp
  show "weigh 1 (map (solve_time (CMainParams g)) ws) = int s * 1830"
    using weigh_uniform [of ws, OF pt(3)] weigh_ones_60 [OF len] by simp
  show "weigh 1 (map (spacing_at (CMainParams g)) ws) = 219600"
    using weigh_uniform [of ws, OF pt(2)] weigh_ones_60 [OF len] by simp
qed

lemma slow_lwma: "lwma_target (CMainParams g) (lwma_window (paced_index 573) 60 [60]) = 13631474 * 2 ^ 216 div 219600"
  using paced_sums [of 573, OF _ refl] by (simp add: lwma_target_def)

section \<open>Compact targets\<close>

lemma GetCompact_decode:
  assumes "length a = WIDTH256" "GetCompact a False = Some c"
  shows "\<not> cr_negative (SetCompact c) \<and> \<not> cr_overflow (SetCompact c) \<and> uval (cr_value (SetCompact c)) \<le> uval a"
  using compact_number_GetCompact [OF assms(1)] assms(2) by (metis div_times_less_eq_dividend option.inject)

definition valid_target :: "u32 \<Rightarrow> bool" where
  "valid_target c \<longleftrightarrow> \<not> cr_negative (SetCompact c) \<and> 0 < compact_number c \<and> compact_number c < 2 ^ 256"

lemma target_zero_iff: "EqualTo (cr_value (SetCompact c)) 0 \<longleftrightarrow> compact_number c mod 2 ^ 256 = 0"
  using EqualTo_iff [of "cr_value (SetCompact c)" 0] length_SetCompact [of c] uval_SetCompact [of c] by simp

lemma valid_target_iff:
  "valid_target c \<longleftrightarrow> \<not> (cr_negative (SetCompact c) \<or> EqualTo (cr_value (SetCompact c)) 0 \<or> cr_overflow (SetCompact c))"
  using SetCompact_overflow_iff [of c] by (auto simp: valid_target_def target_zero_iff simp del: power_numeral)

lemma valid_target_value: "valid_target c \<Longrightarrow> uval (cr_value (SetCompact c)) = compact_number c"
  by (simp add: valid_target_def uval_SetCompact)


lemma CheckProofOfWork_iff:
  "CheckProofOfWork hash c params \<longleftrightarrow> valid_target c \<and> uval (UintToArith256 hash) \<le> compact_number c"
  using CompareTo_gt [of "UintToArith256 hash" "cr_value (SetCompact c)"] length_SetCompact [of c] valid_target_value [of c]
  by (auto simp: CheckProofOfWork_def Let_def valid_target_iff width_simps)

lemma DeriveTarget_iff:
  "DeriveTarget c limit = Some t \<longleftrightarrow>
     valid_target c \<and> compact_number c \<le> uval (UintToArith256 limit) \<and> t = cr_value (SetCompact c)"
  using CompareTo_gt [of "cr_value (SetCompact c)" "UintToArith256 limit"] length_SetCompact [of c] valid_target_value [of c]
  by (auto simp: DeriveTarget_def Let_def valid_target_iff width_simps)

lemma PermittedDifficultyTransition_iff:
  assumes "1 \<le> height"
  shows "PermittedDifficultyTransition params height c d \<longleftrightarrow>
    \<not> cr_negative (SetCompact c) \<and> \<not> cr_negative (SetCompact d) \<and>
    compact_number c mod 2 ^ 256 \<noteq> 0 \<and> compact_number d mod 2 ^ 256 \<noteq> 0 \<and>
    compact_number d mod 2 ^ 256 \<le> (compact_number c * 4) mod 2 ^ 256 \<and>
    compact_number c mod 2 ^ 256 \<le> (compact_number d * 4) mod 2 ^ 256"
proof -
  let ?a = "cr_value (SetCompact c)" and ?b = "cr_value (SetCompact d)"
  have len: "length (base_uint_mul_u32 ?a 4) = WIDTH256" "length (base_uint_mul_u32 ?b 4) = WIDTH256"
    by (simp_all add: width_simps length_SetCompact)
  have v: "uval (base_uint_mul_u32 ?a 4) = (compact_number c * 4) mod 2 ^ 256"
    "uval (base_uint_mul_u32 ?b 4) = (compact_number d * 4) mod 2 ^ 256"
    by (simp_all add: uval_simps length_SetCompact LIMB_WIDTH256 uval_SetCompact mod_mult_left_eq del: power_numeral)
  show ?thesis
    using assms CompareTo_gt [of ?b "base_uint_mul_u32 ?a 4"] CompareTo_gt [of ?a "base_uint_mul_u32 ?b 4"] len v
    by (auto simp: PermittedDifficultyTransition_def Let_def target_zero_iff uval_SetCompact length_SetCompact
        simp del: power_numeral)
qed

section \<open>Properties\<close>



text \<open>
  C11. Where the product does not wrap, the new target on the main network is the mean target
  of the last sixty blocks times the weighted sum of their solve times over the weighted sum of the
  spacings, cut at the limit. The weights of both sums are \<open>1\<close> for the newest block to \<open>60\<close> for the
  oldest, which is the reverse of the weights that \<^verbatim>\<open>doc/pow.md\<close> describes.
\<close>

theorem GetNextWorkRequired_is_lwma:
  assumes "wf_tree m" "m p = Some b" "60 \<le> nHeight b"
    "ws = lwma_window m 60 p" "\<forall>x \<in> set ws. target_at x < 2 ^ 236"
    "weigh 1 (map (solve_time (CMainParams g)) ws) \<le> 2 ^ 20"
  shows "\<exists>a c. GetNextWorkRequired m (Some p) hdr (CMainParams g) = Some (c, set_bits c hdr) \<and>
    GetCompact a False = Some c \<and> length a = WIDTH256 \<and>
    uval a = min (2 ^ 236 - 1)
      (sum_list (map target_at ws) div 60 * nat (max 1 (weigh 1 (map (solve_time (CMainParams g)) ws)))
       div nat (weigh 1 (map (spacing_at (CMainParams g)) ws)))"
proof -
  have "length ws = 60" using length_lwma_window_full [OF assms(1,2), of 60] assms(3,4) by simp
  then have "lwma_target (CMainParams g) ws =
      sum_list (map target_at ws) div 60 * nat (max 1 (weigh 1 (map (solve_time (CMainParams g)) ws)))
      div nat (weigh 1 (map (spacing_at (CMainParams g)) ws))"
    using assms(5,6) by (intro lwma_target_exact) auto
  with GetNextWorkRequired_value [OF assms(1,2) main_pow_params_ok [of g] main_spacing_ok, of hdr] assms(3,4)
  show ?thesis by (auto simp: main_powLimit_value simp del: power_numeral)
qed

theorem GetNextWorkRequired_is_lwma_witness:
  "\<exists>a c. GetNextWorkRequired (paced_index 240) (Some [60]) None (CMainParams uint256_zero) = Some (c, None) \<and>
     GetCompact a False = Some c \<and> uval a = 2 ^ 236 - 1"
proof -
  let ?ws = "lwma_window (paced_index 240) 60 [60]"
  note sums = paced_sums(1) [of 240, OF _ refl] paced_sums(2,3) [of 240, OF _ refl, of uint256_zero]
  have "\<forall>x \<in> set ?ws. target_at x < 2 ^ 236" using paced_times(1) [of _ 240 60 "[60]"] by simp
  moreover have "weigh 1 (map (solve_time (CMainParams uint256_zero)) ?ws) \<le> 2 ^ 20" using sums by simp
  moreover have "paced_index 240 [60] = Some (paced_block 240 60)" "60 \<le> nHeight (paced_block 240 60)"
    using paced_index_at [of 60 240] by simp_all
  ultimately show ?thesis
    using GetNextWorkRequired_is_lwma [OF paced_index_wf [of 240] _ _ refl, of "[60]" _ uint256_zero None] sums
    by (auto simp: set_bits_def)
qed

text \<open>
  On the main network, blocks that all have the same target and each come exactly on schedule
  leave the target as it is.
\<close>

theorem difficulty_steady_state:
  assumes "wf_tree m" "m p = Some b" "60 \<le> nHeight b"
    "GetCompact (cr_value (SetCompact c)) False = Some c" "uval (cr_value (SetCompact c)) < 2 ^ 236"
    "\<forall>x \<in> set (lwma_window m 60 p). nBits (fst x) = c \<and>
       GetBlockTime (fst x) - GetBlockTime (snd x) = GetTargetSpacing (CMainParams g) (nHeight (fst x))"
  shows "GetNextWorkRequired m (Some p) hdr (CMainParams g) = Some (c, set_bits c hdr)"
  using GetNextWorkRequired_steady [OF assms(1-5)] assms(6) by blast

theorem difficulty_steady_state_witness:
  "GetNextWorkRequired (paced_index 120) (Some [60]) None (CMainParams uint256_zero) = Some (0x1e0fffff, None)"
proof -
  let ?a = "cr_value (SetCompact 0x1e0fffff)"
  have canonical: "GetCompact ?a False = Some 0x1e0fffff"
  proof -
    have "uval ?a = (2 ^ 20 - 1) * 256 ^ 27" by (simp add: paced_target)
    then have "norm_mantissa ?a = 2 ^ 20 - 1 \<and> norm_size ?a = 27 + 3" by (rule norm_parts_unique) simp_all
    with GetCompact_parts [OF length_SetCompact, of "0x1e0fffff"] show ?thesis
      by (auto simp: word_unat_eq_iff)
  qed
  have "GetNextWorkRequired (paced_index 120) (Some [60]) None (CMainParams uint256_zero) = Some (0x1e0fffff, set_bits 0x1e0fffff None)"
  proof (rule difficulty_steady_state [OF paced_index_wf, of 120 "[60]" "paced_block 120 60"])
    show "\<forall>x \<in> set (lwma_window (paced_index 120) 60 [60]). nBits (fst x) = 0x1e0fffff \<and>
       GetBlockTime (fst x) - GetBlockTime (snd x) = GetTargetSpacing (CMainParams uint256_zero) (nHeight (fst x))"
      using paced_times(2) [of _ 120 60 "[60]" uint256_zero] paced_times(4,5) [of _ 120 60 "[60]"] by (simp add: spacing_at_def)
    show "uval (cr_value (SetCompact 0x1e0fffff)) < 2 ^ 236" by (simp add: paced_target)
  qed (use paced_index_at [of 60 120] canonical in simp_all)
  then show ?thesis by (simp add: set_bits_def)
qed

text \<open>
  C33. The product of the average target and the weighted solve times can exceed 256 bits on the
  main network while the spacing is above 95 seconds. Sixty blocks at the easiest target that each
  took 573 seconds where 120 are intended make the next block more than sixteen thousand times
  harder instead of easier, and header synchronisation refuses that step.
\<close>

theorem lwma_product_wraps:
  "\<exists>c. GetNextWorkRequired (paced_index 573) (Some [60]) None (CMainParams g) = Some (c, None) \<and>
     16000 * uval (cr_value (SetCompact c)) < uval (cr_value (SetCompact 0x1e0fffff)) \<and>
     \<not> PermittedDifficultyTransition (CMainParams g) 61 0x1e0fffff c \<and>
     list_all (\<lambda>x. solve_time (CMainParams g) x = 573 \<and> spacing_at (CMainParams g) x = 120)
       (lwma_window (paced_index 573) 60 [60])"
proof -
  obtain a c where a: "length a = WIDTH256" "uval a = 13631474 * 2 ^ 216 div 219600" "GetCompact a False = Some c"
      "GetNextWorkRequired (paced_index 573) (Some [60]) None (CMainParams g) = Some (c, set_bits c None)"
    using GetNextWorkRequired_value [OF paced_index_wf [of 573] paced_index_at [of 60] main_pow_params_ok [of g] main_spacing_ok, of None]
      slow_lwma [of g] by (auto simp: main_powLimit_value)
  have c: "\<not> cr_overflow (SetCompact c)" "uval (cr_value (SetCompact c)) \<le> 13631474 * 2 ^ 216 div 219600"
    using GetCompact_decode [OF a(1,3)] a(2) by auto
  then have small: "16000 * uval (cr_value (SetCompact c)) < (2 ^ 20 - 1) * 2 ^ 216" by simp
  have "compact_number c = uval (cr_value (SetCompact c))" using c(1) by (simp add: SetCompact_exact)
  moreover have "compact_number 0x1e0fffff = (2 ^ 20 - 1) * 2 ^ 216"
    by (simp add: compact_number_def compact_size_def compact_mantissa_def)
  ultimately have "\<not> PermittedDifficultyTransition (CMainParams g) 61 0x1e0fffff c"
    using small by (simp add: PermittedDifficultyTransition_iff)
  with a(4) small paced_target paced_times(2,3) [of _ 573 60 "[60]" g] show ?thesis
    by (auto simp: set_bits_def list_all_iff)
qed

text \<open>
  C34. A hash passes \<^verbatim>\<open>CheckProofOfWork\<close> exactly when the compact word is a positive target of
  at most 256 bits and the hash, as a number, is not above it; \<^verbatim>\<open>DeriveTarget\<close> accepts the same
  words as long as they are within the limit, and then gives that number.
\<close>

theorem proof_of_work_check:
  "(CheckProofOfWork hash c params \<longleftrightarrow> valid_target c \<and> uval (UintToArith256 hash) \<le> compact_number c) \<and>
   (DeriveTarget c limit = Some t \<longleftrightarrow>
      valid_target c \<and> compact_number c \<le> uval (UintToArith256 limit) \<and> t = cr_value (SetCompact c))"
  using CheckProofOfWork_iff DeriveTarget_iff by blast

section \<open>Deviations\<close>

text \<open>\<^verbatim>\<open>CheckProofOfWork\<close> accepts a target above the limit of the network.\<close>

lemma CheckProofOfWork_ignores_limit:
  "CheckProofOfWork hash 0x207fffff (CMainParams g) \<longleftrightarrow> uval (UintToArith256 hash) \<le> 0x7fffff * 2 ^ 232"
  "DeriveTarget 0x207fffff (powLimit (CMainParams g)) = None"
proof -
  have n: "compact_number 0x207fffff = 0x7fffff * 2 ^ 232"
    by (simp add: compact_number_def compact_size_def compact_mantissa_def)
  have v: "valid_target 0x207fffff" using n by (simp add: valid_target_def SetCompact_def Let_def)
  show "CheckProofOfWork hash 0x207fffff (CMainParams g) \<longleftrightarrow> uval (UintToArith256 hash) \<le> 0x7fffff * 2 ^ 232"
    using v n by (simp add: CheckProofOfWork_iff)
  have "DeriveTarget 0x207fffff (powLimit (CMainParams g)) \<noteq> Some t" for t
    using n by (simp add: DeriveTarget_iff main_powLimit_value)
  then show "DeriveTarget 0x207fffff (powLimit (CMainParams g)) = None" by blast
qed

text \<open>A target that overflows passes, and an unchanged easy target of a test network does not.\<close>

lemma transition_overflow_unchecked:
  "cr_overflow (SetCompact 0x22012301)" "PermittedDifficultyTransition params 7 0x22012301 0x22012301"
  "\<not> PermittedDifficultyTransition params 7 0x20400000 0x20400000"
proof -
  have n: "compact_number 0x22012301 = 0x12301 * 2 ^ 248" "compact_number 0x20400000 = 0x400000 * 2 ^ 232"
    by (simp_all add: compact_number_def compact_size_def compact_mantissa_def)
  show "cr_overflow (SetCompact 0x22012301)" "PermittedDifficultyTransition params 7 0x22012301 0x22012301"
    "\<not> PermittedDifficultyTransition params 7 0x20400000 0x20400000"
    using n by (simp_all add: PermittedDifficultyTransition_iff SetCompact_def Let_def)
qed

text \<open>With \<^verbatim>\<open>fPowNoRetargeting\<close> the null pointer is dereferenced.\<close>

lemma no_retargeting_null: "fPowNoRetargeting params \<Longrightarrow> GetNextWorkRequired m None hdr params = None"
  by (simp add: GetNextWorkRequired_def)

end
