(* ===== verification/VersionBits.thy ===== *)
theory VersionBits
  imports Chain Params "HOL-Library.Monad_Syntax" "HOL-Library.Signed_Division"
begin

unbundle bit_operations_syntax

text \<open>
  The BIP9 state machine of \<^verbatim>\<open>versionbits.cpp\<close> and \<^verbatim>\<open>versionbits_impl.h\<close>: the state of a
  deployment after a block, computed backwards to the last cached period and then forwards, with the
  cache threaded through; the height since which a state holds; the statistics of the current
  period; the version of a new block; and the queries of \<^verbatim>\<open>deploymentstatus.h\<close>.

  The virtual functions of \<^verbatim>\<open>AbstractThresholdConditionChecker\<close> are the fields of a record.
  A null dereference, a failed assertion or a period of zero is \<open>None\<close>.
\<close>

section \<open>Model\<close>

datatype ThresholdState = DEFINED | STARTED | LOCKED_IN | ACTIVE | FAILED

record ThresholdConditionChecker =
  Condition :: "CBlockIndex \<Rightarrow> bool"
  BeginTime :: int
  EndTime :: int
  MinActivationHeight :: int
  Period :: int
  Threshold :: int

type_synonym ThresholdConditionCache = "ptr option \<rightharpoonup> ThresholdState"

definition StateName :: "ThresholdState \<Rightarrow> string" where
  "StateName state =
     (case state of
        DEFINED \<Rightarrow> ''defined'' | STARTED \<Rightarrow> ''started'' | LOCKED_IN \<Rightarrow> ''locked_in''
      | ACTIVE \<Rightarrow> ''active'' | FAILED \<Rightarrow> ''failed'')"

subsection \<open>The state of a deployment\<close>

text \<open>The first loop; \<open>vToCompute\<close> has its back first.\<close>

partial_function (option) walk_back ::
  "BlockMap \<Rightarrow> ThresholdConditionChecker \<Rightarrow> ptr option \<Rightarrow> ptr list \<Rightarrow> ThresholdConditionCache \<Rightarrow>
   (ptr option \<times> ptr list \<times> ThresholdConditionCache) option" where
  "walk_back m chk pindexPrev vToCompute cache =
     (if cache pindexPrev \<noteq> None then Some (pindexPrev, vToCompute, cache)
      else case pindexPrev of
        None \<Rightarrow> Some (None, vToCompute, cache(None \<mapsto> DEFINED))
      | Some p \<Rightarrow>
          (case m p of
             None \<Rightarrow> None
           | Some b \<Rightarrow>
               if GetMedianTimePast m p < BeginTime chk
               then Some (Some p, vToCompute, cache(Some p \<mapsto> DEFINED))
               else (case GetAncestor m p (nHeight b - Period chk) of
                       None \<Rightarrow> None
                     | Some q \<Rightarrow> walk_back m chk q (p # vToCompute) cache)))"

fun count_loop :: "BlockMap \<Rightarrow> ThresholdConditionChecker \<Rightarrow> nat \<Rightarrow> ptr option \<Rightarrow> int \<Rightarrow> int option" where
  "count_loop m chk 0 pindexCount count = Some count"
| "count_loop m chk (Suc i) None count = None"
| "count_loop m chk (Suc i) (Some p) count =
     (case m p of
        None \<Rightarrow> None
      | Some b \<Rightarrow> count_loop m chk i (pprev b) (if Condition chk b then count + 1 else count))"

definition next_state ::
  "BlockMap \<Rightarrow> ThresholdConditionChecker \<Rightarrow> ptr \<Rightarrow> ThresholdState \<Rightarrow> ThresholdState option" where
  "next_state m chk p state =
     (case state of
        DEFINED \<Rightarrow> Some (if GetMedianTimePast m p \<ge> BeginTime chk then STARTED else DEFINED)
      | STARTED \<Rightarrow>
          map_option
            (\<lambda>count. if count \<ge> Threshold chk then LOCKED_IN
                     else if GetMedianTimePast m p \<ge> EndTime chk then FAILED else STARTED)
            (count_loop m chk (nat (Period chk)) (Some p) 0)
      | LOCKED_IN \<Rightarrow>
          map_option (\<lambda>b. if nHeight b + 1 \<ge> MinActivationHeight chk then ACTIVE else LOCKED_IN) (m p)
      | FAILED \<Rightarrow> Some FAILED
      | ACTIVE \<Rightarrow> Some ACTIVE)"

fun walk_forward ::
  "BlockMap \<Rightarrow> ThresholdConditionChecker \<Rightarrow> ptr list \<Rightarrow> ThresholdState \<Rightarrow> ThresholdConditionCache \<Rightarrow>
   (ThresholdState \<times> ThresholdConditionCache) option" where
  "walk_forward m chk [] state cache = Some (state, cache)"
| "walk_forward m chk (p # vToCompute) state cache =
     (case next_state m chk p state of
        None \<Rightarrow> None
      | Some stateNext \<Rightarrow> walk_forward m chk vToCompute stateNext (cache(Some p \<mapsto> stateNext)))"

text \<open>The last block of the period before the one the next block belongs to.\<close>

definition period_parent :: "BlockMap \<Rightarrow> int \<Rightarrow> ptr \<Rightarrow> ptr option option" where
  "period_parent m nPeriod p =
     (case m p of
        None \<Rightarrow> None
      | Some b \<Rightarrow> if nPeriod = 0 then None else GetAncestor m p (nHeight b - (nHeight b + 1) smod nPeriod))"

definition GetStateFor ::
  "BlockMap \<Rightarrow> ThresholdConditionChecker \<Rightarrow> ptr option \<Rightarrow> ThresholdConditionCache \<Rightarrow>
   (ThresholdState \<times> ThresholdConditionCache) option" where
  "GetStateFor m chk pindexPrev cache =
     (if BeginTime chk = ALWAYS_ACTIVE then Some (ACTIVE, cache)
      else if BeginTime chk = NEVER_ACTIVE then Some (FAILED, cache)
      else do {
        start \<leftarrow> (case pindexPrev of None \<Rightarrow> Some None | Some p \<Rightarrow> period_parent m (Period chk) p);
        (known, vToCompute, cache') \<leftarrow> walk_back m chk start [] cache;
        state \<leftarrow> cache' known;
        walk_forward m chk vToCompute state cache'
      })"

subsection \<open>Statistics and the height of a state\<close>

record BIP9Stats =
  st_period :: u32
  st_threshold :: u32
  st_elapsed :: u32
  st_count :: u32
  possible :: bool

text \<open>The loop over the current period: blocks elapsed, blocks that signal, and which.\<close>

fun stats_loop ::
  "BlockMap \<Rightarrow> ThresholdConditionChecker \<Rightarrow> nat \<Rightarrow> ptr option \<Rightarrow> int \<Rightarrow> int \<Rightarrow> bool list \<Rightarrow>
   (int \<times> int \<times> bool list) option" where
  "stats_loop m chk 0 pindex elapsed count signalling = Some (elapsed, count, signalling)"
| "stats_loop m chk (Suc n) None elapsed count signalling = None"
| "stats_loop m chk (Suc n) (Some p) elapsed count signalling =
     (case m p of
        None \<Rightarrow> None
      | Some b \<Rightarrow>
          stats_loop m chk n (pprev b) (elapsed + 1)
            (if Condition chk b then count + 1 else count)
            (if Condition chk b then signalling[n := True] else signalling))"

definition GetStateStatisticsFor ::
  "BlockMap \<Rightarrow> ThresholdConditionChecker \<Rightarrow> ptr option \<Rightarrow> (BIP9Stats \<times> bool list) option" where
  "GetStateStatisticsFor m chk pindex =
     (let stats = \<lparr>st_period = word_of_int (Period chk), st_threshold = word_of_int (Threshold chk),
                   st_elapsed = 0, st_count = 0, possible = False\<rparr>
      in case pindex of
           None \<Rightarrow> Some (stats, [])
         | Some p \<Rightarrow> do {
             b \<leftarrow> m p;
             (if st_period stats = 0 then None else Some ());
             let blocks_in_period = unat (1 + (word_of_int (nHeight b) :: u32) mod st_period stats);
             (elapsed, count, signalling) \<leftarrow>
               stats_loop m chk blocks_in_period pindex 0 0 (replicate blocks_in_period False);
             let stats' = stats\<lparr>st_elapsed := word_of_int elapsed, st_count := word_of_int count\<rparr>;
             Some (stats'\<lparr>possible :=
                     (st_period stats' - st_threshold stats' \<ge> st_elapsed stats' - word_of_int count)\<rparr>,
                   signalling)
           })"

partial_function (option) since_loop ::
  "BlockMap \<Rightarrow> ThresholdConditionChecker \<Rightarrow> ThresholdState \<Rightarrow> ptr \<Rightarrow> ptr option \<Rightarrow> ThresholdConditionCache \<Rightarrow>
   (int \<times> ThresholdConditionCache) option" where
  "since_loop m chk initialState pindexPrev previousPeriodParent cache =
     (case m pindexPrev of
        None \<Rightarrow> None
      | Some b \<Rightarrow>
          (case previousPeriodParent of
             None \<Rightarrow> Some (nHeight b + 1, cache)
           | Some q \<Rightarrow>
               (case GetStateFor m chk (Some q) cache of
                  None \<Rightarrow> None
                | Some (state, cache') \<Rightarrow>
                    if state = initialState
                    then (case m q of
                            None \<Rightarrow> None
                          | Some c \<Rightarrow>
                              (case GetAncestor m q (nHeight c - Period chk) of
                                 None \<Rightarrow> None
                               | Some r \<Rightarrow> since_loop m chk initialState q r cache'))
                    else Some (nHeight b + 1, cache'))))"

definition GetStateSinceHeightFor ::
  "BlockMap \<Rightarrow> ThresholdConditionChecker \<Rightarrow> ptr option \<Rightarrow> ThresholdConditionCache \<Rightarrow>
   (int \<times> ThresholdConditionCache) option" where
  "GetStateSinceHeightFor m chk pindexPrev cache =
     (if BeginTime chk = ALWAYS_ACTIVE \<or> BeginTime chk = NEVER_ACTIVE then Some (0, cache)
      else do {
        (initialState, cache') \<leftarrow> GetStateFor m chk pindexPrev cache;
        if initialState = DEFINED then Some (0, cache')
        else do {
          p \<leftarrow> pindexPrev;
          start \<leftarrow> period_parent m (Period chk) p;
          q \<leftarrow> start;
          c \<leftarrow> m q;
          previousPeriodParent \<leftarrow> GetAncestor m q (nHeight c - Period chk);
          since_loop m chk initialState q previousPeriodParent cache'
        }
      })"

subsection \<open>Version bits\<close>

definition VERSIONBITS_TOP_BITS :: int where
  "VERSIONBITS_TOP_BITS = 0x20000000"

definition VERSIONBITS_TOP_MASK :: int where
  "VERSIONBITS_TOP_MASK = -0x20000000"

definition Mask :: "BIP9Deployment \<Rightarrow> u32" where
  "Mask dep = push_bit (nat (dep_bit dep)) 1"

text \<open>The last conjunct compares an \<^verbatim>\<open>int32_t\<close> with the unsigned mask.\<close>

definition version_signals :: "BIP9Deployment \<Rightarrow> int \<Rightarrow> bool" where
  "version_signals dep ver \<longleftrightarrow>
     ver AND VERSIONBITS_TOP_MASK = VERSIONBITS_TOP_BITS \<and> (word_of_int ver :: u32) AND Mask dep \<noteq> 0"

definition VersionBitsConditionChecker :: "BIP9Deployment \<Rightarrow> ThresholdConditionChecker" where
  "VersionBitsConditionChecker dep =
     \<lparr>Condition = (\<lambda>b. version_signals dep (nVersion b)), BeginTime = nStartTime dep, EndTime = nTimeout dep,
      MinActivationHeight = min_activation_height dep, Period = sint (period dep), Threshold = sint (threshold dep)\<rparr>"

type_synonym DeploymentCaches = "DeploymentPos \<Rightarrow> ThresholdConditionCache"

definition checker_for :: "Params \<Rightarrow> DeploymentPos \<Rightarrow> ThresholdConditionChecker" where
  "checker_for params pos = VersionBitsConditionChecker (vDeployments params pos)"

fun version_loop ::
  "BlockMap \<Rightarrow> ptr option \<Rightarrow> Params \<Rightarrow> DeploymentPos list \<Rightarrow> u32 \<Rightarrow> DeploymentCaches \<Rightarrow>
   (u32 \<times> DeploymentCaches) option" where
  "version_loop m pindexPrev params [] ver caches = Some (ver, caches)"
| "version_loop m pindexPrev params (pos # rest) ver caches =
     (case GetStateFor m (checker_for params pos) pindexPrev (caches pos) of
        None \<Rightarrow> None
      | Some (state, cache) \<Rightarrow>
          version_loop m pindexPrev params rest
            (if state = LOCKED_IN \<or> state = STARTED then ver OR Mask (vDeployments params pos) else ver)
            (caches(pos := cache)))"

definition ComputeBlockVersion ::
  "BlockMap \<Rightarrow> ptr option \<Rightarrow> Params \<Rightarrow> DeploymentCaches \<Rightarrow> (int \<times> DeploymentCaches) option" where
  "ComputeBlockVersion m pindexPrev params caches =
     map_option (\<lambda>(ver, caches'). (sint ver, caches'))
       (version_loop m pindexPrev params [DEPLOYMENT_TESTDUMMY, DEPLOYMENT_TAPROOT]
          (word_of_int VERSIONBITS_TOP_BITS) caches)"

definition IsActiveAfter ::
  "BlockMap \<Rightarrow> ptr option \<Rightarrow> Params \<Rightarrow> DeploymentPos \<Rightarrow> DeploymentCaches \<Rightarrow> (bool \<times> DeploymentCaches) option" where
  "IsActiveAfter m pindexPrev params pos caches =
     map_option (\<lambda>(state, cache). (state = ACTIVE, caches(pos := cache)))
       (GetStateFor m (checker_for params pos) pindexPrev (caches pos))"

definition VersionBitsCache_Clear :: "DeploymentCaches \<Rightarrow> DeploymentCaches" where
  "VersionBitsCache_Clear caches = (\<lambda>pos. Map.empty)"

record BIP9Info =
  since :: int
  current_state :: string
  next_state_name :: string
  info_stats :: "BIP9Stats option"
  signalling_blocks :: "bool list"
  active_since :: "int option"

definition Info ::
  "BlockMap \<Rightarrow> ptr \<Rightarrow> Params \<Rightarrow> DeploymentPos \<Rightarrow> DeploymentCaches \<Rightarrow> (BIP9Info \<times> DeploymentCaches) option" where
  "Info m block_index params pos caches =
     (let chk = checker_for params pos in do {
        b \<leftarrow> m block_index;
        (current, cache1) \<leftarrow> GetStateFor m chk (pprev b) (caches pos);
        (next, cache2) \<leftarrow> GetStateFor m chk (Some block_index) cache1;
        (since_height, cache3) \<leftarrow> GetStateSinceHeightFor m chk (pprev b) cache2;
        (stats, signalling) \<leftarrow>
          (if current = STARTED \<or> current = LOCKED_IN
           then map_option
                  (\<lambda>(s, sig). (Some (if current = LOCKED_IN then s\<lparr>st_threshold := 0, possible := False\<rparr> else s), sig))
                  (GetStateStatisticsFor m chk (Some block_index))
           else Some (None, []));
        Some (\<lparr>since = since_height, current_state = StateName current, next_state_name = StateName next,
               info_stats = stats, signalling_blocks = signalling,
               active_since = (if current = ACTIVE then Some since_height
                               else if next = ACTIVE then Some (nHeight b + 1) else None)\<rparr>,
              caches(pos := cache3))
      })"

text \<open>The table of \<^verbatim>\<open>deploymentinfo.cpp\<close> and what \<^verbatim>\<open>getblocktemplate\<close> reports from it.\<close>

record VBDeploymentInfo =
  vb_name :: string
  gbt_optional_rule :: bool

definition VersionBitsDeploymentInfo :: "DeploymentPos \<Rightarrow> VBDeploymentInfo" where
  "VersionBitsDeploymentInfo pos =
     (case pos of
        DEPLOYMENT_TESTDUMMY \<Rightarrow> \<lparr>vb_name = ''testdummy'', gbt_optional_rule = True\<rparr>
      | DEPLOYMENT_TAPROOT \<Rightarrow> \<lparr>vb_name = ''taproot'', gbt_optional_rule = True\<rparr>)"

definition DeploymentName_buried :: "BuriedDeployment \<Rightarrow> string" where
  "DeploymentName_buried dep =
     (case dep of
        DEPLOYMENT_HEIGHTINCB \<Rightarrow> ''bip34'' | DEPLOYMENT_CLTV \<Rightarrow> ''bip65'' | DEPLOYMENT_DERSIG \<Rightarrow> ''bip66''
      | DEPLOYMENT_CSV \<Rightarrow> ''csv'' | DEPLOYMENT_SEGWIT \<Rightarrow> ''segwit'')"

definition DeploymentName :: "DeploymentPos \<Rightarrow> string" where
  "DeploymentName pos = vb_name (VersionBitsDeploymentInfo pos)"

definition GetBuriedDeployment :: "string \<Rightarrow> BuriedDeployment option" where
  "GetBuriedDeployment name =
     (if name = ''segwit'' then Some DEPLOYMENT_SEGWIT
      else if name = ''bip34'' then Some DEPLOYMENT_HEIGHTINCB
      else if name = ''dersig'' then Some DEPLOYMENT_DERSIG
      else if name = ''cltv'' then Some DEPLOYMENT_CLTV
      else if name = ''csv'' then Some DEPLOYMENT_CSV
      else None)"

record GBTInfo =
  gbt_bit :: int
  gbt_mask :: u32
  gbt_optional :: bool

record BIP9GBTStatus =
  gbt_signalling :: "string \<rightharpoonup> GBTInfo"
  gbt_locked_in :: "string \<rightharpoonup> GBTInfo"
  gbt_active :: "string \<rightharpoonup> GBTInfo"

definition try_emplace :: "'k \<Rightarrow> 'v \<Rightarrow> ('k \<rightharpoonup> 'v) \<Rightarrow> 'k \<rightharpoonup> 'v" where
  "try_emplace k v t = (if t k = None then t(k \<mapsto> v) else t)"

fun gbt_loop ::
  "BlockMap \<Rightarrow> ptr \<Rightarrow> Params \<Rightarrow> DeploymentPos list \<Rightarrow> BIP9GBTStatus \<Rightarrow> DeploymentCaches \<Rightarrow>
   (BIP9GBTStatus \<times> DeploymentCaches) option" where
  "gbt_loop m block_index params [] result caches = Some (result, caches)"
| "gbt_loop m block_index params (pos # rest) result caches =
     (case GetStateFor m (checker_for params pos) (Some block_index) (caches pos) of
        None \<Rightarrow> None
      | Some (state, cache) \<Rightarrow>
          (let vbdepinfo = VersionBitsDeploymentInfo pos;
               gbtinfo = \<lparr>gbt_bit = dep_bit (vDeployments params pos), gbt_mask = Mask (vDeployments params pos),
                          gbt_optional = gbt_optional_rule vbdepinfo\<rparr>;
               result' =
                 (case state of
                    DEFINED \<Rightarrow> result
                  | FAILED \<Rightarrow> result
                  | STARTED \<Rightarrow> result\<lparr>gbt_signalling := try_emplace (vb_name vbdepinfo) gbtinfo (gbt_signalling result)\<rparr>
                  | LOCKED_IN \<Rightarrow> result\<lparr>gbt_locked_in := try_emplace (vb_name vbdepinfo) gbtinfo (gbt_locked_in result)\<rparr>
                  | ACTIVE \<Rightarrow> result\<lparr>gbt_active := try_emplace (vb_name vbdepinfo) gbtinfo (gbt_active result)\<rparr>)
           in gbt_loop m block_index params rest result' (caches(pos := cache))))"

definition GBTStatus ::
  "BlockMap \<Rightarrow> ptr \<Rightarrow> Params \<Rightarrow> DeploymentCaches \<Rightarrow> (BIP9GBTStatus \<times> DeploymentCaches) option" where
  "GBTStatus m block_index params caches =
     gbt_loop m block_index params [DEPLOYMENT_TESTDUMMY, DEPLOYMENT_TAPROOT]
       \<lparr>gbt_signalling = Map.empty, gbt_locked_in = Map.empty, gbt_active = Map.empty\<rparr> caches"

subsection \<open>Deployment status\<close>

definition DeploymentActiveAfter_buried :: "BlockMap \<Rightarrow> ptr option \<Rightarrow> Params \<Rightarrow> BuriedDeployment \<Rightarrow> bool option" where
  "DeploymentActiveAfter_buried m pindexPrev params dep =
     (case pindexPrev of
        None \<Rightarrow> Some (0 \<ge> DeploymentHeight params dep)
      | Some p \<Rightarrow> map_option (\<lambda>b. nHeight b + 1 \<ge> DeploymentHeight params dep) (m p))"

definition DeploymentActiveAt_buried :: "CBlockIndex \<Rightarrow> Params \<Rightarrow> BuriedDeployment \<Rightarrow> bool" where
  "DeploymentActiveAt_buried index params dep \<longleftrightarrow> nHeight index \<ge> DeploymentHeight params dep"

definition DeploymentActiveAt ::
  "BlockMap \<Rightarrow> CBlockIndex \<Rightarrow> Params \<Rightarrow> DeploymentPos \<Rightarrow> DeploymentCaches \<Rightarrow> (bool \<times> DeploymentCaches) option" where
  "DeploymentActiveAt m index params dep caches = IsActiveAfter m (pprev index) params dep caches"

definition DeploymentEnabled_buried :: "Params \<Rightarrow> BuriedDeployment \<Rightarrow> bool" where
  "DeploymentEnabled_buried params dep \<longleftrightarrow> DeploymentHeight params dep \<noteq> INT32_MAX"

definition DeploymentEnabled :: "Params \<Rightarrow> DeploymentPos \<Rightarrow> bool" where
  "DeploymentEnabled params dep \<longleftrightarrow> nStartTime (vDeployments params dep) \<noteq> NEVER_ACTIVE"

section \<open>The reference state\<close>

text \<open>The blocks of a period that signal, and what a whole period does to the state.\<close>

definition signal_count :: "BlockMap \<Rightarrow> ThresholdConditionChecker \<Rightarrow> ptr \<Rightarrow> int" where
  "signal_count m chk p =
     int (length (filter (\<lambda>i. Condition chk (the (m (the (parent_n m i p))))) [0..<nat (Period chk)]))"

definition transition ::
  "BlockMap \<Rightarrow> ThresholdConditionChecker \<Rightarrow> ptr \<Rightarrow> ThresholdState \<Rightarrow> ThresholdState" where
  "transition m chk p state =
     (case state of
        DEFINED \<Rightarrow> if GetMedianTimePast m p \<ge> BeginTime chk then STARTED else DEFINED
      | STARTED \<Rightarrow> if signal_count m chk p \<ge> Threshold chk then LOCKED_IN
                   else if GetMedianTimePast m p \<ge> EndTime chk then FAILED else STARTED
      | LOCKED_IN \<Rightarrow> if nHeight (the (m p)) + 1 \<ge> MinActivationHeight chk then ACTIVE else LOCKED_IN
      | s \<Rightarrow> s)"

text \<open>The state after \<open>k\<close> whole periods of the branch of \<open>p\<close>: no cache and no shortcut.\<close>

fun state_after :: "BlockMap \<Rightarrow> ThresholdConditionChecker \<Rightarrow> ptr \<Rightarrow> nat \<Rightarrow> ThresholdState" where
  "state_after m chk p 0 = DEFINED"
| "state_after m chk p (Suc k) =
     transition m chk (the (ancestor_at m p ((int k + 1) * Period chk - 1))) (state_after m chk p k)"

definition periods :: "BlockMap \<Rightarrow> ThresholdConditionChecker \<Rightarrow> ptr \<Rightarrow> nat" where
  "periods m chk p = nat ((nHeight (the (m p)) + 1) div Period chk)"

lemma whole_periods_le:
  assumes "0 \<le> x" "0 < N"
  shows "int (nat (x div N)) * N \<le> (x :: int)"
proof -
  have "x div N * N \<le> x"
    using minus_mod_eq_div_mult [of x N] pos_mod_sign [OF assms(2), of x] by linarith
  then show ?thesis using assms by (simp add: pos_imp_zdiv_nonneg_iff)
qed

definition deployment_state :: "BlockMap \<Rightarrow> ThresholdConditionChecker \<Rightarrow> ptr option \<Rightarrow> ThresholdState" where
  "deployment_state m chk q =
     (case q of None \<Rightarrow> DEFINED | Some p \<Rightarrow> state_after m chk p (periods m chk p))"

definition period_end :: "BlockMap \<Rightarrow> ThresholdConditionChecker \<Rightarrow> ptr \<Rightarrow> bool" where
  "period_end m chk p \<longleftrightarrow> (\<exists>b. m p = Some b \<and> (nHeight b + 1) mod Period chk = 0)"

text \<open>What the cache may hold.\<close>

definition cache_sound :: "BlockMap \<Rightarrow> ThresholdConditionChecker \<Rightarrow> ThresholdConditionCache \<Rightarrow> bool" where
  "cache_sound m chk cache \<longleftrightarrow>
     (\<forall>q s. cache q = Some s \<longrightarrow> s = deployment_state m chk q \<and>
        (case q of None \<Rightarrow> True | Some p \<Rightarrow> period_end m chk p))"

lemma state_after_ancestor:
  assumes "wf_tree m" "ancestor_at m p h = Some q" "int k * Period chk \<le> h + 1" "0 < Period chk"
  shows "state_after m chk q k = state_after m chk p k"
  using assms(3)
proof (induction k)
  case (Suc k)
  have "(int k + 1) * Period chk - 1 \<le> h" using Suc.prems by (simp add: algebra_simps)
  then have "ancestor_at m q ((int k + 1) * Period chk - 1) = ancestor_at m p ((int k + 1) * Period chk - 1)"
    using ancestor_at_trans [OF assms(1,2)] by simp
  moreover have "int k * Period chk \<le> h + 1"
    using Suc.prems assms(4) by (simp add: algebra_simps)
  ultimately show ?case using Suc.IH by simp
qed simp

lemma count_loop_value:
  assumes "wf_tree m"
  shows "m p = Some b \<Longrightarrow> int n \<le> nHeight b + 1 \<Longrightarrow>
    count_loop m chk n (Some p) c =
      Some (c + int (length (filter (\<lambda>i. Condition chk (the (m (the (parent_n m i p))))) [0..<n])))"
proof (induction n arbitrary: p b c)
  case (Suc n)
  have up: "[0..<Suc n] = 0 # map Suc [0..<n]" by (simp add: map_Suc_upt upt_conv_Cons)
  show ?case
  proof (cases "pprev b")
    case None
    then have "n = 0" using wf_root [OF assms Suc.prems(1)] Suc.prems(2) by simp
    with Suc.prems show ?thesis by simp
  next
    case (Some q)
    then obtain d where d: "m q = Some d" "nHeight b = nHeight d + 1" using wf_child [OF assms Suc.prems(1)] by blast
    let ?f = "\<lambda>i p. Condition chk (the (m (the (parent_n m i p))))"
    have "?f (Suc i) p = ?f i q" for i using Suc.prems(1) Some by simp
    then have "length (filter (\<lambda>i. ?f i p) [0..<Suc n]) =
        (if Condition chk b then 1 else 0) + length (filter (\<lambda>i. ?f i q) [0..<n])"
      unfolding up using Suc.prems(1) Some by (simp add: filter_map comp_def)
    moreover have "count_loop m chk n (Some q) c' = Some (c' + int (length (filter (\<lambda>i. ?f i q) [0..<n])))" for c'
      using Suc.IH [OF d(1)] d(2) Suc.prems(2) by simp
    ultimately show ?thesis using Suc.prems(1) Some by (simp del: upt_Suc)
  qed
qed simp

lemma next_state_transition:
  assumes "wf_tree m" "m p = Some b" "Period chk \<le> nHeight b + 1"
  shows "next_state m chk p s = Some (transition m chk p s)"
  using count_loop_value [OF assms(1,2), of "nat (Period chk)" chk 0] assms wf_height [OF assms(1,2)]
  by (cases s) (auto simp: next_state_def transition_def signal_count_def)

lemma period_end_height:
  assumes "m p = Some b" "(nHeight b + 1) mod Period chk = 0" "0 < Period chk" "0 \<le> nHeight b"
  shows "Period chk \<le> nHeight b + 1" "nHeight b + 1 = int (periods m chk p) * Period chk" "0 < periods m chk p"
proof -
  have e: "nHeight b + 1 = (nHeight b + 1) div Period chk * Period chk" using assms(2) by (metis add.right_neutral div_mult_mod_eq)
  have "0 < (nHeight b + 1) div Period chk" using assms(3,4) e by (metis add_pos_nonneg less_irrefl mult_not_zero pos_imp_zdiv_nonneg_iff order_le_less zero_less_one add.commute)
  then show "nHeight b + 1 = int (periods m chk p) * Period chk" "0 < periods m chk p"
    using e assms(1) by (auto simp: periods_def)
  have "1 * Period chk \<le> (nHeight b + 1) div Period chk * Period chk"
    using \<open>0 < _ div _\<close> assms(3) by (intro mult_right_mono) auto
  then show "Period chk \<le> nHeight b + 1" using e by simp
qed

lemma previous_period:
  assumes wf: "wf_index m" and p: "m p = Some b" "(nHeight b + 1) mod Period chk = 0" and N: "0 < Period chk"
  shows "\<exists>q. GetAncestor m p (nHeight b - Period chk) = Some q \<and>
    deployment_state m chk (Some p) = transition m chk p (deployment_state m chk q) \<and>
    (case q of None \<Rightarrow> True | Some r \<Rightarrow> \<exists>c. m r = Some c \<and> (nHeight c + 1) mod Period chk = 0 \<and> nHeight c < nHeight b)"
proof -
  have wft: "wf_tree m" using wf by (simp add: wf_index_def)
  have h0: "0 \<le> nHeight b" using wf_height [OF wft p(1)] .
  note pe = period_end_height [of m p b chk, OF p N h0]
  let ?q = "ancestor_at m p (nHeight b - Period chk)"
  obtain k where k: "periods m chk p = Suc k" using pe(3) by (cases "periods m chk p") auto
  have h: "nHeight b = (int k + 1) * Period chk - 1" using pe(2) k by (simp add: algebra_simps)
  have last: "state_after m chk p (Suc k) = transition m chk p (state_after m chk p k)"
    using ancestor_at_self [OF wft p(1)] h by simp
  have "deployment_state m chk ?q = state_after m chk p k \<and>
    (case ?q of None \<Rightarrow> True | Some r \<Rightarrow> \<exists>c. m r = Some c \<and> (nHeight c + 1) mod Period chk = 0 \<and> nHeight c < nHeight b)"
  proof (cases k)
    case 0
    then have "?q = None" using h p(1) N by (simp add: ancestor_at_def)
    with 0 show ?thesis by (simp add: deployment_state_def)
  next
    case (Suc j)
    have hq: "nHeight b - Period chk = int k * Period chk - 1" using h by (simp add: algebra_simps)
    have "1 * Period chk \<le> int k * Period chk" using Suc N by (intro mult_right_mono) auto
    then have ge: "0 \<le> nHeight b - Period chk" using hq N by simp
    obtain r c where r: "?q = Some r" "m r = Some c" "nHeight c = int k * Period chk - 1"
      using ancestor_at_exists [OF wft p(1) ge] N hq by auto
    have "periods m chk r = k" using r N by (simp add: periods_def)
    moreover have "state_after m chk r k = state_after m chk p k"
      by (rule state_after_ancestor [OF wft r(1) _ N]) (simp add: hq)
    moreover have "(nHeight c + 1) mod Period chk = 0" "nHeight c < nHeight b"
      using r(3) h N by (simp_all add: algebra_simps)
    ultimately show ?thesis using r(1,2) by (simp add: deployment_state_def)
  qed
  moreover have "deployment_state m chk (Some p) = transition m chk p (state_after m chk p k)"
    using last k by (simp add: deployment_state_def)
  moreover have "GetAncestor m p (nHeight b - Period chk) = Some ?q"
    by (rule GetAncestor_correct [OF wf p(1)])
  ultimately show ?thesis by auto
qed

text \<open>The shortcut: before the start time every earlier state is \<open>DEFINED\<close>.\<close>

lemma state_before_start:
  assumes wf: "wf_tree m" and t: "times_checked m" and p: "m p = Some b" and N: "0 < Period chk"
    and start: "GetMedianTimePast m p < BeginTime chk"
  shows "int k * Period chk \<le> nHeight b + 1 \<Longrightarrow> state_after m chk p k = DEFINED"
proof (induction k)
  case (Suc k)
  let ?h = "(int k + 1) * Period chk - 1"
  have "1 * Period chk \<le> (int k + 1) * Period chk" using N by (intro mult_right_mono) auto
  then have h: "0 \<le> ?h" using N by linarith
  have hb: "?h \<le> nHeight b" using Suc.prems by (simp add: algebra_simps)
  obtain q where q: "ancestor_at m p ?h = Some q" using ancestor_at_exists [OF wf p h hb] by blast
  then have "parent_n m (nat (nHeight b - ?h)) p = Some q"
    using p h hb by (simp add: ancestor_at_def split: if_splits)
  then have "GetMedianTimePast m q < BeginTime chk"
    using GetMedianTimePast_parent_n [OF wf t p] start by fastforce
  moreover have "state_after m chk p k = DEFINED"
    using Suc N by (simp add: algebra_simps)
  ultimately show ?case using q by (simp add: transition_def)
qed simp

lemma deployment_state_before_start:
  assumes "wf_tree m" "times_checked m" "m p = Some b" "0 < Period chk" "GetMedianTimePast m p < BeginTime chk"
  shows "deployment_state m chk (Some p) = DEFINED"
proof -
  have "int (periods m chk p) * Period chk \<le> nHeight b + 1"
    using whole_periods_le [OF _ assms(4), of "nHeight b + 1"] wf_height [OF assms(1,3)] assms(3)
    by (simp add: periods_def)
  then show ?thesis using state_before_start [OF assms] by (simp add: deployment_state_def)
qed

section \<open>The cached computation\<close>

lemma cache_soundD: "cache_sound m chk cache \<Longrightarrow> cache q = Some s \<Longrightarrow> s = deployment_state m chk q"
  by (simp add: cache_sound_def)

lemma cache_sound_None: "cache_sound m chk cache \<Longrightarrow> cache_sound m chk (cache(None \<mapsto> DEFINED))"
  by (auto simp: cache_sound_def deployment_state_def)

lemma cache_sound_update:
  assumes "cache_sound m chk cache" "period_end m chk p" "s = deployment_state m chk (Some p)"
  shows "cache_sound m chk (cache(Some p \<mapsto> s))"
  using assms by (auto simp: cache_sound_def)

text \<open>
  Walking back and then forward gives the reference state at the starting point, whatever the
  cache knows.
\<close>

definition at_boundary :: "BlockMap \<Rightarrow> ThresholdConditionChecker \<Rightarrow> ptr option \<Rightarrow> bool" where
  "at_boundary m chk q \<longleftrightarrow> (case q of None \<Rightarrow> True | Some p \<Rightarrow> period_end m chk p)"

definition boundary_height :: "BlockMap \<Rightarrow> ptr option \<Rightarrow> nat" where
  "boundary_height m q = (case q of None \<Rightarrow> 0 | Some p \<Rightarrow> nat (nHeight (the (m p)) + 1))"

lemma walk_correct:
  assumes wf: "wf_index m" "times_checked m" and N: "0 < Period chk"
  shows "at_boundary m chk q \<Longrightarrow> cache_sound m chk cache \<Longrightarrow>
    \<exists>r w s cache1 cache2. walk_back m chk q v cache = Some (r, w, cache1) \<and> cache1 r = Some s \<and>
      walk_forward m chk w s cache1 = walk_forward m chk v (deployment_state m chk q) cache2 \<and>
      cache_sound m chk cache2"
proof (induction "boundary_height m q" arbitrary: q v cache rule: less_induct)
  case less
  have wft: "wf_tree m" using wf(1) by (simp add: wf_index_def)
  show ?case
  proof (cases "cache q")
    case (Some s)
    then have "walk_back m chk q v cache = Some (q, v, cache)" by (simp add: walk_back.simps)
    with Some less.prems cache_soundD show ?thesis by blast
  next
    case unknown: None
    show ?thesis
    proof (cases q)
      case None
      then have "walk_back m chk q v cache = Some (None, v, cache(None \<mapsto> DEFINED))"
        using unknown by (simp add: walk_back.simps)
      moreover have "deployment_state m chk q = DEFINED" using None by (simp add: deployment_state_def)
      ultimately show ?thesis using cache_sound_None [OF less.prems(2)] None by fastforce
    next
      case (Some p)
      then obtain b where b: "m p = Some b" "(nHeight b + 1) mod Period chk = 0"
        using less.prems(1) by (auto simp: at_boundary_def period_end_def)
      have pe: "period_end m chk p" using b by (auto simp: period_end_def)
      show ?thesis
      proof (cases "GetMedianTimePast m p < BeginTime chk")
        case True
        have d: "deployment_state m chk (Some p) = DEFINED"
          by (rule deployment_state_before_start [OF wft wf(2) b(1) N True])
        have "walk_back m chk q v cache = Some (Some p, v, cache(Some p \<mapsto> DEFINED))"
          using unknown Some b(1) True by (simp add: walk_back.simps)
        moreover have "cache_sound m chk (cache(Some p \<mapsto> DEFINED))"
          using cache_sound_update [OF less.prems(2) pe] d by simp
        ultimately show ?thesis using Some d by fastforce
      next
        case False
        obtain q' where q': "GetAncestor m p (nHeight b - Period chk) = Some q'"
            "deployment_state m chk (Some p) = transition m chk p (deployment_state m chk q')"
            "case q' of None \<Rightarrow> True | Some r \<Rightarrow> \<exists>c. m r = Some c \<and> (nHeight c + 1) mod Period chk = 0 \<and> nHeight c < nHeight b"
          using previous_period [OF wf(1) b N] by blast
        have "boundary_height m q' < boundary_height m q"
          using q'(3) Some b(1) wf_height [OF wft] by (fastforce simp: boundary_height_def split: option.splits)
        moreover have "at_boundary m chk q'"
          using q'(3) by (auto simp: at_boundary_def period_end_def split: option.splits)
        ultimately obtain r w s cache1 cache2 where i: "walk_back m chk q' (p # v) cache = Some (r, w, cache1)"
            "cache1 r = Some s" "cache_sound m chk cache2"
            "walk_forward m chk w s cache1 = walk_forward m chk (p # v) (deployment_state m chk q') cache2"
          using less.hyps [of q' cache "p # v"] less.prems(2) by blast
        have "Period chk \<le> nHeight b + 1"
          using period_end_height(1) [of m p b chk, OF b N] wf_height [OF wft b(1)] by simp
        then have "walk_forward m chk w s cache1 =
            walk_forward m chk v (deployment_state m chk q) (cache2(Some p \<mapsto> deployment_state m chk q))"
          using i(4) next_state_transition [OF wft b(1)] q'(2) Some by simp
        moreover have "walk_back m chk q v cache = Some (r, w, cache1)"
          using unknown Some b(1) False q'(1) i(1) by (subst walk_back.simps) simp
        ultimately show ?thesis using i(2) cache_sound_update [OF i(3) pe] Some by blast
      qed
    qed
  qed
qed

lemma period_parent_state:
  assumes wf: "wf_index m" and p: "m p = Some b" and N: "0 < Period chk"
  shows "\<exists>q. period_parent m (Period chk) p = Some q \<and> at_boundary m chk q \<and>
    deployment_state m chk q = deployment_state m chk (Some p)"
proof -
  have wft: "wf_tree m" using wf by (simp add: wf_index_def)
  have h0: "0 \<le> nHeight b" using wf_height [OF wft p] .
  let ?x = "nHeight b + 1" and ?k = "(nHeight b + 1) div Period chk"
  let ?h = "nHeight b - ?x mod Period chk"
  have h: "?h + 1 = ?k * Period chk" using minus_mod_eq_div_mult [of ?x "Period chk"] by simp
  have hb: "?h \<le> nHeight b" using pos_mod_sign [OF N, of ?x] by linarith
  have k: "0 \<le> ?k" using N h0 by (simp add: pos_imp_zdiv_nonneg_iff)
  have pp: "period_parent m (Period chk) p = Some (ancestor_at m p ?h)"
    using p N h0 GetAncestor_correct [OF wf p] by (simp add: period_parent_def smod_int_alt_def)
  show ?thesis
  proof (cases "?k = 0")
    case True
    then have "?h < 0" using h by simp
    then have "ancestor_at m p ?h = None" using p by (simp add: ancestor_at_def)
    moreover have "deployment_state m chk (Some p) = DEFINED"
      using True p by (simp add: deployment_state_def periods_def)
    ultimately show ?thesis using pp by (auto simp: at_boundary_def deployment_state_def)
  next
    case False
    then have "1 * Period chk \<le> ?k * Period chk" using N k by (intro mult_right_mono) auto
    then have "0 \<le> ?h" using h N by linarith
    then obtain r c where r: "ancestor_at m p ?h = Some r" "m r = Some c" "nHeight c = ?h"
      using ancestor_at_exists [OF wft p _ hb] by blast
    have "periods m chk r = nat ?k" using r(2,3) h N by (simp add: periods_def)
    moreover have "state_after m chk r (nat ?k) = state_after m chk p (nat ?k)"
      by (rule state_after_ancestor [OF wft r(1) _ N]) (use h k in simp)
    moreover have "period_end m chk r" using r(2,3) h by (simp add: period_end_def)
    ultimately show ?thesis
      using pp r(1) p by (auto simp: at_boundary_def deployment_state_def periods_def)
  qed
qed

lemma GetStateFor_correct:
  assumes wf: "wf_index m" "times_checked m" and N: "0 < Period chk"
    and begin_time: "BeginTime chk \<noteq> ALWAYS_ACTIVE" "BeginTime chk \<noteq> NEVER_ACTIVE"
    and q: "case q of None \<Rightarrow> True | Some p \<Rightarrow> m p \<noteq> None" and sound: "cache_sound m chk cache"
  shows "\<exists>cache'. GetStateFor m chk q cache = Some (deployment_state m chk q, cache') \<and> cache_sound m chk cache'"
proof -
  obtain q' where q': "(case q of None \<Rightarrow> Some None | Some p \<Rightarrow> period_parent m (Period chk) p) = Some q'"
      "at_boundary m chk q'" "deployment_state m chk q' = deployment_state m chk q"
    using q period_parent_state [OF wf(1) _ N] by (cases q) (auto simp: at_boundary_def)
  obtain r w s cache1 cache2 where "walk_back m chk q' [] cache = Some (r, w, cache1)" "cache1 r = Some s"
      "walk_forward m chk w s cache1 = walk_forward m chk [] (deployment_state m chk q') cache2"
      "cache_sound m chk cache2"
    using walk_correct [OF wf N q'(2) sound, of "[]"] by blast
  with q' begin_time show ?thesis by (simp add: GetStateFor_def)
qed

section \<open>The state machine\<close>

inductive bip9_step :: "ThresholdState \<Rightarrow> ThresholdState \<Rightarrow> bool" where
  start: "bip9_step DEFINED STARTED"
| lock: "bip9_step STARTED LOCKED_IN"
| timeout: "bip9_step STARTED FAILED"
| activate: "bip9_step LOCKED_IN ACTIVE"

inductive_cases bip9_from_ACTIVE: "bip9_step ACTIVE s"
inductive_cases bip9_from_FAILED: "bip9_step FAILED s"

lemma transition_step: "bip9_step\<^sup>*\<^sup>* s (transition m chk p s)"
  by (cases s) (auto simp: transition_def intro: bip9_step.intros r_into_rtranclp)

lemma bip9_final: "bip9_step\<^sup>*\<^sup>* s t \<Longrightarrow> s = ACTIVE \<or> s = FAILED \<Longrightarrow> t = s"
  by (induction rule: rtranclp_induct) (auto elim: bip9_from_ACTIVE bip9_from_FAILED)

lemma state_after_steps: "j \<le> k \<Longrightarrow> bip9_step\<^sup>*\<^sup>* (state_after m chk p j) (state_after m chk p k)"
proof (induction k rule: dec_induct)
  case (step k)
  then show ?case using transition_step by (metis rtranclp_trans state_after.simps(2))
qed simp

lemma deployment_state_steps:
  assumes wf: "wf_tree m" and p: "m p = Some b" and N: "0 < Period chk" and q: "ancestor_at m p h = Some q"
  shows "bip9_step\<^sup>*\<^sup>* (deployment_state m chk (Some q)) (deployment_state m chk (Some p))"
proof -
  have h: "0 \<le> h" "h \<le> nHeight b" using q p by (auto simp: ancestor_at_def split: if_splits)
  obtain c where c: "m q = Some c" "nHeight c = h" using ancestor_at_exists [OF wf p h] q by auto
  let ?j = "periods m chk q"
  have "int ?j * Period chk \<le> h + 1"
    using whole_periods_le [OF _ N, of "h + 1"] c h by (simp add: periods_def)
  then have "state_after m chk q ?j = state_after m chk p ?j" by (rule state_after_ancestor [OF wf q _ N])
  moreover have "?j \<le> periods m chk p"
    using c p h N by (auto simp: periods_def intro!: nat_mono zdiv_mono1)
  ultimately show ?thesis
    using state_after_steps [of ?j "periods m chk p" m chk p] by (simp add: deployment_state_def)
qed

text \<open>The state that applies to the block at height \<open>k + 1\<close> of a branch.\<close>

lemma deployment_state_at:
  assumes wf: "wf_tree m" and p: "m p = Some b" and N: "0 < Period chk" and k: "- 1 \<le> k" "k \<le> nHeight b"
  shows "deployment_state m chk (ancestor_at m p k) = state_after m chk p (nat ((k + 1) div Period chk))"
proof (cases "k = - 1")
  case True
  then have "ancestor_at m p k = None" using p by (simp add: ancestor_at_def)
  with True show ?thesis by (simp add: deployment_state_def)
next
  case False
  then have k0: "0 \<le> k" using k by simp
  obtain q c where q: "ancestor_at m p k = Some q" "m q = Some c" "nHeight c = k"
    using ancestor_at_exists [OF wf p k0 k(2)] by blast
  let ?j = "nat ((k + 1) div Period chk)"
  have "int ?j * Period chk \<le> k + 1" using whole_periods_le [OF _ N, of "k + 1"] k0 by simp
  then have "state_after m chk q ?j = state_after m chk p ?j" by (rule state_after_ancestor [OF wf q(1) _ N])
  with q show ?thesis by (simp add: deployment_state_def periods_def)
qed

lemma since_loop_correct:
  assumes wf: "wf_index m" "times_checked m" and N: "0 < Period chk"
    and begin_time: "BeginTime chk \<noteq> ALWAYS_ACTIVE" "BeginTime chk \<noteq> NEVER_ACTIVE"
    and p: "m p = Some b" and s: "s \<noteq> DEFINED"
  shows "1 \<le> j \<Longrightarrow> int j * Period chk \<le> nHeight b + 1 \<Longrightarrow> ancestor_at m p (int j * Period chk - 1) = Some q \<Longrightarrow>
    state_after m chk p j = s \<Longrightarrow> cache_sound m chk cache \<Longrightarrow>
    \<exists>j' cache'. since_loop m chk s q (ancestor_at m p (int (j - 1) * Period chk - 1)) cache =
        Some (int j' * Period chk, cache') \<and> cache_sound m chk cache' \<and> 1 \<le> j' \<and> j' \<le> j \<and>
      (\<forall>i\<in>{j'..j}. state_after m chk p i = s) \<and> state_after m chk p (j' - 1) \<noteq> s"
proof (induction j arbitrary: q cache)
  case (Suc j)
  have wft: "wf_tree m" using wf by (simp add: wf_index_def)
  let ?h = "\<lambda>j. int j * Period chk - 1"
  have le: "int j * Period chk \<le> nHeight b + 1" and hs: "?h (Suc j) = ?h j + Period chk"
    using Suc.prems(2) N by (simp_all add: algebra_simps)
  have "0 \<le> int j * Period chk" using N by simp
  then have hq: "0 \<le> ?h (Suc j)" using N hs by linarith
  obtain c where c: "m q = Some c" "nHeight c = ?h (Suc j)"
    using ancestor_at_exists [OF wft p hq] Suc.prems(2,3) by auto
  show ?case
  proof (cases "j = 0")
    case True
    then have "ancestor_at m p (?h j) = None" using p by (simp add: ancestor_at_def)
    then have "since_loop m chk s q (ancestor_at m p (?h j)) cache = Some (?h (Suc j) + 1, cache)"
      using c by (subst since_loop.simps) simp
    then show ?thesis using True s Suc.prems by (intro exI [of _ "Suc j"] exI [of _ cache]) auto
  next
    case False
    have "1 * Period chk \<le> int j * Period chk" using False N by (intro mult_right_mono) auto
    then have h0: "0 \<le> ?h j" "?h j \<le> nHeight b" using N le by linarith+
    obtain r d where r: "ancestor_at m p (?h j) = Some r" "m r = Some d" "nHeight d = ?h j"
      using ancestor_at_exists [OF wft p h0] by blast
    have state: "deployment_state m chk (Some r) = state_after m chk p j"
      using deployment_state_at [OF wft p N, of "?h j"] h0 r(1) N by simp
    obtain cache1 where g: "GetStateFor m chk (Some r) cache = Some (state_after m chk p j, cache1)"
        "cache_sound m chk cache1"
      using GetStateFor_correct [OF wf N begin_time, of "Some r" cache] r(2) state Suc.prems(5) by auto
    show ?thesis
    proof (cases "state_after m chk p j = s")
      case True
      have e: "?h (j - 1) = nHeight d - Period chk" using r(3) False by (simp add: of_nat_diff algebra_simps)
      have a: "GetAncestor m r (nHeight d - Period chk) = Some (ancestor_at m p (?h (j - 1)))"
        unfolding e using GetAncestor_correct [OF wf(1) r(2)] ancestor_at_trans [OF wft r(1)] r(3) N by simp
      obtain j' cache' where j': "since_loop m chk s r (ancestor_at m p (?h (j - 1))) cache1 =
          Some (int j' * Period chk, cache')" "cache_sound m chk cache'" "1 \<le> j'" "j' \<le> j"
          "\<forall>i\<in>{j'..j}. state_after m chk p i = s" "state_after m chk p (j' - 1) \<noteq> s"
        using Suc.IH [of r cache1] False le r(1) True g(2) by auto
      have "since_loop m chk s q (ancestor_at m p (?h j)) cache = Some (int j' * Period chk, cache')"
        using c r g(1) True a j'(1) by (subst since_loop.simps) simp
      with j' Suc.prems(4) show ?thesis
        by (intro exI [of _ j'] exI [of _ cache']) (auto simp: le_Suc_eq)
    next
      case False
      then have "since_loop m chk s q (ancestor_at m p (?h j)) cache = Some (?h (Suc j) + 1, cache1)"
        using c r g(1) by (subst since_loop.simps) simp
      with False g(2) Suc.prems(4) show ?thesis
        by (intro exI [of _ "Suc j"] exI [of _ cache1]) auto
    qed
  qed
qed simp

lemma GetStateSinceHeightFor_correct:
  assumes wf: "wf_index m" "times_checked m" and N: "0 < Period chk"
    and begin_time: "BeginTime chk \<noteq> ALWAYS_ACTIVE" "BeginTime chk \<noteq> NEVER_ACTIVE"
    and p: "m p = Some b" and sound: "cache_sound m chk cache"
    and s: "deployment_state m chk (Some p) \<noteq> DEFINED"
  shows "\<exists>j cache'. GetStateSinceHeightFor m chk (Some p) cache = Some (int j * Period chk, cache') \<and>
    cache_sound m chk cache' \<and> 1 \<le> j \<and> j \<le> periods m chk p \<and>
    (\<forall>i\<in>{j..periods m chk p}. state_after m chk p i = deployment_state m chk (Some p)) \<and>
    state_after m chk p (j - 1) \<noteq> deployment_state m chk (Some p)"
proof -
  have wft: "wf_tree m" using wf by (simp add: wf_index_def)
  let ?s = "deployment_state m chk (Some p)" and ?k = "periods m chk p"
  have st: "state_after m chk p ?k = ?s" by (simp add: deployment_state_def)
  then have k1: "1 \<le> ?k" using s by (cases ?k) auto
  let ?h = "nHeight b - (nHeight b + 1) mod Period chk"
  have h0: "0 \<le> nHeight b" using wf_height [OF wft p] .
  have h: "?h = int ?k * Period chk - 1"
    using minus_mod_eq_div_mult [of "nHeight b + 1" "Period chk"] p N h0
    by (simp add: periods_def pos_imp_zdiv_nonneg_iff)
  have "1 * Period chk \<le> int ?k * Period chk" using k1 N by (intro mult_right_mono) auto
  then have hb: "0 \<le> ?h" "?h \<le> nHeight b" using N h pos_mod_sign [OF N, of "nHeight b + 1"] by linarith+
  obtain q c where q: "ancestor_at m p ?h = Some q" "m q = Some c" "nHeight c = ?h"
    using ancestor_at_exists [OF wft p hb] by blast
  have pp: "period_parent m (Period chk) p = Some (Some q)"
    using p N h0 q(1) GetAncestor_correct [OF wf(1) p] by (simp add: period_parent_def smod_int_alt_def)
  have e: "int (?k - 1) * Period chk - 1 = nHeight c - Period chk"
    using q(3) h k1 by (simp add: of_nat_diff algebra_simps)
  have a: "GetAncestor m q (nHeight c - Period chk) = Some (ancestor_at m p (int (?k - 1) * Period chk - 1))"
    unfolding e using GetAncestor_correct [OF wf(1) q(2)] ancestor_at_trans [OF wft q(1)] q(3) N by simp
  obtain cache1 where g: "GetStateFor m chk (Some p) cache = Some (?s, cache1)" "cache_sound m chk cache1"
    using GetStateFor_correct [OF wf N begin_time, of "Some p" cache] p sound by auto
  have "GetStateSinceHeightFor m chk (Some p) cache =
      since_loop m chk ?s q (ancestor_at m p (int (?k - 1) * Period chk - 1)) cache1"
    using begin_time g(1) s pp q(2) a by (simp add: GetStateSinceHeightFor_def)
  then show ?thesis
    using since_loop_correct [OF wf N begin_time p s k1 _ _ st g(2), of q] q(1) h hb(2) by auto
qed

subsection \<open>The version of a new block\<close>

text \<open>What \<open>GetStateFor\<close> reports, with the two special start times.\<close>

definition reported_state :: "BlockMap \<Rightarrow> ThresholdConditionChecker \<Rightarrow> ptr option \<Rightarrow> ThresholdState" where
  "reported_state m chk q =
     (if BeginTime chk = ALWAYS_ACTIVE then ACTIVE
      else if BeginTime chk = NEVER_ACTIVE then FAILED
      else deployment_state m chk q)"

lemma GetStateFor_reported:
  assumes "wf_index m" "times_checked m" "0 < Period chk"
    and "case q of None \<Rightarrow> True | Some p \<Rightarrow> m p \<noteq> None" "cache_sound m chk cache"
  shows "\<exists>cache'. GetStateFor m chk q cache = Some (reported_state m chk q, cache') \<and> cache_sound m chk cache'"
proof (cases "BeginTime chk = ALWAYS_ACTIVE \<or> BeginTime chk = NEVER_ACTIVE")
  case True
  with assms(5) show ?thesis by (auto simp: GetStateFor_def reported_state_def)
next
  case False
  with GetStateFor_correct [OF assms(1-3) _ _ assms(4,5)] show ?thesis by (auto simp: reported_state_def)
qed

definition to_signal :: "BlockMap \<Rightarrow> Params \<Rightarrow> ptr option \<Rightarrow> DeploymentPos \<Rightarrow> bool" where
  "to_signal m params q pos \<longleftrightarrow> reported_state m (checker_for params pos) q \<in> {STARTED, LOCKED_IN}"

lemma version_loop_value:
  assumes "wf_index m" "times_checked m" "\<And>pos. 0 < Period (checker_for params pos)"
    and "case q of None \<Rightarrow> True | Some p \<Rightarrow> m p \<noteq> None"
  shows "(\<And>pos. cache_sound m (checker_for params pos) (caches pos)) \<Longrightarrow>
    \<exists>caches'. version_loop m q params ps ver caches =
        Some (foldl (\<lambda>v pos. if to_signal m params q pos then v OR Mask (vDeployments params pos) else v) ver ps, caches') \<and>
      (\<forall>pos. cache_sound m (checker_for params pos) (caches' pos))"
proof (induction ps arbitrary: ver caches)
  case (Cons pos ps)
  obtain cache' where g: "GetStateFor m (checker_for params pos) q (caches pos) =
      Some (reported_state m (checker_for params pos) q, cache')" "cache_sound m (checker_for params pos) cache'"
    using GetStateFor_reported [OF assms(1,2) assms(3,4) Cons.prems [of pos]] by blast
  have "cache_sound m (checker_for params pos') ((caches(pos := cache')) pos')" for pos'
    using g(2) Cons.prems by simp
  from Cons.IH [OF this] g(1) show ?case by (fastforce simp: to_signal_def)
qed auto

lemma ex_DeploymentPos: "(\<exists>pos. P pos) \<longleftrightarrow> P DEPLOYMENT_TESTDUMMY \<or> P DEPLOYMENT_TAPROOT"
  by (metis DeploymentPos.exhaust)

lemma top_bits_pattern: "sint w AND NOT (mask 29 :: int) = 2 ^ 29 \<longleftrightarrow>
      (\<forall>n. bit w (min n 31) \<and> 29 \<le> n \<longleftrightarrow> n = 29)" for w :: u32
proof -
  have "\<not> bit w n" if "\<not> n \<le> 31" for n using that bit_imp_le_length [of w n] by auto
  then have "bit (sint w AND NOT (mask 29)) n \<longleftrightarrow> bit w (min n 31) \<and> 29 \<le> n" for n
    by (simp only: bit_and_iff bit_not_iff bit_mask_iff bit_sint_iff)
      (auto simp: min_def not_less)
  moreover have "bit ((2::int) ^ 29) n \<longleftrightarrow> n = 29" for n
    unfolding bit_exp_iff by (simp add: eq_commute)
  ultimately show ?thesis unfolding bit_eq_iff by (simp del: power_numeral)
qed

lemma version_top_masks:
  "VERSIONBITS_TOP_MASK = NOT (mask 29 :: int)" "VERSIONBITS_TOP_BITS = (2 ^ 29 :: int)"
   unfolding VERSIONBITS_TOP_MASK_def not_eq_complement mask_eq_exp_minus_1 by simp
    (simp add: VERSIONBITS_TOP_BITS_def)

lemma version_signals_bits:
  fixes w :: u32
  assumes "0 \<le> dep_bit dep" "dep_bit dep < 29"
  shows "version_signals dep (sint w) \<longleftrightarrow> bit w 29 \<and> \<not> bit w 30 \<and> \<not> bit w 31 \<and> bit w (nat (dep_bit dep))"
proof -
  have "(\<forall>n. bit w (min n 31) \<and> 29 \<le> n \<longleftrightarrow> n = 29) \<longleftrightarrow> bit w 29 \<and> \<not> bit w 30 \<and> \<not> bit w 31"
    (is "(\<forall>n. ?P n) \<longleftrightarrow> ?R")
  proof
    assume "\<forall>n. ?P n"
    then have "?P 29" "?P 30" "?P 31" by blast+
    then show ?R by simp
  next
    assume r: ?R
    have "?P n" for n
    proof (cases "n < 29 \<or> n = 29 \<or> n = 30")
      case False
      then have "31 \<le> n" by linarith
      with r show ?thesis by (simp add: min_def)
    qed (use r in auto)
    then show "\<forall>n. ?P n" by blast
  qed
  moreover have "w AND Mask dep \<noteq> 0 \<longleftrightarrow> bit w (nat (dep_bit dep))"
    by (simp add: Mask_def push_bit_eq_mult and_exp_eq_0_iff_not_bit)
  ultimately show ?thesis
    unfolding version_signals_def version_top_masks top_bits_pattern by (simp add: of_int_sint)
qed

section \<open>Properties\<close>

text \<open>A deployment with periods of one block, for the witnesses: every block signals.\<close>

definition sample_params :: Params where
  "sample_params = (CMainParams uint256_zero)\<lparr>vDeployments := (\<lambda>pos. case pos of
       DEPLOYMENT_TESTDUMMY \<Rightarrow> deployment 0 0 1000 0 1 1
     | DEPLOYMENT_TAPROOT \<Rightarrow> deployment 1 500 1000 0 1 1)\<rparr>"

definition sample_checker :: ThresholdConditionChecker where
  "sample_checker = \<lparr>Condition = (\<lambda>b. nTime b \<ge> 300), BeginTime = 0, EndTime = 1000, MinActivationHeight = 0,
     Period = 1, Threshold = 1\<rparr>"

lemma sample_checker_sel [simp]:
  "BeginTime sample_checker = 0" "Period sample_checker = 1" "EndTime sample_checker = 1000"
  "Threshold sample_checker = 1" "MinActivationHeight sample_checker = 0" "Condition sample_checker b \<longleftrightarrow> nTime b \<ge> 300"
  by (simp_all add: sample_checker_def)

lemma sample_median:
  "GetMedianTimePast sample_index [0] = 100" "GetMedianTimePast sample_index [2] = 300"
  "GetMedianTimePast sample_index [3] = 300"
  by (simp_all add: GetMedianTimePast_def nMedianTimeSpan_def GetBlockTime_def median_times_numeral sample_index_at)

lemma sample_states:
  "deployment_state sample_index sample_checker (Some [0]) = STARTED"
  "deployment_state sample_index sample_checker (Some [3]) = ACTIVE"
  by (simp_all add: deployment_state_def periods_def sample_index_at ancestor_at_def transition_def signal_count_def
      sample_median eval_nat_numeral)

lemma cache_sound_empty: "cache_sound m chk Map.empty"
  by (simp add: cache_sound_def)

text \<open>
  C16. \<^verbatim>\<open>GetStateFor\<close> computes the BIP9 state of the branch: whatever sound entries the cache
  holds and whatever shortcut the walk takes, it returns and gives the state obtained by replaying
  every whole period from genesis, and the cache it leaves is sound again. The two special start times
  answer without looking at the chain.
\<close>

theorem GetStateFor_replays_periods:
  assumes "wf_index m" "times_checked m" "0 < Period chk"
    and "case q of None \<Rightarrow> True | Some p \<Rightarrow> m p \<noteq> None" "cache_sound m chk cache"
  shows "\<exists>cache'. cache_sound m chk cache' \<and>
    GetStateFor m chk q cache =
      Some (if BeginTime chk = ALWAYS_ACTIVE then ACTIVE
            else if BeginTime chk = NEVER_ACTIVE then FAILED
            else case q of
                   None \<Rightarrow> DEFINED
                 | Some p \<Rightarrow> state_after m chk p (nat ((nHeight (the (m p)) + 1) div Period chk)), cache')"
  using GetStateFor_reported [OF assms]
  by (cases q) (auto simp: reported_state_def deployment_state_def periods_def)

theorem GetStateFor_replays_periods_witness:
  "\<exists>cache'. GetStateFor sample_index sample_checker (Some [3]) Map.empty = Some (ACTIVE, cache')"
  using GetStateFor_replays_periods [of sample_index sample_checker "Some [3]" Map.empty] sample_states(2)
    sample_index_wf sample_times_checked cache_sound_empty
  by (auto simp: sample_index_at ALWAYS_ACTIVE_def NEVER_ACTIVE_def deployment_state_def periods_def)

text \<open>
  C24. Along a branch the state only moves by the transitions of BIP9, so \<^verbatim>\<open>ACTIVE\<close> and
  \<^verbatim>\<open>FAILED\<close> are final: once reported after a block they are reported after every descendant,
  with any sound caches.
\<close>

theorem deployment_progress:
  assumes "wf_index m" "times_checked m" "0 < Period chk" "m p = Some b" "ancestor_at m p h = Some q"
    and "cache_sound m chk c1" "cache_sound m chk c2"
  shows "\<exists>s t c1' c2'. GetStateFor m chk (Some q) c1 = Some (s, c1') \<and> GetStateFor m chk (Some p) c2 = Some (t, c2') \<and>
    bip9_step\<^sup>*\<^sup>* s t \<and> (s = ACTIVE \<or> s = FAILED \<longrightarrow> t = s)"
proof -
  have wf: "wf_tree m" using assms(1) by (simp add: wf_index_def)
  have "0 \<le> h" "h \<le> nHeight b" using assms(4,5) by (auto simp: ancestor_at_def split: if_splits)
  then have "m q \<noteq> None" using ancestor_at_exists [OF wf assms(4), of h] assms(5) by auto
  then obtain c1' c2' where
    "GetStateFor m chk (Some q) c1 = Some (reported_state m chk (Some q), c1')"
    "GetStateFor m chk (Some p) c2 = Some (reported_state m chk (Some p), c2')"
    using GetStateFor_reported [OF assms(1-3) _ assms(6), of "Some q"]
      GetStateFor_reported [OF assms(1-3) _ assms(7), of "Some p"] assms(4) by auto
  moreover have "bip9_step\<^sup>*\<^sup>* (reported_state m chk (Some q)) (reported_state m chk (Some p))"
    using deployment_state_steps [OF wf assms(4,3,5)] by (simp add: reported_state_def)
  ultimately show ?thesis using bip9_final by blast
qed

theorem deployment_progress_witness:
  "\<exists>s t c1' c2'. GetStateFor sample_index sample_checker (Some [0]) Map.empty = Some (s, c1') \<and>
    GetStateFor sample_index sample_checker (Some [3]) Map.empty = Some (t, c2') \<and> bip9_step\<^sup>*\<^sup>* s t"
  using deployment_progress [of sample_index sample_checker "[3]" _ 0 "[0]" Map.empty Map.empty]
    sample_index_wf sample_times_checked cache_sound_empty
  by (fastforce simp: sample_index_at ancestor_at_def eval_nat_numeral)

text \<open>
  C35. \<^verbatim>\<open>GetStateSinceHeightFor\<close> returns the height of the first block of the branch the
  reported state applies to: it starts a period, the state applies to every block from there up to the
  next block, and another state applied to the block before.
\<close>

theorem GetStateSinceHeightFor_first_height:
  assumes "wf_index m" "times_checked m" "0 < Period chk" "BeginTime chk \<noteq> ALWAYS_ACTIVE" "BeginTime chk \<noteq> NEVER_ACTIVE"
    and p: "m p = Some b" and "cache_sound m chk cache" and s: "deployment_state m chk (Some p) = s" "s \<noteq> DEFINED"
  shows "\<exists>h cache'. GetStateSinceHeightFor m chk (Some p) cache = Some (h, cache') \<and> h mod Period chk = 0 \<and>
    0 < h \<and> h \<le> nHeight b + 1 \<and>
    (\<forall>k. h \<le> k \<and> k \<le> nHeight b + 1 \<longrightarrow> deployment_state m chk (ancestor_at m p (k - 1)) = s) \<and>
    deployment_state m chk (ancestor_at m p (h - 2)) \<noteq> s"
proof -
  have wf: "wf_tree m" using assms(1) by (simp add: wf_index_def)
  let ?N = "Period chk" and ?K = "periods m chk p"
  obtain j cache' where j: "GetStateSinceHeightFor m chk (Some p) cache = Some (int j * ?N, cache')"
      "1 \<le> j" "j \<le> ?K" "\<forall>i\<in>{j..?K}. state_after m chk p i = s" "state_after m chk p (j - 1) \<noteq> s"
    using GetStateSinceHeightFor_correct [OF assms(1-7)] s by blast
  have h0: "0 \<le> nHeight b" using wf_height [OF wf p] .
  have K: "?K = nat ((nHeight b + 1) div ?N)" using p by (simp add: periods_def)
  have jN: "1 * ?N \<le> int j * ?N" using j(2) assms(3) by (intro mult_right_mono) auto
  have "int j * ?N \<le> int ?K * ?N" using j(3) assms(3) by (intro mult_right_mono) auto
  also have "\<dots> \<le> nHeight b + 1"
    using whole_periods_le [OF _ assms(3), of "nHeight b + 1"] h0 by (simp add: K)
  finally have le: "int j * ?N \<le> nHeight b + 1" .
  have "deployment_state m chk (ancestor_at m p (k - 1)) = s" if "int j * ?N \<le> k" "k \<le> nHeight b + 1" for k
  proof -
    have "j \<le> nat (k div ?N)" using zdiv_mono1 [OF that(1) assms(3)] assms(3) by simp
    moreover have "nat (k div ?N) \<le> ?K" unfolding K by (intro nat_mono zdiv_mono1 that assms)
    ultimately show ?thesis
      using deployment_state_at [OF wf p assms(3), of "k - 1"] that j(4) jN assms(3) by simp
  qed
  moreover have "deployment_state m chk (ancestor_at m p (int j * ?N - 2)) \<noteq> s"
  proof (cases "int j * ?N = 1")
    case True
    then have "ancestor_at m p (int j * ?N - 2) = None" using p by (simp add: ancestor_at_def)
    then show ?thesis using s by (simp add: deployment_state_def)
  next
    case False
    have "(int j * ?N - 1) div ?N = int j - 1"
      by (rule int_div_pos_eq [of _ _ _ "?N - 1"]) (use assms(3) in \<open>simp_all add: algebra_simps\<close>)
    then show ?thesis
      using deployment_state_at [OF wf p assms(3), of "int j * ?N - 2"] False jN le assms(3) j(2,5)
      by (simp add: nat_diff_distrib)
  qed
  ultimately show ?thesis using j(1) jN le assms(3) by (intro exI conjI) auto
qed

theorem GetStateSinceHeightFor_first_height_witness:
  "\<exists>h cache'. GetStateSinceHeightFor sample_index sample_checker (Some [3]) Map.empty = Some (h, cache') \<and> 0 < h \<and> h \<le> 3"
  using GetStateSinceHeightFor_first_height [of sample_index sample_checker "[3]" _ Map.empty ACTIVE] sample_states(2)
    sample_index_wf sample_times_checked cache_sound_empty
  by (fastforce simp: sample_index_at ALWAYS_ACTIVE_def NEVER_ACTIVE_def)

text \<open>
  C36. \<^verbatim>\<open>ComputeBlockVersion\<close> signals exactly the deployments in progress: read back by the
  condition that counts signals, the version of a new block signals a deployment precisely when
  its state is \<^verbatim>\<open>STARTED\<close> or \<^verbatim>\<open>LOCKED_IN\<close>, provided the bits of the two deployments are
  distinct version bits.
\<close>

theorem ComputeBlockVersion_signals:
  assumes "wf_index m" "times_checked m" "\<And>pos. 0 < Period (checker_for params pos)"
    and "case q of None \<Rightarrow> True | Some p \<Rightarrow> m p \<noteq> None"
    and "\<And>pos. cache_sound m (checker_for params pos) (caches pos)"
    and bits: "\<And>pos. 0 \<le> dep_bit (vDeployments params pos) \<and> dep_bit (vDeployments params pos) < 29"
    and distinct: "dep_bit (vDeployments params DEPLOYMENT_TESTDUMMY) \<noteq> dep_bit (vDeployments params DEPLOYMENT_TAPROOT)"
  shows "\<exists>ver caches'. ComputeBlockVersion m q params caches = Some (ver, caches') \<and>
    (\<forall>pos. cache_sound m (checker_for params pos) (caches' pos)) \<and>
    (\<forall>pos. version_signals (vDeployments params pos) ver \<longleftrightarrow>
       reported_state m (checker_for params pos) q \<in> {STARTED, LOCKED_IN})"
proof -
  let ?f = "\<lambda>v pos. if to_signal m params q pos then v OR Mask (vDeployments params pos) else v"
  let ?w = "foldl ?f (word_of_int VERSIONBITS_TOP_BITS) [DEPLOYMENT_TESTDUMMY, DEPLOYMENT_TAPROOT]"
  obtain caches' where c: "version_loop m q params [DEPLOYMENT_TESTDUMMY, DEPLOYMENT_TAPROOT]
        (word_of_int VERSIONBITS_TOP_BITS) caches = Some (?w, caches')"
      "\<forall>pos. cache_sound m (checker_for params pos) (caches' pos)"
    using version_loop_value [OF assms(1-5)] by blast
  have top: "bit (word_of_int VERSIONBITS_TOP_BITS :: u32) n \<longleftrightarrow> n = 29" for n
    unfolding version_top_masks(2) bit_word_of_int_iff bit_exp_iff by auto
  have mask: "bit (Mask dep) n \<longleftrightarrow> n = nat (dep_bit dep)" if "dep_bit dep < 29" for dep n
    using that unfolding Mask_def bit_push_bit_iff by (auto simp: bit_1_iff)
  have w: "bit ?w n \<longleftrightarrow> n = 29 \<or> (\<exists>pos. to_signal m params q pos \<and> n = nat (dep_bit (vDeployments params pos)))" for n
    using bits by (auto simp: bit_or_iff top mask ex_DeploymentPos)
  have small: "nat (dep_bit (vDeployments params pos)) < 29" for pos using bits [of pos] by (simp add: nat_less_iff)
  have inj: "nat (dep_bit (vDeployments params pos)) = nat (dep_bit (vDeployments params pos')) \<longleftrightarrow> pos = pos'" for pos pos'
    using distinct bits [of pos] bits [of pos'] by (cases pos; cases pos') auto
  have "29 \<le> n \<Longrightarrow> bit ?w n \<longleftrightarrow> n = 29" for n unfolding w using small by (metis not_less)
  then have "bit ?w 29" "\<not> bit ?w 30" "\<not> bit ?w 31" by simp_all
  moreover have "bit ?w (nat (dep_bit (vDeployments params pos))) \<longleftrightarrow> to_signal m params q pos" for pos
    unfolding w using small [of pos] by (auto simp: inj)
  ultimately have "version_signals (vDeployments params pos) (sint ?w) \<longleftrightarrow> to_signal m params q pos" for pos
    using version_signals_bits [of "vDeployments params pos" ?w] bits by blast
  with c show ?thesis by (auto simp: ComputeBlockVersion_def to_signal_def)
qed

lemma sample_params_sel [simp]:
  "dep_bit (vDeployments sample_params pos) = (case pos of DEPLOYMENT_TESTDUMMY \<Rightarrow> 0 | DEPLOYMENT_TAPROOT \<Rightarrow> 1)"
  "Period (checker_for sample_params pos) = 1"
  "BeginTime (checker_for sample_params pos) = (case pos of DEPLOYMENT_TESTDUMMY \<Rightarrow> 0 | DEPLOYMENT_TAPROOT \<Rightarrow> 500)"
  by (cases pos; simp add: sample_params_def deployment_def checker_for_def VersionBitsConditionChecker_def)+

lemma sample_reported:
  "reported_state sample_index (checker_for sample_params DEPLOYMENT_TESTDUMMY) (Some [0]) = STARTED"
  "reported_state sample_index (checker_for sample_params DEPLOYMENT_TAPROOT) (Some [0]) = DEFINED"
  by (simp_all add: reported_state_def deployment_state_def periods_def sample_index_at ancestor_at_def transition_def
      sample_median ALWAYS_ACTIVE_def NEVER_ACTIVE_def)

theorem ComputeBlockVersion_signals_witness:
  "\<exists>ver caches'. ComputeBlockVersion sample_index (Some [0]) sample_params (\<lambda>pos. Map.empty) = Some (ver, caches') \<and>
    version_signals (vDeployments sample_params DEPLOYMENT_TESTDUMMY) ver \<and>
    \<not> version_signals (vDeployments sample_params DEPLOYMENT_TAPROOT) ver"
  using ComputeBlockVersion_signals [of sample_index sample_params "Some [0]" "\<lambda>pos. Map.empty"]
    sample_index_wf sample_times_checked cache_sound_empty sample_reported
  by (fastforce simp: sample_index_at split: DeploymentPos.splits)

end
