(* ===== verification/Merkle.thy ===== *)
theory Merkle
  imports Block "HOL-Library.Monad_Syntax"
begin

unbundle bit_operations_syntax

text \<open>
  Merkle trees of \<^verbatim>\<open>consensus/merkle.cpp\<close>: the level-by-level root with its check for
  duplicated subtrees, and the constant-space calculator of roots and paths. The hash of two nodes is an
  argument: \<^verbatim>\<open>SHA256D64\<close> for the root, \<^verbatim>\<open>Hash\<close> for paths, both on 64 bytes.
\<close>

section \<open>Model\<close>

subsection \<open>The root\<close>

fun equal_pairs :: "uint256 list \<Rightarrow> bool" where
  "equal_pairs (a # b # rest) \<longleftrightarrow> a = b \<or> equal_pairs rest"
| "equal_pairs hashes \<longleftrightarrow> False"

text \<open>\<^verbatim>\<open>SHA256D64\<close> hashes consecutive 64-byte blocks.\<close>

fun hash_pairs :: "(bytes \<Rightarrow> uint256) \<Rightarrow> uint256 list \<Rightarrow> uint256 list" where
  "hash_pairs D64 (a # b # rest) = D64 (a @ b) # hash_pairs D64 rest"
| "hash_pairs D64 hashes = []"

lemma length_hash_pairs [simp]: "length (hash_pairs D64 hs) = length hs div 2"
  by (induction D64 hs rule: hash_pairs.induct) auto

definition pad_level :: "uint256 list \<Rightarrow> uint256 list" where
  "pad_level hashes = (if odd (length hashes) then hashes @ [last hashes] else hashes)"

function merkle_loop :: "(bytes \<Rightarrow> uint256) \<Rightarrow> bool \<Rightarrow> uint256 list \<Rightarrow> bool \<Rightarrow> uint256 list \<times> bool" where
  "merkle_loop D64 want hashes mutation =
     (if length hashes > 1
      then merkle_loop D64 want (hash_pairs D64 (pad_level hashes)) (mutation \<or> want \<and> equal_pairs hashes)
      else (hashes, mutation))"
  by auto
termination
  by (relation "measure (\<lambda>(D64, want, hashes, mutation). length hashes)") (auto simp: pad_level_def elim!: oddE)

declare merkle_loop.simps [simp del]

text \<open>The flag is reported only when the caller passes a place for it (\<open>want\<close>).\<close>

definition ComputeMerkleRoot :: "(bytes \<Rightarrow> uint256) \<Rightarrow> bool \<Rightarrow> uint256 list \<Rightarrow> uint256 \<times> bool option" where
  "ComputeMerkleRoot D64 want hashes =
     (let (hashes', mutation) = merkle_loop D64 want hashes False
      in (if length hashes' = 0 then uint256_zero else hashes' ! 0, if want then Some mutation else None))"

definition BlockMerkleRoot ::
  "(bytes \<Rightarrow> uint256) \<Rightarrow> (bytes \<Rightarrow> uint256) \<Rightarrow> bool \<Rightarrow> CBlock \<Rightarrow> uint256 \<times> bool option" where
  "BlockMerkleRoot H D64 want block = ComputeMerkleRoot D64 want (map (ComputeHash H) (vtx block))"

text \<open>A block without transactions makes the code write outside the vector.\<close>

definition BlockWitnessMerkleRoot ::
  "(bytes \<Rightarrow> uint256) \<Rightarrow> (bytes \<Rightarrow> uint256) \<Rightarrow> bool \<Rightarrow> CBlock \<Rightarrow> (uint256 \<times> bool option) option" where
  "BlockWitnessMerkleRoot H D64 want block =
     (case vtx block of
        [] \<Rightarrow> None
      | _ # txs \<Rightarrow> Some (ComputeMerkleRoot D64 want (uint256_zero # map (ComputeWitnessHash H) txs)))"

subsection \<open>The constant-space calculator\<close>

definition path_push :: "bool \<Rightarrow> int \<Rightarrow> nat \<Rightarrow> uint256 \<Rightarrow> uint256 \<Rightarrow> uint256 list \<Rightarrow> bool \<times> uint256 list" where
  "path_push matchh matchlevel level left h path =
     (if matchh then (True, path @ [left])
      else if matchlevel = int level then (True, path @ [h])
      else (False, path))"

text \<open>The step for each low zero bit of \<^verbatim>\<open>count\<close>; level 32 is outside the array \<^verbatim>\<open>inner\<close>.\<close>

function merkle_carry ::
  "(bytes \<Rightarrow> uint256) \<Rightarrow> u32 \<Rightarrow> uint256 list \<Rightarrow> int \<Rightarrow> nat \<Rightarrow> uint256 \<Rightarrow> bool \<Rightarrow> bool \<Rightarrow> uint256 list \<Rightarrow>
   (nat \<times> uint256 \<times> bool \<times> bool \<times> uint256 list) option" where
  "merkle_carry Hash2 count inner matchlevel level h matchh mutated path =
     (if 32 \<le> level then None
      else if count AND push_bit level 1 \<noteq> 0 then Some (level, h, matchh, mutated, path)
      else let (matchh', path') = path_push matchh matchlevel level (inner ! level) h path
           in merkle_carry Hash2 count inner matchlevel (Suc level) (Hash2 (inner ! level @ h)) matchh'
                (mutated \<or> inner ! level = h) path')"
  by auto
termination
  by (relation "measure (\<lambda>(Hash2, count, inner, matchlevel, level, r). 32 - level)") auto

declare merkle_carry.simps [simp del]

fun merkle_leaves ::
  "(bytes \<Rightarrow> uint256) \<Rightarrow> u32 \<Rightarrow> uint256 list \<Rightarrow> u32 \<Rightarrow> uint256 list \<Rightarrow> int \<Rightarrow> bool \<Rightarrow> uint256 list \<Rightarrow>
   (u32 \<times> uint256 list \<times> int \<times> bool \<times> uint256 list) option" where
  "merkle_leaves Hash2 leaf_pos [] count inner matchlevel mutated path = Some (count, inner, matchlevel, mutated, path)"
| "merkle_leaves Hash2 leaf_pos (leaf # leaves) count inner matchlevel mutated path =
     (case merkle_carry Hash2 (count + 1) inner matchlevel 0 leaf (count = leaf_pos) mutated path of
        None \<Rightarrow> None
      | Some (level, h, matchh, mutated', path') \<Rightarrow>
          merkle_leaves Hash2 leaf_pos leaves (count + 1) (inner[level := h])
            (if matchh then int level else matchlevel) mutated' path')"

function first_level :: "u32 \<Rightarrow> nat \<Rightarrow> nat option" where
  "first_level count level =
     (if 32 \<le> level then None
      else if count AND push_bit level 1 \<noteq> 0 then Some level else first_level count (Suc level))"
  by auto
termination
  by (relation "measure (\<lambda>(count, level). 32 - level)") auto

declare first_level.simps [simp del]

function sweep_up ::
  "(bytes \<Rightarrow> uint256) \<Rightarrow> u32 \<Rightarrow> uint256 list \<Rightarrow> int \<Rightarrow> nat \<Rightarrow> uint256 \<Rightarrow> bool \<Rightarrow> uint256 list \<Rightarrow>
   (nat \<times> uint256 \<times> bool \<times> uint256 list) option" where
  "sweep_up Hash2 count inner matchlevel level h matchh path =
     (if 32 \<le> level then None
      else if count AND push_bit level 1 \<noteq> 0 then Some (level, h, matchh, path)
      else let (matchh', path') = path_push matchh matchlevel level (inner ! level) h path
           in sweep_up Hash2 count inner matchlevel (Suc level) (Hash2 (inner ! level @ h)) matchh' path')"
  by auto
termination
  by (relation "measure (\<lambda>(Hash2, count, inner, matchlevel, level, r). 32 - level)") auto

declare sweep_up.simps [simp del]

lemma sweep_up_level:
  "sweep_up Hash2 count inner matchlevel level h matchh path = Some (level', r) \<Longrightarrow> level \<le> level' \<and> level' < 32"
proof (induction Hash2 count inner matchlevel level h matchh path rule: sweep_up.induct)
  case (1 Hash2 count inner matchlevel level h matchh path)
  show ?case
    using "1.prems" [unfolded sweep_up.simps [of Hash2 count inner matchlevel level h matchh path]]
      "1.IH" [OF _ _ refl prod.collapse]
    by (auto split: if_splits prod.splits dest: Suc_leD)
qed

function merkle_sweep ::
  "(bytes \<Rightarrow> uint256) \<Rightarrow> uint256 list \<Rightarrow> int \<Rightarrow> nat \<Rightarrow> u32 \<Rightarrow> uint256 \<Rightarrow> bool \<Rightarrow> uint256 list \<Rightarrow>
   (uint256 \<times> uint256 list) option" where
  "merkle_sweep Hash2 inner matchlevel level count h matchh path =
     (if 32 \<le> level then None
      else if count = push_bit level 1 then Some (h, path)
      else let path' = (if matchh then path @ [h] else path);
               count' = count + push_bit level 1
           in case sweep_up Hash2 count' inner matchlevel (Suc level) (Hash2 (h @ h)) matchh path' of
                None \<Rightarrow> None
              | Some (level', h', matchh', path'') \<Rightarrow>
                  merkle_sweep Hash2 inner matchlevel level' count' h' matchh' path'')"
  by auto
termination
  by (relation "measure (\<lambda>(Hash2, inner, matchlevel, level, r). 32 - level)")
    (auto dest!: sweep_up_level)

declare merkle_sweep.simps [simp del]

text \<open>
  The root, the flag and the path; \<^verbatim>\<open>Assume\<close> on the number of leaves is an assertion.
\<close>

definition MerkleComputation ::
  "(bytes \<Rightarrow> uint256) \<Rightarrow> uint256 list \<Rightarrow> u32 \<Rightarrow> (uint256 \<times> bool \<times> uint256 list) option" where
  "MerkleComputation Hash2 leaves leaf_pos =
     (if length leaves > UINT32_MAX then None
      else if leaves = [] then Some (uint256_zero, False, [])
      else do {
        (count, inner, matchlevel, mutated, path) \<leftarrow>
          merkle_leaves Hash2 leaf_pos leaves 0 (replicate 32 uint256_zero) (-1) False [];
        level \<leftarrow> first_level count 0;
        (h, path') \<leftarrow> merkle_sweep Hash2 inner matchlevel level count (inner ! level) (matchlevel = int level) path;
        Some (h, mutated, path')
      })"

definition ComputeMerklePath :: "(bytes \<Rightarrow> uint256) \<Rightarrow> uint256 list \<Rightarrow> u32 \<Rightarrow> uint256 list option" where
  "ComputeMerklePath Hash2 leaves position =
     map_option (\<lambda>(h, mutated, path). path) (MerkleComputation Hash2 leaves position)"

definition TransactionMerklePath ::
  "(bytes \<Rightarrow> uint256) \<Rightarrow> (bytes \<Rightarrow> uint256) \<Rightarrow> CBlock \<Rightarrow> u32 \<Rightarrow> uint256 list option" where
  "TransactionMerklePath H Hash2 block position = ComputeMerklePath Hash2 (map (ComputeHash H) (vtx block)) position"

section \<open>Levels of the tree\<close>

definition next_level :: "(bytes \<Rightarrow> uint256) \<Rightarrow> uint256 list \<Rightarrow> uint256 list" where
  "next_level D64 hs = hash_pairs D64 (pad_level hs)"

abbreviation level_at :: "(bytes \<Rightarrow> uint256) \<Rightarrow> uint256 list \<Rightarrow> nat \<Rightarrow> uint256 list" where
  "level_at D64 hs l \<equiv> (next_level D64 ^^ l) hs"

lemma length_pad_level: "length (pad_level hs) = 2 * ((length hs + 1) div 2)"
  by (auto simp: pad_level_def elim!: oddE)

lemma length_next_level [simp]: "length (next_level D64 hs) = (length hs + 1) div 2"
  by (simp add: next_level_def length_pad_level)

lemma nth_hash_pairs: "i < length hs div 2 \<Longrightarrow> hash_pairs D64 hs ! i = D64 (hs ! (2 * i) @ hs ! (2 * i + 1))"
proof (induction D64 hs arbitrary: i rule: hash_pairs.induct)
  case (1 D64 a b rest)
  then show ?case by (cases i) auto
qed auto

lemma nth_pad_level:
  "i < length hs \<Longrightarrow> pad_level hs ! i = hs ! i"
  "odd (length hs) \<Longrightarrow> pad_level hs ! length hs = hs ! (length hs - 1)"
  by (auto simp: pad_level_def nth_append) (metis even_zero last_conv_nth length_0_conv One_nat_def)

lemma nth_next_level:
  "i < (length hs + 1) div 2 \<Longrightarrow>
     next_level D64 hs ! i = D64 (pad_level hs ! (2 * i) @ pad_level hs ! (2 * i + 1))"
  by (simp add: next_level_def nth_hash_pairs length_pad_level)

lemma equal_pairs_nth:
  "equal_pairs hs \<longleftrightarrow> (\<exists>i. 2 * i + 1 < length hs \<and> hs ! (2 * i) = hs ! (2 * i + 1))"
proof (induction hs rule: equal_pairs.induct)
  case (1 a b rest)
  have "(\<exists>i. P i) \<longleftrightarrow> P 0 \<or> (\<exists>i. P (Suc i))" for P :: "nat \<Rightarrow> bool" by (metis not0_implies_Suc)
  note split = this [of "\<lambda>i. 2 * i + 1 < length (a # b # rest) \<and> (a # b # rest) ! (2 * i) = (a # b # rest) ! (2 * i + 1)"]
  show ?case unfolding split using 1 by simp
qed auto

text \<open>The loop climbs to the first level of at most one node and reports equal pairs below it.\<close>

lemma merkle_loop_levels:
  "\<exists>d. fst (merkle_loop D64 want hs m) = level_at D64 hs d \<and> length (level_at D64 hs d) \<le> 1 \<and>
     (\<forall>k<d. 1 < length (level_at D64 hs k)) \<and>
     (snd (merkle_loop D64 want hs m) \<longleftrightarrow> m \<or> want \<and> (\<exists>k<d. equal_pairs (level_at D64 hs k)))"
proof (induction D64 want hs m rule: merkle_loop.induct)
  case (1 D64 want hs m)
  show ?case
  proof (cases "length hs > 1")
    case True
    from "1.IH" [OF True] obtain d where d:
      "fst (merkle_loop D64 want (next_level D64 hs) (m \<or> want \<and> equal_pairs hs)) = level_at D64 (next_level D64 hs) d"
      "length (level_at D64 (next_level D64 hs) d) \<le> 1" "\<forall>k<d. 1 < length (level_at D64 (next_level D64 hs) k)"
      "snd (merkle_loop D64 want (next_level D64 hs) (m \<or> want \<and> equal_pairs hs)) \<longleftrightarrow>
        (m \<or> want \<and> equal_pairs hs) \<or> want \<and> (\<exists>k<d. equal_pairs (level_at D64 (next_level D64 hs) k))"
      unfolding next_level_def by blast
    have eq: "merkle_loop D64 want hs m = merkle_loop D64 want (next_level D64 hs) (m \<or> want \<and> equal_pairs hs)"
      using True by (simp add: merkle_loop.simps [of D64 want hs] next_level_def)
    have "\<forall>k<Suc d. 1 < length (level_at D64 hs k)"
      using d(3) True by (auto simp: less_Suc_eq_0_disj funpow_swap1)
    moreover have "(\<exists>k<Suc d. equal_pairs (level_at D64 hs k)) \<longleftrightarrow>
        equal_pairs hs \<or> (\<exists>k<d. equal_pairs (level_at D64 (next_level D64 hs) k))"
      by (auto simp: less_Suc_eq_0_disj funpow_swap1)
    ultimately show ?thesis
      using d(1,2,4) unfolding eq by (intro exI [of _ "Suc d"]) (auto simp: funpow_swap1)
  next
    case False
    then show ?thesis by (intro exI [of _ 0]) (simp add: merkle_loop.simps)
  qed
qed

section \<open>The root commits to the leaves\<close>

definition blobs :: "uint256 list \<Rightarrow> bool" where
  "blobs hs \<longleftrightarrow> (\<forall>h\<in>set hs. length h = 32)"

text \<open>
  The blocks of 64 bytes that are hashed on the way to the root, level by level. A collision has to be
  between two of them.
\<close>

fun pair_blocks :: "uint256 list \<Rightarrow> bytes list" where
  "pair_blocks (a # b # rest) = (a @ b) # pair_blocks rest"
| "pair_blocks hashes = []"

function hashed_blocks :: "(bytes \<Rightarrow> uint256) \<Rightarrow> uint256 list \<Rightarrow> bytes list" where
  "hashed_blocks D64 hs =
     (if length hs > 1 then pair_blocks (pad_level hs) @ hashed_blocks D64 (next_level D64 hs) else [])"
  by auto
termination
  by (relation "measure (\<lambda>(D64, hs). length hs)") auto

declare hashed_blocks.simps [simp del]

definition collides :: "(bytes \<Rightarrow> uint256) \<Rightarrow> bytes list \<Rightarrow> bytes list \<Rightarrow> bool" where
  "collides D64 as bs \<longleftrightarrow> (\<exists>a \<in> set as. \<exists>b \<in> set bs. a \<noteq> b \<and> D64 a = D64 b)"

lemma hash_pairs_blocks: "hash_pairs D64 hs = map D64 (pair_blocks hs)"
  by (induction hs rule: pair_blocks.induct) auto

lemma length_pair_blocks [simp]: "length (pair_blocks hs) = length hs div 2"
  by (induction hs rule: pair_blocks.induct) auto

lemma nth_pair_blocks: "i < length hs div 2 \<Longrightarrow> pair_blocks hs ! i = hs ! (2 * i) @ hs ! (2 * i + 1)"
proof (induction hs arbitrary: i rule: pair_blocks.induct)
  case (1 a b rest)
  then show ?case by (cases i) auto
qed auto

lemma hashed_blocks_level:
  "\<forall>j\<le>k. 1 < length (level_at D64 hs j) \<Longrightarrow> set (pair_blocks (pad_level (level_at D64 hs k))) \<subseteq> set (hashed_blocks D64 hs)"
proof (induction k arbitrary: hs)
  case 0
  then show ?case by (auto simp: hashed_blocks.simps [of D64 hs])
next
  case (Suc k)
  have "\<forall>j\<le>k. 1 < length (level_at D64 (next_level D64 hs) j)"
    using Suc.prems by (metis Suc_le_mono comp_apply funpow_Suc_right)
  moreover have "1 < length hs" using Suc.prems by (metis funpow_0 zero_le)
  ultimately show ?case using Suc.IH [of "next_level D64 hs"]
    by (auto simp: hashed_blocks.simps [of D64 hs] funpow_swap1)
qed

lemma blobs_pad_level [simp]: "blobs hs \<Longrightarrow> blobs (pad_level hs)"
  by (auto simp: blobs_def pad_level_def) (metis even_zero last_in_set length_0_conv)

lemma blobs_level_at:
  assumes "\<And>a. length (D64 a) = 32" "blobs hs"
  shows "blobs (level_at D64 hs k)"
proof (induction k)
  case (Suc k)
  then show ?case using assms(1) by (auto simp: blobs_def next_level_def hash_pairs_blocks)
qed (use assms in simp)

lemma equal_pairs_tail:
  assumes "odd (length zs)"
  shows "equal_pairs (zs @ [last zs])"
proof -
  obtain b where b: "length zs = 2 * b + 1" using assms by (rule oddE)
  then have "zs \<noteq> []" by auto
  then show ?thesis unfolding equal_pairs_nth by (intro exI [of _ b]) (simp add: b nth_append last_conv_nth)
qed

lemma next_level_inj:
  assumes col: "\<not> collides D64 (pair_blocks (pad_level xs)) (pair_blocks (pad_level ys))"
    and b: "blobs xs" "blobs ys" and eq: "next_level D64 xs = next_level D64 ys"
    and no: "\<not> equal_pairs xs" "\<not> equal_pairs ys" and ne: "xs \<noteq> []" "ys \<noteq> []"
  shows "xs = ys"
proof -
  let ?n = "(length xs + 1) div 2"
  have len: "(length ys + 1) div 2 = ?n" using arg_cong [OF eq, of length] by simp
  have pads: "pad_level xs ! (2 * i) = pad_level ys ! (2 * i) \<and> pad_level xs ! (2 * i + 1) = pad_level ys ! (2 * i + 1)"
    if i: "i < ?n" for i
  proof -
    have l: "length (pad_level zs ! j) = 32" if "blobs zs" "j < 2 * ((length zs + 1) div 2)" for zs j
      using blobs_pad_level [OF that(1)] that(2) nth_mem [of j "pad_level zs"] by (simp add: blobs_def length_pad_level)
    let ?a = "pair_blocks (pad_level xs) ! i" and ?b = "pair_blocks (pad_level ys) ! i"
    have "?a \<in> set (pair_blocks (pad_level xs))" "?b \<in> set (pair_blocks (pad_level ys))"
      using i len by (auto intro!: nth_mem simp: length_pad_level)
    moreover have "D64 ?a = D64 ?b"
      using arg_cong [OF eq, of "\<lambda>hs. hs ! i"] i len by (simp add: next_level_def hash_pairs_blocks length_pad_level)
    ultimately have "?a = ?b" using col by (auto simp: collides_def)
    moreover have "length (pad_level xs ! (2 * i)) = 32" "length (pad_level ys ! (2 * i)) = 32"
      using l [OF b(1)] l [OF b(2)] i len by simp_all
    ultimately show ?thesis using i len by (simp add: nth_pair_blocks length_pad_level)
  qed
  have "pad_level xs = pad_level ys"
  proof (rule nth_equalityI)
    fix j assume "j < length (pad_level xs)"
    then have "j div 2 < ?n" by (simp add: length_pad_level less_mult_imp_div_less mult.commute)
    from pads [OF this] show "pad_level xs ! j = pad_level ys ! j" by (cases "even j") auto
  qed (use len in \<open>simp add: length_pad_level\<close>)
  then show ?thesis using no ne equal_pairs_tail [of xs] equal_pairs_tail [of ys] by (auto simp: pad_level_def split: if_splits)
qed

definition unequal_levels :: "(bytes \<Rightarrow> uint256) \<Rightarrow> uint256 list \<Rightarrow> nat \<Rightarrow> bool" where
  "unequal_levels D64 hs n \<longleftrightarrow> (\<forall>k<n. 1 < length (level_at D64 hs k) \<and> \<not> equal_pairs (level_at D64 hs k))"

lemma levels_inj:
  assumes "\<not> collides D64 (hashed_blocks D64 xs) B" "\<And>a. length (D64 a) = 32" "blobs xs" "blobs ys"
  shows "level_at D64 xs n = level_at D64 ys n \<Longrightarrow> unequal_levels D64 xs n \<Longrightarrow> unequal_levels D64 ys n \<Longrightarrow>
    (\<forall>k<n. set (pair_blocks (pad_level (level_at D64 ys k))) \<subseteq> set B) \<Longrightarrow> xs = ys"
proof (induction n)
  case (Suc n)
  have "\<forall>j\<le>n. 1 < length (level_at D64 xs j)" using Suc.prems(2) by (auto simp: unequal_levels_def)
  from hashed_blocks_level [OF this] Suc.prems(4)
  have "\<not> collides D64 (pair_blocks (pad_level (level_at D64 xs n))) (pair_blocks (pad_level (level_at D64 ys n)))"
    using assms(1) unfolding collides_def by blast
  moreover have "level_at D64 xs n \<noteq> []" "level_at D64 ys n \<noteq> []" "\<not> equal_pairs (level_at D64 xs n)" "\<not> equal_pairs (level_at D64 ys n)"
    using Suc.prems(2,3) by (auto simp: unequal_levels_def)
  ultimately have "level_at D64 xs n = level_at D64 ys n"
    using next_level_inj [OF _ blobs_level_at [OF assms(2,3)] blobs_level_at [OF assms(2,4)]] Suc.prems(1) by simp
  then show ?case using Suc by (simp add: unequal_levels_def)
qed simp

text \<open>Trees of different depth: the leaves of the shallow one are nodes of the other.\<close>

lemma shallow_leaves_inner:
  assumes "\<not> collides D64 (hashed_blocks D64 xs) (hashed_blocks D64 ys)" "\<And>a. length (D64 a) = 32" "blobs xs" "blobs ys"
    and eq: "level_at D64 xs d = level_at D64 ys (d + Suc e)"
    and un: "unequal_levels D64 xs d" "unequal_levels D64 ys (d + Suc e)"
  shows "set xs \<subseteq> D64 ` set (hashed_blocks D64 ys)"
proof -
  have add: "level_at D64 (level_at D64 ys (Suc e)) k = level_at D64 ys (k + Suc e)" for k
    using funpow_add [of k "Suc e" "next_level D64"] by simp
  have in_ys: "set (pair_blocks (pad_level (level_at D64 ys k))) \<subseteq> set (hashed_blocks D64 ys)" if "k < d + Suc e" for k
    using un(2) that by (intro hashed_blocks_level) (auto simp: unequal_levels_def)
  have "xs = level_at D64 ys (Suc e)"
  proof (rule levels_inj [OF assms(1-3) blobs_level_at [OF assms(2,4)]])
    show "level_at D64 xs d = level_at D64 (level_at D64 ys (Suc e)) d" unfolding add by (rule eq)
    show "unequal_levels D64 (level_at D64 ys (Suc e)) d" using un(2) unfolding unequal_levels_def add by (simp del: funpow.simps)
    show "\<forall>k<d. set (pair_blocks (pad_level (level_at D64 (level_at D64 ys (Suc e)) k))) \<subseteq> set (hashed_blocks D64 ys)"
      unfolding add using in_ys by (simp del: funpow.simps)
  qed (rule un(1))
  then have "set xs = D64 ` set (pair_blocks (pad_level (level_at D64 ys e)))" by (simp add: next_level_def hash_pairs_blocks)
  then show ?thesis using in_ys [of e] by auto
qed

lemma ComputeMerkleRoot_levels:
  assumes "hs \<noteq> []" "ComputeMerkleRoot D64 True hs = (mroot, Some False)"
  shows "\<exists>d. level_at D64 hs d = [mroot] \<and> unequal_levels D64 hs d"
proof -
  obtain d where d: "fst (merkle_loop D64 True hs False) = level_at D64 hs d" "length (level_at D64 hs d) \<le> 1"
      "\<forall>k<d. 1 < length (level_at D64 hs k)"
      "snd (merkle_loop D64 True hs False) \<longleftrightarrow> (\<exists>k<d. equal_pairs (level_at D64 hs k))"
    using merkle_loop_levels [of D64 True hs False] by auto
  have "0 < length (level_at D64 hs k)" for k using assms(1) by (induction k) auto
  then obtain r where r: "level_at D64 hs d = [r]" using d(2) by (metis One_nat_def Suc_leI le_antisym length_0_conv length_Suc_conv less_irrefl)
  then have "r = mroot" "\<not> snd (merkle_loop D64 True hs False)"
    using assms(2) d(1) by (auto simp: ComputeMerkleRoot_def split: prod.splits)
  with r d(3,4) show ?thesis by (auto simp: unequal_levels_def)
qed

text \<open>
  C13. The root commits to the list of leaves, once the duplicated-subtree flag is checked. Take two
  non-empty lists of hashes with the same root and no flag. Then they are equal, or two different blocks that
  were hashed on the way to the two roots have the same hash, or the trees have different depths and every leaf of the
  shallow one is the hash of a block that was hashed in the other.
\<close>

theorem merkle_root_binding:
  assumes "\<And>a. length (D64 a) = 32" "blobs xs" "blobs ys" "xs \<noteq> []" "ys \<noteq> []"
    and "ComputeMerkleRoot D64 True xs = (mroot, Some False)" "ComputeMerkleRoot D64 True ys = (mroot, Some False)"
  shows "xs = ys \<or> (\<exists>a \<in> set (hashed_blocks D64 xs). \<exists>b \<in> set (hashed_blocks D64 ys). a \<noteq> b \<and> D64 a = D64 b) \<or>
    set xs \<subseteq> D64 ` set (hashed_blocks D64 ys) \<or> set ys \<subseteq> D64 ` set (hashed_blocks D64 xs)"
proof (cases "collides D64 (hashed_blocks D64 xs) (hashed_blocks D64 ys)")
  case no: False
  then have on: "\<not> collides D64 (hashed_blocks D64 ys) (hashed_blocks D64 xs)" unfolding collides_def by metis
  obtain d where d: "level_at D64 xs d = [mroot]" "unequal_levels D64 xs d" using ComputeMerkleRoot_levels [OF assms(4,6)] by blast
  obtain e where e: "level_at D64 ys e = [mroot]" "unequal_levels D64 ys e" using ComputeMerkleRoot_levels [OF assms(5,7)] by blast
  consider "d = e" | k where "e = d + Suc k" | k where "d = e + Suc k" by (metis less_iff_Suc_add linorder_neqE_nat add_Suc_right)
  then show ?thesis
  proof cases
    case 1
    have "\<forall>k<e. set (pair_blocks (pad_level (level_at D64 ys k))) \<subseteq> set (hashed_blocks D64 ys)"
      using e(2) by (auto simp: unequal_levels_def intro!: hashed_blocks_level [THEN subsetD])
    then show ?thesis using levels_inj [OF no assms(1-3), of e] d e 1 by simp
  next
    case 2
    then show ?thesis using shallow_leaves_inner [OF no assms(1-3), of d k] d e by metis
  next
    case 3
    then show ?thesis using shallow_leaves_inner [OF on assms(1,3,2), of e k] d e by metis
  qed
qed (auto simp: collides_def)

definition sample_hash :: "bytes \<Rightarrow> uint256" where
  "sample_hash a = take 32 (a @ replicate 32 0)"

theorem merkle_root_binding_witness:
  "ComputeMerkleRoot sample_hash True [replicate 32 1] = ComputeMerkleRoot sample_hash True [replicate 32 1, replicate 32 2] \<and>
   replicate 32 1 \<in> sample_hash ` set (hashed_blocks sample_hash [replicate 32 1, replicate 32 2])"
proof -
  have r: "ComputeMerkleRoot sample_hash True [replicate 32 1] = (replicate 32 1, Some False)"
    "ComputeMerkleRoot sample_hash True [replicate 32 1, replicate 32 2] = (replicate 32 1, Some False)"
    by (simp_all add: ComputeMerkleRoot_def merkle_loop.simps pad_level_def sample_hash_def)
  have len: "length (sample_hash a) = 32" for a by (simp add: sample_hash_def)
  have b: "blobs [replicate 32 1]" "blobs [replicate 32 1, replicate 32 2]" by (simp_all add: blobs_def)
  have "hashed_blocks sample_hash [replicate 32 1] = []" by (simp add: hashed_blocks.simps)
  then show ?thesis using merkle_root_binding [OF len b _ _ r] by (simp add: r)
qed

lemma merkle_loop_fst: "fst (merkle_loop D64 want hs m) = fst (merkle_loop D64 want' hs m')"
proof (induction D64 want hs m arbitrary: m' rule: merkle_loop.induct)
  case (1 D64 want hs m)
  then show ?case by (simp add: merkle_loop.simps [of D64 _ hs])
qed

text \<open>The duplication of CVE-2012-2459: the same root, and the flag is set.\<close>

lemma duplicate_tail_same_root:
  assumes "odd (length xs)" "1 < length xs"
  shows "fst (ComputeMerkleRoot D64 want (xs @ [last xs])) = fst (ComputeMerkleRoot D64 want' xs)"
    and "snd (ComputeMerkleRoot D64 True (xs @ [last xs])) = Some True"
proof -
  let ?ys = "xs @ [last xs]"
  have pad: "pad_level ?ys = ?ys" "pad_level xs = ?ys" using assms(1) by (simp_all add: pad_level_def)
  have step: "merkle_loop D64 w ?ys m = merkle_loop D64 w (hash_pairs D64 ?ys) (m \<or> w \<and> equal_pairs ?ys)" for w m
    using assms pad by (cases "xs = []") (auto simp: merkle_loop.simps [of D64 w ?ys])
  have "merkle_loop D64 want' xs m = merkle_loop D64 want' (hash_pairs D64 ?ys) (m \<or> want' \<and> equal_pairs xs)" for m
    using assms pad by (simp add: merkle_loop.simps [of D64 want' xs])
  then have "fst (merkle_loop D64 want ?ys False) = fst (merkle_loop D64 want' xs False)"
    unfolding step by (metis merkle_loop_fst)
  then show "fst (ComputeMerkleRoot D64 want ?ys) = fst (ComputeMerkleRoot D64 want' xs)"
    by (simp add: ComputeMerkleRoot_def case_prod_unfold Let_def)
  have "snd (merkle_loop D64 True (hash_pairs D64 ?ys) True)"
    using merkle_loop_levels [of D64 True "hash_pairs D64 ?ys" True] by auto
  then show "snd (ComputeMerkleRoot D64 True ?ys) = Some True"
    using step [of True False] equal_pairs_tail [OF assms(1)]
    by (simp add: ComputeMerkleRoot_def case_prod_unfold Let_def)
qed

section \<open>The constant-space calculator\<close>

definition node :: "(bytes \<Rightarrow> uint256) \<Rightarrow> uint256 list \<Rightarrow> nat \<Rightarrow> nat \<Rightarrow> uint256" where
  "node H xs l i = level_at H xs l ! i"

text \<open>The sibling, on the padded level, of the node above position \<open>pos\<close>.\<close>

definition sibling :: "(bytes \<Rightarrow> uint256) \<Rightarrow> uint256 list \<Rightarrow> nat \<Rightarrow> nat \<Rightarrow> uint256" where
  "sibling H xs pos l =
     (let i = pos div 2 ^ l in pad_level (level_at H xs l) ! (if even i then i + 1 else i - 1))"

lemma level_width: "length (level_at H xs l) = (length xs + 2 ^ l - 1) div 2 ^ l"
proof (induction l)
  case (Suc l)
  have "((n + 2 ^ l - 1) div 2 ^ l + 1) div 2 = (n + 2 ^ Suc l - 1) div 2 ^ Suc l" for n :: nat
  proof -
    have "(n + 2 ^ l - 1) div 2 ^ l + 1 = (n + 2 ^ l - 1 + 2 ^ l) div 2 ^ l" by simp
    also have "n + 2 ^ l - 1 + 2 ^ l = n + 2 ^ Suc l - 1" by simp
    finally have "((n + 2 ^ l - 1) div 2 ^ l + 1) div 2 = (n + 2 ^ Suc l - 1) div 2 ^ l div 2" by simp
    also have "\<dots> = (n + 2 ^ Suc l - 1) div (2 ^ l * 2)" by (rule div_mult2_eq [symmetric])
    finally show ?thesis by (simp add: mult.commute)
  qed
  with Suc show ?case by simp
qed simp

lemma level_width_ge:
  assumes "2 ^ l dvd c" "c < length xs + 2 ^ l"
  shows "c div 2 ^ l \<le> length (level_at H xs l)"
  unfolding level_width by (rule div_le_mono) (use assms in simp)

lemma node_pair:
  assumes "2 * i + 1 < length (level_at H xs l)"
  shows "node H xs (Suc l) i = H (node H xs l (2 * i) @ node H xs l (2 * i + 1))"
  using assms nth_next_level [of i "level_at H xs l" H] by (simp add: node_def nth_pad_level)

lemma node_odd:
  assumes "2 * i + 1 = length (level_at H xs l)"
  shows "node H xs (Suc l) i = H (node H xs l (2 * i) @ node H xs l (2 * i))"
proof -
  have "odd (length (level_at H xs l))" unfolding assms [symmetric] by simp
  from nth_pad_level(2) [OF this, unfolded assms [symmetric]] have "pad_level (level_at H xs l) ! (2 * i + 1) = level_at H xs l ! (2 * i)"
    by simp
  then show ?thesis
    using assms nth_next_level [of i "level_at H xs l" H] nth_pad_level(1) [of "2 * i" "level_at H xs l"]
    by (simp add: node_def)
qed

lemma pad_node: "i < length (level_at H xs l) \<Longrightarrow> pad_level (level_at H xs l) ! i = node H xs l i"
  by (simp add: node_def nth_pad_level)

definition inner_ok :: "(bytes \<Rightarrow> uint256) \<Rightarrow> uint256 list \<Rightarrow> nat \<Rightarrow> nat \<Rightarrow> nat \<Rightarrow> uint256 list \<Rightarrow> int \<Rightarrow> bool" where
  "inner_ok H xs pos c l inner ml \<longleftrightarrow>
     (\<forall>k\<ge>l. 2 ^ Suc k dvd c \<longrightarrow>
        inner ! k = node H xs k (c div 2 ^ k - 2) \<and> (ml = int k \<longleftrightarrow> pos div 2 ^ k = c div 2 ^ k - 2))"

definition climbing ::
  "(bytes \<Rightarrow> uint256) \<Rightarrow> uint256 list \<Rightarrow> nat \<Rightarrow> nat \<Rightarrow> uint256 list \<Rightarrow> int \<Rightarrow>
   nat \<Rightarrow> uint256 \<Rightarrow> bool \<Rightarrow> uint256 list \<Rightarrow> bool" where
  "climbing H xs pos c path0 ml l h matchh path \<longleftrightarrow>
     2 ^ l dvd c \<and> h = node H xs l (c div 2 ^ l - 1) \<and> (matchh \<longleftrightarrow> pos div 2 ^ l = c div 2 ^ l - 1) \<and>
     (if matchh then path = map (sibling H xs pos) [0..<l] else path = path0 \<and> (ml < 0 \<or> int l \<le> ml))"

lemma half_div: "(c :: nat) div 2 ^ Suc l = c div 2 ^ l div 2"
  using div_mult2_eq [of c "2 ^ l" 2] by (simp add: mult.commute)

lemma climb_step:
  assumes cl: "climbing H xs pos c path0 ml l h matchh path" and ok: "inner_ok H xs pos c l inner ml"
    and c: "2 ^ Suc l dvd c" "0 < c" "c < length xs + 2 ^ l"
    and path0: "0 \<le> ml \<Longrightarrow> path0 = map (sibling H xs pos) [0..<nat ml]"
    and push: "path_push matchh ml l (inner ! l) h path = (matchh', path')"
  shows "climbing H xs pos c path0 ml (Suc l) (H (inner ! l @ h)) matchh' path'"
proof -
  obtain v where v: "c = 2 ^ Suc l * v" using c(1) by (rule dvdE)
  then have v0: "0 < v" and w: "c div 2 ^ l = 2 * v" and w': "c div 2 ^ Suc l = v" using c(2) by auto
  have le: "2 * v \<le> length (level_at H xs l)"
    using level_width_ge [of l c xs H] cl c(3) w by (simp add: climbing_def)
  have inner: "inner ! l = node H xs l (2 * (v - 1))" "ml = int l \<longleftrightarrow> pos div 2 ^ l = 2 * (v - 1)"
    using ok c(1) w by (auto simp: inner_ok_def right_diff_distrib')
  have h: "h = node H xs l (2 * (v - 1) + 1)" and m: "matchh \<longleftrightarrow> pos div 2 ^ l = 2 * (v - 1) + 1"
    using cl w v0 by (auto simp: climbing_def right_diff_distrib' Suc_diff_Suc numeral_2_eq_2)
  have "H (inner ! l @ h) = node H xs (Suc l) (v - 1)"
    using node_pair [where i = "v - 1" and H = H and xs = xs and l = l] le v0 inner(1) h by simp
  moreover
  have m': "matchh' \<longleftrightarrow> pos div 2 ^ l = 2 * (v - 1) + 1 \<or> pos div 2 ^ l = 2 * (v - 1)"
    using push m inner(2) by (auto simp: path_push_def split: if_splits)
  have "(x = 2 * u + 1 \<or> x = 2 * u) \<longleftrightarrow> x div 2 = u" for x u :: nat by presburger
  with m' have "matchh' \<longleftrightarrow> pos div 2 ^ Suc l = v - 1" unfolding half_div by blast
  moreover have "path' = map (sibling H xs pos) [0..<Suc l]" if "matchh'"
  proof (cases matchh)
    case True
    then have "sibling H xs pos l = inner ! l"
      using m inner(1) le v0 pad_node [where i = "2 * (v - 1)" and H = H and xs = xs and l = l] by (simp add: sibling_def)
    then show ?thesis using True push cl by (simp add: path_push_def climbing_def)
  next
    case False
    then have "ml = int l" "path' = path0 @ [h]" using push cl that by (auto simp: path_push_def climbing_def split: if_splits)
    moreover have "sibling H xs pos l = h"
      using False m' that m h le v0 pad_node [where i = "2 * (v - 1) + 1" and H = H and xs = xs and l = l] by (simp add: sibling_def)
    ultimately show ?thesis using path0 by simp
  qed
  moreover have "path' = path0 \<and> (ml < 0 \<or> int (Suc l) \<le> ml)" if "\<not> matchh'"
    using that push cl by (auto simp: path_push_def climbing_def split: if_splits)
  ultimately show ?thesis using c(1) w' by (simp add: climbing_def)
qed

lemma bit_test: "l < 32 \<Longrightarrow> (c :: u32) AND push_bit l 1 = 0 \<longleftrightarrow> even (unat c div 2 ^ l)"
  by (simp add: push_bit_eq_mult and_exp_eq_0_iff_not_bit bit_unat_iff [symmetric] bit_iff_odd)

lemma dvd_Suc_pow: "2 ^ l dvd (c :: nat) \<Longrightarrow> even (c div 2 ^ l) \<longleftrightarrow> 2 ^ Suc l dvd c"
  by (metis dvd_div_iff_mult mult.commute power_Suc zero_neq_numeral power_not_zero)

lemma sweep_up_spec:
  assumes path0: "0 \<le> ml \<Longrightarrow> path0 = map (sibling H xs pos) [0..<nat ml]" and c: "count \<noteq> 0"
  shows "climbing H xs pos (unat count) path0 ml l h matchh path \<Longrightarrow> inner_ok H xs pos (unat count) l inner ml \<Longrightarrow>
    l \<le> 32 \<Longrightarrow> unat count < length xs + 2 ^ l \<Longrightarrow>
    \<exists>l' h' matchh' path'. sweep_up H count inner ml l h matchh path = Some (l', h', matchh', path') \<and>
      l \<le> l' \<and> l' < 32 \<and> odd (unat count div 2 ^ l') \<and>
      climbing H xs pos (unat count) path0 ml l' h' matchh' path'"
proof (induction "32 - l" arbitrary: l h matchh path)
  case 0
  then have "2 ^ 32 dvd unat count" by (simp add: climbing_def)
  then have "2 ^ 32 \<le> unat count" using c by (intro dvd_imp_le) (auto simp: word_nonzero_unat)
  then show ?case using unat_u32_less [of count] by simp
next
  case (Suc d)
  then have l: "l < 32" by simp
  show ?case
  proof (cases "even (unat count div 2 ^ l)")
    case False
    with l have "sweep_up H count inner ml l h matchh path = Some (l, h, matchh, path)"
      by (simp add: sweep_up.simps [of H count inner ml l] bit_test del: push_bit_of_1)
    with False Suc.prems l show ?thesis by blast
  next
    case True
    obtain matchh' path' where push: "path_push matchh ml l (inner ! l) h path = (matchh', path')" by fastforce
    have dvd: "2 ^ Suc l dvd unat count" using True Suc.prems(1) dvd_Suc_pow by (simp add: climbing_def)
    have "climbing H xs pos (unat count) path0 ml (Suc l) (H (inner ! l @ h)) matchh' path'"
      by (rule climb_step [OF Suc.prems(1,2) dvd _ Suc.prems(4) path0 push]) (use c in \<open>simp_all add: word_nonzero_unat\<close>)
    moreover have "inner_ok H xs pos (unat count) (Suc l) inner ml" using Suc.prems(2) by (simp add: inner_ok_def)
    moreover have "d = 32 - Suc l" "Suc l \<le> 32" "unat count < length xs + 2 ^ Suc l" using Suc.hyps(2) l Suc.prems(4) by auto
    ultimately obtain l' h' matchh'' path'' where
      "sweep_up H count inner ml (Suc l) (H (inner ! l @ h)) matchh' path' = Some (l', h', matchh'', path'')"
      "Suc l \<le> l'" "l' < 32" "odd (unat count div 2 ^ l')" "climbing H xs pos (unat count) path0 ml l' h' matchh'' path''"
      using Suc.hyps(1) by blast
    moreover have "sweep_up H count inner ml l h matchh path =
        sweep_up H count inner ml (Suc l) (H (inner ! l @ h)) matchh' path'"
      using l True push by (simp add: sweep_up.simps [of H count inner ml l] bit_test del: push_bit_of_1)
    ultimately show ?thesis by (metis Suc_leD)
  qed
qed

lemma merkle_carry_sweep:
  "map_option (\<lambda>(l, h, m, mu, p). (l, h, m, p)) (merkle_carry H count inner ml l h m mu p) = sweep_up H count inner ml l h m p"
proof (induction H count inner ml l h m mu p rule: merkle_carry.induct)
  case (1 H count inner ml l h m mu p)
  show ?case
    unfolding merkle_carry.simps [of H count inner ml l h m mu p] sweep_up.simps [of H count inner ml l h m p]
    using "1.IH" [OF _ _ refl prod.collapse] by (simp add: case_prod_unfold Let_def)
qed

lemma div_before: "2 ^ k dvd Suc c \<Longrightarrow> c div 2 ^ k = Suc c div 2 ^ k - 1"
proof -
  assume "2 ^ k dvd Suc c"
  then obtain q where q: "Suc c = 2 ^ k * q" by (rule dvdE)
  then obtain r where r: "q = Suc r" by (cases q) auto
  have "c = 2 ^ k - 1 + 2 ^ k * r" using q r by simp
  then have "c div 2 ^ k = r + (2 ^ k - 1) div 2 ^ k" by (metis add.commute div_mult_self2 power_not_zero zero_neq_numeral)
  then show "c div 2 ^ k = Suc c div 2 ^ k - 1" using q r by simp
qed

lemma div_above:
  assumes "odd q" "l < k" "x div 2 ^ l = q - 1" "y div 2 ^ l = q"
  shows "x div 2 ^ k = (y :: nat) div 2 ^ k"
proof -
  obtain e where k: "k = l + Suc e" using assms(2) less_iff_Suc_add by auto
  have split: "z div 2 ^ k = z div 2 ^ l div 2 div 2 ^ e" for z :: nat
    unfolding k by (simp only: power_add power_Suc div_mult2_eq)
  obtain r where "q = 2 * r + 1" using assms(1) by (rule oddE)
  then show ?thesis unfolding split assms(3,4) by simp
qed

definition leaves_inv ::
  "(bytes \<Rightarrow> uint256) \<Rightarrow> uint256 list \<Rightarrow> nat \<Rightarrow> nat \<Rightarrow> uint256 list \<Rightarrow> int \<Rightarrow> uint256 list \<Rightarrow> bool" where
  "leaves_inv H xs pos c inner ml path \<longleftrightarrow>
     length inner = 32 \<and>
     (\<forall>k<32. odd (c div 2 ^ k) \<longrightarrow>
        inner ! k = node H xs k (c div 2 ^ k - 1) \<and> (ml = int k \<longleftrightarrow> pos div 2 ^ k = c div 2 ^ k - 1)) \<and>
     (if pos < c then 0 \<le> ml \<and> ml < 32 \<and> odd (c div 2 ^ nat ml) \<and> path = map (sibling H xs pos) [0..<nat ml]
      else ml = -1 \<and> path = [])"

lemma leaves_inner_ok:
  assumes inv: "leaves_inv H xs pos c inner ml path" and c: "Suc c < 2 ^ 32"
  shows "inner_ok H xs pos (Suc c) 0 inner ml"
  unfolding inner_ok_def
proof (intro allI impI)
  fix k assume dvd: "2 ^ Suc k dvd Suc c"
  then have "2 ^ Suc k \<le> Suc c" by (rule dvd_imp_le) simp
  then have "(2 :: nat) ^ Suc k < 2 ^ 32" using c by linarith
  then have "Suc k < 32" by (rule power_less_imp_less_exp [rotated]) simp
  moreover have before: "c div 2 ^ k = Suc c div 2 ^ k - 1" by (rule div_before [OF power_le_dvd [OF dvd]]) simp
  then have e: "Suc c div 2 ^ k - 2 = c div 2 ^ k - 1" by simp
  obtain q where q: "Suc c = 2 ^ Suc k * q" using dvd by (rule dvdE)
  then have "Suc c div 2 ^ k = 2 * q" "0 < q" by (auto intro: Nat.gr0I)
  then have "odd (c div 2 ^ k)" using before by simp
  ultimately show "inner ! k = node H xs k (Suc c div 2 ^ k - 2) \<and> (ml = int k \<longleftrightarrow> pos div 2 ^ k = Suc c div 2 ^ k - 2)"
    unfolding e using inv by (simp add: leaves_inv_def)
qed

lemma leaves_inv_store:
  assumes inv: "leaves_inv H xs pos c inner ml path" and c: "Suc c < 2 ^ 32"
    and cl: "climbing H xs pos (Suc c) path ml l h matchh path'" and l: "l < 32" "odd (Suc c div 2 ^ l)"
  shows "leaves_inv H xs pos (Suc c) (inner[l := h]) (if matchh then int l else ml) path'"
proof -
  let ?q = "Suc c div 2 ^ l"
  have dvd: "2 ^ l dvd Suc c" and h: "h = node H xs l (?q - 1)" and m: "matchh \<longleftrightarrow> pos div 2 ^ l = ?q - 1"
    using cl by (auto simp: climbing_def)
  have before: "c div 2 ^ l = ?q - 1" by (rule div_before [OF dvd])
  have above: "c div 2 ^ k = Suc c div 2 ^ k" if "l < k" for k by (rule div_above [OF l(2) that before refl])
  have below: "even (Suc c div 2 ^ k)" if "k < l" for k
    using dvd that by (metis dvd_Suc_pow Suc_leI power_le_dvd less_imp_le_nat)
  have q: "0 < ?q" "even (?q - 1)" using l(2) by (auto elim: oddE)
  have ml_l: "0 \<le> ml \<Longrightarrow> nat ml \<noteq> l"
    using inv before q by (auto simp: leaves_inv_def split: if_splits)
  have "pos < Suc c" if matchh
  proof -
    have "pos < ?q * 2 ^ l" using that m q by (simp add: div_less_iff_less_mult [symmetric])
    then show ?thesis using dvd by simp
  qed
  moreover have "matchh" if "pos < Suc c" "\<not> pos < c"
  proof -
    have "pos = c" using that by simp
    then show ?thesis using m before by simp
  qed
  moreover have "odd (Suc c div 2 ^ nat ml)" if "\<not> matchh" "pos < c"
  proof -
    have "0 \<le> ml" "odd (c div 2 ^ nat ml)" using inv that by (auto simp: leaves_inv_def)
    moreover have "l < nat ml" using ml_l cl that \<open>0 \<le> ml\<close> by (auto simp: climbing_def)
    ultimately show ?thesis using above by simp
  qed
  moreover have "(inner[l := h]) ! k = node H xs k (Suc c div 2 ^ k - 1) \<and>
      ((if matchh then int l else ml) = int k \<longleftrightarrow> pos div 2 ^ k = Suc c div 2 ^ k - 1)"
    if k: "k < 32" "odd (Suc c div 2 ^ k)" for k
  proof -
    consider "k = l" | "l < k" using below [of k] k(2) by force
    then show ?thesis
    proof cases
      case 1
      then show ?thesis using inv l h m ml_l by (auto simp: leaves_inv_def)
    next
      case 2
      have "pos div 2 ^ k \<noteq> Suc c div 2 ^ k - 1" if matchh
        using div_above [OF l(2) 2, of pos "Suc c"] that m k(2) by (cases "Suc c div 2 ^ k") auto
      then show ?thesis using 2 above [OF 2] inv k by (auto simp: leaves_inv_def)
    qed
  qed
  ultimately show ?thesis
    using inv cl l by (auto simp: leaves_inv_def climbing_def split: if_splits)
qed

lemma merkle_leaves_spec:
  assumes n: "length xs < 2 ^ 32"
  shows "unat count = c \<Longrightarrow> c + length ys = length xs \<Longrightarrow> drop c xs = ys \<Longrightarrow> leaves_inv H xs (unat leaf_pos) c inner ml path \<Longrightarrow>
    \<exists>count' inner' ml' mu' path'. merkle_leaves H leaf_pos ys count inner ml mu path = Some (count', inner', ml', mu', path') \<and>
      unat count' = length xs \<and> leaves_inv H xs (unat leaf_pos) (length xs) inner' ml' path'"
proof (induction ys arbitrary: c count inner ml mu path)
  case Nil
  then show ?case by auto
next
  case (Cons y ys)
  let ?pos = "unat leaf_pos"
  have c: "c < length xs" "Suc c < 2 ^ 32" using Cons.prems(2) n by simp_all
  then have count1: "unat (count + 1) = Suc c" using Cons.prems(1) by (simp add: unat_word_ariths)
  then have nz: "count + 1 \<noteq> 0" by (auto simp: word_nonzero_unat)
  have y: "xs ! c = y" "drop (Suc c) xs = ys"
    using Cons.prems(3) c(1) by (metis Cons_nth_drop_Suc list.inject)+
  have path0: "path = map (sibling H xs ?pos) [0..<nat ml]" if "0 \<le> ml"
    using Cons.prems(4) that by (auto simp: leaves_inv_def split: if_splits)
  have "count = leaf_pos \<longleftrightarrow> ?pos = c" using Cons.prems(1) by (auto simp: word_unat_eq_iff)
  then have cl: "climbing H xs ?pos (Suc c) path ml 0 y (count = leaf_pos) path"
    using Cons.prems(4) y(1) by (auto simp: climbing_def leaves_inv_def node_def split: if_splits)
  obtain l h matchh path' where s: "sweep_up H (count + 1) inner ml 0 y (count = leaf_pos) path = Some (l, h, matchh, path')"
      "l < 32" "odd (Suc c div 2 ^ l)" "climbing H xs ?pos (Suc c) path ml l h matchh path'"
    using sweep_up_spec [OF path0 nz, unfolded count1, OF _ cl leaves_inner_ok [OF Cons.prems(4) c(2)]] c(1) by auto
  then obtain mu' where carry: "merkle_carry H (count + 1) inner ml 0 y (count = leaf_pos) mu path = Some (l, h, matchh, mu', path')"
    using merkle_carry_sweep [of H "count + 1" inner ml 0 y "count = leaf_pos" mu path] by (auto split: prod.splits)
  show ?case
    using Cons.IH [OF count1 _ y(2) leaves_inv_store [OF Cons.prems(4) c(2) s(4,2,3)]] Cons.prems(2) carry by simp
qed

lemma first_level_spec:
  assumes "count \<noteq> 0"
  shows "2 ^ l dvd unat count \<Longrightarrow> l \<le> 32 \<Longrightarrow>
    \<exists>l'. first_level count l = Some l' \<and> l' < 32 \<and> 2 ^ l' dvd unat count \<and> odd (unat count div 2 ^ l')"
proof (induction "32 - l" arbitrary: l)
  case 0
  then have "2 ^ 32 \<le> unat count" using assms by (intro dvd_imp_le) (auto simp: word_nonzero_unat)
  then show ?case using unat_u32_less [of count] by simp
next
  case (Suc d)
  then have l: "l < 32" by simp
  show ?case
  proof (cases "even (unat count div 2 ^ l)")
    case True
    then have "first_level count l = first_level count (Suc l)"
      using l by (simp add: first_level.simps [of count l] bit_test del: push_bit_of_1)
    then show ?thesis using Suc.hyps(1) [of "Suc l"] Suc.hyps(2) l True Suc.prems(1) dvd_Suc_pow [of l "unat count"] by auto
  next
    case False
    then have "first_level count l = Some l"
      using l by (simp add: first_level.simps [of count l] bit_test del: push_bit_of_1)
    with False Suc.prems l show ?thesis by auto
  qed
qed

lemma div_rounded:
  assumes "2 ^ k dvd c" "c < n + 2 ^ k" "(n :: nat) < c"
  shows "n div 2 ^ k = c div 2 ^ k - 1"
proof -
  obtain m where m: "c = 2 ^ k * m" using assms(1) by (rule dvdE)
  with assms have "2 ^ k * (m - 1) \<le> n" "n < 2 ^ k * Suc (m - 1)" by (cases m; simp add: algebra_simps)+
  then have "n div 2 ^ k = m - 1" by (simp add: div_nat_eqI mult.commute)
  with m show ?thesis by simp
qed

lemma rounded_inner_ok:
  assumes inv: "leaves_inv H xs pos (length xs) inner ml path0"
    and c: "c < length xs + 2 ^ l" "length xs < c" "c \<le> 2 ^ 31"
  shows "inner_ok H xs pos c l inner ml"
  unfolding inner_ok_def
proof (intro allI impI)
  fix k assume k: "l \<le> k" "2 ^ Suc k dvd c"
  have "(2 :: nat) ^ l \<le> 2 ^ k" using k(1) by simp
  then have "c < length xs + 2 ^ k" using c(1) by linarith
  then have n: "length xs div 2 ^ k = c div 2 ^ k - 1"
    using div_rounded [OF power_le_dvd [OF k(2)]] c(2) by simp
  then have e: "c div 2 ^ k - 2 = length xs div 2 ^ k - 1" by simp
  obtain q where q: "c = 2 ^ Suc k * q" using k(2) by (rule dvdE)
  then have "0 < q" "c div 2 ^ k = 2 * q" using c(2) by (auto intro: Nat.gr0I)
  then have "odd (length xs div 2 ^ k)" using n by simp
  moreover have "2 ^ Suc k \<le> c" using k(2) c(2) by (intro dvd_imp_le) auto
  then have "(2 :: nat) ^ Suc k \<le> 2 ^ 31" using c(3) by (rule order_trans)
  then have "k < 32" using power_le_imp_le_exp [of "2 :: nat" "Suc k" 31] by simp
  ultimately show "inner ! k = node H xs k (c div 2 ^ k - 2) \<and> (ml = int k \<longleftrightarrow> pos div 2 ^ k = c div 2 ^ k - 2)"
    unfolding e using inv by (simp add: leaves_inv_def)
qed

lemma unat_add_level:
  assumes "l < 32" "unat (count :: u32) + 2 ^ l < 2 ^ 32"
  shows "unat (count + push_bit l 1) = unat count + 2 ^ l"
proof -
  have "unat (push_bit l 1 :: u32) = 2 ^ l"
    using assms(1) unat_push_bit [of l "1 :: u32"] power_strict_increasing [OF assms(1), of "2 :: nat"] by simp
  with assms(2) show ?thesis by (simp add: unat_word_ariths del: push_bit_of_1)
qed

text \<open>The state of the final sweep at a level with an odd number of nodes.\<close>

definition sweeping ::
  "(bytes \<Rightarrow> uint256) \<Rightarrow> uint256 list \<Rightarrow> nat \<Rightarrow> nat \<Rightarrow> uint256 list \<Rightarrow> int \<Rightarrow>
   nat \<Rightarrow> uint256 \<Rightarrow> bool \<Rightarrow> uint256 list \<Rightarrow> bool" where
  "sweeping H xs pos c path0 ml l h matchh path \<longleftrightarrow>
     climbing H xs pos c path0 ml l h matchh path \<and> l < 32 \<and> odd (c div 2 ^ l) \<and>
     length xs \<le> c \<and> c < length xs + 2 ^ l \<and> c \<le> 2 ^ 31 \<and> (\<forall>k<l. 2 ^ k < length xs) \<and> (\<not> matchh \<longrightarrow> ml \<noteq> int l)"

lemma rounded_width:
  assumes "2 ^ l dvd c" "length xs \<le> c" "c < length xs + 2 ^ l"
  shows "length (level_at H xs l) = c div 2 ^ l"
proof -
  obtain m where m: "c = 2 ^ l * m" using assms(1) by (rule dvdE)
  then have "(length xs + 2 ^ l - 1) div 2 ^ l = m"
    using assms by (intro div_nat_eqI) (auto simp: algebra_simps)
  with m show ?thesis by (simp add: level_width)
qed

lemma sweep_double:
  assumes s: "sweeping H xs pos c path0 ml l h matchh path" and ne: "c \<noteq> 2 ^ l" and pos: "pos < length xs"
  shows "climbing H xs pos (c + 2 ^ l) path0 ml (Suc l) (H (h @ h)) matchh (if matchh then path @ [h] else path)"
    and "c + 2 ^ l \<le> 2 ^ 31" and "2 ^ l < length xs"
proof -
  have cl: "climbing H xs pos c path0 ml l h matchh path" and odd: "odd (c div 2 ^ l)" and l: "l < 32"
    and n: "length xs \<le> c" "c < length xs + 2 ^ l" and le: "c \<le> 2 ^ 31" and ml: "\<not> matchh \<Longrightarrow> ml \<noteq> int l"
    using s by (auto simp: sweeping_def)
  have dvd: "2 ^ l dvd c" using cl by (simp add: climbing_def)
  obtain v where v: "c div 2 ^ l = 2 * v + 1" using odd by (rule oddE)
  then have c: "c = 2 ^ l * (2 * v + 1)" using dvd by (metis dvd_mult_div_cancel)
  have v0: "0 < v" using c ne by (cases v) auto
  have w: "length (level_at H xs l) = 2 * v + 1" using rounded_width [OF dvd n, of H] v by simp
  have c': "c + 2 ^ l = 2 ^ Suc l * Suc v" using c by (simp add: algebra_simps)
  have h: "h = node H xs l (2 * v)" and m: "matchh \<longleftrightarrow> pos div 2 ^ l = 2 * v"
    using cl v by (auto simp: climbing_def)
  have "H (h @ h) = node H xs (Suc l) v" using node_odd [of v l H xs] w h by simp
  moreover have "(c + 2 ^ l) div 2 ^ Suc l = Suc v" unfolding c' by simp
  moreover have "sibling H xs pos l = h" if matchh
    using that m w h nth_pad_level(2) [of "level_at H xs l"] by (simp add: sibling_def node_def)
  moreover have "pos div 2 ^ l < 2 * v + 1" using pos n(1) c by (simp add: less_mult_imp_div_less mult.commute)
  then have "matchh \<longleftrightarrow> pos div 2 ^ Suc l = v" using m unfolding half_div by linarith
  ultimately show "climbing H xs pos (c + 2 ^ l) path0 ml (Suc l) (H (h @ h)) matchh (if matchh then path @ [h] else path)"
    using cl ml c' by (auto simp: climbing_def)
  have "2 ^ l * (2 * v + 1) \<le> 2 ^ l * 2 ^ (31 - l)" using le l unfolding c by (simp flip: power_add)
  then have "2 * v + 1 \<le> 2 ^ (31 - l)" by (rule mult_left_le_imp_le) simp
  moreover have "2 * v + 1 \<le> 2 * x \<Longrightarrow> 2 * v + 2 \<le> 2 * x" for x :: nat by presburger
  ultimately have "2 * v + 2 \<le> 2 ^ (31 - l)" using v0 by (cases "31 - l") auto
  then have "2 ^ l * (2 * v + 2) \<le> 2 ^ l * 2 ^ (31 - l)" by (rule mult_le_mono2)
  then show "c + 2 ^ l \<le> 2 ^ 31" using l unfolding c by (simp add: algebra_simps flip: power_add)
  show "2 ^ l < length xs" using n c v0 by (cases v) auto
qed

lemma sweep_next:
  assumes s: "sweeping H xs pos (unat count) path0 ml l h matchh path" and ne: "unat count \<noteq> 2 ^ l"
    and inv: "leaves_inv H xs pos (length xs) inner ml path0" and pos: "pos < length xs"
  shows "\<exists>l' h' matchh' path'.
    sweep_up H (count + push_bit l 1) inner ml (Suc l) (H (h @ h)) matchh (if matchh then path @ [h] else path) =
      Some (l', h', matchh', path') \<and> l < l' \<and>
    sweeping H xs pos (unat (count + push_bit l 1)) path0 ml l' h' matchh' path'"
proof -
  let ?c = "unat count + 2 ^ l"
  note d = sweep_double [OF s ne pos]
  have l: "l < 32" and n: "length xs \<le> unat count" "unat count < length xs + 2 ^ l" and lt: "\<forall>k<l. 2 ^ k < length xs"
    using s by (auto simp: sweeping_def)
  have c: "unat (count + push_bit l 1) = ?c" by (rule unat_add_level [OF l]) (use d(2) in simp)
  have n': "length xs < ?c" "?c < length xs + 2 ^ Suc l" using n by (simp_all add: trans_le_add1)
  have nz: "count + push_bit l 1 \<noteq> 0" using c n'(1) by (metis less_nat_zero_code unat_0)
  have ml: "0 \<le> ml" "odd (length xs div 2 ^ nat ml)" and path0: "0 \<le> ml \<Longrightarrow> path0 = map (sibling H xs pos) [0..<nat ml]"
    using inv pos by (auto simp: leaves_inv_def)
  obtain l' h' matchh' path' where u: "sweep_up H (count + push_bit l 1) inner ml (Suc l) (H (h @ h)) matchh
        (if matchh then path @ [h] else path) = Some (l', h', matchh', path')"
      "Suc l \<le> l'" "l' < 32" "odd (?c div 2 ^ l')" "climbing H xs pos ?c path0 ml l' h' matchh' path'"
    using sweep_up_spec [OF path0 nz, unfolded c, OF _ d(1) rounded_inner_ok [OF inv n'(2,1) d(2)]] n'(2) l by auto
  have "2 ^ Suc l \<le> (2 :: nat) ^ l'" using u(2) by (rule power_increasing) simp
  then have lt': "?c < length xs + 2 ^ l'" using n'(2) by linarith
  have dvd: "2 ^ l' dvd ?c" using u(5) by (simp add: climbing_def)
  have "2 ^ k < length xs" if "k < l'" for k
  proof (cases "k \<le> l")
    case True
    then show ?thesis using d(3) lt by (cases "k = l") auto
  next
    case False
    have "2 ^ Suc k dvd ?c" using dvd that by (metis Suc_leI power_le_dvd)
    then have "2 ^ Suc k \<le> ?c" by (rule dvd_imp_le) (use n' in simp)
    moreover have "(2 :: nat) ^ Suc l \<le> 2 ^ k" using False by (intro power_increasing) auto
    ultimately show ?thesis using n'(2) by simp
  qed
  moreover have "ml \<noteq> int l'" using div_rounded [OF dvd lt' n'(1)] u(4) ml by auto
  ultimately have "sweeping H xs pos ?c path0 ml l' h' matchh' path'"
    using u(3,4,5) n'(1) lt' d(2) by (simp add: sweeping_def)
  with u(1,2) c show ?thesis by auto
qed

lemma merkle_sweep_spec:
  assumes inv: "leaves_inv H xs pos (length xs) inner ml path0" and pos: "pos < length xs"
  shows "sweeping H xs pos (unat count) path0 ml l h matchh path \<Longrightarrow>
    \<exists>d. merkle_sweep H inner ml l count h matchh path = Some (node H xs d 0, map (sibling H xs pos) [0..<d]) \<and>
      length xs \<le> 2 ^ d \<and> (\<forall>k<d. 2 ^ k < length xs)"
proof (induction "32 - l" arbitrary: l count h matchh path rule: less_induct)
  case less
  have l: "l < 32" using less.prems by (simp add: sweeping_def)
  have top: "count = push_bit l 1 \<longleftrightarrow> unat count = 2 ^ l"
    using unat_add_level [OF l, of 0] power_strict_increasing [OF l, of "2 :: nat"]
    by (simp add: word_unat_eq_iff del: push_bit_of_1)
  show ?case
  proof (cases "unat count = 2 ^ l")
    case True
    have "pos < 2 ^ l" using less.prems True pos by (simp add: sweeping_def)
    then have "matchh" "path = map (sibling H xs pos) [0..<l]" "h = node H xs l 0"
      using less.prems True by (auto simp: sweeping_def climbing_def)
    moreover have "merkle_sweep H inner ml l count h matchh path = Some (h, path)"
      using l True top by (simp add: merkle_sweep.simps [of H inner ml l] del: push_bit_of_1)
    ultimately show ?thesis using less.prems True by (intro exI [of _ l]) (auto simp: sweeping_def)
  next
    case False
    obtain l' h' matchh' path' where u:
      "sweep_up H (count + push_bit l 1) inner ml (Suc l) (H (h @ h)) matchh (if matchh then path @ [h] else path) =
        Some (l', h', matchh', path')" "l < l'"
      "sweeping H xs pos (unat (count + push_bit l 1)) path0 ml l' h' matchh' path'"
      using sweep_next [OF less.prems False inv pos] by blast
    have "merkle_sweep H inner ml l count h matchh path = merkle_sweep H inner ml l' (count + push_bit l 1) h' matchh' path'"
      using l False top u(1) by (simp add: merkle_sweep.simps [of H inner ml l] Let_def del: push_bit_of_1)
    with less.hyps [OF _ u(3)] u(2) l show ?thesis by simp
  qed
qed

lemma sweeping_start:
  assumes inv: "leaves_inv H xs pos (length xs) inner ml path" and pos: "pos < length xs" and n: "length xs \<le> 2 ^ 31"
    and l: "l < 32" "2 ^ l dvd length xs" "odd (length xs div 2 ^ l)"
  shows "sweeping H xs pos (length xs) path ml l (inner ! l) (ml = int l) path"
proof -
  have ml: "0 \<le> ml" "odd (length xs div 2 ^ nat ml)" "path = map (sibling H xs pos) [0..<nat ml]"
    and i: "inner ! l = node H xs l (length xs div 2 ^ l - 1)" "ml = int l \<longleftrightarrow> pos div 2 ^ l = length xs div 2 ^ l - 1"
    using inv pos l by (simp_all add: leaves_inv_def)
  have "even (length xs div 2 ^ k)" if "k < l" for k
    using l(2) that by (metis dvd_Suc_pow Suc_leI power_le_dvd less_imp_le_nat)
  then have "int l \<le> ml" using ml(1,2) by (metis nat_less_iff not_le)
  then have "climbing H xs pos (length xs) path ml l (inner ! l) (ml = int l) path"
    using i ml(3) l(2) by (cases "ml = int l") (auto simp: climbing_def)
  moreover have "2 ^ k < length xs" if "k < l" for k
  proof -
    have "2 ^ l \<le> length xs" using l(2) pos by (intro dvd_imp_le) auto
    moreover have "(2 :: nat) ^ k < 2 ^ l" using that by (rule power_strict_increasing) simp
    ultimately show ?thesis by linarith
  qed
  ultimately show ?thesis using l n by (simp add: sweeping_def)
qed

lemma MerkleComputation_spec:
  assumes n: "length xs \<le> 2 ^ 31" and pos: "unat leaf_pos < length xs"
  shows "\<exists>d mutated. MerkleComputation H xs leaf_pos =
      Some (node H xs d 0, mutated, map (sibling H xs (unat leaf_pos)) [0..<d]) \<and>
    length xs \<le> 2 ^ d \<and> (\<forall>k<d. 2 ^ k < length xs)"
proof -
  let ?pos = "unat leaf_pos"
  have ne: "xs \<noteq> []" and n32: "length xs < 2 ^ 32" "length xs \<le> UINT32_MAX" using pos n by (auto simp: UINT32_MAX_def)
  have "leaves_inv H xs ?pos 0 (replicate 32 uint256_zero) (- 1) []" by (simp add: leaves_inv_def)
  then obtain count inner ml mu path where lv:
      "merkle_leaves H leaf_pos xs 0 (replicate 32 uint256_zero) (- 1) False [] = Some (count, inner, ml, mu, path)"
      "unat count = length xs" "leaves_inv H xs ?pos (length xs) inner ml path"
    using merkle_leaves_spec [OF n32(1), of 0 0 xs H leaf_pos] by fastforce
  then have nz: "count \<noteq> 0" using ne by auto
  obtain l where l: "first_level count 0 = Some l" "l < 32" "2 ^ l dvd length xs" "odd (length xs div 2 ^ l)"
    using first_level_spec [OF nz, of 0] lv(2) by auto
  have "sweeping H xs ?pos (unat count) path ml l (inner ! l) (ml = int l) path"
    unfolding lv(2) by (rule sweeping_start [OF lv(3) pos n l(2-4)])
  from merkle_sweep_spec [OF lv(3) pos this] show ?thesis
    using lv(1) l(1) ne n32(2) by (auto simp: MerkleComputation_def)
qed

section \<open>Paths authenticate leaves\<close>

text \<open>What a verifier computes from a leaf, its path and its position.\<close>

fun root_from_branch :: "(bytes \<Rightarrow> uint256) \<Rightarrow> uint256 \<Rightarrow> uint256 list \<Rightarrow> nat \<Rightarrow> uint256" where
  "root_from_branch H h [] pos = h"
| "root_from_branch H h (s # path) pos =
     root_from_branch H (if odd pos then H (s @ h) else H (h @ s)) path (pos div 2)"

lemma level_width_Suc: "0 < length xs \<Longrightarrow> length (level_at H xs k) = (length xs - 1) div 2 ^ k + 1"
  using div_add_self2 [of "2 ^ k" "length xs - 1"] unfolding level_width by (simp only: Nat.add_diff_assoc2) simp

lemma node_sibling:
  assumes "pos < length xs"
  shows "node H xs (Suc l) (pos div 2 ^ Suc l) =
    (if odd (pos div 2 ^ l) then H (sibling H xs pos l @ node H xs l (pos div 2 ^ l))
     else H (node H xs l (pos div 2 ^ l) @ sibling H xs pos l))"
proof -
  let ?L = "level_at H xs l" and ?i = "pos div 2 ^ l"
  have i: "?i < length ?L"
  proof -
    have "pos div 2 ^ l \<le> (length xs - 1) div 2 ^ l" using assms by (intro div_le_mono) simp
    moreover have "0 < length xs" using assms by linarith
    ultimately show ?thesis by (simp add: level_width_Suc)
  qed
  then have "next_level H ?L ! (?i div 2) = H (pad_level ?L ! (2 * (?i div 2)) @ pad_level ?L ! (2 * (?i div 2) + 1))"
    by (intro nth_next_level) linarith
  then have "node H xs (Suc l) (pos div 2 ^ Suc l) = H (pad_level ?L ! (2 * (?i div 2)) @ pad_level ?L ! (2 * (?i div 2) + 1))"
    unfolding half_div by (simp add: node_def)
  moreover have "pad_level ?L ! ?i = node H xs l ?i" by (rule pad_node [OF i])
  ultimately show ?thesis by (cases "odd ?i") (auto simp: sibling_def elim!: oddE evenE)
qed

lemma root_from_branch_path:
  assumes "pos < length xs"
  shows "root_from_branch H (node H xs l (pos div 2 ^ l)) (map (sibling H xs pos) [l..<l + e]) (pos div 2 ^ l) =
    node H xs (l + e) (pos div 2 ^ (l + e))"
proof (induction e arbitrary: l)
  case (Suc e)
  have "[l..<l + Suc e] = l # [Suc l..<Suc l + e]" by (simp add: upt_conv_Cons)
  then show ?case
    using Suc [of "Suc l"] node_sibling [OF assms, of H l] by (simp del: upt_Suc flip: half_div)
qed simp

lemma width_one: "0 < length xs \<Longrightarrow> 1 < length (level_at H xs k) \<longleftrightarrow> 2 ^ k < length xs"
  unfolding level_width_Suc less_add_same_cancel2 div_greater_zero_iff by (cases "length xs") auto

text \<open>
  The tree, from the top: node \<open>i\<close> of level \<open>l\<close> covers the leaves from $i 2^l$ on, and a node without a right
  child is hashed with itself.
\<close>

fun subtree :: "(bytes \<Rightarrow> uint256) \<Rightarrow> uint256 list \<Rightarrow> nat \<Rightarrow> nat \<Rightarrow> uint256" where
  "subtree H xs 0 i = xs ! i"
| "subtree H xs (Suc l) i =
     (let left = subtree H xs l (2 * i)
      in H (left @ (if (2 * i + 1) * 2 ^ l < length xs then subtree H xs l (2 * i + 1) else left)))"

lemma level_reaches:
  assumes "0 < length xs"
  shows "i < length (level_at H xs l) \<longleftrightarrow> i * 2 ^ l < length xs"
proof -
  have "i < length (level_at H xs l) \<longleftrightarrow> i \<le> (length xs - 1) div 2 ^ l" using assms by (auto simp: level_width_Suc)
  also have "\<dots> \<longleftrightarrow> i * 2 ^ l \<le> length xs - 1" by (rule less_eq_div_iff_mult_less_eq) simp
  finally show ?thesis using assms by linarith
qed

lemma node_subtree: "0 < length xs \<Longrightarrow> i < length (level_at H xs l) \<Longrightarrow> node H xs l i = subtree H xs l i"
proof (induction l arbitrary: i)
  case (Suc l)
  have i: "2 * i < length (level_at H xs l)"
    using Suc.prems by (simp only: level_reaches) (simp add: mult.assoc mult.left_commute)
  show ?case
  proof (cases "2 * i + 1 < length (level_at H xs l)")
    case True
    then show ?thesis
      using node_pair [OF True] Suc.IH [of "2 * i"] Suc.IH [of "2 * i + 1"] level_reaches [OF Suc.prems(1), of "2 * i + 1" l H] i Suc.prems(1)
      by (simp add: Let_def)
  next
    case False
    with i have odd: "2 * i + 1 = length (level_at H xs l)" by simp
    show ?thesis
      using node_odd [OF odd] Suc.IH [of "2 * i"] False level_reaches [OF Suc.prems(1), of "2 * i + 1" l H] i Suc.prems(1)
      by (simp add: Let_def)
  qed
qed (simp add: node_def)

text \<open>
  The constant-space calculator of \<^verbatim>\<open>MerkleComputation\<close>, for up to $2^{31}$ leaves, terminates, finds
  the root of the tree over its own hash, and the path it collects leads from the leaf at the given
  position back to that root, with one entry per level of the tree. The hash here is the
  \<^verbatim>\<open>Hash\<close> of the calculator (BLAKE3), which is not the one of \<^verbatim>\<open>ComputeMerkleRoot\<close> (double SHA256): the
  theorem says nothing of the \<^verbatim>\<open>hashMerkleRoot\<close> of a block.
\<close>

theorem merkle_path_authenticates:
  assumes "length leaves \<le> 2 ^ 31" "unat pos < length leaves"
  shows "\<exists>mutated path. MerkleComputation Hash2 leaves pos = Some (subtree Hash2 leaves (length path) 0, mutated, path) \<and>
    ComputeMerklePath Hash2 leaves pos = Some path \<and>
    root_from_branch Hash2 (leaves ! unat pos) path (unat pos) = subtree Hash2 leaves (length path) 0 \<and>
    length leaves \<le> 2 ^ length path \<and> 2 ^ length path < 2 * length leaves"
proof -
  have ne: "0 < length leaves" using assms(2) by auto
  obtain d mutated where d: "MerkleComputation Hash2 leaves pos =
      Some (node Hash2 leaves d 0, mutated, map (sibling Hash2 leaves (unat pos)) [0..<d])"
      "length leaves \<le> 2 ^ d" "\<forall>k<d. 2 ^ k < length leaves"
    using MerkleComputation_spec [OF assms] by blast
  have root: "node Hash2 leaves d 0 = subtree Hash2 leaves d 0"
    by (rule node_subtree [OF ne]) (simp add: level_reaches [OF ne] ne del: length_greater_0_conv)
  have "unat pos div 2 ^ d = 0" using assms(2) d(2) by simp
  then have "root_from_branch Hash2 (leaves ! unat pos) (map (sibling Hash2 leaves (unat pos)) [0..<d]) (unat pos) = node Hash2 leaves d 0"
    using root_from_branch_path [OF assms(2), of Hash2 0 d] by (simp add: node_def)
  moreover have "2 ^ d < 2 * length leaves" using d(3) assms(2) by (cases d) auto
  ultimately show ?thesis using d(1,2) root by (auto simp: ComputeMerklePath_def)
qed

theorem merkle_path_authenticates_witness:
  "\<exists>path. ComputeMerklePath (\<lambda>a. a) [[1], [2], [3]] 2 = Some path \<and> length path = 2 \<and>
     root_from_branch (\<lambda>a. a) [3] path 2 = [1, 2, 3, 3]"
proof -
  have "length [[1], [2], [3 :: byte]] \<le> 2 ^ 31" "unat (2 :: u32) < length [[1], [2], [3 :: byte]]" by simp_all
  from merkle_path_authenticates [OF this, of "\<lambda>a. a"]
  obtain path where p: "ComputeMerklePath (\<lambda>a. a) [[1], [2], [3]] 2 = Some path"
    "root_from_branch (\<lambda>a. a) [3] path 2 = subtree (\<lambda>a. a) [[1], [2], [3]] (length path) 0"
    "(3 :: nat) \<le> 2 ^ length path" "(2 :: nat) ^ length path < 6" by auto
  have "length path \<noteq> 0" "length path \<noteq> 1" using p(3) by (auto simp del: length_0_conv)
  moreover have "\<not> 3 \<le> length path" using p(4) power_increasing [of 3 "length path" "2 :: nat"] by auto
  ultimately have "length path = 2" by linarith
  with p show ?thesis by (simp add: numeral_2_eq_2 numeral_3_eq_3)
qed

end
