(* ===== verification/Script.thy ===== *)
theory Script
  imports Block "HOL-Library.Monad_Syntax"
begin

unbundle bit_operations_syntax

text \<open>
  Scripts (\<^verbatim>\<open>script/script.h\<close>, \<^verbatim>\<open>script/script.cpp\<close>): opcodes and their names, the numbers of
  the script language, building and reading scripts, signature operation counts and the recognised
  output types. An opcode is the byte of the script; an iterator into a script is the list of bytes
  from it to the end. A failed assertion is \<open>None\<close>.
\<close>

section \<open>Model\<close>

subsection \<open>Constants and opcodes\<close>

definition MAX_SCRIPT_ELEMENT_SIZE :: nat where
  "MAX_SCRIPT_ELEMENT_SIZE = 520"

definition MAX_OPS_PER_SCRIPT :: int where
  "MAX_OPS_PER_SCRIPT = 201"

definition MAX_PUBKEYS_PER_MULTISIG :: int where
  "MAX_PUBKEYS_PER_MULTISIG = 20"

definition MAX_SCRIPT_SIZE :: nat where
  "MAX_SCRIPT_SIZE = 10000"

definition MAX_STACK_SIZE :: nat where
  "MAX_STACK_SIZE = 1000"

definition LOCKTIME_THRESHOLD :: u32 where
  "LOCKTIME_THRESHOLD = 500000000"

definition VALIDATION_WEIGHT_PER_SIGOP_PASSED :: int where
  "VALIDATION_WEIGHT_PER_SIGOP_PASSED = 50"

definition VALIDATION_WEIGHT_OFFSET :: int where
  "VALIDATION_WEIGHT_OFFSET = 50"

definition ANNEX_TAG :: byte where
  "ANNEX_TAG = 0x50"

abbreviation (input) OP_0 :: byte where "OP_0 \<equiv> 0x00"

abbreviation (input) OP_PUSHDATA1 :: byte where "OP_PUSHDATA1 \<equiv> 0x4c"

abbreviation (input) OP_PUSHDATA2 :: byte where "OP_PUSHDATA2 \<equiv> 0x4d"

abbreviation (input) OP_PUSHDATA4 :: byte where "OP_PUSHDATA4 \<equiv> 0x4e"

abbreviation (input) OP_1NEGATE :: byte where "OP_1NEGATE \<equiv> 0x4f"

abbreviation (input) OP_RESERVED :: byte where "OP_RESERVED \<equiv> 0x50"

abbreviation (input) OP_1 :: byte where "OP_1 \<equiv> 0x51"

abbreviation (input) OP_2 :: byte where "OP_2 \<equiv> 0x52"

abbreviation (input) OP_3 :: byte where "OP_3 \<equiv> 0x53"

abbreviation (input) OP_4 :: byte where "OP_4 \<equiv> 0x54"

abbreviation (input) OP_5 :: byte where "OP_5 \<equiv> 0x55"

abbreviation (input) OP_6 :: byte where "OP_6 \<equiv> 0x56"

abbreviation (input) OP_7 :: byte where "OP_7 \<equiv> 0x57"

abbreviation (input) OP_8 :: byte where "OP_8 \<equiv> 0x58"

abbreviation (input) OP_9 :: byte where "OP_9 \<equiv> 0x59"

abbreviation (input) OP_10 :: byte where "OP_10 \<equiv> 0x5a"

abbreviation (input) OP_11 :: byte where "OP_11 \<equiv> 0x5b"

abbreviation (input) OP_12 :: byte where "OP_12 \<equiv> 0x5c"

abbreviation (input) OP_13 :: byte where "OP_13 \<equiv> 0x5d"

abbreviation (input) OP_14 :: byte where "OP_14 \<equiv> 0x5e"

abbreviation (input) OP_15 :: byte where "OP_15 \<equiv> 0x5f"

abbreviation (input) OP_16 :: byte where "OP_16 \<equiv> 0x60"

abbreviation (input) OP_NOP :: byte where "OP_NOP \<equiv> 0x61"

abbreviation (input) OP_VER :: byte where "OP_VER \<equiv> 0x62"

abbreviation (input) OP_IF :: byte where "OP_IF \<equiv> 0x63"

abbreviation (input) OP_NOTIF :: byte where "OP_NOTIF \<equiv> 0x64"

abbreviation (input) OP_VERIF :: byte where "OP_VERIF \<equiv> 0x65"

abbreviation (input) OP_VERNOTIF :: byte where "OP_VERNOTIF \<equiv> 0x66"

abbreviation (input) OP_ELSE :: byte where "OP_ELSE \<equiv> 0x67"

abbreviation (input) OP_ENDIF :: byte where "OP_ENDIF \<equiv> 0x68"

abbreviation (input) OP_VERIFY :: byte where "OP_VERIFY \<equiv> 0x69"

abbreviation (input) OP_TOALTSTACK :: byte where "OP_TOALTSTACK \<equiv> 0x6b"

abbreviation (input) OP_FROMALTSTACK :: byte where "OP_FROMALTSTACK \<equiv> 0x6c"

abbreviation (input) OP_2DROP :: byte where "OP_2DROP \<equiv> 0x6d"

abbreviation (input) OP_2DUP :: byte where "OP_2DUP \<equiv> 0x6e"

abbreviation (input) OP_3DUP :: byte where "OP_3DUP \<equiv> 0x6f"

abbreviation (input) OP_2OVER :: byte where "OP_2OVER \<equiv> 0x70"

abbreviation (input) OP_2ROT :: byte where "OP_2ROT \<equiv> 0x71"

abbreviation (input) OP_2SWAP :: byte where "OP_2SWAP \<equiv> 0x72"

abbreviation (input) OP_IFDUP :: byte where "OP_IFDUP \<equiv> 0x73"

abbreviation (input) OP_DEPTH :: byte where "OP_DEPTH \<equiv> 0x74"

abbreviation (input) OP_DROP :: byte where "OP_DROP \<equiv> 0x75"

abbreviation (input) OP_DUP :: byte where "OP_DUP \<equiv> 0x76"

abbreviation (input) OP_NIP :: byte where "OP_NIP \<equiv> 0x77"

abbreviation (input) OP_OVER :: byte where "OP_OVER \<equiv> 0x78"

abbreviation (input) OP_PICK :: byte where "OP_PICK \<equiv> 0x79"

abbreviation (input) OP_ROLL :: byte where "OP_ROLL \<equiv> 0x7a"

abbreviation (input) OP_ROT :: byte where "OP_ROT \<equiv> 0x7b"

abbreviation (input) OP_SWAP :: byte where "OP_SWAP \<equiv> 0x7c"

abbreviation (input) OP_TUCK :: byte where "OP_TUCK \<equiv> 0x7d"

abbreviation (input) OP_CAT :: byte where "OP_CAT \<equiv> 0x7e"

abbreviation (input) OP_SUBSTR :: byte where "OP_SUBSTR \<equiv> 0x7f"

abbreviation (input) OP_LEFT :: byte where "OP_LEFT \<equiv> 0x80"

abbreviation (input) OP_RIGHT :: byte where "OP_RIGHT \<equiv> 0x81"

abbreviation (input) OP_SIZE :: byte where "OP_SIZE \<equiv> 0x82"

abbreviation (input) OP_INVERT :: byte where "OP_INVERT \<equiv> 0x83"

abbreviation (input) OP_AND :: byte where "OP_AND \<equiv> 0x84"

abbreviation (input) OP_OR :: byte where "OP_OR \<equiv> 0x85"

abbreviation (input) OP_XOR :: byte where "OP_XOR \<equiv> 0x86"

abbreviation (input) OP_EQUAL :: byte where "OP_EQUAL \<equiv> 0x87"

abbreviation (input) OP_EQUALVERIFY :: byte where "OP_EQUALVERIFY \<equiv> 0x88"

abbreviation (input) OP_RESERVED1 :: byte where "OP_RESERVED1 \<equiv> 0x89"

abbreviation (input) OP_RESERVED2 :: byte where "OP_RESERVED2 \<equiv> 0x8a"

abbreviation (input) OP_1ADD :: byte where "OP_1ADD \<equiv> 0x8b"

abbreviation (input) OP_1SUB :: byte where "OP_1SUB \<equiv> 0x8c"

abbreviation (input) OP_2MUL :: byte where "OP_2MUL \<equiv> 0x8d"

abbreviation (input) OP_2DIV :: byte where "OP_2DIV \<equiv> 0x8e"

abbreviation (input) OP_NEGATE :: byte where "OP_NEGATE \<equiv> 0x8f"

abbreviation (input) OP_ABS :: byte where "OP_ABS \<equiv> 0x90"

abbreviation (input) OP_NOT :: byte where "OP_NOT \<equiv> 0x91"

abbreviation (input) OP_0NOTEQUAL :: byte where "OP_0NOTEQUAL \<equiv> 0x92"

abbreviation (input) OP_ADD :: byte where "OP_ADD \<equiv> 0x93"

abbreviation (input) OP_SUB :: byte where "OP_SUB \<equiv> 0x94"

abbreviation (input) OP_MUL :: byte where "OP_MUL \<equiv> 0x95"

abbreviation (input) OP_DIV :: byte where "OP_DIV \<equiv> 0x96"

abbreviation (input) OP_MOD :: byte where "OP_MOD \<equiv> 0x97"

abbreviation (input) OP_LSHIFT :: byte where "OP_LSHIFT \<equiv> 0x98"

abbreviation (input) OP_RSHIFT :: byte where "OP_RSHIFT \<equiv> 0x99"

abbreviation (input) OP_BOOLAND :: byte where "OP_BOOLAND \<equiv> 0x9a"

abbreviation (input) OP_BOOLOR :: byte where "OP_BOOLOR \<equiv> 0x9b"

abbreviation (input) OP_NUMEQUAL :: byte where "OP_NUMEQUAL \<equiv> 0x9c"

abbreviation (input) OP_NUMEQUALVERIFY :: byte where "OP_NUMEQUALVERIFY \<equiv> 0x9d"

abbreviation (input) OP_NUMNOTEQUAL :: byte where "OP_NUMNOTEQUAL \<equiv> 0x9e"

abbreviation (input) OP_LESSTHAN :: byte where "OP_LESSTHAN \<equiv> 0x9f"

abbreviation (input) OP_GREATERTHAN :: byte where "OP_GREATERTHAN \<equiv> 0xa0"

abbreviation (input) OP_LESSTHANOREQUAL :: byte where "OP_LESSTHANOREQUAL \<equiv> 0xa1"

abbreviation (input) OP_GREATERTHANOREQUAL :: byte where "OP_GREATERTHANOREQUAL \<equiv> 0xa2"

abbreviation (input) OP_MIN :: byte where "OP_MIN \<equiv> 0xa3"

abbreviation (input) OP_MAX :: byte where "OP_MAX \<equiv> 0xa4"

abbreviation (input) OP_WITHIN :: byte where "OP_WITHIN \<equiv> 0xa5"

abbreviation (input) OP_RIPEMD160 :: byte where "OP_RIPEMD160 \<equiv> 0xa6"

abbreviation (input) OP_SHA1 :: byte where "OP_SHA1 \<equiv> 0xa7"

abbreviation (input) OP_SHA256 :: byte where "OP_SHA256 \<equiv> 0xa8"

abbreviation (input) OP_HASH160 :: byte where "OP_HASH160 \<equiv> 0xa9"

abbreviation (input) OP_HASH256 :: byte where "OP_HASH256 \<equiv> 0xaa"

abbreviation (input) OP_CODESEPARATOR :: byte where "OP_CODESEPARATOR \<equiv> 0xab"

abbreviation (input) OP_CHECKSIG :: byte where "OP_CHECKSIG \<equiv> 0xac"

abbreviation (input) OP_CHECKSIGVERIFY :: byte where "OP_CHECKSIGVERIFY \<equiv> 0xad"

abbreviation (input) OP_CHECKMULTISIG :: byte where "OP_CHECKMULTISIG \<equiv> 0xae"

abbreviation (input) OP_CHECKMULTISIGVERIFY :: byte where "OP_CHECKMULTISIGVERIFY \<equiv> 0xaf"

abbreviation (input) OP_NOP1 :: byte where "OP_NOP1 \<equiv> 0xb0"

abbreviation (input) OP_CHECKLOCKTIMEVERIFY :: byte where "OP_CHECKLOCKTIMEVERIFY \<equiv> 0xb1"

abbreviation (input) OP_CHECKSEQUENCEVERIFY :: byte where "OP_CHECKSEQUENCEVERIFY \<equiv> 0xb2"

abbreviation (input) OP_NOP4 :: byte where "OP_NOP4 \<equiv> 0xb3"

abbreviation (input) OP_NOP5 :: byte where "OP_NOP5 \<equiv> 0xb4"

abbreviation (input) OP_NOP6 :: byte where "OP_NOP6 \<equiv> 0xb5"

abbreviation (input) OP_NOP7 :: byte where "OP_NOP7 \<equiv> 0xb6"

abbreviation (input) OP_NOP8 :: byte where "OP_NOP8 \<equiv> 0xb7"

abbreviation (input) OP_NOP9 :: byte where "OP_NOP9 \<equiv> 0xb8"

abbreviation (input) OP_NOP10 :: byte where "OP_NOP10 \<equiv> 0xb9"

abbreviation (input) OP_CHECKSIGADD :: byte where "OP_CHECKSIGADD \<equiv> 0xba"

abbreviation (input) OP_INVALIDOPCODE :: byte where "OP_INVALIDOPCODE \<equiv> 0xff"

definition MAX_OPCODE :: byte where
  "MAX_OPCODE = OP_NOP10"

definition opcode_names :: "(byte \<times> string) list" where
  "opcode_names =
     [(OP_0, ''0''), (OP_PUSHDATA1, ''OP_PUSHDATA1''), (OP_PUSHDATA2, ''OP_PUSHDATA2''), (OP_PUSHDATA4, ''OP_PUSHDATA4''),
      (OP_1NEGATE, ''-1''), (OP_RESERVED, ''OP_RESERVED''), (OP_1, ''1''), (OP_2, ''2''),
      (OP_3, ''3''), (OP_4, ''4''), (OP_5, ''5''), (OP_6, ''6''),
      (OP_7, ''7''), (OP_8, ''8''), (OP_9, ''9''), (OP_10, ''10''),
      (OP_11, ''11''), (OP_12, ''12''), (OP_13, ''13''), (OP_14, ''14''),
      (OP_15, ''15''), (OP_16, ''16''), (OP_NOP, ''OP_NOP''), (OP_VER, ''OP_VER''),
      (OP_IF, ''OP_IF''), (OP_NOTIF, ''OP_NOTIF''), (OP_VERIF, ''OP_VERIF''), (OP_VERNOTIF, ''OP_VERNOTIF''),
      (OP_ELSE, ''OP_ELSE''), (OP_ENDIF, ''OP_ENDIF''), (OP_VERIFY, ''OP_VERIFY''), (OP_RETURN, ''OP_RETURN''),
      (OP_TOALTSTACK, ''OP_TOALTSTACK''), (OP_FROMALTSTACK, ''OP_FROMALTSTACK''), (OP_2DROP, ''OP_2DROP''), (OP_2DUP, ''OP_2DUP''),
      (OP_3DUP, ''OP_3DUP''), (OP_2OVER, ''OP_2OVER''), (OP_2ROT, ''OP_2ROT''), (OP_2SWAP, ''OP_2SWAP''),
      (OP_IFDUP, ''OP_IFDUP''), (OP_DEPTH, ''OP_DEPTH''), (OP_DROP, ''OP_DROP''), (OP_DUP, ''OP_DUP''),
      (OP_NIP, ''OP_NIP''), (OP_OVER, ''OP_OVER''), (OP_PICK, ''OP_PICK''), (OP_ROLL, ''OP_ROLL''),
      (OP_ROT, ''OP_ROT''), (OP_SWAP, ''OP_SWAP''), (OP_TUCK, ''OP_TUCK''), (OP_CAT, ''OP_CAT''),
      (OP_SUBSTR, ''OP_SUBSTR''), (OP_LEFT, ''OP_LEFT''), (OP_RIGHT, ''OP_RIGHT''), (OP_SIZE, ''OP_SIZE''),
      (OP_INVERT, ''OP_INVERT''), (OP_AND, ''OP_AND''), (OP_OR, ''OP_OR''), (OP_XOR, ''OP_XOR''),
      (OP_EQUAL, ''OP_EQUAL''), (OP_EQUALVERIFY, ''OP_EQUALVERIFY''), (OP_RESERVED1, ''OP_RESERVED1''), (OP_RESERVED2, ''OP_RESERVED2''),
      (OP_1ADD, ''OP_1ADD''), (OP_1SUB, ''OP_1SUB''), (OP_2MUL, ''OP_2MUL''), (OP_2DIV, ''OP_2DIV''),
      (OP_NEGATE, ''OP_NEGATE''), (OP_ABS, ''OP_ABS''), (OP_NOT, ''OP_NOT''), (OP_0NOTEQUAL, ''OP_0NOTEQUAL''),
      (OP_ADD, ''OP_ADD''), (OP_SUB, ''OP_SUB''), (OP_MUL, ''OP_MUL''), (OP_DIV, ''OP_DIV''),
      (OP_MOD, ''OP_MOD''), (OP_LSHIFT, ''OP_LSHIFT''), (OP_RSHIFT, ''OP_RSHIFT''), (OP_BOOLAND, ''OP_BOOLAND''),
      (OP_BOOLOR, ''OP_BOOLOR''), (OP_NUMEQUAL, ''OP_NUMEQUAL''), (OP_NUMEQUALVERIFY, ''OP_NUMEQUALVERIFY''), (OP_NUMNOTEQUAL, ''OP_NUMNOTEQUAL''),
      (OP_LESSTHAN, ''OP_LESSTHAN''), (OP_GREATERTHAN, ''OP_GREATERTHAN''), (OP_LESSTHANOREQUAL, ''OP_LESSTHANOREQUAL''), (OP_GREATERTHANOREQUAL, ''OP_GREATERTHANOREQUAL''),
      (OP_MIN, ''OP_MIN''), (OP_MAX, ''OP_MAX''), (OP_WITHIN, ''OP_WITHIN''), (OP_RIPEMD160, ''OP_RIPEMD160''),
      (OP_SHA1, ''OP_SHA1''), (OP_SHA256, ''OP_SHA256''), (OP_HASH160, ''OP_HASH160''), (OP_HASH256, ''OP_HASH256''),
      (OP_CODESEPARATOR, ''OP_CODESEPARATOR''), (OP_CHECKSIG, ''OP_CHECKSIG''), (OP_CHECKSIGVERIFY, ''OP_CHECKSIGVERIFY''), (OP_CHECKMULTISIG, ''OP_CHECKMULTISIG''),
      (OP_CHECKMULTISIGVERIFY, ''OP_CHECKMULTISIGVERIFY''), (OP_NOP1, ''OP_NOP1''), (OP_CHECKLOCKTIMEVERIFY, ''OP_CHECKLOCKTIMEVERIFY''), (OP_CHECKSEQUENCEVERIFY, ''OP_CHECKSEQUENCEVERIFY''),
      (OP_NOP4, ''OP_NOP4''), (OP_NOP5, ''OP_NOP5''), (OP_NOP6, ''OP_NOP6''), (OP_NOP7, ''OP_NOP7''),
      (OP_NOP8, ''OP_NOP8''), (OP_NOP9, ''OP_NOP9''), (OP_NOP10, ''OP_NOP10''), (OP_CHECKSIGADD, ''OP_CHECKSIGADD''),
      (OP_INVALIDOPCODE, ''OP_INVALIDOPCODE'')]"

definition GetOpName :: "byte \<Rightarrow> string" where
  "GetOpName opcode = (case map_of opcode_names opcode of Some name \<Rightarrow> name | None \<Rightarrow> ''OP_UNKNOWN'')"

subsection \<open>Script numbers\<close>

datatype scriptnum_error = ScriptNumberOverflow | NonMinimalScriptNumber

text \<open>
  A script number is the \<^verbatim>\<open>int64_t\<close> it stores. Bytes are put in place with shifts, the sign
  is the top bit of the last byte.
\<close>

fun set_vch_loop :: "nat \<Rightarrow> bytes \<Rightarrow> u64 \<Rightarrow> u64" where
  "set_vch_loop i [] result = result"
| "set_vch_loop i (b # vch) result = set_vch_loop (Suc i) vch (result OR push_bit (8 * i) (ucast b))"

definition set_vch :: "bytes \<Rightarrow> int" where
  "set_vch vch =
     (if vch = [] then 0
      else let result = set_vch_loop 0 vch 0
           in if last vch AND 0x80 \<noteq> 0
              then - sint (result AND NOT (push_bit (8 * (length vch - 1)) 0x80))
              else sint result)"

definition CScriptNum :: "bytes \<Rightarrow> bool \<Rightarrow> nat \<Rightarrow> scriptnum_error + int" where
  "CScriptNum vch fRequireMinimal nMaxNumSize =
     (if length vch > nMaxNumSize then Inl ScriptNumberOverflow
      else if fRequireMinimal \<and> length vch > 0 \<and> last vch AND 0x7f = 0 \<and>
              (length vch \<le> 1 \<or> vch ! (length vch - 2) AND 0x80 = 0)
      then Inl NonMinimalScriptNumber
      else Inr (set_vch vch))"

definition nDefaultMaxNumSize :: nat where
  "nDefaultMaxNumSize = 4"

function abs_bytes :: "u64 \<Rightarrow> bytes" where
  "abs_bytes absvalue =
     (if absvalue = 0 then [] else ucast (absvalue AND 0xff) # abs_bytes (drop_bit 8 absvalue))"
  by auto
termination
  by (relation "measure unat") (auto simp: unat_drop_bit_div word_nonzero_unat intro!: div_less_dividend)

declare abs_bytes.simps [simp del]

definition scriptnum_serialize :: "int \<Rightarrow> bytes" where
  "scriptnum_serialize value =
     (if value = 0 then []
      else let neg = value < 0;
               absvalue = (if neg then NOT (word_of_int value) + 1 else word_of_int value);
               result = abs_bytes absvalue
           in if last result AND 0x80 \<noteq> 0 then result @ [if neg then 0x80 else 0]
              else if neg then butlast result @ [last result OR 0x80]
              else result)"

definition getint :: "int \<Rightarrow> int" where
  "getint m_value =
     (if m_value > INT32_MAX then INT32_MAX else if m_value < INT32_MIN then INT32_MIN else m_value)"

definition scriptnum_neg :: "int \<Rightarrow> int option" where
  "scriptnum_neg m_value = (if m_value \<noteq> INT64_MIN then Some (- m_value) else None)"

definition scriptnum_add_assign :: "int \<Rightarrow> int \<Rightarrow> int option" where
  "scriptnum_add_assign m_value rhs =
     (if rhs = 0 \<or> rhs > 0 \<and> m_value \<le> INT64_MAX - rhs \<or> rhs < 0 \<and> m_value \<ge> INT64_MIN - rhs
      then Some (m_value + rhs) else None)"

definition scriptnum_sub_assign :: "int \<Rightarrow> int \<Rightarrow> int option" where
  "scriptnum_sub_assign m_value rhs =
     (if rhs = 0 \<or> rhs > 0 \<and> m_value \<ge> INT64_MIN + rhs \<or> rhs < 0 \<and> m_value \<le> INT64_MAX + rhs
      then Some (m_value - rhs) else None)"

subsection \<open>Building and reading scripts\<close>

definition AppendDataSize :: "CScript \<Rightarrow> u32 \<Rightarrow> CScript" where
  "AppendDataSize script sz =
     (if sz < ucast OP_PUSHDATA1 then script @ [ucast sz]
      else if sz \<le> 0xff then script @ [OP_PUSHDATA1, ucast sz]
      else if sz \<le> 0xffff then script @ [OP_PUSHDATA2] @ LE_split 2 (ucast sz :: u16)
      else script @ [OP_PUSHDATA4] @ LE_split 4 sz)"

text \<open>\<^verbatim>\<open>operator<<\<close> for data, an opcode, a number and an integer.\<close>

definition push_data :: "CScript \<Rightarrow> bytes \<Rightarrow> CScript" where
  "push_data script b = AppendDataSize script (of_nat (length b)) @ b"

definition push_opcode :: "CScript \<Rightarrow> byte \<Rightarrow> CScript" where
  "push_opcode script opcode = script @ [opcode]"

definition push_scriptnum :: "CScript \<Rightarrow> int \<Rightarrow> CScript" where
  "push_scriptnum script b = push_data script (scriptnum_serialize b)"

definition push_int64 :: "CScript \<Rightarrow> int \<Rightarrow> CScript" where
  "push_int64 script n =
     (if n = -1 \<or> n \<ge> 1 \<and> n \<le> 16 then script @ [word_of_int (n + (uint OP_1 - 1))]
      else if n = 0 then script @ [OP_0]
      else push_data script (scriptnum_serialize n))"

text \<open>
  \<^verbatim>\<open>GetScriptOp\<close>: whether it succeeds, the opcode, the data and the new position, which
  has moved past the opcode and the length even when it fails.
\<close>

definition read_push :: "byte \<Rightarrow> bytes \<Rightarrow> nat \<Rightarrow> bool \<times> byte \<times> bytes \<times> bytes" where
  "read_push opcode pc nSize =
     (if length pc < nSize then (False, OP_INVALIDOPCODE, [], pc)
      else (True, opcode, take nSize pc, drop nSize pc))"

definition GetScriptOp :: "bytes \<Rightarrow> bool \<times> byte \<times> bytes \<times> bytes" where
  "GetScriptOp pc =
     (case pc of
        [] \<Rightarrow> (False, OP_INVALIDOPCODE, [], [])
      | opcode # pc \<Rightarrow>
          if opcode \<le> OP_PUSHDATA4
          then if opcode < OP_PUSHDATA1 then read_push opcode pc (unat opcode)
               else if opcode = OP_PUSHDATA1
               then (if length pc < 1 then (False, OP_INVALIDOPCODE, [], pc)
                     else read_push opcode (drop 1 pc) (unat (pc ! 0)))
               else if opcode = OP_PUSHDATA2
               then (if length pc < 2 then (False, OP_INVALIDOPCODE, [], pc)
                     else read_push opcode (drop 2 pc) (unat (LE_join (take 2 pc) :: u16)))
               else (if length pc < 4 then (False, OP_INVALIDOPCODE, [], pc)
                     else read_push opcode (drop 4 pc) (unat (LE_join (take 4 pc) :: u32)))
          else (True, opcode, [], pc))"

lemma read_push_length:
  "read_push opcode pc n = (True, opc, data, rest) \<Longrightarrow> length rest \<le> length pc"
  by (auto simp: read_push_def split: if_splits)

lemma GetScriptOp_shorter:
  "GetScriptOp pc = (True, opcode, data, rest) \<Longrightarrow> length rest < length pc"
  by (auto simp: GetScriptOp_def split: list.splits if_splits dest!: read_push_length)

definition DecodeOP_N :: "byte \<Rightarrow> int option" where
  "DecodeOP_N opcode =
     (if opcode = OP_0 then Some 0
      else if opcode \<ge> OP_1 \<and> opcode \<le> OP_16 then Some (uint opcode - (uint OP_1 - 1))
      else None)"

definition EncodeOP_N :: "int \<Rightarrow> byte option" where
  "EncodeOP_N n =
     (if n \<ge> 0 \<and> n \<le> 16 then Some (if n = 0 then OP_0 else word_of_int (uint OP_1 + n - 1)) else None)"

subsection \<open>Signature operations\<close>

function sigop_loop :: "bool \<Rightarrow> bytes \<Rightarrow> byte \<Rightarrow> u32 \<Rightarrow> u32 option" where
  "sigop_loop fAccurate pc lastOpcode n =
     (case GetScriptOp pc of
        (False, _) \<Rightarrow> Some n
      | (True, opcode, data, rest) \<Rightarrow>
          if opcode = OP_CHECKSIG \<or> opcode = OP_CHECKSIGVERIFY
          then sigop_loop fAccurate rest opcode (n + 1)
          else if opcode = OP_CHECKMULTISIG \<or> opcode = OP_CHECKMULTISIGVERIFY
          then if fAccurate \<and> lastOpcode \<ge> OP_1 \<and> lastOpcode \<le> OP_16
               then (case DecodeOP_N lastOpcode of
                       None \<Rightarrow> None
                     | Some k \<Rightarrow> sigop_loop fAccurate rest opcode (n + word_of_int k))
               else sigop_loop fAccurate rest opcode (n + word_of_int MAX_PUBKEYS_PER_MULTISIG)
          else sigop_loop fAccurate rest opcode n)"
  by pat_completeness auto
termination
  by (relation "measure (\<lambda>(fAccurate, pc, lastOpcode, n). length pc)") (auto dest!: sym [THEN GetScriptOp_shorter] GetScriptOp_shorter)

declare sigop_loop.simps [simp del]

definition GetSigOpCount :: "CScript \<Rightarrow> bool \<Rightarrow> u32 option" where
  "GetSigOpCount script fAccurate = sigop_loop fAccurate script OP_INVALIDOPCODE 0"

subsection \<open>Recognised scripts\<close>

definition IsPayToAnchor :: "CScript \<Rightarrow> bool" where
  "IsPayToAnchor script \<longleftrightarrow>
     length script = 4 \<and> script ! 0 = OP_1 \<and> script ! 1 = 0x02 \<and> script ! 2 = 0x4e \<and> script ! 3 = 0x73"

definition IsPayToAnchor_program :: "int \<Rightarrow> bytes \<Rightarrow> bool" where
  "IsPayToAnchor_program ver program \<longleftrightarrow>
     ver = 1 \<and> length program = 2 \<and> program ! 0 = 0x4e \<and> program ! 1 = 0x73"

definition IsPayToScriptHash :: "CScript \<Rightarrow> bool" where
  "IsPayToScriptHash script \<longleftrightarrow>
     length script = 23 \<and> script ! 0 = OP_HASH160 \<and> script ! 1 = 0x14 \<and> script ! 22 = OP_EQUAL"

definition IsPayToWitnessScriptHash :: "CScript \<Rightarrow> bool" where
  "IsPayToWitnessScriptHash script \<longleftrightarrow> length script = 34 \<and> script ! 0 = OP_0 \<and> script ! 1 = 0x20"

definition IsPayToTaproot :: "CScript \<Rightarrow> bool" where
  "IsPayToTaproot script \<longleftrightarrow> length script = 34 \<and> script ! 0 = OP_1 \<and> script ! 1 = 0x20"

text \<open>\<open>Some (Some (version, program))\<close> for a witness program, \<open>Some None\<close> for another script.\<close>

definition IsWitnessProgram :: "CScript \<Rightarrow> (int \<times> bytes) option option" where
  "IsWitnessProgram script =
     (if length script < 4 \<or> length script > 42 then Some None
      else if script ! 0 \<noteq> OP_0 \<and> (script ! 0 < OP_1 \<or> script ! 0 > OP_16) then Some None
      else if unat (script ! 1) + 2 = length script
      then map_option (\<lambda>v. Some (v, drop 2 script)) (DecodeOP_N (script ! 0))
      else Some None)"

function IsPushOnly :: "bytes \<Rightarrow> bool" where
  "IsPushOnly pc \<longleftrightarrow>
     (if pc = [] then True
      else case GetScriptOp pc of
        (False, _) \<Rightarrow> False
      | (True, opcode, data, rest) \<Rightarrow> if opcode > OP_16 then False else IsPushOnly rest)"
  by pat_completeness auto
termination
  by (relation "measure length") (auto dest!: sym [THEN GetScriptOp_shorter] GetScriptOp_shorter)

declare IsPushOnly.simps [simp del]

function HasValidOps :: "bytes \<Rightarrow> bool" where
  "HasValidOps pc \<longleftrightarrow>
     (if pc = [] then True
      else case GetScriptOp pc of
        (False, _) \<Rightarrow> False
      | (True, opcode, item, rest) \<Rightarrow>
          if opcode > MAX_OPCODE \<or> length item > MAX_SCRIPT_ELEMENT_SIZE then False else HasValidOps rest)"
  by pat_completeness auto
termination
  by (relation "measure length") (auto dest!: sym [THEN GetScriptOp_shorter] GetScriptOp_shorter)

declare HasValidOps.simps [simp del]

definition IsUnspendable :: "CScript \<Rightarrow> bool" where
  "IsUnspendable script \<longleftrightarrow> length script > 0 \<and> script ! 0 = OP_RETURN \<or> length script > MAX_SCRIPT_SIZE"

text \<open>The loop over the pushes of an input script, for the script hidden behind a hash.\<close>

function last_push :: "bytes \<Rightarrow> bytes \<Rightarrow> bytes option" where
  "last_push pc vData =
     (if pc = [] then Some vData
      else case GetScriptOp pc of
        (False, _) \<Rightarrow> None
      | (True, opcode, data, rest) \<Rightarrow> if opcode > OP_16 then None else last_push rest data)"
  by pat_completeness auto
termination
  by (relation "measure (\<lambda>(pc, vData). length pc)") (auto dest!: sym [THEN GetScriptOp_shorter] GetScriptOp_shorter)

declare last_push.simps [simp del]

definition GetSigOpCount_p2sh :: "CScript \<Rightarrow> CScript \<Rightarrow> u32 option" where
  "GetSigOpCount_p2sh script input_script =
     (if \<not> IsPayToScriptHash script then GetSigOpCount script True
      else case last_push input_script [] of
             None \<Rightarrow> Some 0
           | Some subscript \<Rightarrow> GetSigOpCount subscript True)"

definition IsOpSuccess :: "byte \<Rightarrow> bool" where
  "IsOpSuccess opcode \<longleftrightarrow>
     opcode = 80 \<or> opcode = 98 \<or> opcode \<ge> 126 \<and> opcode \<le> 129 \<or>
     opcode \<ge> 131 \<and> opcode \<le> 134 \<or> opcode \<ge> 137 \<and> opcode \<le> 138 \<or>
     opcode \<ge> 141 \<and> opcode \<le> 142 \<or> opcode \<ge> 149 \<and> opcode \<le> 153 \<or>
     opcode \<ge> 187 \<and> opcode \<le> 254"

definition CheckMinimalPush :: "bytes \<Rightarrow> byte \<Rightarrow> bool option" where
  "CheckMinimalPush data opcode =
     (if \<not> opcode \<le> OP_PUSHDATA4 then None
      else Some
        (if length data = 0 then opcode = OP_0
         else if length data = 1 \<and> data ! 0 \<ge> 1 \<and> data ! 0 \<le> 16 then False
         else if length data = 1 \<and> data ! 0 = 0x81 then False
         else if length data \<le> 75 then unat opcode = length data
         else if length data \<le> 255 then opcode = OP_PUSHDATA1
         else if length data \<le> 65535 then opcode = OP_PUSHDATA2
         else True))"

definition CScriptWitness_ToString :: "bytes list \<Rightarrow> string" where
  "CScriptWitness_ToString stack =
     foldl (\<lambda>ret (i, e). (if i > 0 then ret @ '', '' else ret) @ HexStr e) ''CScriptWitness('' (enumerate 0 stack) @ '')''"

section \<open>Script numbers\<close>

text \<open>The bytes of a magnitude: little endian, without a zero byte at the end.\<close>

lemma abs_bytes_0 [simp]: "abs_bytes 0 = []"
  by (simp add: abs_bytes.simps)

lemma abs_bytes_step: "x \<noteq> 0 \<Longrightarrow> abs_bytes x = ucast x # abs_bytes (drop_bit 8 x)"
proof -
  assume "x \<noteq> 0"
  moreover have "(ucast (x AND 0xff) :: byte) = ucast x"
  proof (rule bit_eqI)
    fix n
    have m: "(0xff :: u64) = mask 8" by (simp add: mask_eq_exp_minus_1)
    show "bit (ucast (x AND 0xff) :: byte) n = bit (ucast x :: byte) n"
      unfolding m by (auto simp: bit_simps)
  qed
  ultimately show ?thesis by (simp add: abs_bytes.simps [of x])
qed

lemma unat_ucast_byte: "unat (ucast (x :: u64) :: byte) = unat x mod 256"
  by (simp add: unsigned_ucast_eq take_bit_eq_mod)

lemma le_val_abs_bytes: "le_val (abs_bytes x) = unat x"
proof (induction x rule: abs_bytes.induct)
  case (1 x)
  show ?case
  proof (cases "x = 0")
    case False
    then show ?thesis using 1 [OF False] by (simp add: abs_bytes_step unat_drop_bit_div unat_ucast_byte)
  qed simp
qed

definition no_zero_top :: "bytes \<Rightarrow> bool" where
  "no_zero_top bs \<longleftrightarrow> bs = [] \<or> last bs \<noteq> 0"

lemma no_zero_top_Cons: "no_zero_top (b # bs) \<longleftrightarrow> (if bs = [] then b \<noteq> 0 else no_zero_top bs)"
  by (simp add: no_zero_top_def)

lemma no_zero_top_pos: "no_zero_top bs \<Longrightarrow> bs \<noteq> [] \<Longrightarrow> 0 < le_val bs"
  by (induction bs) (auto simp: no_zero_top_Cons word_nonzero_unat split: if_splits)

lemma unat_of_nat_u64: "n < 2 ^ 64 \<Longrightarrow> unat (of_nat n :: u64) = n"
  by (simp add: unat_of_nat)

lemma int_less_2_63: "n < 2 ^ 63 \<Longrightarrow> int n < 2 ^ 63"
  by (metis of_nat_less_iff of_nat_numeral of_nat_power)

lemma le_val_u64: "length bs \<le> 8 \<Longrightarrow> le_val bs < 2 ^ 64"
  using le_val_less [of bs] power_increasing [of "length bs" 8 "256 :: nat"] by simp

lemma abs_bytes_le_val: "no_zero_top bs \<Longrightarrow> length bs \<le> 8 \<Longrightarrow> abs_bytes (of_nat (le_val bs)) = bs"
proof (induction bs)
  case (Cons b bs)
  have lt: "le_val (b # bs) < 2 ^ 64"
    by (rule le_val_u64 [OF Cons.prems(2)])
  have v: "unat (of_nat (le_val (b # bs)) :: u64) = le_val (b # bs)" by (rule unat_of_nat_u64 [OF lt])
  then have nz: "(of_nat (le_val (b # bs)) :: u64) \<noteq> 0"
    using no_zero_top_pos [OF Cons.prems(1)] by (metis list.distinct(1) less_numeral_extra(3) unat_0)
  have "unat (drop_bit 8 (of_nat (le_val (b # bs)) :: u64)) = le_val bs"
    unfolding unat_drop_bit_div v using le_val_Cons_parts(2) [of b bs] by simp
  then have "drop_bit 8 (of_nat (le_val (b # bs)) :: u64) = of_nat (le_val bs)"
    by (metis of_nat_unat ucast_id)
  moreover have "(ucast (of_nat (le_val (b # bs)) :: u64) :: byte) = b"
    using v le_val_Cons_parts(1) [of b bs] unat_u8_less [of b]
    by (simp add: word_unat_eq_iff unat_ucast_byte del: le_val.simps)
  moreover have "abs_bytes (of_nat (le_val bs)) = bs"
    using Cons by (cases "bs = []") (auto simp: no_zero_top_Cons)
  ultimately show ?case using abs_bytes_step [OF nz] by (simp del: le_val.simps)
qed simp

lemma abs_bytes_top: "no_zero_top (abs_bytes x)"
proof (induction x rule: abs_bytes.induct)
  case (1 x)
  show ?case
  proof (cases "x = 0")
    case False
    have "ucast x \<noteq> (0 :: byte)" if "drop_bit 8 x = 0"
    proof
      assume "ucast x = (0 :: byte)"
      then have "unat x mod 256 = 0" using unat_ucast_byte [of x] by simp
      moreover have "unat x div 256 = 0" using that unat_drop_bit_div [of 8 x] by simp
      ultimately have "unat x = 0" by (metis div_mult_mod_eq mult_0 add_0)
      then show False using False by (simp add: word_nonzero_unat)
    qed
    then show ?thesis using 1 [OF False] False
      by (cases "drop_bit 8 x = 0") (auto simp: abs_bytes_step no_zero_top_Cons)
  qed (simp add: no_zero_top_def)
qed

text \<open>The sign bit and the seven value bits of a byte.\<close>

lemma byte_and_7f: "b AND 0x7f = take_bit 7 (b :: byte)"
  by (simp add: take_bit_eq_mask mask_eq_exp_minus_1)

lemma byte_or_80: "take_bit 7 b OR (if bit b 7 then 0x80 else 0) = (b :: byte)"
  unfolding top_bit
  by (rule bit_eqI) (auto simp: bit_simps less_Suc_eq numeral_eq_Suc)

lemma unat_take_bit: "unat (take_bit n (w :: 'a::len word)) = unat w mod 2 ^ n"
  by (simp only: unsigned_take_bit_eq) (simp only: take_bit_eq_mod)

lemma unat_byte_7f: "unat (take_bit 7 b :: byte) = unat b mod 128"
  by (simp add: unat_take_bit)

lemma byte_bit7_iff: "bit (b :: byte) 7 \<longleftrightarrow> 128 \<le> unat b"
proof -
  have "bit b 7 = odd (unat b div 128)"
    by (simp add: bit_unat_iff [symmetric] bit_iff_odd)
  moreover have "unat b div 128 = (if 128 \<le> unat b then 1 else 0)"
    using unat_u8_less [of b] by (auto intro!: div_nat_eqI)
  ultimately show ?thesis by simp
qed

lemma le_val_snoc: "le_val (xs @ [b]) = le_val xs + 256 ^ length xs * unat b"
  by (simp add: le_val_append)

text \<open>The bytes are put together to the little endian value.\<close>

lemma set_vch_loop_value:
  "unat r < 256 ^ i \<Longrightarrow> i + length vch \<le> 8 \<Longrightarrow>
     unat (set_vch_loop i vch r) = unat r + 256 ^ i * le_val vch"
proof (induction vch arbitrary: i r)
  case (Cons b vch)
  let ?p = "push_bit (8 * i) (ucast b) :: u64"
  have i: "i \<le> 7" using Cons.prems(2) by simp
  have e: "(2 :: nat) ^ (8 * i) = 256 ^ i" by (simp add: power_mult)
  have top: "256 ^ i * 256 \<le> (2 :: nat) ^ 64"
    using power_increasing [of "Suc i" 8 "256 :: nat"] i by simp
  have ub: "unat (ucast b :: u64) = unat b" using unat_u8_less [of b] by (simp add: unsigned_ucast_eq take_bit_eq_mod)
  have bl: "256 ^ i * unat b < 2 ^ 64"
  proof -
    have "256 ^ i * unat b \<le> 256 ^ i * 255" using unat_u8_less [of b] by simp
    also have "\<dots> < 256 ^ i * 256" by simp
    also note top
    finally show ?thesis .
  qed
  have p: "unat ?p = 256 ^ i * unat b"
    unfolding unat_push_bit ub e using bl by (simp add: mult.commute)
  have "r AND ?p = 0"
  proof (rule bit_eqI)
    fix n
    have "\<not> bit r n" if "8 * i \<le> n"
      using bit_nat_less [of "unat r" "8 * i" n] Cons.prems(1) that by (simp add: e bit_unat_iff)
    then show "bit (r AND ?p) n = bit (0 :: u64) n" by (auto simp: bit_simps)
  qed
  then have "r OR ?p = r + ?p" by (simp add: disjunctive_add_eq_or)
  moreover have lt: "unat r + 256 ^ i * unat b < 256 ^ Suc i"
  proof -
    have "unat r + 256 ^ i * unat b < 256 ^ i * Suc (unat b)" using Cons.prems(1) by simp
    also have "\<dots> \<le> 256 ^ i * 256" using unat_u8_less [of b] by (intro mult_le_mono2) simp
    finally show ?thesis by simp
  qed
  ultimately have v: "unat (r OR ?p) = unat r + 256 ^ i * unat b"
    using top by (simp add: unat_word_ariths p)
  then have "unat (set_vch_loop (Suc i) vch (r OR ?p)) = unat (r OR ?p) + 256 ^ Suc i * le_val vch"
    using Cons.prems(2) lt by (intro Cons.IH) simp_all
  then show ?case by (simp add: v distrib_left)
qed simp

lemma sint_u64_small: "unat (x :: u64) < 2 ^ 63 \<Longrightarrow> sint x = int (unat x)"
proof -
  assume "unat x < 2 ^ 63"
  then have "int (unat x) < 2 ^ 63" by (rule int_less_2_63)
  then have "fits_int64 (int (unat x))" unfolding int_limits by linarith
  then show ?thesis using sint_of_int64 [of "int (unat x)"] by simp
qed

text \<open>
  Clearing the sign bit of the last byte: the bits below it stay.
\<close>

lemma clear_sign:
  assumes "unat (r :: u64) < 2 ^ (8 * k + 8)"
  shows "unat (r AND NOT (push_bit (8 * k) 0x80)) = unat (if bit r (8 * k + 7) then take_bit (8 * k + 7) r else r)"
proof -
  have "(push_bit (8 * k) 0x80 :: u64) = push_bit (8 * k + 7) 1"
    by (simp add: push_bit_eq_mult power_add)
  moreover have "r AND NOT (push_bit (8 * k + 7) 1) = (if bit r (8 * k + 7) then take_bit (8 * k + 7) r else r)"
  proof (rule bit_word_eqI)
    fix n
    assume "n < LENGTH(64)"
    have "\<not> bit r n" if "8 * k + 8 \<le> n"
      using bit_nat_less [OF assms that] by (simp add: bit_unat_iff)
    with \<open>n < LENGTH(64)\<close> show "bit (r AND NOT (push_bit (8 * k + 7) 1)) n =
        bit (if bit r (8 * k + 7) then take_bit (8 * k + 7) r else r) n"
      by (cases "n = 8 * k + 7"; cases "8 * k + 8 \<le> n") (auto simp: bit_simps)
  qed
  ultimately show ?thesis by simp
qed

lemma le_val_7f_less:
  assumes "length xs \<le> 7"
  shows "le_val (xs @ [take_bit 7 b]) < 2 ^ 63"
proof -
  have "le_val (xs @ [take_bit 7 b]) < 256 ^ length xs * Suc (unat b mod 128)"
    using le_val_less [of xs] by (simp add: le_val_snoc unat_byte_7f)
  also have "\<dots> \<le> 256 ^ 7 * 128"
    using assms by (intro mult_le_mono power_increasing) (simp_all add: Suc_leI)
  finally show ?thesis by simp
qed

lemma set_vch_snoc:
  assumes "length xs \<le> 7"
  shows "set_vch (xs @ [b]) =
    (if bit b 7 then - int (le_val (xs @ [take_bit 7 b])) else int (le_val (xs @ [take_bit 7 b])))"
proof -
  let ?r = "set_vch_loop 0 (xs @ [b]) 0"
  let ?p = "(256 :: nat) ^ length xs"
  have e: "(2 :: nat) ^ (8 * length xs) = ?p" by (simp add: power_mult)
  have r: "unat ?r = le_val xs + ?p * unat b"
    using set_vch_loop_value [of 0 0 "xs @ [b]"] assms by (simp add: le_val_snoc)
  have lo: "le_val xs < ?p" by (rule le_val_less)
  have m: "le_val (xs @ [take_bit 7 b]) = unat ?r mod 2 ^ (8 * length xs + 7)"
  proof -
    have "unat ?r mod (?p * 128) = le_val xs + ?p * (unat b mod 128)"
      using lo by (simp add: r mod_mult2_eq)
    then show ?thesis by (simp add: le_val_snoc unat_byte_7f power_add e)
  qed
  have bit7: "bit ?r (8 * length xs + 7) \<longleftrightarrow> bit b 7"
  proof -
    have "unat ?r div (?p * 128) = unat b div 128" using lo by (simp add: r div_mult2_eq)
    then show ?thesis by (simp add: bit_unat_iff [symmetric] bit_iff_odd power_add e)
  qed
  have lt: "unat ?r < 2 ^ (8 * length xs + 8)"
    using le_val_less [of "xs @ [b]"] by (simp add: r le_val_snoc power_add e)
  note small = le_val_7f_less [OF assms, of b]
  show ?thesis
  proof (cases "bit b 7")
    case True
    then have "unat (?r AND NOT (push_bit (8 * length xs) 0x80)) = le_val (xs @ [take_bit 7 b])"
      unfolding clear_sign [OF lt] using bit7 m by (simp add: unat_take_bit)
    then show ?thesis using True small
      by (simp add: set_vch_def top_bit_set sint_u64_small)
  next
    case False
    then have "take_bit 7 b = b" using byte_or_80 [of b] by simp
    then have "unat ?r = le_val (xs @ [take_bit 7 b])" using r by (simp add: le_val_snoc)
    then show ?thesis using False small by (simp add: set_vch_def top_bit_set sint_u64_small)
  qed
qed

text \<open>
  A canonical encoding: the last byte carries value bits, or the byte before it needs its top bit
  for the value.
\<close>

definition minimal_vch :: "bytes \<Rightarrow> bool" where
  "minimal_vch vch \<longleftrightarrow> vch = [] \<or> take_bit 7 (last vch) \<noteq> 0 \<or> butlast vch \<noteq> [] \<and> bit (last (butlast vch)) 7"

lemma nth_penultimate: "xs \<noteq> [] \<Longrightarrow> (xs @ [b]) ! (length xs - 1) = last xs"
  by (simp add: nth_append last_conv_nth)

lemma CScriptNum_minimal:
  "CScriptNum vch True n = Inr v \<longleftrightarrow> length vch \<le> n \<and> minimal_vch vch \<and> v = set_vch vch"
proof (cases vch rule: rev_cases)
  case (snoc xs b)
  then show ?thesis
    using nth_penultimate [of xs b] top_bit_set [of "last xs"]
    by (cases "xs = []") (auto simp: CScriptNum_def minimal_vch_def byte_and_7f)
qed (auto simp: CScriptNum_def minimal_vch_def)

text \<open>The encoder in terms of the bytes of the magnitude.\<close>

lemma magnitude_word:
  assumes "fits_int64 v" "v \<noteq> 0"
  shows "(if v < 0 then NOT (word_of_int v) + 1 else word_of_int v :: u64) = of_nat (nat \<bar>v\<bar>)"
proof (cases "v < 0")
  case True
  then have "of_nat (nat \<bar>v\<bar>) = (word_of_int (- v) :: u64)" by (simp add: of_nat_nat)
  then show ?thesis using True by (simp add: minus_eq_not_plus_1 [symmetric])
qed (simp add: of_nat_nat)

definition sign_byte :: "int \<Rightarrow> byte" where
  "sign_byte v = (if v < 0 then 0x80 else 0)"

lemma scriptnum_serialize_bytes:
  assumes "fits_int64 v" "v \<noteq> 0" "no_zero_top bs" "le_val bs = nat \<bar>v\<bar>" "length bs \<le> 8"
  shows "scriptnum_serialize v =
    (if bit (last bs) 7 then bs @ [sign_byte v] else butlast bs @ [last bs OR sign_byte v])"
proof -
  have ab: "abs_bytes (of_nat (nat \<bar>v\<bar>)) = bs" using abs_bytes_le_val [OF assms(3,5)] assms(4) by simp
  have "bs \<noteq> []" using assms(2,4) by auto
  then show ?thesis using assms(2)
    unfolding scriptnum_serialize_def Let_def magnitude_word [OF assms(1,2)] ab top_bit_set sign_byte_def
    by simp
qed

lemma set_vch_fits: "length vch \<le> 8 \<Longrightarrow> fits_int64 (set_vch vch)"
proof (cases vch rule: rev_cases)
  case (snoc xs b)
  assume "length vch \<le> 8"
  then have xs: "length xs \<le> 7" using snoc by simp
  have "int (le_val (xs @ [take_bit 7 b])) < 2 ^ 63"
    by (rule int_less_2_63 [OF le_val_7f_less [OF xs]])
  then show ?thesis unfolding snoc set_vch_snoc [OF xs] int_limits by simp
qed (simp add: set_vch_def int_limits)

lemma serialize_set_vch:
  assumes "minimal_vch vch" "length vch \<le> 8"
  shows "scriptnum_serialize (set_vch vch) = vch"
proof (cases vch rule: rev_cases)
  case Nil
  then show ?thesis by (simp add: set_vch_def scriptnum_serialize_def)
next
  case (snoc xs b)
  let ?t = "take_bit 7 b"
  let ?v = "set_vch (xs @ [b])"
  have xs: "length xs \<le> 7" using assms(2) snoc by simp
  have fits: "fits_int64 ?v" using set_vch_fits [of vch] assms(2) snoc by simp
  have v: "nat \<bar>?v\<bar> = le_val (xs @ [?t])" "?v < 0 \<longleftrightarrow> bit b 7 \<and> 0 < le_val (xs @ [?t])"
    using set_vch_snoc [OF xs, of b] by auto
  show ?thesis
  proof (cases "?t = 0")
    case False
    then have top: "no_zero_top (xs @ [?t])" by (simp add: no_zero_top_def)
    then have "0 < le_val (xs @ [?t])" using no_zero_top_pos by blast
    then have "scriptnum_serialize ?v = xs @ [?t OR sign_byte ?v]" "sign_byte ?v = (if bit b 7 then 0x80 else 0)"
      using scriptnum_serialize_bytes [OF fits _ top v(1) [symmetric]] xs v
      by (auto simp: sign_byte_def bit_simps)
    then show ?thesis using snoc byte_or_80 [of b] by simp
  next
    case True
    then have l: "xs \<noteq> []" "bit (last xs) 7" using assms(1) snoc by (auto simp: minimal_vch_def)
    then have top: "no_zero_top xs" by (auto simp: no_zero_top_def)
    have e: "le_val (xs @ [?t]) = le_val xs" using True by (simp add: le_val_snoc)
    have "0 < le_val xs" using no_zero_top_pos [OF top l(1)] .
    then have "scriptnum_serialize ?v = xs @ [sign_byte ?v]" "sign_byte ?v = (if bit b 7 then 0x80 else 0)"
      using scriptnum_serialize_bytes [OF fits _ top] xs v e l by (auto simp: sign_byte_def)
    then show ?thesis using snoc True byte_or_80 [of b] by simp
  qed
qed


lemma no_zero_top_lower: "no_zero_top bs \<Longrightarrow> bs \<noteq> [] \<Longrightarrow> 256 ^ (length bs - 1) \<le> le_val bs"
proof (cases bs rule: rev_cases)
  case (snoc xs b)
  assume "no_zero_top bs"
  then have "b \<noteq> 0" using snoc by (simp add: no_zero_top_def)
  then have "1 \<le> unat b" by (simp add: word_nonzero_unat)
  then have "256 ^ length xs * 1 \<le> 256 ^ length xs * unat b" by (intro mult_le_mono2)
  then have "256 ^ length xs \<le> le_val xs + 256 ^ length xs * unat b" by linarith
  then show ?thesis using snoc by (simp add: le_val_snoc)
qed simp

lemma length_abs_bytes: "length (abs_bytes x) \<le> 8"
proof (rule ccontr)
  assume long: "\<not> length (abs_bytes x) \<le> 8"
  then have ne: "abs_bytes x \<noteq> []" by auto
  have "(256 :: nat) ^ 8 \<le> 256 ^ (length (abs_bytes x) - 1)"
    using long by (intro power_increasing) auto
  also have "\<dots> \<le> unat x" using no_zero_top_lower [OF abs_bytes_top ne] by (simp add: le_val_abs_bytes)
  finally show False using unat_u64_less [of x] by simp
qed

lemma set_vch_serialize:
  assumes "fits_int64 v" "length (scriptnum_serialize v) \<le> 8"
  shows "set_vch (scriptnum_serialize v) = v \<and> minimal_vch (scriptnum_serialize v)"
proof (cases "v = 0")
  case True
  then show ?thesis by (simp add: scriptnum_serialize_def set_vch_def minimal_vch_def)
next
  case False
  define bs where "bs = abs_bytes (of_nat (nat \<bar>v\<bar>))"
  have "nat \<bar>v\<bar> < 2 ^ 64" using assms(1) unfolding int_limits by (cases "v < 0") (simp_all add: nat_less_iff)
  then have val: "le_val bs = nat \<bar>v\<bar>" unfolding bs_def le_val_abs_bytes by (rule unat_of_nat_u64)
  have top: "no_zero_top bs" and len: "length bs \<le> 8"
    unfolding bs_def by (rule abs_bytes_top length_abs_bytes)+
  have ne: "bs \<noteq> []" using val False by auto
  note ser = scriptnum_serialize_bytes [OF assms(1) False top val len]
  have sg: "take_bit 7 (sign_byte v) = 0" "bit (sign_byte v) 7 \<longleftrightarrow> v < 0"
    unfolding sign_byte_def top_bit by (auto simp: take_bit_push_bit bit_simps)
  show ?thesis
  proof (cases "bit (last bs) 7")
    case True
    then have s: "scriptnum_serialize v = bs @ [sign_byte v]" using ser by simp
    then have "length bs \<le> 7" using assms(2) by simp
    then show ?thesis unfolding s set_vch_snoc
      using sg val ne True by (auto simp: minimal_vch_def le_val_snoc set_vch_snoc)
  next
    case False
    then have s: "scriptnum_serialize v = butlast bs @ [last bs OR sign_byte v]" using ser by simp
    have "take_bit 7 (last bs) = last bs" using byte_or_80 [of "last bs"] False by simp
    then have t: "take_bit 7 (last bs OR sign_byte v) = last bs" "bit (last bs OR sign_byte v) 7 \<longleftrightarrow> v < 0"
      using sg False by (simp_all add: take_bit_or bit_or_iff)
    have "length (butlast bs) \<le> 7" "last bs \<noteq> 0" using len top ne by (auto simp: no_zero_top_def)
    then show ?thesis unfolding s using t val ne by (auto simp: minimal_vch_def set_vch_snoc)
  qed
qed

text \<open>
  C37. Script numbers have exactly one accepted encoding. When minimal encodings are required and at
  most eight bytes are allowed (the interpreter allows four or five), decoding accepts a byte string
  with the value \<open>v\<close> if and only if the string is the encoding of \<open>v\<close> and is short enough.
\<close>

theorem CScriptNum_unique_encoding:
  assumes "n \<le> 8" "fits_int64 v"
  shows "CScriptNum vch True n = Inr v \<longleftrightarrow> vch = scriptnum_serialize v \<and> length vch \<le> n"
  using assms serialize_set_vch [of vch] set_vch_serialize [of v]
  by (auto simp: CScriptNum_minimal)

theorem CScriptNum_unique_encoding_witness:
  "CScriptNum [0x80, 0x80] True 4 = Inr (-128) \<longleftrightarrow> [0x80, 0x80] = scriptnum_serialize (-128) \<and> length [0x80, 0x80 :: byte] \<le> 4"
  by (rule CScriptNum_unique_encoding) (simp_all add: int_limits)

section \<open>Pushes are read back\<close>

lemma AppendDataSize_append: "AppendDataSize script sz = script @ AppendDataSize [] sz"
  by (simp add: AppendDataSize_def)

lemma read_push_exact [simp]: "read_push opc (b @ rest) (length b) = (True, opc, b, rest)"
  by (simp add: read_push_def)

text \<open>The opcode a push of \<open>n\<close> bytes begins with.\<close>

definition push_opcode_for :: "nat \<Rightarrow> byte" where
  "push_opcode_for n = (if n < 76 then of_nat n else if n \<le> 255 then 76 else if n \<le> 65535 then 77 else 78)"

lemma GetScriptOp_push:
  assumes "length b < 2 ^ 32"
  shows "GetScriptOp (AppendDataSize [] (of_nat (length b)) @ b @ rest) = (True, push_opcode_for (length b), b, rest)"
proof -
  let ?n = "length b"
  have n: "unat (of_nat ?n :: u32) = ?n" using assms by (simp add: unat_of_nat)
  have le: "(of_nat ?n :: u32) \<le> k \<longleftrightarrow> ?n \<le> unat k" "(of_nat ?n :: u32) < k \<longleftrightarrow> ?n < unat k" for k
    by (simp_all add: word_le_nat_alt word_less_nat_alt n)
  consider "?n < 76" | "76 \<le> ?n" "?n \<le> 255" | "255 < ?n" "?n \<le> 65535" | "65535 < ?n" by linarith
  then show ?thesis
  proof cases
    case 1
    then have "unat (ucast (of_nat ?n :: u32) :: byte) = ?n" using n by (simp add: unat_ucast_down)
    moreover from this have "(ucast (of_nat ?n :: u32) :: byte) = of_nat ?n" by (metis of_nat_unat ucast_id)
    ultimately show ?thesis using 1
      by (simp add: AppendDataSize_def GetScriptOp_def push_opcode_for_def n word_le_nat_alt word_less_nat_alt)
  next
    case 2
    then have "unat (ucast (of_nat ?n :: u32) :: byte) = ?n" using n by (simp add: unat_ucast_down)
    then show ?thesis using 2
      by (simp add: AppendDataSize_def GetScriptOp_def push_opcode_for_def n le)
  next
    case 3
    then have "unat (ucast (of_nat ?n :: u32) :: u16) = ?n" using n by (simp add: unat_ucast_down)
    then show ?thesis using 3
      by (simp add: AppendDataSize_def GetScriptOp_def push_opcode_for_def n le LE_join_LE_split)
  next
    case 4
    then show ?thesis using n
      by (simp add: AppendDataSize_def GetScriptOp_def push_opcode_for_def n le LE_join_LE_split)
  qed
qed


text \<open>
  What is pushed is what is read. Reading the first operation of a script that begins with a
  push of \<open>b\<close> (of any length a 32-bit size can express) succeeds with exactly the pushed bytes and
  stops exactly behind them, whatever follows; the push uses the shortest length prefix, so it passes
  the minimality test unless \<open>b\<close> is one byte that stands for a number between 1 and 16 or for -1,
  for which \<open>push_int64\<close> writes the opcode instead.
\<close>

theorem push_data_read_back:
  assumes "length b < 2 ^ 32"
  shows "\<exists>opc. GetScriptOp (push_data [] b @ rest) = (True, opc, b, rest) \<and>
    CheckMinimalPush b opc = Some (b \<notin> {[0x81]} \<union> (\<lambda>x. [x]) ` {1..16})"
proof (intro exI conjI)
  let ?n = "length b"
  show "GetScriptOp (push_data [] b @ rest) = (True, push_opcode_for ?n, b, rest)"
    unfolding push_data_def append_assoc by (rule GetScriptOp_push [OF assms])
  have "push_opcode_for ?n \<le> 78" "?n \<le> 75 \<Longrightarrow> unat (push_opcode_for ?n) = ?n"
    by (auto simp: push_opcode_for_def word_le_nat_alt unat_of_nat)
  moreover have "b = [] \<Longrightarrow> push_opcode_for ?n = 0" by (simp add: push_opcode_for_def)
  moreover have "75 < ?n \<Longrightarrow> ?n \<le> 255 \<Longrightarrow> push_opcode_for ?n = 76"
    "255 < ?n \<Longrightarrow> ?n \<le> 65535 \<Longrightarrow> push_opcode_for ?n = 77"
    by (simp_all add: push_opcode_for_def)
  moreover have "b \<in> {[0x81]} \<union> (\<lambda>x. [x]) ` {1..16} \<longleftrightarrow> ?n = 1 \<and> (b ! 0 = 0x81 \<or> 1 \<le> b ! 0 \<and> b ! 0 \<le> 16)"
    by (auto simp: length_Suc_conv)
  ultimately show "CheckMinimalPush b (push_opcode_for ?n) = Some (b \<notin> {[0x81]} \<union> (\<lambda>x. [x]) ` {1..16})"
    by (cases "?n = 1") (auto simp: CheckMinimalPush_def)
qed

theorem push_data_read_back_witness:
  "length (replicate 80 (7 :: byte)) < 2 ^ 32 \<and>
   (\<exists>opc. GetScriptOp (push_data [] (replicate 80 7) @ [0xac]) = (True, opc, replicate 80 7, [0xac]) \<and>
      CheckMinimalPush (replicate 80 7) opc = Some (replicate 80 (7 :: byte) \<notin> {[0x81]} \<union> (\<lambda>x. [x]) ` {1..16}))"
  using push_data_read_back [of "replicate 80 7" "[0xac]"] by simp

end
