(* ===== verification/Compressor.thy ===== *)
theory Compressor
  imports Script
begin

unbundle bit_operations_syntax

text \<open>
  The compact forms of the coin database and the undo files (\<^verbatim>\<open>compressor.cpp\<close>,
  \<^verbatim>\<open>compressor.h\<close>) and the part of \<^verbatim>\<open>pubkey.h\<close> they use. A public key is its array of bytes up to
  its size; an invalid one is the byte 0xff. The curve arithmetic of libsecp256k1 is a pair of
  arguments: \<open>parse\<close>, whether a serialized key is a point, and \<open>uncompressed\<close>, the 65 byte form of
  a point.
\<close>

section \<open>Model\<close>

subsection \<open>Public keys\<close>

type_synonym CPubKey = bytes

definition CPubKey_SIZE :: nat where
  "CPubKey_SIZE = 65"

definition COMPRESSED_SIZE :: nat where
  "COMPRESSED_SIZE = 33"

definition GetLen :: "byte \<Rightarrow> nat" where
  "GetLen chHeader =
     (if chHeader = 2 \<or> chHeader = 3 then COMPRESSED_SIZE
      else if chHeader = 4 \<or> chHeader = 6 \<or> chHeader = 7 then CPubKey_SIZE
      else 0)"

definition Invalidate :: CPubKey where
  "Invalidate = [0xff]"

definition ValidSize :: "bytes \<Rightarrow> bool" where
  "ValidSize vch \<longleftrightarrow> length vch > 0 \<and> GetLen (vch ! 0) = length vch"

definition CPubKey_Set :: "bytes \<Rightarrow> CPubKey" where
  "CPubKey_Set p =
     (let len = (if p = [] then 0 else GetLen (p ! 0))
      in if len \<noteq> 0 \<and> len = length p then p else Invalidate)"

definition CPubKey_size :: "CPubKey \<Rightarrow> nat" where
  "CPubKey_size vch = GetLen (vch ! 0)"

definition CPubKey_IsValid :: "CPubKey \<Rightarrow> bool" where
  "CPubKey_IsValid vch \<longleftrightarrow> CPubKey_size vch > 0"

definition IsValidNonHybrid :: "CPubKey \<Rightarrow> bool" where
  "IsValidNonHybrid vch \<longleftrightarrow> CPubKey_size vch > 0 \<and> (vch ! 0 = 0x02 \<or> vch ! 0 = 0x03 \<or> vch ! 0 = 0x04)"

definition IsCompressed :: "CPubKey \<Rightarrow> bool" where
  "IsCompressed vch \<longleftrightarrow> CPubKey_size vch = COMPRESSED_SIZE"

definition CPubKey_IsFullyValid :: "(bytes \<Rightarrow> bool) \<Rightarrow> CPubKey \<Rightarrow> bool" where
  "CPubKey_IsFullyValid parse vch \<longleftrightarrow>
     (if \<not> CPubKey_IsValid vch then False else parse (take (CPubKey_size vch) vch))"

definition CPubKey_Decompress :: "(bytes \<Rightarrow> bool) \<Rightarrow> (bytes \<Rightarrow> bytes) \<Rightarrow> CPubKey \<Rightarrow> bool \<times> CPubKey" where
  "CPubKey_Decompress parse uncompressed vch =
     (if \<not> CPubKey_IsValid vch then (False, vch)
      else if \<not> parse (take (CPubKey_size vch) vch) then (False, vch)
      else (True, CPubKey_Set (uncompressed (take (CPubKey_size vch) vch))))"

definition ser_CPubKey :: "CPubKey \<Rightarrow> bytes" where
  "ser_CPubKey vch =
     WriteCompactSize (of_nat (CPubKey_size vch)) @ take (CPubKey_size vch) vch"

definition unser_CPubKey :: "CPubKey reader" where
  "unser_CPubKey =
     rbind (ReadCompactSize True) (\<lambda>n.
       if unat n \<le> CPubKey_SIZE
       then rbind (stream_read (unat n)) (\<lambda>vch. rret (if vch = [] \<or> unat n \<noteq> CPubKey_size vch then Invalidate else vch))
       else rbind (stream_read (unat n)) (\<lambda>_. rret Invalidate))"

subsection \<open>Scripts\<close>

definition IsToKeyID :: "CScript \<Rightarrow> bytes option" where
  "IsToKeyID script =
     (if length script = 25 \<and> script ! 0 = OP_DUP \<and> script ! 1 = OP_HASH160 \<and>
         script ! 2 = 20 \<and> script ! 23 = OP_EQUALVERIFY \<and> script ! 24 = OP_CHECKSIG
      then Some (take 20 (drop 3 script)) else None)"

definition IsToScriptID :: "CScript \<Rightarrow> bytes option" where
  "IsToScriptID script =
     (if length script = 23 \<and> script ! 0 = OP_HASH160 \<and> script ! 1 = 20 \<and> script ! 22 = OP_EQUAL
      then Some (take 20 (drop 2 script)) else None)"

definition IsToPubKey :: "(bytes \<Rightarrow> bool) \<Rightarrow> CScript \<Rightarrow> CPubKey option" where
  "IsToPubKey parse script =
     (if length script = 35 \<and> script ! 0 = 33 \<and> script ! 34 = OP_CHECKSIG \<and>
         (script ! 1 = 0x02 \<or> script ! 1 = 0x03)
      then Some (CPubKey_Set (take 33 (drop 1 script)))
      else if length script = 67 \<and> script ! 0 = 65 \<and> script ! 66 = OP_CHECKSIG \<and> script ! 1 = 0x04
      then (let pubkey = CPubKey_Set (take 65 (drop 1 script))
            in if CPubKey_IsFullyValid parse pubkey then Some pubkey else None)
      else None)"

definition CompressScript :: "(bytes \<Rightarrow> bool) \<Rightarrow> CScript \<Rightarrow> bytes option" where
  "CompressScript parse script =
     (case IsToKeyID script of
        Some keyID \<Rightarrow> Some (0x00 # keyID)
      | None \<Rightarrow>
     (case IsToScriptID script of
        Some scriptID \<Rightarrow> Some (0x01 # scriptID)
      | None \<Rightarrow>
     (case IsToPubKey parse script of
        Some pubkey \<Rightarrow>
          if pubkey ! 0 = 0x02 \<or> pubkey ! 0 = 0x03 then Some (pubkey ! 0 # take 32 (drop 1 pubkey))
          else if pubkey ! 0 = 0x04 then Some ((0x04 OR (pubkey ! 64 AND 0x01)) # take 32 (drop 1 pubkey))
          else None
      | None \<Rightarrow> None)))"

definition GetSpecialScriptSize :: "nat \<Rightarrow> nat" where
  "GetSpecialScriptSize nSize =
     (if nSize = 0 \<or> nSize = 1 then 20
      else if nSize = 2 \<or> nSize = 3 \<or> nSize = 4 \<or> nSize = 5 then 32
      else 0)"

text \<open>
  The result and the script, which stays as it was when the function returns false; \<open>None\<close> when the
  assertion fails.
\<close>

definition DecompressScript ::
  "(bytes \<Rightarrow> bool) \<Rightarrow> (bytes \<Rightarrow> bytes) \<Rightarrow> CScript \<Rightarrow> nat \<Rightarrow> bytes \<Rightarrow> (bool \<times> CScript) option" where
  "DecompressScript parse uncompressed script nSize inp =
     (if nSize = 0x00
      then Some (True, [OP_DUP, OP_HASH160, 20] @ take 20 inp @ [OP_EQUALVERIFY, OP_CHECKSIG])
      else if nSize = 0x01
      then Some (True, [OP_HASH160, 20] @ take 20 inp @ [OP_EQUAL])
      else if nSize = 0x02 \<or> nSize = 0x03
      then Some (True, [33, of_nat nSize] @ take 32 inp @ [OP_CHECKSIG])
      else if nSize = 0x04 \<or> nSize = 0x05
      then (let vch = of_nat (nSize - 2) # take 32 inp
            in case CPubKey_Decompress parse uncompressed (CPubKey_Set vch) of
                 (False, _) \<Rightarrow> Some (False, script)
               | (True, pubkey) \<Rightarrow>
                   if CPubKey_size pubkey = 65
                   then Some (True, [65] @ take 65 pubkey @ [OP_CHECKSIG])
                   else None)
      else Some (False, script))"

definition nSpecialScripts :: nat where
  "nSpecialScripts = 6"

definition ScriptCompression_Ser :: "(bytes \<Rightarrow> bool) \<Rightarrow> CScript \<Rightarrow> bytes" where
  "ScriptCompression_Ser parse script =
     (case CompressScript parse script of
        Some compr \<Rightarrow> compr
      | None \<Rightarrow> WriteVarInt ((length script + nSpecialScripts) mod 2 ^ 32) @ script)"

definition ScriptCompression_Unser :: "(bytes \<Rightarrow> bool) \<Rightarrow> (bytes \<Rightarrow> bytes) \<Rightarrow> CScript \<Rightarrow> CScript reader" where
  "ScriptCompression_Unser parse uncompressed script =
     rbind (ReadVarInt UINT32_MAX) (\<lambda>nSize.
       if nSize < nSpecialScripts
       then rbind (stream_read (GetSpecialScriptSize nSize)) (\<lambda>vch.
              case DecompressScript parse uncompressed script nSize vch of
                None \<Rightarrow> rfail AssertionFailed
              | Some (_, script') \<Rightarrow> rret script')
       else if nSize - nSpecialScripts > MAX_SCRIPT_SIZE
       then rbind (stream_read (nSize - nSpecialScripts)) (\<lambda>_. rret (push_opcode script OP_RETURN))
       else stream_read (nSize - nSpecialScripts))"

subsection \<open>Amounts\<close>

function compress_loop :: "u64 \<Rightarrow> nat \<Rightarrow> u64 \<times> nat" where
  "compress_loop n e = (if n mod 10 = 0 \<and> e < 9 then compress_loop (n div 10) (e + 1) else (n, e))"
  by pat_completeness auto
termination
  by (relation "measure (\<lambda>(n, e). 9 - e)") auto

declare compress_loop.simps [simp del]

definition CompressAmount :: "u64 \<Rightarrow> u64 option" where
  "CompressAmount n =
     (if n = 0 then Some 0
      else case compress_loop n 0 of (n, e) \<Rightarrow>
        if e < 9
        then (let d = n mod 10
              in if d \<ge> 1 \<and> d \<le> 9 then Some (1 + (n div 10 * 9 + d - 1) * 10 + of_nat e) else None)
        else Some (1 + (n - 1) * 10 + 9))"

fun decompress_loop :: "nat \<Rightarrow> u64 \<Rightarrow> u64" where
  "decompress_loop 0 n = n"
| "decompress_loop (Suc e) n = decompress_loop e (n * 10)"

definition DecompressAmount :: "u64 \<Rightarrow> u64" where
  "DecompressAmount x =
     (if x = 0 then 0
      else let x = x - 1;
               e = unat (x mod 10);
               x = x div 10;
               n = (if e < 9 then x div 9 * 10 + (x mod 9 + 1) else x + 1)
           in decompress_loop e n)"

text \<open>An amount is converted to the unsigned type on the way in and back on the way out.\<close>

definition AmountCompression_Ser :: "CAmount \<Rightarrow> bytes option" where
  "AmountCompression_Ser val = map_option (\<lambda>c. WriteVarInt (unat c)) (CompressAmount (word_of_int val))"

definition AmountCompression_Unser :: "CAmount reader" where
  "AmountCompression_Unser =
     rbind (ReadVarInt UINT64_MAX) (\<lambda>v. rret (sint (DecompressAmount (of_nat v))))"

definition TxOutCompression_Ser :: "(bytes \<Rightarrow> bool) \<Rightarrow> CTxOut \<Rightarrow> bytes option" where
  "TxOutCompression_Ser parse obj =
     map_option (\<lambda>a. a @ ScriptCompression_Ser parse (scriptPubKey obj)) (AmountCompression_Ser (nValue obj))"

definition TxOutCompression_Unser ::
  "(bytes \<Rightarrow> bool) \<Rightarrow> (bytes \<Rightarrow> bytes) \<Rightarrow> CTxOut \<Rightarrow> CTxOut reader" where
  "TxOutCompression_Unser parse uncompressed obj =
     rbind AmountCompression_Unser (\<lambda>v.
     rbind (ScriptCompression_Unser parse uncompressed (scriptPubKey obj)) (\<lambda>sc.
       rret \<lparr>nValue = v, scriptPubKey = sc\<rparr>))"

section \<open>Amounts\<close>

text \<open>The two functions on unbounded numbers.\<close>

function strip_tens :: "nat \<Rightarrow> nat \<Rightarrow> nat \<times> nat" where
  "strip_tens n e = (if n mod 10 = 0 \<and> e < 9 then strip_tens (n div 10) (e + 1) else (n, e))"
  by pat_completeness auto
termination
  by (relation "measure (\<lambda>(n, e). 9 - e)") auto

declare strip_tens.simps [simp del]

definition compress_nat :: "nat \<Rightarrow> nat" where
  "compress_nat n =
     (if n = 0 then 0
      else case strip_tens n 0 of (m, e) \<Rightarrow>
        if e < 9 then 1 + (m div 10 * 9 + (m mod 10 - 1)) * 10 + e else 1 + (m - 1) * 10 + 9)"

definition decompress_nat :: "nat \<Rightarrow> nat" where
  "decompress_nat x =
     (if x = 0 then 0
      else let e = (x - 1) mod 10; y = (x - 1) div 10
           in (if e < 9 then y div 9 * 10 + (y mod 9 + 1) else y + 1) * 10 ^ e)"

lemma strip_tens_spec:
  "strip_tens n e = (m, e') \<Longrightarrow> e \<le> 9 \<Longrightarrow>
     m * 10 ^ (e' - e) = n \<and> e \<le> e' \<and> e' \<le> 9 \<and> (e' < 9 \<longrightarrow> m mod 10 \<noteq> 0)"
proof (induction n e rule: strip_tens.induct)
  case (1 n e)
  show ?case
  proof (cases "n mod 10 = 0 \<and> e < 9")
    case True
    then have "m * 10 ^ (e' - (e + 1)) = n div 10 \<and> e + 1 \<le> e' \<and> e' \<le> 9 \<and> (e' < 9 \<longrightarrow> m mod 10 \<noteq> 0)"
      using 1 by (simp add: strip_tens.simps [of n e])
    moreover from this have "e' - e = Suc (e' - (e + 1))" by linarith
    then have "m * 10 ^ (e' - e) = 10 * (m * 10 ^ (e' - (e + 1)))" by (simp only: power_Suc mult.left_commute)
    ultimately show ?thesis using True by auto
  next
    case False
    then have "m = n \<and> e' = e" using 1(2) unfolding strip_tens.simps [of n e] by (simp only: if_False prod.inject)
    then show ?thesis using False 1(3) by auto
  qed
qed

lemma strip_tens_le: "strip_tens n 0 = (m, e) \<Longrightarrow> m \<le> n"
  using strip_tens_spec [of n 0 m e] by auto

lemma strip_tens_unique:
  "e + k \<le> 9 \<Longrightarrow> (e + k < 9 \<longrightarrow> m mod 10 \<noteq> 0) \<Longrightarrow> strip_tens (m * 10 ^ k) e = (m, e + k)"
proof (induction k arbitrary: e)
  case 0
  then show ?case by (subst strip_tens.simps) auto
next
  case (Suc k)
  have "m * 10 ^ Suc k div 10 = m * 10 ^ k" "m * 10 ^ Suc k mod 10 = 0" by simp_all
  then have "strip_tens (m * 10 ^ Suc k) e = strip_tens (m * 10 ^ k) (e + 1)"
    using Suc.prems by (subst strip_tens.simps) (simp del: power_Suc)
  then show ?case using Suc.IH [of "e + 1"] Suc.prems by simp
qed

lemma decompress_compress_nat: "decompress_nat (compress_nat n) = n"
proof (cases "n = 0")
  case False
  obtain m e where s: "strip_tens n 0 = (m, e)" by fastforce
  note sp = strip_tens_spec [OF s]
  show ?thesis
  proof (cases "e < 9")
    case True
    define y where "y = m div 10 * 9 + (m mod 10 - 1)"
    have "m mod 10 \<noteq> 0" using sp True by simp
    then obtain r where r: "m mod 10 = Suc r" "r < 9"
      using mod_less_divisor [of 10 m] by (cases "m mod 10") auto
    then have "y div 9 = m div 10" "y mod 9 + 1 = m mod 10" unfolding y_def by simp_all
    then have "y div 9 * 10 + (y mod 9 + 1) = m" by simp
    moreover have "compress_nat n = Suc (y * 10 + e)" using False True s by (simp add: compress_nat_def y_def)
    ultimately show ?thesis using sp True by (simp add: decompress_nat_def)
  next
    case e9: False
    then have "e = 9" using sp by simp
    moreover have "0 < m" using sp False by (auto intro: Nat.gr0I)
    ultimately have "compress_nat n = Suc ((m - 1) * 10 + 9)" using False s by (simp add: compress_nat_def)
    then show ?thesis using sp \<open>e = 9\<close> \<open>0 < m\<close> by (simp add: decompress_nat_def)
  qed
qed (simp add: compress_nat_def decompress_nat_def)

lemma compress_decompress_nat: "compress_nat (decompress_nat x) = x"
proof (cases "x = 0")
  case False
  define e where "e = (x - 1) mod 10"
  define y where "y = (x - 1) div 10"
  define m where "m = (if e < 9 then y div 9 * 10 + (y mod 9 + 1) else y + 1)"
  have d: "decompress_nat x = m * 10 ^ e" using False by (simp add: decompress_nat_def m_def y_def e_def Let_def)
  have x: "x = Suc (y * 10 + e)" using False by (simp add: y_def e_def)
  have e: "e \<le> 9" by (simp add: e_def)
  have lt: "y mod 9 + 1 < 10" by (simp add: less_Suc_eq_le [symmetric])
  then have mm: "e < 9 \<Longrightarrow> m mod 10 = y mod 9 + 1" "e < 9 \<Longrightarrow> m div 10 = y div 9"
    by (simp_all add: m_def)
  have "strip_tens (m * 10 ^ e) 0 = (m, e)"
    using strip_tens_unique [of 0 e m] e mm by simp
  moreover have "0 < m" by (simp add: m_def)
  ultimately have c: "compress_nat (decompress_nat x) =
      (if e < 9 then 1 + (m div 10 * 9 + (m mod 10 - 1)) * 10 + e else 1 + (m - 1) * 10 + 9)"
    unfolding d by (simp add: compress_nat_def)
  show ?thesis
  proof (cases "e < 9")
    case True
    then show ?thesis unfolding c using x mm by simp
  next
    case False
    then show ?thesis unfolding c using x e by (simp add: m_def)
  qed
qed (simp add: compress_nat_def decompress_nat_def)


text \<open>The machine versions compute these functions, the decoder modulo the width.\<close>

lemma compress_loop_nat: "compress_loop n e = (of_nat (fst (strip_tens (unat n) e)), snd (strip_tens (unat n) e))"
proof (induction n e rule: compress_loop.induct)
  case (1 n e)
  have m: "n mod 10 = 0 \<longleftrightarrow> unat n mod 10 = 0" by (simp add: word_unat_eq_iff unat_mod)
  have d: "unat (n div 10) = unat n div 10" by (simp add: unat_div)
  show ?case
  proof (cases "n mod 10 = 0 \<and> e < 9")
    case True
    have "compress_loop n e = compress_loop (n div 10) (e + 1)" using True by (subst compress_loop.simps) simp
    moreover have "strip_tens (unat n) e = strip_tens (unat n div 10) (e + 1)"
      using True m by (subst strip_tens.simps) simp
    ultimately show ?thesis using 1 [OF True] by (simp only: d)
  next
    case False
    have "compress_loop n e = (n, e)" using False by (subst compress_loop.simps) auto
    moreover have "strip_tens (unat n) e = (unat n, e)"
      using False m by (subst strip_tens.simps) auto
    ultimately show ?thesis by simp
  qed
qed

lemma CompressAmount_nat: "CompressAmount n = Some (of_nat (compress_nat (unat n)))"
proof (cases "n = 0")
  case True
  then show ?thesis by (simp add: CompressAmount_def compress_nat_def)
next
  case False
  obtain m e where s: "strip_tens (unat n) 0 = (m, e)" by fastforce
  note sp = strip_tens_spec [OF s]
  have nz: "0 < unat n" using False by (simp add: word_nonzero_unat)
  then have m0: "0 < m" using sp by (auto intro: Nat.gr0I)
  have "m \<le> unat n" by (rule strip_tens_le [OF s])
  then have um: "unat (of_nat m :: u64) = m" using unat_u64_less [of n] by (intro unat_of_nat_u64) simp
  have l: "compress_loop n 0 = (of_nat m, e)" by (simp add: compress_loop_nat s)
  show ?thesis
  proof (cases "e < 9")
    case True
    then obtain r where r: "m mod 10 = Suc r" "r < 9"
      using sp mod_less_divisor [of 10 m] by (cases "m mod 10") auto
    have d: "(of_nat m :: u64) mod 10 = of_nat (Suc r)" "(of_nat m :: u64) div 10 = of_nat (m div 10)"
      by (simp_all add: word_arith_nat_mod word_arith_nat_div um r(1) [symmetric] del: of_nat_Suc)
    have "unat (of_nat (Suc r) :: u64) = Suc r" using r(2) by (intro unat_of_nat_u64) simp
    then have "(1 :: u64) \<le> of_nat (Suc r)" "(of_nat (Suc r) :: u64) \<le> 9"
      using r(2) by (simp_all add: word_le_nat_alt del: of_nat_Suc)
    then show ?thesis
      using True False nz by (simp add: CompressAmount_def l compress_nat_def s r d Let_def del: of_nat_Suc) simp
  next
    case e9: False
    then show ?thesis using False nz m0 by (simp add: CompressAmount_def l compress_nat_def s of_nat_diff)
  qed
qed

lemma decompress_loop_power: "decompress_loop e n = n * 10 ^ e"
  by (induction e arbitrary: n) (simp_all add: mult.assoc)

lemma DecompressAmount_nat: "DecompressAmount x = of_nat (decompress_nat (unat x))"
proof (cases "x = 0")
  case False
  then have nz: "0 < unat x" by (simp add: word_nonzero_unat)
  have u: "unat (x - 1) = unat x - 1" using nz by (simp add: unat_sub word_le_nat_alt)
  define y where "y = (unat x - 1) div 10"
  have d: "(x - 1) div 10 = of_nat y" "unat ((x - 1) mod 10) = (unat x - 1) mod 10"
    by (simp_all add: word_arith_nat_div u y_def unat_mod)
  have uy: "unat (of_nat y :: u64) = y"
    using unat_u64_less [of x] by (intro unat_of_nat_u64) (simp add: y_def)
  have "(of_nat y :: u64) div 9 = of_nat (y div 9)" "(of_nat y :: u64) mod 9 = of_nat (y mod 9)"
    by (simp_all add: word_arith_nat_div word_arith_nat_mod uy)
  moreover have "(unat x - Suc 0) div 10 = y" by (simp add: y_def)
  ultimately show ?thesis using False nz
    by (simp add: DecompressAmount_def decompress_nat_def Let_def d decompress_loop_power ac_simps)
qed (simp add: DecompressAmount_def decompress_nat_def)

lemma compress_nat_bound: "compress_nat n \<le> 10 * n + 10"
proof (cases "n = 0")
  case False
  obtain m e where s: "strip_tens n 0 = (m, e)" by fastforce
  note sp = strip_tens_spec [OF s]
  have "m \<le> n" by (rule strip_tens_le [OF s])
  moreover have "m div 10 * 9 + (m mod 10 - 1) \<le> m"
    using div_mult_mod_eq [of m 10] by linarith
  ultimately show ?thesis using False sp by (auto simp: compress_nat_def s)
qed (simp add: compress_nat_def)

lemma amount_round_trip:
  assumes "unat n < 2 ^ 60"
  shows "\<exists>c. CompressAmount n = Some c \<and> DecompressAmount c = n \<and> unat c = compress_nat (unat n)"
proof -
  have "compress_nat (unat n) < 2 ^ 64" using compress_nat_bound [of "unat n"] assms by simp
  then have "unat (of_nat (compress_nat (unat n)) :: u64) = compress_nat (unat n)" by (rule unat_of_nat_u64)
  then show ?thesis by (simp add: CompressAmount_nat DecompressAmount_nat decompress_compress_nat)
qed

section \<open>Scripts\<close>

text \<open>
  What libsecp256k1 documents of its serializations: the compressed form of a point is the parity
  of the last coordinate byte plus two, and the first coordinate; it stands for the same point.
\<close>

definition secp_serializations :: "(bytes \<Rightarrow> bool) \<Rightarrow> (bytes \<Rightarrow> bytes) \<Rightarrow> bool" where
  "secp_serializations parse uncompressed \<longleftrightarrow>
     (\<forall>x y. length x = 32 \<longrightarrow> length y = 32 \<longrightarrow> parse (4 # x @ y) \<longrightarrow>
        parse ((2 + (last y AND 1)) # x) \<and> uncompressed ((2 + (last y AND 1)) # x) = 4 # x @ y)"

text \<open>What this means for one script: a key in it that is compressed comes back.\<close>

definition script_survives :: "(bytes \<Rightarrow> bool) \<Rightarrow> (bytes \<Rightarrow> bytes) \<Rightarrow> CScript \<Rightarrow> bool" where
  "script_survives parse uncompressed script \<longleftrightarrow>
     (\<forall>x y. length x = 32 \<longrightarrow> length y = 32 \<longrightarrow> script = [65, 4] @ x @ y @ [0xac] \<longrightarrow> parse (4 # x @ y) \<longrightarrow>
        parse ((2 + (last y AND 1)) # x) \<and> uncompressed ((2 + (last y AND 1)) # x) = 4 # x @ y)"

lemma secp_script_survives: "secp_serializations parse uncompressed \<Longrightarrow> script_survives parse uncompressed script"
  by (auto simp: secp_serializations_def script_survives_def)

lemma list_split_at:
  "length s = m + n \<Longrightarrow> \<exists>a b. s = a @ b \<and> length a = m \<and> length b = n"
  by (rule exI [of _ "take m s"], rule exI [of _ "drop m s"]) simp

lemma IsToKeyID_iff:
  "IsToKeyID script = Some h \<longleftrightarrow> length h = 20 \<and> script = [0x76, 0xa9, 20] @ h @ [0x88, 0xac]"
proof
  assume a: "IsToKeyID script = Some h"
  then have l: "length script = 3 + 22" by (auto simp: IsToKeyID_def split: if_splits)
  obtain p q where "script = p @ q" "length p = 3" "length q = 20 + 2" using list_split_at [of script 3 22] l by auto
  moreover obtain h' r where "q = h' @ r" "length h' = 20" "length r = 2"
    using list_split_at [of q 20 2] calculation by auto
  ultimately show "length h = 20 \<and> script = [0x76, 0xa9, 20] @ h @ [0x88, 0xac]"
    using a by (auto simp: IsToKeyID_def numeral_3_eq_3 numeral_2_eq_2 length_Suc_conv nth_append split: if_splits)
qed (auto simp: IsToKeyID_def nth_append)

lemma IsToScriptID_iff:
  "IsToScriptID script = Some h \<longleftrightarrow> length h = 20 \<and> script = [0xa9, 20] @ h @ [0x87]"
proof
  assume a: "IsToScriptID script = Some h"
  then have l: "length script = 2 + 21" by (auto simp: IsToScriptID_def split: if_splits)
  obtain p q where "script = p @ q" "length p = 2" "length q = 20 + 1" using list_split_at [of script 2 21] l by auto
  moreover obtain h' r where "q = h' @ r" "length h' = 20" "length r = 1"
    using list_split_at [of q 20 1] calculation by auto
  ultimately show "length h = 20 \<and> script = [0xa9, 20] @ h @ [0x87]"
    using a by (auto simp: IsToScriptID_def numeral_2_eq_2 length_Suc_conv nth_append split: if_splits)
qed (auto simp: IsToScriptID_def nth_append)

lemma IsToPubKey_cases:
  assumes "IsToPubKey parse script = Some pk"
  obtains
    (compressed) h x where "h = 2 \<or> h = 3" "length x = 32" "script = [33, h] @ x @ [0xac]" "pk = h # x"
  | (full) x y where "length x = 32" "length y = 32" "script = [65, 4] @ x @ y @ [0xac]" "pk = 4 # x @ y" "parse (4 # x @ y)"
proof -
  consider (a) "length script = 35" "script ! 0 = 33" "script ! 34 = 0xac" "script ! 1 = 2 \<or> script ! 1 = 3"
      "pk = CPubKey_Set (take 33 (drop 1 script))"
    | (b) "length script = 67" "script ! 0 = 65" "script ! 66 = 0xac" "script ! 1 = 4"
      "pk = CPubKey_Set (take 65 (drop 1 script))" "CPubKey_IsFullyValid parse pk"
    using assms by (auto simp: IsToPubKey_def Let_def split: if_splits)
  then show ?thesis
  proof cases
    case a
    obtain p q where pq: "script = p @ q" "length p = 2" "length q = 32 + 1" using list_split_at [of script 2 33] a(1) by auto
    obtain x r where "q = x @ r" "length x = 32" "length r = 1" using list_split_at [of q 32 1] pq(3) by auto
    then obtain h where "script = [33, h] @ x @ [0xac]" "h = 2 \<or> h = 3" "length x = 32"
      using pq a by (auto simp: numeral_2_eq_2 length_Suc_conv nth_append)
    then show ?thesis using compressed a(5) by (auto simp: CPubKey_Set_def GetLen_def COMPRESSED_SIZE_def)
  next
    case b
    obtain p q where pq: "script = p @ q" "length p = 2" "length q = 64 + 1" using list_split_at [of script 2 65] b(1) by auto
    obtain xy r where xy: "q = xy @ r" "length xy = 32 + 32" "length r = 1" using list_split_at [of q 64 1] pq(3) by auto
    obtain x y where "xy = x @ y" "length x = 32" "length y = 32" using list_split_at [of xy 32 32] xy(2) by auto
    then have s: "script = [65, 4] @ x @ y @ [0xac]" "length x = 32" "length y = 32"
      using pq xy b by (auto simp: numeral_2_eq_2 length_Suc_conv nth_append)
    then have "pk = 4 # x @ y" using b(5) by (simp add: CPubKey_Set_def GetLen_def CPubKey_SIZE_def)
    then show ?thesis using full s b(6)
      by (auto simp: CPubKey_IsFullyValid_def CPubKey_size_def GetLen_def CPubKey_SIZE_def split: if_splits)
  qed
qed

lemma parity_byte: "(4 OR (b AND 1) :: byte) = (if bit b 0 then 5 else 4)" "(b AND 1 :: byte) = (if bit b 0 then 1 else 0)"
proof -
  show b: "(b AND 1 :: byte) = (if bit b 0 then 1 else 0)" by (simp add: and_one_eq mod_2_eq_odd bit_0)
  show "(4 OR (b AND 1) :: byte) = (if bit b 0 then 5 else 4)" unfolding b by simp
qed

lemma DecompressScript_point:
  assumes "length x = 32" "parse (of_nat (k - 2) # x)" "uncompressed (of_nat (k - 2) # x) = 4 # x @ y" "length y = 32" "k = 4 \<or> k = 5"
  shows "DecompressScript parse uncompressed sc k x = Some (True, [65, 4] @ x @ y @ [0xac])"
proof -
  have "CPubKey_Set (of_nat (k - 2) # x) = of_nat (k - 2) # x" "CPubKey_size (of_nat (k - 2) # x) = 33"
    using assms(1,5) by (auto simp: CPubKey_Set_def CPubKey_size_def GetLen_def COMPRESSED_SIZE_def)
  moreover have "CPubKey_Set (4 # x @ y) = 4 # x @ y" "CPubKey_size (4 # x @ y) = 65"
    using assms(1,4) by (auto simp: CPubKey_Set_def CPubKey_size_def GetLen_def CPubKey_SIZE_def)
  ultimately have "CPubKey_Decompress parse uncompressed (CPubKey_Set (of_nat (k - 2) # x)) = (True, 4 # x @ y)"
    using assms(1,2,3) by (simp add: CPubKey_Decompress_def CPubKey_IsValid_def)
  then show ?thesis using assms \<open>CPubKey_size (4 # x @ y) = 65\<close> by (auto simp: DecompressScript_def Let_def)
qed

text \<open>The special forms: one byte for the kind, the data, and the script back from them.\<close>

lemma CompressScript_special:
  assumes "CompressScript parse script = Some c" "script_survives parse uncompressed script"
  shows "\<exists>k d. k < 6 \<and> c = of_nat k # d \<and> length d = GetSpecialScriptSize k \<and>
    DecompressScript parse uncompressed sc k d = Some (True, script)"
proof -
  consider (key) h where "IsToKeyID script = Some h" "c = 0 # h"
    | (scr) h where "IsToScriptID script = Some h" "c = 1 # h"
    | (pub) pk where "IsToPubKey parse script = Some pk"
        "c = (if pk ! 0 = 2 \<or> pk ! 0 = 3 then pk ! 0 else 4 OR (pk ! 64 AND 1)) # take 32 (drop 1 pk)"
    using assms(1) by (auto simp: CompressScript_def split: option.splits if_splits)
  then show ?thesis
  proof cases
    case key
    then show ?thesis
      by (intro exI [of _ 0] exI [of _ h]) (simp add: IsToKeyID_iff GetSpecialScriptSize_def DecompressScript_def)
  next
    case scr
    then show ?thesis
      by (intro exI [of _ 1] exI [of _ h]) (simp add: IsToScriptID_iff GetSpecialScriptSize_def DecompressScript_def)
  next
    case pub
    from pub(1) show ?thesis
    proof (cases rule: IsToPubKey_cases)
      case (compressed h x)
      then show ?thesis using pub(2)
        by (intro exI [of _ "unat h"] exI [of _ x]) (auto simp: GetSpecialScriptSize_def DecompressScript_def)
    next
      case (full x y)
      have l: "(4 # x @ y) ! 64 = last y" using full by (cases y rule: rev_cases) (auto simp: nth_append)
      have c: "c = (if bit (last y) 0 then 5 else 4) # x" using pub(2) full l by (simp add: parity_byte)
      have "parse ((if bit (last y) 0 then 3 else 2) # x)" "uncompressed ((if bit (last y) 0 then 3 else 2) # x) = 4 # x @ y"
        using assms(2) full by (auto simp: script_survives_def parity_byte split: if_splits)
      then have "DecompressScript parse uncompressed sc (if bit (last y) 0 then 5 else 4) x = Some (True, script)"
        using full by (cases "bit (last y) 0") (simp_all add: DecompressScript_point)
      then show ?thesis using full(1) c
        by (intro exI [of _ "if bit (last y) 0 then 5 else 4"] exI [of _ x]) (simp add: GetSpecialScriptSize_def)
    qed
  qed
qed

lemma WriteVarInt_small: "n \<le> 127 \<Longrightarrow> WriteVarInt n = [of_nat n]"
  by (simp add: WriteVarInt_def VarInt_tmp.simps)

lemma script_round_trip:
  assumes "script_survives parse uncompressed script" "length script \<le> MAX_SCRIPT_SIZE"
  shows "ScriptCompression_Unser parse uncompressed sc (ScriptCompression_Ser parse script @ s) = Inr (script, s)"
proof (cases "CompressScript parse script")
  case None
  have "ReadVarInt UINT32_MAX (WriteVarInt (length script + 6) @ script @ s) = Inr (length script + 6, script @ s)"
    using assms(2) by (intro varint32.dec_enc) (simp add: UINT32_MAX_def MAX_SCRIPT_SIZE_def)
  then show ?thesis using None assms(2)
    by (simp add: ScriptCompression_Ser_def ScriptCompression_Unser_def nSpecialScripts_def MAX_SCRIPT_SIZE_def
        rbind_step stream_read_append)
next
  case (Some c)
  obtain k d where k: "k < 6" "c = of_nat k # d" "length d = GetSpecialScriptSize k"
    "DecompressScript parse uncompressed sc k d = Some (True, script)"
    using CompressScript_special [OF Some assms(1), of sc] by blast
  have "ReadVarInt UINT32_MAX (c @ s) = Inr (k, d @ s)"
    using varint32.dec_enc [of k "d @ s"] k(1,2) by (simp add: WriteVarInt_small UINT32_MAX_def)
  then show ?thesis using Some k
    by (simp add: ScriptCompression_Ser_def ScriptCompression_Unser_def nSpecialScripts_def rbind_step stream_read_append)
qed

lemma txout_round_trip:
  assumes "script_survives parse uncompressed (scriptPubKey out)" "length (scriptPubKey out) \<le> MAX_SCRIPT_SIZE" "MoneyRange (nValue out)"
  shows "\<exists>bs. TxOutCompression_Ser parse out = Some bs \<and>
    TxOutCompression_Unser parse uncompressed out0 (bs @ s) = Inr (out, s)"
proof -
  let ?n = "word_of_int (nValue out) :: u64"
  have r: "0 \<le> nValue out" "nValue out < 2 ^ 60" using assms(3) by (auto simp: MoneyRange_def MAX_MONEY_def COIN_def)
  have "fits_int64 (nValue out)" using r unfolding int_limits by simp
  then have "sint ?n = nValue out" by (rule sint_of_int64)
  moreover have "unat ?n < 2 ^ 60"
  proof -
    have k: "nat (nValue out) < 2 ^ 60" using r by (simp add: nat_less_iff)
    then have "nat (nValue out) < 2 ^ 64" by simp
    then have "unat (of_nat (nat (nValue out)) :: u64) = nat (nValue out)" by (rule unat_of_nat_u64)
    moreover have "?n = of_nat (nat (nValue out))" using r(1) by (simp add: of_nat_nat)
    ultimately show ?thesis using k by (simp only:)
  qed
  ultimately obtain c where c: "CompressAmount ?n = Some c" "sint (DecompressAmount c) = nValue out"
    using amount_round_trip [of ?n] by auto
  have "ReadVarInt UINT64_MAX (WriteVarInt (unat c) @ t) = Inr (unat c, t)" for t
    using unat_u64_less [of c] by (intro varint64.dec_enc) (simp add: UINT64_MAX_def)
  then show ?thesis using c script_round_trip [OF assms(1,2)]
    by (simp add: TxOutCompression_Ser_def TxOutCompression_Unser_def AmountCompression_Ser_def AmountCompression_Unser_def rbind_def)
qed

end
