(* ===== verification/Coins.thy ===== *)
theory Coins
  imports Compressor "HOL-Library.Monad_Syntax"
begin

unbundle bit_operations_syntax

text \<open>
  Coins, the undo records and the cache of unspent coins (\<^verbatim>\<open>coins.h\<close>, \<^verbatim>\<open>coins.cpp\<close>,
  \<^verbatim>\<open>undo.h\<close>). The class \<^verbatim>\<open>CCoinsView\<close> is a record of its virtual functions over a state of
  any type; a cache is a state over the state of its base, and its own record of virtual functions
  is again a view, so views stack as in the node. The doubly linked list of flagged entries that
  runs through the map is modelled with its pointers. The bytes the coins use
  (\<^verbatim>\<open>cachedCoinsUsage\<close>) depend on the allocator and are left out.
\<close>

section \<open>Model\<close>

subsection \<open>Limits of blocks and transactions\<close>

definition MAX_BLOCK_SERIALIZED_SIZE :: nat where
  "MAX_BLOCK_SERIALIZED_SIZE = 4000000"

definition MAX_BLOCK_WEIGHT :: nat where
  "MAX_BLOCK_WEIGHT = 4000000"

definition MAX_BLOCK_SIGOPS_COST :: int where
  "MAX_BLOCK_SIGOPS_COST = 80000"

definition COINBASE_MATURITY :: int where
  "COINBASE_MATURITY = 100"

subsection \<open>Coins\<close>

record Coin =
  out :: CTxOut
  fCoinBase :: bool
  coin_nHeight :: "31 word"

definition Coin_of :: "CTxOut \<Rightarrow> int \<Rightarrow> bool \<Rightarrow> Coin" where
  "Coin_of outIn nHeightIn fCoinBaseIn = \<lparr>out = outIn, fCoinBase = fCoinBaseIn, coin_nHeight = word_of_int nHeightIn\<rparr>"

definition Coin_Clear :: Coin where
  "Coin_Clear = \<lparr>out = CTxOut_SetNull, fCoinBase = False, coin_nHeight = 0\<rparr>"

definition IsSpent :: "Coin \<Rightarrow> bool" where
  "IsSpent c \<longleftrightarrow> CTxOut_IsNull (out c)"

definition coin_code :: "Coin \<Rightarrow> u32" where
  "coin_code c = ucast (coin_nHeight c) * 2 + (if fCoinBase c then 1 else 0)"

definition Coin_Serialize :: "(bytes \<Rightarrow> bool) \<Rightarrow> Coin \<Rightarrow> bytes option" where
  "Coin_Serialize parse c =
     (if IsSpent c then None
      else map_option (\<lambda>t. WriteVarInt (unat (coin_code c)) @ t) (TxOutCompression_Ser parse (out c)))"

definition Coin_Unserialize :: "(bytes \<Rightarrow> bool) \<Rightarrow> (bytes \<Rightarrow> bytes) \<Rightarrow> Coin reader" where
  "Coin_Unserialize parse uncompressed =
     rbind (ReadVarInt UINT32_MAX) (\<lambda>code.
     rbind (TxOutCompression_Unser parse uncompressed CTxOut_SetNull) (\<lambda>t.
       rret \<lparr>out = t, fCoinBase = bit code 0, coin_nHeight = of_nat (code div 2)\<rparr>))"

definition TxInUndo_Ser :: "(bytes \<Rightarrow> bool) \<Rightarrow> Coin \<Rightarrow> bytes option" where
  "TxInUndo_Ser parse txout =
     map_option (\<lambda>t. WriteVarInt (unat (coin_code txout)) @
         (if coin_nHeight txout > 0 then ser_writedata8 0 else []) @ t)
       (TxOutCompression_Ser parse (out txout))"

definition TxInUndo_Unser :: "(bytes \<Rightarrow> bool) \<Rightarrow> (bytes \<Rightarrow> bytes) \<Rightarrow> Coin reader" where
  "TxInUndo_Unser parse uncompressed =
     rbind (ReadVarInt UINT32_MAX) (\<lambda>nCode.
       let h = of_nat (nCode div 2) :: 31 word in
       rbind (if h > 0 then ReadVarInt UINT32_MAX else rret 0) (\<lambda>nVersionDummy.
       rbind (TxOutCompression_Unser parse uncompressed CTxOut_SetNull) (\<lambda>t.
         rret \<lparr>out = t, fCoinBase = bit nCode 0, coin_nHeight = h\<rparr>)))"

record CTxUndo =
  vprevout :: "Coin list"

record CBlockUndo =
  vtxundo :: "CTxUndo list"

definition ser_CTxUndo :: "(bytes \<Rightarrow> bool) \<Rightarrow> CTxUndo \<Rightarrow> bytes option" where
  "ser_CTxUndo parse obj =
     map_option (\<lambda>bss. WriteCompactSize (of_nat (length (vprevout obj))) @ concat bss)
       (those (map (TxInUndo_Ser parse) (vprevout obj)))"

definition unser_CTxUndo :: "(bytes \<Rightarrow> bool) \<Rightarrow> (bytes \<Rightarrow> bytes) \<Rightarrow> CTxUndo reader" where
  "unser_CTxUndo parse uncompressed =
     rbind (VectorFormatter_Unser (TxInUndo_Unser parse uncompressed)) (\<lambda>v. rret \<lparr>vprevout = v\<rparr>)"

definition ser_CBlockUndo :: "(bytes \<Rightarrow> bool) \<Rightarrow> CBlockUndo \<Rightarrow> bytes option" where
  "ser_CBlockUndo parse obj =
     map_option (\<lambda>bss. WriteCompactSize (of_nat (length (vtxundo obj))) @ concat bss)
       (those (map (ser_CTxUndo parse) (vtxundo obj)))"

definition unser_CBlockUndo :: "(bytes \<Rightarrow> bool) \<Rightarrow> (bytes \<Rightarrow> bytes) \<Rightarrow> CBlockUndo reader" where
  "unser_CBlockUndo parse uncompressed =
     rbind (VectorFormatter_Unser (unser_CTxUndo parse uncompressed)) (\<lambda>v. rret \<lparr>vtxundo = v\<rparr>)"

subsection \<open>Cache entries and the list of flagged entries\<close>

datatype link = Sentinel | Pair COutPoint

record CCoinsCacheEntry =
  m_prev :: "link option"
  m_next :: "link option"
  m_flags :: u8
  coin :: Coin

definition DIRTY :: u8 where "DIRTY = 1"

definition FRESH :: u8 where "FRESH = 2"

definition CCoinsCacheEntry_of :: "Coin \<Rightarrow> CCoinsCacheEntry" where
  "CCoinsCacheEntry_of c = \<lparr>m_prev = None, m_next = None, m_flags = 0, coin = c\<rparr>"

definition IsDirty :: "CCoinsCacheEntry \<Rightarrow> bool" where
  "IsDirty e \<longleftrightarrow> m_flags e AND DIRTY \<noteq> 0"

definition IsFresh :: "CCoinsCacheEntry \<Rightarrow> bool" where
  "IsFresh e \<longleftrightarrow> m_flags e AND FRESH \<noteq> 0"

text \<open>The map of a cache together with the sentinel of its list.\<close>

record flagged_map =
  m_sentinel :: CCoinsCacheEntry
  cacheCoins :: "COutPoint \<rightharpoonup> CCoinsCacheEntry"

definition node :: "flagged_map \<Rightarrow> link \<Rightarrow> CCoinsCacheEntry option" where
  "node fm l = (case l of Sentinel \<Rightarrow> Some (m_sentinel fm) | Pair outpoint \<Rightarrow> cacheCoins fm outpoint)"

definition set_node :: "flagged_map \<Rightarrow> link \<Rightarrow> CCoinsCacheEntry \<Rightarrow> flagged_map" where
  "set_node fm l e =
     (case l of Sentinel \<Rightarrow> fm\<lparr>m_sentinel := e\<rparr>
      | Pair outpoint \<Rightarrow> fm\<lparr>cacheCoins := (cacheCoins fm)(outpoint \<mapsto> e)\<rparr>)"

definition SelfRef :: CCoinsCacheEntry where
  "SelfRef = \<lparr>m_prev = Some Sentinel, m_next = Some Sentinel, m_flags = DIRTY, coin = Coin_Clear\<rparr>"

definition empty_map :: flagged_map where
  "empty_map = \<lparr>m_sentinel = SelfRef, cacheCoins = Map.empty\<rparr>"

text \<open>
  Adding a flag links an unflagged entry in front of the sentinel. \<open>None\<close> stands for a pointer
  that is null or dangling.
\<close>

definition AddFlags :: "u8 \<Rightarrow> COutPoint \<Rightarrow> flagged_map \<Rightarrow> flagged_map option" where
  "AddFlags flags pair fm =
     do { e \<leftarrow> cacheCoins fm pair;
          fm \<leftarrow> (if m_flags e = 0
                 then do { last_link \<leftarrow> m_prev (m_sentinel fm);
                           let fm = set_node fm (Pair pair) (e\<lparr>m_prev := Some last_link, m_next := Some Sentinel\<rparr>);
                           let fm = set_node fm Sentinel ((m_sentinel fm)\<lparr>m_prev := Some (Pair pair)\<rparr>);
                           last_node \<leftarrow> node fm last_link;
                           Some (set_node fm last_link (last_node\<lparr>m_next := Some (Pair pair)\<rparr>)) }
                 else Some fm);
          e \<leftarrow> cacheCoins fm pair;
          Some (set_node fm (Pair pair) (e\<lparr>m_flags := m_flags e OR flags\<rparr>)) }"

definition SetDirty :: "COutPoint \<Rightarrow> flagged_map \<Rightarrow> flagged_map option" where
  "SetDirty = AddFlags DIRTY"

definition SetFresh :: "COutPoint \<Rightarrow> flagged_map \<Rightarrow> flagged_map option" where
  "SetFresh = AddFlags FRESH"

definition SetClean :: "COutPoint \<Rightarrow> flagged_map \<Rightarrow> flagged_map option" where
  "SetClean pair fm =
     do { e \<leftarrow> cacheCoins fm pair;
          if m_flags e = 0 then Some fm
          else do { nxt \<leftarrow> m_next e;
                    prv \<leftarrow> m_prev e;
                    nxt_node \<leftarrow> node fm nxt;
                    let fm = set_node fm nxt (nxt_node\<lparr>m_prev := Some prv\<rparr>);
                    prv_node \<leftarrow> node fm prv;
                    let fm = set_node fm prv (prv_node\<lparr>m_next := Some nxt\<rparr>);
                    e \<leftarrow> cacheCoins fm pair;
                    Some (set_node fm (Pair pair) (e\<lparr>m_flags := 0, m_prev := None, m_next := None\<rparr>)) } }"

text \<open>Erasing an entry of the map runs its destructor, which unlinks it.\<close>

definition map_erase :: "COutPoint \<Rightarrow> flagged_map \<Rightarrow> flagged_map option" where
  "map_erase pair fm =
     do { fm \<leftarrow> SetClean pair fm; Some (fm\<lparr>cacheCoins := (cacheCoins fm)(pair := None)\<rparr>) }"

definition set_coin :: "COutPoint \<Rightarrow> Coin \<Rightarrow> flagged_map \<Rightarrow> flagged_map option" where
  "set_coin pair c fm =
     do { e \<leftarrow> cacheCoins fm pair; Some (set_node fm (Pair pair) (e\<lparr>coin := c\<rparr>)) }"

definition try_emplace :: "COutPoint \<Rightarrow> Coin \<Rightarrow> flagged_map \<Rightarrow> flagged_map" where
  "try_emplace outpoint c fm =
     (case cacheCoins fm outpoint of
        Some _ \<Rightarrow> fm
      | None \<Rightarrow> set_node fm (Pair outpoint) (CCoinsCacheEntry_of c))"

subsection \<open>Cursors over flagged entries\<close>

record CoinsViewCacheCursor =
  m_map :: flagged_map
  m_will_erase :: bool

definition Begin :: "CoinsViewCacheCursor \<Rightarrow> link option" where
  "Begin cursor = m_next (m_sentinel (m_map cursor))"

definition NextAndMaybeErase :: "COutPoint \<Rightarrow> CoinsViewCacheCursor \<Rightarrow> (link \<times> CoinsViewCacheCursor) option" where
  "NextAndMaybeErase current cursor =
     do { e \<leftarrow> cacheCoins (m_map cursor) current;
          next_entry \<leftarrow> m_next e;
          if \<not> m_will_erase cursor
          then if IsSpent (coin e)
               then do { fm \<leftarrow> map_erase current (m_map cursor); Some (next_entry, cursor\<lparr>m_map := fm\<rparr>) }
               else do { fm \<leftarrow> SetClean current (m_map cursor); Some (next_entry, cursor\<lparr>m_map := fm\<rparr>) }
          else Some (next_entry, cursor) }"

definition WillErase :: "CCoinsCacheEntry \<Rightarrow> CoinsViewCacheCursor \<Rightarrow> bool" where
  "WillErase current cursor \<longleftrightarrow> m_will_erase cursor \<or> IsSpent (coin current)"

text \<open>A coin after its contents have been moved away: the value stays, the script is empty.\<close>

definition moved_coin :: "Coin \<Rightarrow> Coin" where
  "moved_coin c = c\<lparr>out := (out c)\<lparr>scriptPubKey := []\<rparr>\<rparr>"

subsection \<open>Views\<close>

datatype coins_error =
    OverwriteUnspent | FreshMisapplied | FlagsNotCleared | CoinsAssertion | BadPointer | DatabaseCrash

record 'v CCoinsView =
  view_GetCoin :: "'v \<Rightarrow> COutPoint \<Rightarrow> coins_error + (Coin option \<times> 'v)"
  view_HaveCoin :: "'v \<Rightarrow> COutPoint \<Rightarrow> coins_error + (bool \<times> 'v)"
  view_GetBestBlock :: "'v \<Rightarrow> uint256 \<times> 'v"
  view_GetHeadBlocks :: "'v \<Rightarrow> uint256 list"
  view_BatchWrite :: "'v \<Rightarrow> CoinsViewCacheCursor \<Rightarrow> uint256 \<Rightarrow> (coins_error + (bool \<times> CoinsViewCacheCursor \<times> 'v)) option"

text \<open>The functions of the base class: a view with nothing in it.\<close>

definition CCoinsView_default :: "'v CCoinsView" where
  "CCoinsView_default =
     \<lparr>view_GetCoin = (\<lambda>v outpoint. Inr (None, v)),
      view_HaveCoin = (\<lambda>v outpoint. Inr (False, v)),
      view_GetBestBlock = (\<lambda>v. (uint256_zero, v)),
      view_GetHeadBlocks = (\<lambda>v. []),
      view_BatchWrite = (\<lambda>v cursor hashBlock. Some (Inr (False, cursor, v)))\<rparr>"

record 'v CCoinsViewCache =
  base :: 'v
  hashBlock :: uint256
  coins :: flagged_map

definition CCoinsViewCache_of :: "'v \<Rightarrow> 'v CCoinsViewCache" where
  "CCoinsViewCache_of baseIn = \<lparr>base = baseIn, hashBlock = uint256_zero, coins = empty_map\<rparr>"

definition pointer :: "'a option \<Rightarrow> coins_error + 'a" where
  "pointer p = (case p of None \<Rightarrow> Inl BadPointer | Some x \<Rightarrow> Inr x)"

text \<open>The iterator returned is the entry, \<open>None\<close> for the end of the map.\<close>

definition FetchCoin ::
  "'v CCoinsView \<Rightarrow> COutPoint \<Rightarrow> 'v CCoinsViewCache \<Rightarrow> coins_error + (CCoinsCacheEntry option \<times> 'v CCoinsViewCache)" where
  "FetchCoin V outpoint c =
     (case cacheCoins (coins c) outpoint of
        Some e \<Rightarrow> Inr (Some e, c)
      | None \<Rightarrow>
          ebind (view_GetCoin V (base c) outpoint) (\<lambda>(r, b).
            case r of
              None \<Rightarrow> Inr (None, c\<lparr>base := b\<rparr>)
            | Some cn \<Rightarrow>
                ebind (let fm = try_emplace outpoint cn (coins c)
                       in if IsSpent cn then pointer (SetFresh outpoint fm) else Inr fm) (\<lambda>fm.
                  Inr (cacheCoins fm outpoint, c\<lparr>base := b, coins := fm\<rparr>))))"

definition Cache_GetCoin ::
  "'v CCoinsView \<Rightarrow> 'v CCoinsViewCache \<Rightarrow> COutPoint \<Rightarrow> coins_error + (Coin option \<times> 'v CCoinsViewCache)" where
  "Cache_GetCoin V c outpoint =
     ebind (FetchCoin V outpoint c) (\<lambda>(it, c').
       Inr (case it of Some e \<Rightarrow> (if \<not> IsSpent (coin e) then Some (coin e) else None) | None \<Rightarrow> None, c'))"

definition AddCoin :: "COutPoint \<Rightarrow> Coin \<Rightarrow> bool \<Rightarrow> 'v CCoinsViewCache \<Rightarrow> coins_error + 'v CCoinsViewCache" where
  "AddCoin outpoint cn possible_overwrite c =
     (if IsSpent cn then Inl CoinsAssertion
      else if IsUnspendable (scriptPubKey (out cn)) then Inr c
      else let fm = try_emplace outpoint Coin_Clear (coins c)
           in ebind (pointer (cacheCoins fm outpoint)) (\<lambda>it.
                if \<not> possible_overwrite \<and> \<not> IsSpent (coin it) then Inl OverwriteUnspent
                else let fresh = (\<not> possible_overwrite \<and> \<not> IsDirty it)
                     in ebind (pointer (do { fm \<leftarrow> set_coin outpoint cn fm;
                                             fm \<leftarrow> SetDirty outpoint fm;
                                             if fresh then SetFresh outpoint fm else Some fm })) (\<lambda>fm.
                          Inr (c\<lparr>coins := fm\<rparr>))))"

definition EmplaceCoinInternalDANGER :: "COutPoint \<Rightarrow> Coin \<Rightarrow> 'v CCoinsViewCache \<Rightarrow> coins_error + 'v CCoinsViewCache" where
  "EmplaceCoinInternalDANGER outpoint cn c =
     (case cacheCoins (coins c) outpoint of
        Some _ \<Rightarrow> Inr c
      | None \<Rightarrow> ebind (pointer (SetDirty outpoint (try_emplace outpoint cn (coins c)))) (\<lambda>fm. Inr (c\<lparr>coins := fm\<rparr>)))"

definition SpendCoin ::
  "'v CCoinsView \<Rightarrow> COutPoint \<Rightarrow> 'v CCoinsViewCache \<Rightarrow> coins_error + (bool \<times> Coin option \<times> 'v CCoinsViewCache)" where
  "SpendCoin V outpoint c =
     ebind (FetchCoin V outpoint c) (\<lambda>(it, c).
       case it of
         None \<Rightarrow> Inr (False, None, c)
       | Some e \<Rightarrow>
           ebind (pointer (if IsFresh e then map_erase outpoint (coins c)
                           else do { fm \<leftarrow> SetDirty outpoint (coins c); set_coin outpoint Coin_Clear fm })) (\<lambda>fm.
             Inr (True, Some (coin e), c\<lparr>coins := fm\<rparr>)))"

definition coinEmpty :: Coin where
  "coinEmpty = Coin_Clear"

definition AccessCoin ::
  "'v CCoinsView \<Rightarrow> COutPoint \<Rightarrow> 'v CCoinsViewCache \<Rightarrow> coins_error + (Coin \<times> 'v CCoinsViewCache)" where
  "AccessCoin V outpoint c =
     ebind (FetchCoin V outpoint c) (\<lambda>(it, c). Inr (case it of None \<Rightarrow> coinEmpty | Some e \<Rightarrow> coin e, c))"

definition Cache_HaveCoin ::
  "'v CCoinsView \<Rightarrow> 'v CCoinsViewCache \<Rightarrow> COutPoint \<Rightarrow> coins_error + (bool \<times> 'v CCoinsViewCache)" where
  "Cache_HaveCoin V c outpoint =
     ebind (FetchCoin V outpoint c) (\<lambda>(it, c).
       Inr (case it of None \<Rightarrow> False | Some e \<Rightarrow> \<not> IsSpent (coin e), c))"

definition HaveCoinInCache :: "COutPoint \<Rightarrow> 'v CCoinsViewCache \<Rightarrow> bool" where
  "HaveCoinInCache outpoint c \<longleftrightarrow>
     (case cacheCoins (coins c) outpoint of None \<Rightarrow> False | Some e \<Rightarrow> \<not> IsSpent (coin e))"

definition Cache_GetBestBlock :: "'v CCoinsView \<Rightarrow> 'v CCoinsViewCache \<Rightarrow> uint256 \<times> 'v CCoinsViewCache" where
  "Cache_GetBestBlock V c =
     (if IsNull (hashBlock c)
      then case view_GetBestBlock V (base c) of (h, b) \<Rightarrow> (h, c\<lparr>base := b, hashBlock := h\<rparr>)
      else (hashBlock c, c))"

definition SetBestBlock :: "uint256 \<Rightarrow> 'v CCoinsViewCache \<Rightarrow> 'v CCoinsViewCache" where
  "SetBestBlock hashBlockIn c = c\<lparr>hashBlock := hashBlockIn\<rparr>"

subsection \<open>Writing to a cache\<close>

text \<open>What \<^verbatim>\<open>BatchWrite\<close> does with one flagged entry of the cursor.\<close>

definition batch_entry ::
  "COutPoint \<Rightarrow> CCoinsCacheEntry \<Rightarrow> CoinsViewCacheCursor \<Rightarrow> flagged_map \<Rightarrow> coins_error + (CoinsViewCacheCursor \<times> flagged_map)" where
  "batch_entry key it cursor us =
     (if \<not> IsDirty it then Inr (cursor, us)
      else
        let cursor' = (if WillErase it cursor
                       then map_option (\<lambda>fm. cursor\<lparr>m_map := fm\<rparr>) (set_coin key (moved_coin (coin it)) (m_map cursor))
                       else Some cursor)
        in case cacheCoins us key of
             None \<Rightarrow>
               if \<not> (IsFresh it \<and> IsSpent (coin it))
               then pointer (do { us \<leftarrow> SetDirty key (try_emplace key (coin it) us);
                                  us \<leftarrow> (if IsFresh it then SetFresh key us else Some us);
                                  cursor \<leftarrow> cursor';
                                  Some (cursor, us) })
               else Inr (cursor, us)
           | Some itUs \<Rightarrow>
               if IsFresh it \<and> \<not> IsSpent (coin itUs) then Inl FreshMisapplied
               else if IsFresh itUs \<and> IsSpent (coin it)
               then pointer (do { us \<leftarrow> map_erase key us; Some (cursor, us) })
               else pointer (do { us \<leftarrow> set_coin key (coin it) us;
                                  us \<leftarrow> SetDirty key us;
                                  cursor \<leftarrow> cursor';
                                  Some (cursor, us) }))"

partial_function (option) batch_loop ::
  "link \<Rightarrow> CoinsViewCacheCursor \<Rightarrow> flagged_map \<Rightarrow> (coins_error + (CoinsViewCacheCursor \<times> flagged_map)) option" where
  "batch_loop it cursor us =
     (case it of
        Sentinel \<Rightarrow> Some (Inr (cursor, us))
      | Pair key \<Rightarrow>
          case cacheCoins (m_map cursor) key of
            None \<Rightarrow> Some (Inl BadPointer)
          | Some e \<Rightarrow>
              case batch_entry key e cursor us of
                Inl err \<Rightarrow> Some (Inl err)
              | Inr (cursor, us) \<Rightarrow>
                  case NextAndMaybeErase key cursor of
                    None \<Rightarrow> Some (Inl BadPointer)
                  | Some (it, cursor) \<Rightarrow> batch_loop it cursor us)"

definition Cache_BatchWrite ::
  "'v CCoinsViewCache \<Rightarrow> CoinsViewCacheCursor \<Rightarrow> uint256 \<Rightarrow>
     (coins_error + (bool \<times> CoinsViewCacheCursor \<times> 'v CCoinsViewCache)) option" where
  "Cache_BatchWrite c cursor hashBlockIn =
     (case Begin cursor of
        None \<Rightarrow> Some (Inl BadPointer)
      | Some it \<Rightarrow>
          map_option (map_sum id (\<lambda>(cursor, us). (True, cursor, c\<lparr>coins := us, hashBlock := hashBlockIn\<rparr>)))
            (batch_loop it cursor (coins c)))"

text \<open>
  \<^verbatim>\<open>Flush\<close> clears the map when the base has taken the entries: the destructors of the entries
  leave the sentinel alone in its list. \<^verbatim>\<open>Sync\<close> keeps what the cursor has left.
\<close>

definition Flush :: "'v CCoinsView \<Rightarrow> 'v CCoinsViewCache \<Rightarrow> (coins_error + (bool \<times> 'v CCoinsViewCache)) option" where
  "Flush V c =
     map_option (map_sum id (\<lambda>(fOk, cursor, b).
         (fOk, c\<lparr>base := b, coins := (if fOk then empty_map else m_map cursor)\<rparr>)))
       (view_BatchWrite V (base c) \<lparr>m_map = coins c, m_will_erase = True\<rparr> (hashBlock c))"

definition Sync :: "'v CCoinsView \<Rightarrow> 'v CCoinsViewCache \<Rightarrow> (coins_error + (bool \<times> 'v CCoinsViewCache)) option" where
  "Sync V c =
     map_option (\<lambda>r. ebind r (\<lambda>(fOk, cursor, b).
         if fOk \<and> m_next (m_sentinel (m_map cursor)) \<noteq> Some Sentinel then Inl FlagsNotCleared
         else Inr (fOk, c\<lparr>base := b, coins := m_map cursor\<rparr>)))
       (view_BatchWrite V (base c) \<lparr>m_map = coins c, m_will_erase = False\<rparr> (hashBlock c))"

definition Uncache :: "COutPoint \<Rightarrow> 'v CCoinsViewCache \<Rightarrow> coins_error + 'v CCoinsViewCache" where
  "Uncache outpoint c =
     (case cacheCoins (coins c) outpoint of
        None \<Rightarrow> Inr c
      | Some e \<Rightarrow>
          if \<not> IsDirty e \<and> \<not> IsFresh e
          then ebind (pointer (map_erase outpoint (coins c))) (\<lambda>fm. Inr (c\<lparr>coins := fm\<rparr>))
          else Inr c)"

definition cache_view :: "'v CCoinsView \<Rightarrow> 'v CCoinsViewCache CCoinsView" where
  "cache_view V =
     \<lparr>view_GetCoin = Cache_GetCoin V,
      view_HaveCoin = Cache_HaveCoin V,
      view_GetBestBlock = Cache_GetBestBlock V,
      view_GetHeadBlocks = (\<lambda>c. view_GetHeadBlocks V (base c)),
      view_BatchWrite = Cache_BatchWrite\<rparr>"

subsection \<open>Transactions\<close>

fun have_inputs_loop ::
  "'v CCoinsView \<Rightarrow> CTxIn list \<Rightarrow> 'v CCoinsViewCache \<Rightarrow> coins_error + (bool \<times> 'v CCoinsViewCache)" where
  "have_inputs_loop V [] c = Inr (True, c)"
| "have_inputs_loop V (i # ins) c =
     ebind (Cache_HaveCoin V c (prevout i)) (\<lambda>(have_it, c).
       if \<not> have_it then Inr (False, c) else have_inputs_loop V ins c)"

definition HaveInputs ::
  "'v CCoinsView \<Rightarrow> CTransaction \<Rightarrow> 'v CCoinsViewCache \<Rightarrow> coins_error + (bool \<times> 'v CCoinsViewCache)" where
  "HaveInputs V tx c = (if \<not> IsCoinBase tx then have_inputs_loop V (vin tx) c else Inr (True, c))"

text \<open>The outputs from number \<open>i\<close> on.\<close>

fun add_coins_loop ::
  "'v CCoinsView \<Rightarrow> uint256 \<Rightarrow> bool \<Rightarrow> int \<Rightarrow> bool \<Rightarrow> nat \<Rightarrow> CTxOut list \<Rightarrow> 'v CCoinsViewCache \<Rightarrow>
     coins_error + 'v CCoinsViewCache" where
  "add_coins_loop V txid fCoinbase nHeight check_for_overwrite i [] c = Inr c"
| "add_coins_loop V txid fCoinbase nHeight check_for_overwrite i (txout # outs) c =
     (let outpoint = \<lparr>op_hash = txid, op_n = of_nat i\<rparr> in
      ebind (if check_for_overwrite then Cache_HaveCoin V c outpoint else Inr (fCoinbase, c)) (\<lambda>(overwrite, c).
      ebind (AddCoin outpoint (Coin_of txout nHeight fCoinbase) overwrite c) (\<lambda>c.
        add_coins_loop V txid fCoinbase nHeight check_for_overwrite (Suc i) outs c)))"

definition AddCoins ::
  "'v CCoinsView \<Rightarrow> uint256 \<Rightarrow> 'v CCoinsViewCache \<Rightarrow> CTransaction \<Rightarrow> int \<Rightarrow> bool \<Rightarrow> coins_error + 'v CCoinsViewCache" where
  "AddCoins V txid c tx nHeight check_for_overwrite =
     add_coins_loop V txid (IsCoinBase tx) nHeight check_for_overwrite 0 (vout tx) c"

subsection \<open>Checks and searches\<close>

fun sanity_entries :: "CCoinsCacheEntry list \<Rightarrow> nat \<Rightarrow> nat option" where
  "sanity_entries [] count_flagged = Some count_flagged"
| "sanity_entries (e # es) count_flagged =
     (let attr = (if IsDirty e then 1 else 0) + (if IsFresh e then 2 else 0) + (if IsSpent (coin e) then 4 else 0 :: nat)
      in if attr \<noteq> 2 \<and> attr \<noteq> 4 \<and> attr \<noteq> 7
         then sanity_entries es (if IsDirty e \<or> IsFresh e then Suc count_flagged else count_flagged)
         else None)"

partial_function (option) sanity_links :: "flagged_map \<Rightarrow> link \<Rightarrow> nat \<Rightarrow> nat option" where
  "sanity_links fm it count_linked =
     (if it = Sentinel then Some count_linked
      else do { e \<leftarrow> node fm it;
                nxt \<leftarrow> m_next e; nxt_node \<leftarrow> node fm nxt;
                prv \<leftarrow> m_prev e; prv_node \<leftarrow> node fm prv;
                if m_prev nxt_node = Some it \<and> m_next prv_node = Some it \<and> (IsDirty e \<or> IsFresh e)
                then sanity_links fm nxt (Suc count_linked) else None })"

text \<open>
  \<open>keys\<close> is the order in which the map is iterated; a failed assertion (or a bad pointer) is
  \<open>False\<close>.
\<close>

definition SanityCheck :: "COutPoint list \<Rightarrow> 'v CCoinsViewCache \<Rightarrow> bool" where
  "SanityCheck keys c \<longleftrightarrow>
     (let fm = coins c in
      case sanity_entries (map (\<lambda>k. the (cacheCoins fm k)) keys) 0 of
        None \<Rightarrow> False
      | Some count_flagged \<Rightarrow>
          (case m_next (m_sentinel fm) of
             None \<Rightarrow> False
           | Some it \<Rightarrow> sanity_links fm it 0 = Some count_flagged))"

definition MIN_TRANSACTION_OUTPUT_WEIGHT :: nat where
  "MIN_TRANSACTION_OUTPUT_WEIGHT = WITNESS_SCALE_FACTOR * length (ser_CTxOut CTxOut_SetNull)"

definition MAX_OUTPUTS_PER_BLOCK :: nat where
  "MAX_OUTPUTS_PER_BLOCK = MAX_BLOCK_WEIGHT div MIN_TRANSACTION_OUTPUT_WEIGHT"

function access_loop ::
  "'v CCoinsView \<Rightarrow> uint256 \<Rightarrow> nat \<Rightarrow> 'v CCoinsViewCache \<Rightarrow> coins_error + (Coin \<times> 'v CCoinsViewCache)" where
  "access_loop V txid n c =
     (if n < MAX_OUTPUTS_PER_BLOCK
      then ebind (AccessCoin V \<lparr>op_hash = txid, op_n = of_nat n\<rparr> c) (\<lambda>(alternate, c).
             if \<not> IsSpent alternate then Inr (alternate, c) else access_loop V txid (Suc n) c)
      else Inr (coinEmpty, c))"
  by pat_completeness auto
termination
  by (relation "measure (\<lambda>(V, txid, n, c). MAX_OUTPUTS_PER_BLOCK - n)") auto

declare access_loop.simps [simp del]

definition AccessByTxid ::
  "'v CCoinsView \<Rightarrow> 'v CCoinsViewCache \<Rightarrow> uint256 \<Rightarrow> coins_error + (Coin \<times> 'v CCoinsViewCache)" where
  "AccessByTxid V view txid = access_loop V txid 0 view"

section \<open>The list of flagged entries\<close>

text \<open>Following a pointer field from \<open>a\<close> visits \<open>xs\<close> and ends at \<open>b\<close>.\<close>

fun link_path :: "('l \<Rightarrow> 'l option) \<Rightarrow> 'l \<Rightarrow> 'l list \<Rightarrow> 'l \<Rightarrow> bool" where
  "link_path f a [] b \<longleftrightarrow> f a = Some b"
| "link_path f a (x # xs) b \<longleftrightarrow> f a = Some x \<and> link_path f x xs b"

lemma link_path_append: "link_path f a (xs @ x # ys) b \<longleftrightarrow> link_path f a xs x \<and> link_path f x ys b"
  by (induction xs arbitrary: a) auto

lemma link_path_cong: "(\<And>z. z \<in> set (a # xs) \<Longrightarrow> f z = g z) \<Longrightarrow> link_path f a xs b = link_path g a xs b"
  by (induction xs arbitrary: a) auto

lemma link_path_start: "link_path f a xs b \<Longrightarrow> f a = Some (hd (xs @ [b]))"
  by (cases xs) auto

lemma link_path_redirect:
  "link_path f a xs b \<Longrightarrow> distinct (a # xs) \<Longrightarrow> link_path (f(last (a # xs) := Some c)) a xs c"
proof (induction xs arbitrary: a)
  case (Cons x xs)
  have "link_path (f(last (x # xs) := Some c)) x xs c" using Cons.prems by (intro Cons.IH) simp_all
  moreover have "a \<noteq> last (x # xs)" using Cons.prems(2) last_in_set [of "x # xs"] by auto
  moreover have "last (a # x # xs) = last (x # xs)" by simp
  ultimately show ?case using Cons.prems(1) by (metis fun_upd_other link_path.simps(2))
qed simp

lemma link_path_snoc:
  assumes "link_path f a xs b" "distinct (a # xs)" "x \<notin> set (a # xs)"
  shows "link_path (f(x := Some b, last (a # xs) := Some x)) a (xs @ [x]) b"
proof -
  have "link_path (f(last (a # xs) := Some x)) a xs x" by (rule link_path_redirect [OF assms(1,2)])
  then have "link_path (f(x := Some b, last (a # xs) := Some x)) a xs x"
    using assms(3) by (subst link_path_cong [of _ _ _ "f(last (a # xs) := Some x)"]) auto
  moreover have "x \<noteq> last (a # xs)" using assms(3) last_in_set [of "a # xs"] by auto
  ultimately show ?thesis by (simp add: link_path_append)
qed

lemma link_path_push:
  assumes "link_path f a xs b" "distinct (a # xs)" "x \<notin> set (a # xs)"
  shows "link_path (f(x := f a, a := Some x)) a (x # xs) b"
proof -
  have "link_path (f(x := f a, a := Some x)) x xs b"
  proof (cases xs)
    case Nil
    then show ?thesis using assms by auto
  next
    case (Cons y ys)
    then have "link_path (f(x := f a, a := Some x)) y ys b"
      using assms by (subst link_path_cong [of _ _ _ f]) auto
    then show ?thesis using assms Cons by auto
  qed
  then show ?thesis by simp
qed

lemma link_path_delete:
  assumes "link_path f a (us @ x # vs) b" "distinct (a # us @ x # vs)"
  shows "link_path (f(last (a # us) := f x, x := None)) a (us @ vs) b"
proof -
  have p: "link_path f a us x" "link_path f x vs b" using assms(1) by (simp_all add: link_path_append)
  have fx: "f x = Some (hd (vs @ [b]))" by (rule link_path_start [OF p(2)])
  let ?g = "f(last (a # us) := f x, x := None)"
  have "link_path (f(last (a # us) := f x)) a us (hd (vs @ [b]))"
    using link_path_redirect [OF p(1)] assms(2) fx by simp
  then have r: "link_path ?g a us (hd (vs @ [b]))"
    using assms(2) by (subst link_path_cong [of _ _ _ "f(last (a # us) := f x)"]) auto
  show ?thesis
  proof (cases vs)
    case Nil
    then show ?thesis using r by simp
  next
    case (Cons v ws)
    have "link_path f v ws b" using p(2) Cons by simp
    moreover have "last (a # us) \<notin> set (v # ws)" using assms(2) Cons last_in_set [of "a # us"] by auto
    ultimately have "link_path ?g v ws b" using assms(2) Cons by (subst link_path_cong [of _ _ _ f]) auto
    then show ?thesis using r Cons by (simp add: link_path_append)
  qed
qed

text \<open>The two pointer fields, and the contents without them.\<close>

definition nxt :: "flagged_map \<Rightarrow> link \<Rightarrow> link option" where
  "nxt fm l = Option.bind (node fm l) m_next"

definition prv :: "flagged_map \<Rightarrow> link \<Rightarrow> link option" where
  "prv fm l = Option.bind (node fm l) m_prev"

definition entries :: "flagged_map \<Rightarrow> COutPoint \<rightharpoonup> u8 \<times> Coin" where
  "entries fm p = map_option (\<lambda>e. (m_flags e, coin e)) (cacheCoins fm p)"

definition flagged_list :: "flagged_map \<Rightarrow> COutPoint list \<Rightarrow> bool" where
  "flagged_list fm xs \<longleftrightarrow>
     distinct xs \<and> (\<forall>p. p \<in> set xs \<longleftrightarrow> (\<exists>f c. entries fm p = Some (f, c) \<and> f \<noteq> 0)) \<and>
     link_path (nxt fm) Sentinel (map Pair xs) Sentinel \<and>
     link_path (prv fm) Sentinel (map Pair (rev xs)) Sentinel"

lemma node_Sentinel [simp]: "node fm Sentinel = Some (m_sentinel fm)"
  and node_Pair [simp]: "node fm (Pair p) = cacheCoins fm p"
  by (simp_all add: node_def)

lemma node_set_node [simp]: "node (set_node fm l e) = (node fm)(l \<mapsto> e)"
  by (rule ext, rename_tac l', case_tac l', auto simp: node_def set_node_def split: link.splits)

lemma cacheCoins_set_node [simp]: "cacheCoins (set_node fm l e) p = (if l = Pair p then Some e else cacheCoins fm p)"
  by (cases l) (auto simp: set_node_def)

lemma m_sentinel_set_node [simp]: "m_sentinel (set_node fm l e) = (if l = Sentinel then e else m_sentinel fm)"
  by (cases l) (auto simp: set_node_def)

lemma nxt_set_node [simp]: "nxt (set_node fm l e) = (nxt fm)(l := m_next e)"
  and prv_set_node [simp]: "prv (set_node fm l e) = (prv fm)(l := m_prev e)"
  by (auto simp: nxt_def prv_def fun_eq_iff)

lemma entries_set_node [simp]:
  "entries (set_node fm l e) = (case l of Sentinel \<Rightarrow> entries fm | Pair p \<Rightarrow> (entries fm)(p \<mapsto> (m_flags e, coin e)))"
  by (auto simp: entries_def fun_eq_iff split: link.splits)

lemma entries_SomeE: "entries fm p = Some (f, c) \<Longrightarrow> \<exists>e. cacheCoins fm p = Some e \<and> m_flags e = f \<and> coin e = c"
  by (auto simp: entries_def)

lemma flagged_list_links:
  assumes "flagged_list fm xs"
  shows "distinct (Sentinel # map Pair xs)" "distinct (Sentinel # map Pair (rev xs))"
  using assms by (auto simp: flagged_list_def distinct_map inj_on_def)

lemma flagged_prv_Sentinel: "flagged_list fm xs \<Longrightarrow> prv fm Sentinel = Some (last (Sentinel # map Pair xs))"
  using link_path_start [of "prv fm" Sentinel "map Pair (rev xs)" Sentinel]
  by (cases xs rule: rev_cases) (auto simp: flagged_list_def)

lemma last_link_cases: "last (Sentinel # map Pair xs) = (if xs = [] then Sentinel else Pair (last xs))"
  by (simp add: last_map)

lemma AddFlags_fresh_link:
  assumes l: "flagged_list fm xs" and e: "cacheCoins fm p = Some e" "m_flags e = 0" and fl: "flags \<noteq> 0"
  shows "\<exists>fm'. AddFlags flags p fm = Some fm' \<and> entries fm' = (entries fm)(p \<mapsto> (flags, coin e)) \<and> flagged_list fm' (xs @ [p])"
proof -
  define L where "L = last (Sentinel # map Pair xs)"
  have np: "p \<notin> set xs" using l e by (auto simp: flagged_list_def entries_def)
  then have Lp: "L \<noteq> Pair p" unfolding L_def last_link_cases by auto
  have sp: "m_prev (m_sentinel fm) = Some L" using flagged_prv_Sentinel [OF l] by (simp add: prv_def L_def)
  have "\<exists>n. node fm L = Some n"
  proof (cases "xs = []")
    case False
    then have "last xs \<in> set xs" by simp
    then show ?thesis using l False unfolding L_def last_link_cases by (auto simp: flagged_list_def entries_def)
  qed (simp add: L_def)
  then obtain ln where ln: "node fm L = Some ln" by blast
  define fm0 where "fm0 = set_node fm (Pair p) (e\<lparr>m_prev := Some L, m_next := Some Sentinel\<rparr>)"
  define fm1 where "fm1 = set_node fm0 Sentinel ((m_sentinel fm0)\<lparr>m_prev := Some (Pair p)\<rparr>)"
  obtain ln' where ln': "node fm1 L = Some ln'" "m_flags ln' = m_flags ln" "coin ln' = coin ln"
      "m_prev ln' = (if L = Sentinel then Some (Pair p) else m_prev ln)"
    using ln Lp by (cases L) (auto simp: fm1_def fm0_def)
  define fm2 where "fm2 = set_node fm1 L (ln'\<lparr>m_next := Some (Pair p)\<rparr>)"
  have c2: "cacheCoins fm2 p = Some (e\<lparr>m_prev := Some L, m_next := Some Sentinel\<rparr>)" using Lp by (simp add: fm2_def fm1_def fm0_def)
  define fm3 where "fm3 = set_node fm2 (Pair p) (e\<lparr>m_prev := Some L, m_next := Some Sentinel, m_flags := flags\<rparr>)"
  have r: "AddFlags flags p fm = Some fm3"
    using e sp ln'(1) c2 by (simp add: AddFlags_def Let_def fm0_def [symmetric] fm1_def [symmetric] fm2_def [symmetric] fm3_def
        del: node_set_node cacheCoins_set_node m_sentinel_set_node)
  have ent: "entries fm3 = (entries fm)(p \<mapsto> (flags, coin e))"
    using Lp ln ln' by (cases L) (auto simp: fm3_def fm2_def fm1_def fm0_def entries_def fun_eq_iff)
  have n: "nxt fm3 = (nxt fm)(Pair p := Some Sentinel, L := Some (Pair p))"
    using Lp ln ln' by (auto simp: fm3_def fm2_def fm1_def fm0_def fun_eq_iff nxt_def)
  have v: "prv fm3 = (prv fm)(Pair p := Some L, Sentinel := Some (Pair p))"
    using Lp ln ln' by (auto simp: fm3_def fm2_def fm1_def fm0_def fun_eq_iff prv_def)
  note d = flagged_list_links [OF l]
  have pn: "Pair p \<notin> set (Sentinel # map Pair xs)" "Pair p \<notin> set (Sentinel # map Pair (rev xs))" using np by auto
  have "link_path (nxt fm3) Sentinel (map Pair (xs @ [p])) Sentinel"
    using link_path_snoc [OF _ d(1) pn(1), of "nxt fm" Sentinel] l unfolding n L_def by (simp add: flagged_list_def)
  moreover have "link_path (prv fm3) Sentinel (map Pair (rev (xs @ [p]))) Sentinel"
    using link_path_push [OF _ d(2) pn(2), of "prv fm" Sentinel] l flagged_prv_Sentinel [OF l]
    unfolding v L_def by (simp add: flagged_list_def)
  ultimately have "flagged_list fm3 (xs @ [p])"
    using l np fl unfolding flagged_list_def ent by auto
  then show ?thesis using r ent by blast
qed

lemma AddFlags_spec:
  assumes l: "flagged_list fm xs" and e: "entries fm p = Some (f, c)" and fl: "flags \<noteq> 0"
  shows "\<exists>fm' xs'. AddFlags flags p fm = Some fm' \<and> entries fm' = (entries fm)(p \<mapsto> (f OR flags, c)) \<and> flagged_list fm' xs'"
proof -
  obtain en where en: "cacheCoins fm p = Some en" "m_flags en = f" "coin en = c" using entries_SomeE [OF e] by blast
  show ?thesis
  proof (cases "f = 0")
    case True
    then show ?thesis using AddFlags_fresh_link [OF l en(1) _ fl] en by auto
  next
    case False
    then have nz: "f OR flags \<noteq> 0" by (simp add: or_eq_0_iff)
    let ?fm = "set_node fm (Pair p) (en\<lparr>m_flags := f OR flags\<rparr>)"
    have "AddFlags flags p fm = Some ?fm" using False en by (simp add: AddFlags_def)
    moreover have "nxt ?fm = nxt fm" "prv ?fm = prv fm" using en by (auto simp: fun_eq_iff nxt_def prv_def)
    moreover have "entries ?fm = (entries fm)(p \<mapsto> (f OR flags, c))" using en by simp
    moreover from this have "flagged_list ?fm xs" using l e nz False calculation(2,3) unfolding flagged_list_def by auto
    ultimately show ?thesis by blast
  qed
qed

lemma SetClean_flagged:
  assumes l: "flagged_list fm (us @ p # vs)" and e: "cacheCoins fm p = Some e" "m_flags e \<noteq> 0"
  shows "\<exists>fm'. SetClean p fm = Some fm' \<and> entries fm' = (entries fm)(p \<mapsto> (0, coin e)) \<and> flagged_list fm' (us @ vs)"
proof -
  define P where "P = last (Sentinel # map Pair us)"
  define N where "N = hd (map Pair vs @ [Sentinel])"
  have d: "distinct (us @ p # vs)" using l by (simp add: flagged_list_def)
  have path: "link_path (nxt fm) Sentinel (map Pair us @ Pair p # map Pair vs) Sentinel"
    "link_path (prv fm) Sentinel (map Pair (rev vs) @ Pair p # map Pair (rev us)) Sentinel"
    using l by (simp_all add: flagged_list_def)
  have N: "N = last (Sentinel # map Pair (rev vs))" by (cases vs) (auto simp: N_def last_map)
  have P: "P = hd (map Pair (rev us) @ [Sentinel])" by (cases us rule: rev_cases) (auto simp: P_def)
  have en: "m_next e = Some N" "m_prev e = Some P"
    using path e(1) link_path_start [of "nxt fm" "Pair p" "map Pair vs" Sentinel]
      link_path_start [of "prv fm" "Pair p" "map Pair (rev us)" Sentinel]
    by (simp_all add: link_path_append nxt_def prv_def N_def P)
  have NP: "N \<noteq> Pair p" "P \<noteq> Pair p" 
    using d last_in_set [of us] last_in_set [of "rev vs"] unfolding N P_def last_link_cases by auto
  have flagged: "\<exists>n. node fm (Pair q) = Some n" if "q \<in> set (us @ p # vs)" for q
    using l that by (auto simp: flagged_list_def entries_def)
  have "\<exists>n. node fm N = Some n" using flagged [of "hd vs"] by (cases vs) (auto simp: N_def)
  then obtain nn where nn: "node fm N = Some nn" by blast
  have "\<exists>n. node fm P = Some n" using flagged [of "last us"] by (cases "us = []") (auto simp: P_def last_map)
  then obtain pn where pn: "node fm P = Some pn" by blast
  define fm1 where "fm1 = set_node fm N (nn\<lparr>m_prev := Some P\<rparr>)"
  obtain pn' where pn': "node fm1 P = Some pn'" "m_flags pn' = m_flags pn" "coin pn' = coin pn"
      "m_prev pn' = (if P = N then Some P else m_prev pn)" "m_next pn' = m_next pn"
    using nn pn by (cases "P = N") (auto simp: fm1_def)
  define fm2 where "fm2 = set_node fm1 P (pn'\<lparr>m_next := Some N\<rparr>)"
  have c2: "cacheCoins fm2 p = Some e" using NP e by (auto simp: fm2_def fm1_def)
  define fm3 where "fm3 = set_node fm2 (Pair p) (e\<lparr>m_flags := 0, m_prev := None, m_next := None\<rparr>)"
  have r: "SetClean p fm = Some fm3"
    using e en nn pn'(1) c2 by (simp add: SetClean_def Let_def fm1_def [symmetric] fm2_def [symmetric] fm3_def
        del: node_set_node cacheCoins_set_node m_sentinel_set_node)
  have ent: "entries fm3 = (entries fm)(p \<mapsto> (0, coin e))"
    using NP nn pn pn' by (cases P; cases N) (auto simp: fm3_def fm2_def fm1_def entries_def fun_eq_iff)
  have n: "nxt fm3 = (nxt fm)(P := nxt fm (Pair p), Pair p := None)"
    using NP e en nn pn pn' by (auto simp: fm3_def fm2_def fm1_def fun_eq_iff nxt_def)
  have v: "prv fm3 = (prv fm)(N := prv fm (Pair p), Pair p := None)"
    using NP e en nn pn pn' by (auto simp: fm3_def fm2_def fm1_def fun_eq_iff prv_def)
  have dl: "distinct (Sentinel # map Pair us @ Pair p # map Pair vs)"
    "distinct (Sentinel # map Pair (rev vs) @ Pair p # map Pair (rev us))"
    using flagged_list_links [OF l] by auto
  have "link_path (nxt fm3) Sentinel (map Pair (us @ vs)) Sentinel"
    using link_path_delete [OF path(1) dl(1)] unfolding n P_def by simp
  moreover have "link_path (prv fm3) Sentinel (map Pair (rev (us @ vs))) Sentinel"
    using link_path_delete [OF path(2) dl(2)] unfolding v N by simp
  ultimately have "flagged_list fm3 (us @ vs)" using l d unfolding flagged_list_def ent by auto
  then show ?thesis using r ent by blast
qed

lemma SetClean_spec:
  assumes l: "flagged_list fm xs" and e: "entries fm p = Some (f, c)"
  shows "\<exists>fm'. SetClean p fm = Some fm' \<and> entries fm' = (entries fm)(p \<mapsto> (0, c)) \<and>
    flagged_list fm' (filter (\<lambda>q. q \<noteq> p) xs)"
proof -
  obtain en where en: "cacheCoins fm p = Some en" "m_flags en = f" "coin en = c" using entries_SomeE [OF e] by blast
  show ?thesis
  proof (cases "f = 0")
    case True
    then have "p \<notin> set xs" using l e by (auto simp: flagged_list_def)
    then have "filter (\<lambda>q. q \<noteq> p) xs = xs" by (auto simp: filter_id_conv)
    moreover have "SetClean p fm = Some fm" using True en by (simp add: SetClean_def)
    ultimately show ?thesis using l e True by (auto simp: fun_upd_idem)
  next
    case False
    then have "p \<in> set xs" using l e by (auto simp: flagged_list_def)
    then obtain us vs where xs: "xs = us @ p # vs" by (meson split_list)
    then have "p \<notin> set us" "p \<notin> set vs" using l by (auto simp: flagged_list_def)
    then have "filter (\<lambda>q. q \<noteq> p) us = us" "filter (\<lambda>q. q \<noteq> p) vs = vs" by (auto simp: filter_id_conv)
    then have "filter (\<lambda>q. q \<noteq> p) xs = us @ vs" unfolding xs by simp
    then show ?thesis using SetClean_flagged [of fm us p vs en] l xs en False by auto
  qed
qed

lemma map_erase_spec:
  assumes l: "flagged_list fm xs" and e: "entries fm p = Some (f, c)"
  shows "\<exists>fm'. map_erase p fm = Some fm' \<and> entries fm' = (entries fm)(p := None) \<and>
    flagged_list fm' (filter (\<lambda>q. q \<noteq> p) xs)"
proof -
  obtain fm1 where fm1: "SetClean p fm = Some fm1" "entries fm1 = (entries fm)(p \<mapsto> (0, c))"
    "flagged_list fm1 (filter (\<lambda>q. q \<noteq> p) xs)" using SetClean_spec [OF l e] by blast
  let ?fm = "fm1\<lparr>cacheCoins := (cacheCoins fm1)(p := None)\<rparr>"
  have ent: "entries ?fm = (entries fm)(p := None)"
    using fm1(2) by (auto simp: entries_def fun_eq_iff split: if_splits)
  have node: "node ?fm l = (if l = Pair p then None else node fm1 l)" for l by (cases l) auto
  let ?ys = "filter (\<lambda>q. q \<noteq> p) xs"
  have "link_path (nxt ?fm) Sentinel (map Pair ?ys) Sentinel = link_path (nxt fm1) Sentinel (map Pair ?ys) Sentinel"
    "link_path (prv ?fm) Sentinel (map Pair (rev ?ys)) Sentinel = link_path (prv fm1) Sentinel (map Pair (rev ?ys)) Sentinel"
    by (intro link_path_cong; auto simp: nxt_def prv_def node)+
  then have "flagged_list ?fm ?ys"
    using fm1(3) l unfolding flagged_list_def ent by (auto simp: fm1(2) split: if_splits)
  then show ?thesis using fm1(1) ent by (simp add: map_erase_def)
qed

lemma set_coin_spec:
  assumes l: "flagged_list fm xs" and e: "entries fm p = Some (f, c)"
  shows "\<exists>fm'. set_coin p c' fm = Some fm' \<and> entries fm' = (entries fm)(p \<mapsto> (f, c')) \<and> flagged_list fm' xs"
proof -
  obtain en where en: "cacheCoins fm p = Some en" "m_flags en = f" "coin en = c" using entries_SomeE [OF e] by blast
  let ?fm = "set_node fm (Pair p) (en\<lparr>coin := c'\<rparr>)"
  have "nxt ?fm = nxt fm" "prv ?fm = prv fm" using en by (auto simp: fun_eq_iff nxt_def prv_def)
  moreover have ent: "entries ?fm = (entries fm)(p \<mapsto> (f, c'))" using en by simp
  ultimately have "flagged_list ?fm xs" using l e unfolding flagged_list_def by auto
  then show ?thesis using en ent by (simp add: set_coin_def)
qed

lemma try_emplace_spec:
  assumes l: "flagged_list fm xs"
  shows "entries (try_emplace p c fm) = (if entries fm p = None then (entries fm)(p \<mapsto> (0, c)) else entries fm) \<and>
    flagged_list (try_emplace p c fm) xs"
proof (cases "entries fm p")
  case None
  let ?fm = "set_node fm (Pair p) (CCoinsCacheEntry_of c)"
  have n: "cacheCoins fm p = None" using None by (simp add: entries_def)
  then have np: "p \<notin> set xs" using l by (auto simp: flagged_list_def entries_def)
  have ent: "entries ?fm = (entries fm)(p \<mapsto> (0, c))" by (simp add: CCoinsCacheEntry_of_def)
  have "link_path (nxt ?fm) Sentinel (map Pair xs) Sentinel = link_path (nxt fm) Sentinel (map Pair xs) Sentinel"
    "link_path (prv ?fm) Sentinel (map Pair (rev xs)) Sentinel = link_path (prv fm) Sentinel (map Pair (rev xs)) Sentinel"
    using np by (intro link_path_cong; auto)+
  then have "flagged_list ?fm xs" using l np unfolding flagged_list_def ent by (auto split: if_splits)
  then show ?thesis using None n ent by (simp add: try_emplace_def)
next
  case (Some a)
  then show ?thesis using l by (auto simp: try_emplace_def entries_def)
qed

lemma empty_map_spec: "entries empty_map = Map.empty" "flagged_list empty_map []"
  by (auto simp: empty_map_def flagged_list_def entries_def nxt_def prv_def SelfRef_def)

end
