(* ===== verification/CoinsCache.thy ===== *)
theory CoinsCache
  imports Coins
begin

unbundle bit_operations_syntax

text \<open>
  What a coin cache promises: the set of unspent coins and the best block it stands for, the
  contract of a view as the locale \<open>coins_view\<close>, and the proof that a cache over any view that
  keeps the contract refines it for every operation and keeps it again, whatever flags its
  entries have. The last part is the round trip of the stored coins.
\<close>

section \<open>What a cache stands for\<close>

lemma flag_bits [simp]:
  "(1 :: u8) AND 1 = 1" "(3 :: u8) AND 1 = 1" "(1 :: u8) AND 2 = 0" "(3 :: u8) AND 2 = 2"
  "(0 :: u8) OR 1 = 1" "(1 :: u8) OR 1 = 1" "(3 :: u8) OR 1 = 3" "(1 :: u8) OR 2 = 3" "(3 :: u8) OR 2 = 3"
  by simp_all

lemma Clear_spent [simp]: "IsSpent Coin_Clear"
  by (simp add: Coin_Clear_def IsSpent_def CTxOut_IsNull_def CTxOut_SetNull_def)

lemma moved_spent [simp]: "IsSpent (moved_coin c) = IsSpent c"
  by (simp add: moved_coin_def IsSpent_def CTxOut_IsNull_def)

text \<open>
  The entries of a cache over a set of unspent coins \<open>U\<close>: a clean entry repeats the base, an entry
  that is FRESH is DIRTY, unspent and unknown to the base. These are the combinations of flags the
  comment of \<^verbatim>\<open>CCoinsCacheEntry\<close> allows, without the one that cannot occur in practice.
\<close>

definition coherent :: "(Coin \<Rightarrow> bool) \<Rightarrow> (COutPoint \<rightharpoonup> Coin) \<Rightarrow> (COutPoint \<rightharpoonup> u8 \<times> Coin) \<Rightarrow> bool" where
  "coherent stores U D \<longleftrightarrow>
     (\<forall>p f c. D p = Some (f, c) \<longrightarrow>
        outpoint_ok p \<and> f \<in> {0, 1, 3} \<and> (\<not> IsSpent c \<longrightarrow> stores c) \<and>
        (f = 0 \<longrightarrow> U p = Some c \<and> \<not> IsSpent c) \<and> (f = 3 \<longrightarrow> U p = None \<and> \<not> IsSpent c))"

text \<open>The unspent coins a cache with these entries stands for.\<close>

definition overlay :: "(COutPoint \<rightharpoonup> Coin) \<Rightarrow> (COutPoint \<rightharpoonup> u8 \<times> Coin) \<Rightarrow> COutPoint \<rightharpoonup> Coin" where
  "overlay U D p =
     (case D p of None \<Rightarrow> U p | Some (f, c) \<Rightarrow> if IsSpent c then None else Some c)"

lemma overlay_empty [simp]: "overlay U Map.empty = U"
  by (simp add: overlay_def fun_eq_iff)

lemma overlay_upd [simp]: "overlay U (D(p \<mapsto> (f, c))) = (overlay U D)(p := if IsSpent c then None else Some c)"
  by (auto simp: overlay_def fun_eq_iff)

lemma overlay_remove: "overlay U (D(p := None)) = (overlay U D)(p := U p)"
  by (auto simp: overlay_def fun_eq_iff)

lemma coherent_empty [simp]: "coherent stores U Map.empty"
  by (simp add: coherent_def)

lemma coherentD:
  assumes "coherent stores U D" "D p = Some (f, c)"
  shows "outpoint_ok p" "f \<in> {0, 1, 3}" "\<not> IsSpent c \<Longrightarrow> stores c" "f = 0 \<Longrightarrow> U p = Some c \<and> \<not> IsSpent c"
    "f = 3 \<Longrightarrow> U p = None \<and> \<not> IsSpent c"
  using assms unfolding coherent_def by blast+

lemma coherent_upd:
  assumes "coherent stores U D" "outpoint_ok p" "f \<in> {0, 1, 3}" "\<not> IsSpent c \<Longrightarrow> stores c"
    "f = 0 \<Longrightarrow> U p = Some c \<and> \<not> IsSpent c" "f = 3 \<Longrightarrow> U p = None \<and> \<not> IsSpent c"
  shows "coherent stores U (D(p \<mapsto> (f, c)))"
  unfolding coherent_def
proof (intro allI impI)
  fix q g d
  assume "(D(p \<mapsto> (f, c))) q = Some (g, d)"
  then show "outpoint_ok q \<and> g \<in> {0, 1, 3} \<and> (\<not> IsSpent d \<longrightarrow> stores d) \<and>
      (g = 0 \<longrightarrow> U q = Some d \<and> \<not> IsSpent d) \<and> (g = 3 \<longrightarrow> U q = None \<and> \<not> IsSpent d)"
    using assms coherentD [OF assms(1)] by (cases "q = p") (simp_all, blast)
qed

lemma coherent_remove: "coherent stores U D \<Longrightarrow> coherent stores U (D(p := None))"
  by (auto simp: coherent_def)

lemma overlay_storable: "coherent stores U D \<Longrightarrow> (\<And>q d. U q = Some d \<Longrightarrow> stores d) \<Longrightarrow> overlay U D p = Some c \<Longrightarrow> stores c"
  by (auto simp: overlay_def coherent_def split: option.splits if_splits prod.splits)

section \<open>The contract of a view\<close>

text \<open>What iterating over a cursor leaves when it does not erase: no flags, no spent coins.\<close>

definition swept :: "(COutPoint \<rightharpoonup> u8 \<times> Coin) \<Rightarrow> COutPoint \<rightharpoonup> u8 \<times> Coin" where
  "swept D p = (case D p of None \<Rightarrow> None | Some (f, c) \<Rightarrow> if f \<noteq> 0 \<and> IsSpent c then None else Some (0, c))"

definition cursor_done :: "CoinsViewCacheCursor \<Rightarrow> CoinsViewCacheCursor \<Rightarrow> bool" where
  "cursor_done cursor cursor' \<longleftrightarrow>
     (\<not> m_will_erase cursor \<longrightarrow> flagged_list (m_map cursor') [] \<and> entries (m_map cursor') = swept (entries (m_map cursor)))"

text \<open>
  A view stands for a set of unspent coins and a best block. Reading may change its state but not
  what it stands for; a batch write adds the changes of a coherent cache.
\<close>

locale coins_view =
  fixes stores :: "Coin \<Rightarrow> bool" and V :: "'v CCoinsView" and ok :: "'v \<Rightarrow> bool" and utxo :: "'v \<Rightarrow> COutPoint \<rightharpoonup> Coin" and tip :: "'v \<Rightarrow> uint256"
  assumes unspent: "stores c \<Longrightarrow> \<not> IsSpent c"
    and stored: "ok v \<Longrightarrow> utxo v p = Some c \<Longrightarrow> stores c"
    and GetCoin: "ok v \<Longrightarrow> outpoint_ok p \<Longrightarrow>
      \<exists>v'. view_GetCoin V v p = Inr (utxo v p, v') \<and> ok v' \<and> utxo v' = utxo v \<and> tip v' = tip v"
    and HaveCoin: "ok v \<Longrightarrow> outpoint_ok p \<Longrightarrow>
      \<exists>v'. view_HaveCoin V v p = Inr (utxo v p \<noteq> None, v') \<and> ok v' \<and> utxo v' = utxo v \<and> tip v' = tip v"
    and GetBestBlock: "ok v \<Longrightarrow>
      \<exists>v'. view_GetBestBlock V v = (tip v, v') \<and> ok v' \<and> utxo v' = utxo v \<and> tip v' = tip v"
    and BatchWrite: "ok v \<Longrightarrow> flagged_list (m_map cursor) xs \<Longrightarrow> coherent stores (utxo v) (entries (m_map cursor)) \<Longrightarrow>
      length h = 32 \<Longrightarrow> \<not> IsNull h \<Longrightarrow>
      \<exists>cursor' v'. view_BatchWrite V v cursor h = Some (Inr (True, cursor', v')) \<and> ok v' \<and>
        utxo v' = overlay (utxo v) (entries (m_map cursor)) \<and> tip v' = h \<and> cursor_done cursor cursor'"

definition cache_ok :: "(Coin \<Rightarrow> bool) \<Rightarrow> ('v \<Rightarrow> bool) \<Rightarrow> ('v \<Rightarrow> COutPoint \<rightharpoonup> Coin) \<Rightarrow> 'v CCoinsViewCache \<Rightarrow> bool" where
  "cache_ok stores ok utxo c \<longleftrightarrow>
     ok (base c) \<and> (\<exists>xs. flagged_list (coins c) xs) \<and> coherent stores (utxo (base c)) (entries (coins c))"

definition cache_utxo :: "('v \<Rightarrow> COutPoint \<rightharpoonup> Coin) \<Rightarrow> 'v CCoinsViewCache \<Rightarrow> COutPoint \<rightharpoonup> Coin" where
  "cache_utxo utxo c = overlay (utxo (base c)) (entries (coins c))"

definition cache_tip :: "('v \<Rightarrow> uint256) \<Rightarrow> 'v CCoinsViewCache \<Rightarrow> uint256" where
  "cache_tip tip c = (if IsNull (hashBlock c) then tip (base c) else hashBlock c)"

lemma cache_of_base:
  "ok b \<Longrightarrow> cache_ok stores ok utxo (CCoinsViewCache_of b)"
  "cache_utxo utxo (CCoinsViewCache_of b) = utxo b" "cache_tip tip (CCoinsViewCache_of b) = tip b"
  using empty_map_spec
  by (auto simp: cache_ok_def cache_utxo_def cache_tip_def CCoinsViewCache_of_def IsNull_def uint256_zero_def list_all_iff)

lemma pointer_Some [simp]: "pointer (Some x) = Inr x"
  by (simp add: pointer_def)

lemma entries_None_iff: "entries fm p = None \<longleftrightarrow> cacheCoins fm p = None"
  by (simp add: entries_def)

lemma flag_tests: "IsDirty e \<longleftrightarrow> m_flags e AND 1 \<noteq> 0" "IsFresh e \<longleftrightarrow> m_flags e AND 2 \<noteq> 0"
  by (simp_all add: IsDirty_def IsFresh_def DIRTY_def FRESH_def)

lemma cache_okE:
  assumes "cache_ok stores ok utxo c"
  obtains xs where "ok (base c)" "flagged_list (coins c) xs" "coherent stores (utxo (base c)) (entries (coins c))"
  using assms by (auto simp: cache_ok_def)

lemma cache_entry:
  assumes "cacheCoins (coins c) p = Some e"
  shows "entries (coins c) p = Some (m_flags e, coin e)"
    "cache_utxo utxo c p = (if IsSpent (coin e) then None else Some (coin e))"
  using assms by (simp_all add: entries_def cache_utxo_def overlay_def)

context coins_view
begin

text \<open>Fetching fills the cache and changes nothing it stands for.\<close>

lemma FetchCoin_spec:
  assumes c: "cache_ok stores ok utxo c" and p: "outpoint_ok p"
  shows "\<exists>c'. FetchCoin V p c = Inr (cacheCoins (coins c') p, c') \<and> cache_ok stores ok utxo c' \<and>
    cache_utxo utxo c' = cache_utxo utxo c \<and> cache_tip tip c' = cache_tip tip c \<and> hashBlock c' = hashBlock c \<and>
    (cacheCoins (coins c') p = None \<longrightarrow> cache_utxo utxo c p = None)"
proof -
  obtain xs where b: "ok (base c)" and l: "flagged_list (coins c) xs" and co: "coherent stores (utxo (base c)) (entries (coins c))"
    using c by (rule cache_okE)
  show ?thesis
  proof (cases "cacheCoins (coins c) p")
    case (Some e)
    then show ?thesis using c by (intro exI [of _ c]) (simp add: FetchCoin_def)
  next
    case None
    obtain b' where b': "view_GetCoin V (base c) p = Inr (utxo (base c) p, b')" "ok b'" "utxo b' = utxo (base c)" "tip b' = tip (base c)"
      using GetCoin [OF b p] by blast
    show ?thesis
    proof (cases "utxo (base c) p")
      case un: None
      then show ?thesis using None b' l co
        by (intro exI [of _ "c\<lparr>base := b'\<rparr>"])
          (auto simp: FetchCoin_def cache_ok_def cache_utxo_def cache_tip_def overlay_def entries_def)
    next
      case (Some cn)
      have st: "stores cn" using stored [OF b Some] .
      then have us: "\<not> IsSpent cn" by (rule unspent)
      let ?fm = "try_emplace p cn (coins c)"
      have en: "entries ?fm = (entries (coins c))(p \<mapsto> (0, cn))" "flagged_list ?fm xs"
        using try_emplace_spec [OF l, of p cn] None by (simp_all add: entries_None_iff)
      have "coherent stores (utxo (base c)) (entries ?fm)" unfolding en(1)
        using co p st us Some by (intro coherent_upd) auto
      moreover have "overlay (utxo (base c)) (entries ?fm) = overlay (utxo (base c)) (entries (coins c))"
        using Some us None by (simp add: en(1) fun_upd_idem overlay_def entries_def)
      moreover have "cacheCoins ?fm p \<noteq> None" by (simp add: entries_None_iff [symmetric] en(1))
      ultimately show ?thesis using None Some b' us en(2)
        by (intro exI [of _ "c\<lparr>base := b', coins := ?fm\<rparr>"])
          (auto simp: FetchCoin_def cache_ok_def cache_utxo_def cache_tip_def)
    qed
  qed
qed

lemma FetchCoin_cases:
  assumes "cache_ok stores ok utxo c" "outpoint_ok p"
  obtains c' where "cache_ok stores ok utxo c'" "cache_utxo utxo c' = cache_utxo utxo c" "cache_tip tip c' = cache_tip tip c"
    "hashBlock c' = hashBlock c" "FetchCoin V p c = Inr (None, c')" "cache_utxo utxo c p = None"
  | c' e where "cache_ok stores ok utxo c'" "cache_utxo utxo c' = cache_utxo utxo c" "cache_tip tip c' = cache_tip tip c"
    "hashBlock c' = hashBlock c" "FetchCoin V p c = Inr (Some e, c')" "cacheCoins (coins c') p = Some e"
    "cache_utxo utxo c p = (if IsSpent (coin e) then None else Some (coin e))"
proof -
  obtain c' where f: "FetchCoin V p c = Inr (cacheCoins (coins c') p, c')" "cache_ok stores ok utxo c'"
    "cache_utxo utxo c' = cache_utxo utxo c" "cache_tip tip c' = cache_tip tip c" "hashBlock c' = hashBlock c"
    "cacheCoins (coins c') p = None \<longrightarrow> cache_utxo utxo c p = None"
    using FetchCoin_spec [OF assms] by (elim exE conjE)
  show thesis
  proof (cases "cacheCoins (coins c') p")
    case None
    show thesis by (rule that(1) [of c']) (use f None in simp_all)
  next
    case (Some e)
    show thesis by (rule that(2) [of c' e]) (use f Some cache_entry(2) [OF Some, of utxo] in simp_all)
  qed
qed

lemma Cache_GetCoin_spec:
  assumes "cache_ok stores ok utxo c" "outpoint_ok p"
  shows "\<exists>c'. Cache_GetCoin V c p = Inr (cache_utxo utxo c p, c') \<and> cache_ok stores ok utxo c' \<and>
    cache_utxo utxo c' = cache_utxo utxo c \<and> cache_tip tip c' = cache_tip tip c"
  by (rule FetchCoin_cases [OF assms]) (simp_all add: Cache_GetCoin_def)

lemma Cache_HaveCoin_spec:
  assumes "cache_ok stores ok utxo c" "outpoint_ok p"
  shows "\<exists>c'. Cache_HaveCoin V c p = Inr (cache_utxo utxo c p \<noteq> None, c') \<and> cache_ok stores ok utxo c' \<and>
    cache_utxo utxo c' = cache_utxo utxo c \<and> cache_tip tip c' = cache_tip tip c"
  by (rule FetchCoin_cases [OF assms]) (simp_all add: Cache_HaveCoin_def)

lemma AccessCoin_spec:
  assumes "cache_ok stores ok utxo c" "outpoint_ok p"
  shows "\<exists>cn c'. AccessCoin V p c = Inr (cn, c') \<and> cache_ok stores ok utxo c' \<and> cache_utxo utxo c' = cache_utxo utxo c \<and>
    cache_tip tip c' = cache_tip tip c \<and> (if IsSpent cn then cache_utxo utxo c p = None else cache_utxo utxo c p = Some cn)"
  by (rule FetchCoin_cases [OF assms]) (simp_all add: AccessCoin_def coinEmpty_def)

lemma Cache_GetBestBlock_spec:
  assumes "cache_ok stores ok utxo c"
  shows "\<exists>c'. Cache_GetBestBlock V c = (cache_tip tip c, c') \<and> cache_ok stores ok utxo c' \<and>
    cache_utxo utxo c' = cache_utxo utxo c \<and> cache_tip tip c' = cache_tip tip c"
proof -
  obtain xs where b: "ok (base c)" and l: "flagged_list (coins c) xs" and co: "coherent stores (utxo (base c)) (entries (coins c))"
    using assms by (rule cache_okE)
  obtain b' where "view_GetBestBlock V (base c) = (tip (base c), b')" "ok b'" "utxo b' = utxo (base c)" "tip b' = tip (base c)"
    using GetBestBlock [OF b] by blast
  then show ?thesis using assms l co
    by (auto simp: Cache_GetBestBlock_def cache_tip_def cache_ok_def cache_utxo_def)
qed

text \<open>Adding and spending coins.\<close>

lemma AddCoin_spec:
  assumes c: "cache_ok stores ok utxo c" and p: "outpoint_ok p" and cn: "stores cn"
    and new: "\<not> possible_overwrite \<Longrightarrow> cache_utxo utxo c p = None"
  shows "\<exists>c'. AddCoin p cn possible_overwrite c = Inr c' \<and> cache_ok stores ok utxo c' \<and> cache_tip tip c' = cache_tip tip c \<and>
    hashBlock c' = hashBlock c \<and> base c' = base c \<and>
    cache_utxo utxo c' = (if IsUnspendable (scriptPubKey (out cn)) then cache_utxo utxo c else (cache_utxo utxo c)(p \<mapsto> cn))"
proof -
  obtain xs where b: "ok (base c)" and l: "flagged_list (coins c) xs" and co: "coherent stores (utxo (base c)) (entries (coins c))"
    using c by (rule cache_okE)
  have us: "\<not> IsSpent cn" by (rule unspent [OF cn])
  show ?thesis
  proof (cases "IsUnspendable (scriptPubKey (out cn))")
    case True
    then show ?thesis using c us by (simp add: AddCoin_def)
  next
    case False
    let ?fm = "try_emplace p Coin_Clear (coins c)" and ?U = "utxo (base c)"
    have em: "entries ?fm = (if entries (coins c) p = None then (entries (coins c))(p \<mapsto> (0, Coin_Clear)) else entries (coins c))"
      "flagged_list ?fm xs" using try_emplace_spec [OF l] by blast+
    obtain f old where fo: "entries ?fm p = Some (f, old)" using em(1) by (cases "entries (coins c) p") auto
    have f: "f \<in> {0, 1, 3}" using em(1) fo co coherentD(2) [OF co, of p f old] by (auto split: if_splits)
    obtain it where it: "cacheCoins ?fm p = Some it" "m_flags it = f" "coin it = old" using entries_SomeE [OF fo] by blast
    have spent: "\<not> possible_overwrite \<Longrightarrow> IsSpent old"
      using new em(1) fo by (auto simp: cache_utxo_def overlay_def split: if_splits option.splits)
    define fresh where "fresh \<longleftrightarrow> \<not> possible_overwrite \<and> f AND 1 = 0"
    obtain fm1 where fm1: "set_coin p cn ?fm = Some fm1" "entries fm1 = (entries ?fm)(p \<mapsto> (f, cn))" "flagged_list fm1 xs"
      using set_coin_spec [OF em(2) fo] by blast
    obtain fm2 ys where fm2: "SetDirty p fm1 = Some fm2" "entries fm2 = (entries fm1)(p \<mapsto> (f OR 1, cn))" "flagged_list fm2 ys"
      using AddFlags_spec [OF fm1(3), of p f cn DIRTY] fm1(2) by (auto simp: SetDirty_def DIRTY_def)
    have "\<exists>fm3 zs. (if fresh then SetFresh p fm2 else Some fm2) = Some fm3 \<and>
      entries fm3 = (entries fm2)(p \<mapsto> (if fresh then f OR 1 OR 2 else f OR 1, cn)) \<and> flagged_list fm3 zs"
    proof (cases fresh)
      case True
      then show ?thesis using AddFlags_spec [OF fm2(3), of p "f OR 1" cn FRESH] fm2(2)
        by (simp add: SetFresh_def FRESH_def or.assoc)
    next
      case False
      then show ?thesis using fm2(2,3) by auto
    qed
    then obtain fm3 zs where fm3: "(if fresh then SetFresh p fm2 else Some fm2) = Some fm3"
      "entries fm3 = (entries fm2)(p \<mapsto> (if fresh then f OR 1 OR 2 else f OR 1, cn))" "flagged_list fm3 zs"
      by (elim exE conjE)
    have r: "AddCoin p cn possible_overwrite c = Inr (c\<lparr>coins := fm3\<rparr>)"
      using False us it spent fm1(1) fm2(1) fm3(1) by (auto simp: AddCoin_def Let_def flag_tests fresh_def)
    have e: "entries fm3 = (entries (coins c))(p \<mapsto> (if fresh then f OR 1 OR 2 else f OR 1, cn))"
      unfolding fm3(2) fm2(2) fm1(2) em(1) by (auto simp: fun_eq_iff)
    have free: "?U p = None" if "fresh"
    proof -
      have "f = 0" "IsSpent old" using that f spent by (auto simp: fresh_def)
      then have "entries (coins c) p = None" using em(1) fo coherentD(4) [OF co, of p f old] by (auto split: if_splits)
      then show ?thesis using new that by (simp add: fresh_def cache_utxo_def overlay_def)
    qed
    have keep: "?U p = None" if "f = 3"
      using that fo em(1) coherentD(5) [OF co, of p f old] by (auto split: if_splits)
    have "coherent stores ?U (entries fm3)" unfolding e
      using f cn us free keep p co by (intro coherent_upd) (auto simp: fresh_def split: if_splits)
    then show ?thesis using r b fm3(3) us e False
      by (auto simp: cache_ok_def cache_tip_def cache_utxo_def)
  qed
qed

end

context coins_view
begin

lemma SpendCoin_spec:
  assumes c: "cache_ok stores ok utxo c" and p: "outpoint_ok p"
  shows "\<exists>r m c'. SpendCoin V p c = Inr (r, m, c') \<and> cache_ok stores ok utxo c' \<and> cache_tip tip c' = cache_tip tip c \<and>
    hashBlock c' = hashBlock c \<and> cache_utxo utxo c' = (cache_utxo utxo c)(p := None) \<and>
    (case cache_utxo utxo c p of Some cn \<Rightarrow> r \<and> m = Some cn
     | None \<Rightarrow> \<not> r \<and> m = None \<or> r \<and> (\<exists>d. m = Some d \<and> IsSpent d))"
  using c p
proof (rule FetchCoin_cases)
  fix c'
  assume "cache_ok stores ok utxo c'" "cache_utxo utxo c' = cache_utxo utxo c" "cache_tip tip c' = cache_tip tip c"
    "hashBlock c' = hashBlock c" "FetchCoin V p c = Inr (None, c')" "cache_utxo utxo c p = None"
  then show ?thesis
    by (intro exI [of _ False] exI [of _ None] exI [of _ c']) (simp add: SpendCoin_def fun_upd_idem)
next
  fix c' e
  assume c': "cache_ok stores ok utxo c'" "cache_utxo utxo c' = cache_utxo utxo c" "cache_tip tip c' = cache_tip tip c"
    "hashBlock c' = hashBlock c" and f: "FetchCoin V p c = Inr (Some e, c')" "cacheCoins (coins c') p = Some e"
    and u: "cache_utxo utxo c p = (if IsSpent (coin e) then None else Some (coin e))"
  obtain xs where b: "ok (base c')" and l: "flagged_list (coins c') xs" and co: "coherent stores (utxo (base c')) (entries (coins c'))"
    using c'(1) by (rule cache_okE)
  let ?U = "utxo (base c')" and ?D = "entries (coins c')"
  have e: "?D p = Some (m_flags e, coin e)" by (rule cache_entry(1) [OF f(2)])
  note cd = coherentD [OF co e]
  have "\<exists>fm ys. (if IsFresh e then map_erase p (coins c') else do { fm \<leftarrow> SetDirty p (coins c'); set_coin p Coin_Clear fm }) = Some fm \<and>
      flagged_list fm ys \<and> coherent stores ?U (entries fm) \<and> overlay ?U (entries fm) = (overlay ?U ?D)(p := None)"
  proof (cases "m_flags e = 3")
    case True
    then have "?U p = None" using cd(5) by simp
    then show ?thesis using True map_erase_spec [OF l e] coherent_remove [OF co, of p]
      by (auto simp: flag_tests overlay_remove)
  next
    case False
    then have nf: "\<not> IsFresh e" "m_flags e OR 1 = 1" using cd(2) by (auto simp: flag_tests)
    obtain fm1 ys where fm1: "SetDirty p (coins c') = Some fm1" "entries fm1 = ?D(p \<mapsto> (1, coin e))" "flagged_list fm1 ys"
      using AddFlags_spec [OF l e, of DIRTY] nf(2) by (auto simp: SetDirty_def DIRTY_def)
    obtain fm2 where fm2: "set_coin p Coin_Clear fm1 = Some fm2" "entries fm2 = ?D(p \<mapsto> (1, Coin_Clear))" "flagged_list fm2 ys"
      using set_coin_spec [OF fm1(3), of p 1 "coin e" Coin_Clear] fm1(2) by auto
    have "coherent stores ?U (entries fm2)" unfolding fm2(2) using co cd(1) by (intro coherent_upd) auto
    then show ?thesis using nf fm1(1) fm2 by (intro exI [of _ fm2] exI [of _ ys]) simp
  qed
  then obtain fm ys where fm: "(if IsFresh e then map_erase p (coins c') else do { fm \<leftarrow> SetDirty p (coins c'); set_coin p Coin_Clear fm }) = Some fm"
      "flagged_list fm ys" "coherent stores ?U (entries fm)" "overlay ?U (entries fm) = (overlay ?U ?D)(p := None)"
    by (elim exE conjE)
  have "SpendCoin V p c = Inr (True, Some (coin e), c'\<lparr>coins := fm\<rparr>)" using f fm(1) by (simp add: SpendCoin_def)
  moreover have "cache_utxo utxo (c'\<lparr>coins := fm\<rparr>) = (cache_utxo utxo c)(p := None)"
    using fm(4) c'(2) by (simp add: cache_utxo_def)
  moreover have "cache_ok stores ok utxo (c'\<lparr>coins := fm\<rparr>)" using b fm(2,3) by (auto simp: cache_ok_def)
  moreover have "cache_tip tip (c'\<lparr>coins := fm\<rparr>) = cache_tip tip c" 
    unfolding c'(3) [symmetric] by (simp add: cache_tip_def)
  ultimately show ?thesis using u c'(4)
    by (intro exI [of _ True] exI [of _ "Some (coin e)"] exI [of _ "c'\<lparr>coins := fm\<rparr>"]) simp
qed

lemma Uncache_spec:
  assumes c: "cache_ok stores ok utxo c"
  shows "\<exists>c'. Uncache p c = Inr c' \<and> cache_ok stores ok utxo c' \<and> cache_utxo utxo c' = cache_utxo utxo c \<and> cache_tip tip c' = cache_tip tip c"
proof -
  obtain xs where b: "ok (base c)" and l: "flagged_list (coins c) xs" and co: "coherent stores (utxo (base c)) (entries (coins c))"
    using c by (rule cache_okE)
  show ?thesis
  proof (cases "cacheCoins (coins c) p")
    case None
    then show ?thesis using c by (simp add: Uncache_def)
  next
    case (Some e)
    have e: "entries (coins c) p = Some (m_flags e, coin e)" by (rule cache_entry(1) [OF Some])
    note cd = coherentD [OF co e]
    show ?thesis
    proof (cases "m_flags e = 0")
      case True
      obtain fm where fm: "map_erase p (coins c) = Some fm" "entries fm = (entries (coins c))(p := None)"
          "flagged_list fm (filter (\<lambda>q. q \<noteq> p) xs)" using map_erase_spec [OF l e] by (elim exE conjE)
      have "overlay (utxo (base c)) (entries fm) = overlay (utxo (base c)) (entries (coins c))"
        unfolding fm(2) overlay_remove using cd(4) [OF True] e by (simp add: fun_upd_idem overlay_def)
      then show ?thesis using True Some fm b coherent_remove [OF co, of p]
        by (auto simp: Uncache_def flag_tests cache_ok_def cache_utxo_def cache_tip_def)
    next
      case False
      then have "IsDirty e" using cd(2) by (auto simp: flag_tests)
      then show ?thesis using Some c by (simp add: Uncache_def)
    qed
  qed
qed

lemma SetBestBlock_spec:
  assumes "cache_ok stores ok utxo c" "\<not> IsNull h"
  shows "cache_ok stores ok utxo (SetBestBlock h c)" "cache_utxo utxo (SetBestBlock h c) = cache_utxo utxo c"
    "cache_tip tip (SetBestBlock h c) = h"
  using assms by (simp_all add: SetBestBlock_def cache_ok_def cache_utxo_def cache_tip_def)

end

section \<open>Batch writes\<close>

text \<open>
  A cursor that still has to visit \<open>xs\<close>, over the entries \<open>D\<close> it began with.
\<close>

definition cursor_at :: "CoinsViewCacheCursor \<Rightarrow> (COutPoint \<rightharpoonup> u8 \<times> Coin) \<Rightarrow> COutPoint list \<Rightarrow> bool" where
  "cursor_at cursor D xs \<longleftrightarrow>
     (\<exists>pre. flagged_list (m_map cursor) (pre @ xs) \<and> (\<not> m_will_erase cursor \<longrightarrow> pre = [])) \<and>
     (\<forall>q \<in> set xs. entries (m_map cursor) q = D q) \<and>
     (\<not> m_will_erase cursor \<longrightarrow> (\<forall>q. q \<notin> set xs \<longrightarrow> entries (m_map cursor) q = swept D q))"

definition first_link :: "COutPoint list \<Rightarrow> link" where
  "first_link xs = (case xs of [] \<Rightarrow> Sentinel | x # _ \<Rightarrow> Pair x)"

lemma cursor_start:
  assumes "flagged_list (m_map cursor) xs"
  shows "Begin cursor = Some (first_link xs)" "cursor_at cursor (entries (m_map cursor)) xs"
proof -
  have "link_path (nxt (m_map cursor)) Sentinel (map Pair xs) Sentinel" using assms by (simp add: flagged_list_def)
  then show "Begin cursor = Some (first_link xs)"
    by (cases xs) (auto simp: Begin_def first_link_def nxt_def)
  have "entries (m_map cursor) q = swept (entries (m_map cursor)) q" if "q \<notin> set xs" for q
    using assms that by (auto simp: flagged_list_def swept_def split: option.splits)
  then show "cursor_at cursor (entries (m_map cursor)) xs" using assms
    by (auto simp: cursor_at_def intro: exI [of _ "[]"])
qed

lemma cursor_finished: "cursor_at cursor' D [] \<Longrightarrow> m_will_erase cursor' = m_will_erase cursor \<Longrightarrow>
    D = entries (m_map cursor) \<Longrightarrow> cursor_done cursor cursor'"
  by (auto simp: cursor_at_def cursor_done_def fun_eq_iff)

lemma cursor_entry: "cursor_at cursor D (p # xs) \<Longrightarrow> entries (m_map cursor) p = D p"
  by (simp add: cursor_at_def)

lemma flagged_list_next:
  assumes "flagged_list fm (pre @ p # xs)" "cacheCoins fm p = Some e"
  shows "m_next e = Some (first_link xs)"
proof -
  have "link_path (nxt fm) Sentinel (map Pair pre @ Pair p # map Pair xs) Sentinel"
    using assms(1) by (simp add: flagged_list_def)
  then show ?thesis using assms(2) by (cases xs) (auto simp: link_path_append first_link_def nxt_def)
qed

text \<open>The contents of an entry that will be erased may have been moved away.\<close>

definition cursor_moved :: "COutPoint \<Rightarrow> CoinsViewCacheCursor \<Rightarrow> CoinsViewCacheCursor \<Rightarrow> bool" where
  "cursor_moved p cursor cursor' \<longleftrightarrow>
     cursor' = cursor \<or>
     (\<exists>e fm. cacheCoins (m_map cursor) p = Some e \<and> WillErase e cursor \<and>
        set_coin p (moved_coin (coin e)) (m_map cursor) = Some fm \<and> cursor' = cursor\<lparr>m_map := fm\<rparr>)"

lemma cursor_moved_entries:
  assumes "cursor_moved p cursor cursor'" "flagged_list (m_map cursor) xs" "entries (m_map cursor) p = Some (f, c)"
  shows "flagged_list (m_map cursor') xs \<and> m_will_erase cursor' = m_will_erase cursor \<and>
    (\<exists>c'. IsSpent c' = IsSpent c \<and> (m_will_erase cursor \<or> IsSpent c \<or> c' = c) \<and>
       entries (m_map cursor') = (entries (m_map cursor))(p \<mapsto> (f, c')))"
  using assms(1) unfolding cursor_moved_def
proof
  assume "cursor' = cursor"
  then show ?thesis using assms(2,3) by (auto simp: fun_upd_idem)
next
  assume "\<exists>e fm. cacheCoins (m_map cursor) p = Some e \<and> WillErase e cursor \<and>
      set_coin p (moved_coin (coin e)) (m_map cursor) = Some fm \<and> cursor' = cursor\<lparr>m_map := fm\<rparr>"
  then obtain e fm where e: "cacheCoins (m_map cursor) p = Some e" "WillErase e cursor"
      "set_coin p (moved_coin (coin e)) (m_map cursor) = Some fm" "cursor' = cursor\<lparr>m_map := fm\<rparr>" by (elim exE conjE)
  moreover have "m_flags e = f" "coin e = c" using e(1) assms(3) by (simp_all add: entries_def)
  ultimately show ?thesis using set_coin_spec [OF assms(2,3), of "moved_coin c"]
    by (auto simp: WillErase_def intro!: exI [of _ "moved_coin c"])
qed

lemma cursor_step:
  assumes at: "cursor_at cursor D (p # xs)" and d: "D p = Some (f, c)" and f: "f \<noteq> 0" and mv: "cursor_moved p cursor cursor1"
  shows "\<exists>cursor2. NextAndMaybeErase p cursor1 = Some (first_link xs, cursor2) \<and> cursor_at cursor2 D xs \<and>
    m_will_erase cursor2 = m_will_erase cursor"
proof -
  obtain pre where pre: "flagged_list (m_map cursor) (pre @ p # xs)" "\<not> m_will_erase cursor \<longrightarrow> pre = []"
    using at by (auto simp: cursor_at_def)
  have dist: "p \<notin> set xs" "distinct xs" "p \<notin> set pre" using pre(1) by (auto simp: flagged_list_def)
  have ep: "entries (m_map cursor) p = Some (f, c)" using cursor_entry [OF at] d by simp
  obtain c1 where c1: "flagged_list (m_map cursor1) (pre @ p # xs)" "m_will_erase cursor1 = m_will_erase cursor"
      "IsSpent c1 = IsSpent c" "m_will_erase cursor \<or> IsSpent c \<or> c1 = c"
      "entries (m_map cursor1) = (entries (m_map cursor))(p \<mapsto> (f, c1))"
    using cursor_moved_entries [OF mv pre(1) ep] by (elim exE conjE)
  have e1: "entries (m_map cursor1) p = Some (f, c1)" by (simp add: c1(5))
  obtain e where e: "cacheCoins (m_map cursor1) p = Some e" "m_flags e = f" "coin e = c1" using entries_SomeE [OF e1] by blast
  have nx: "m_next e = Some (first_link xs)" by (rule flagged_list_next [OF c1(1) e(1)])
  show ?thesis
  proof (cases "m_will_erase cursor")
    case True
    have "NextAndMaybeErase p cursor1 = Some (first_link xs, cursor1)"
      using True e nx c1(2) by (simp add: NextAndMaybeErase_def)
    moreover have "cursor_at cursor1 D xs"
      using True c1(1,2,5) at dist by (auto simp: cursor_at_def intro: exI [of _ "pre @ [p]"])
    ultimately show ?thesis using c1(2) by blast
  next
    case False
    then have l: "flagged_list (m_map cursor1) (p # xs)" using pre(2) c1(1) by simp
    have fl: "filter (\<lambda>q. q \<noteq> p) (p # xs) = xs" using dist by (auto simp: filter_id_conv)
    have "\<exists>fm. NextAndMaybeErase p cursor1 = Some (first_link xs, cursor1\<lparr>m_map := fm\<rparr>) \<and> flagged_list fm xs \<and>
        entries fm = (entries (m_map cursor))(p := swept D p)"
    proof (cases "IsSpent c")
      case True
      then show ?thesis using map_erase_spec [OF l e1] False e nx c1 d f fl
        by (auto simp: NextAndMaybeErase_def swept_def)
    next
      case un: False
      then show ?thesis using SetClean_spec [OF l e1] False e nx c1 d f fl
        by (auto simp: NextAndMaybeErase_def swept_def)
    qed
    then obtain fm where fm: "NextAndMaybeErase p cursor1 = Some (first_link xs, cursor1\<lparr>m_map := fm\<rparr>)" "flagged_list fm xs"
        "entries fm = (entries (m_map cursor))(p := swept D p)" by (elim exE conjE)
    have "cursor_at (cursor1\<lparr>m_map := fm\<rparr>) D xs"
      using at fm(2,3) False c1(2) dist(1) by (auto simp: cursor_at_def)
    then show ?thesis using fm(1) c1(2) by auto
  qed
qed

lemma batch_moved:
  assumes "flagged_list (m_map cursor) xs" "cacheCoins (m_map cursor) p = Some e"
  shows "\<exists>cursor1. (if WillErase e cursor
      then map_option (\<lambda>fm. cursor\<lparr>m_map := fm\<rparr>) (set_coin p (moved_coin (coin e)) (m_map cursor)) else Some cursor) = Some cursor1 \<and>
    cursor_moved p cursor cursor1"
proof (cases "WillErase e cursor")
  case True
  obtain fm where "set_coin p (moved_coin (coin e)) (m_map cursor) = Some fm"
    using assms(2) by (simp add: set_coin_def)
  then show ?thesis using True assms(2) by (auto simp: cursor_moved_def)
qed (simp add: cursor_moved_def)

text \<open>One entry of the child: the parent takes its coin over.\<close>

lemma batch_entry_new:
  assumes us: "flagged_list us ys" "coherent stores U (entries us)" and new: "entries us p = None"
    and cur: "flagged_list (m_map cursor) xs" "cacheCoins (m_map cursor) p = Some e"
    and f: "m_flags e \<in> {1, 3}" and p: "outpoint_ok p" and st: "\<not> IsSpent (coin e) \<Longrightarrow> stores (coin e)"
    and fr: "m_flags e = 3 \<Longrightarrow> U p = None \<and> \<not> IsSpent (coin e)"
  shows "\<exists>cursor1 us' ys'. batch_entry p e cursor us = Inr (cursor1, us') \<and> cursor_moved p cursor cursor1 \<and>
    flagged_list us' ys' \<and> coherent stores U (entries us') \<and> entries us' = (entries us)(p \<mapsto> (m_flags e, coin e))"
proof -
  obtain cursor1 where c1: "(if WillErase e cursor
      then map_option (\<lambda>fm. cursor\<lparr>m_map := fm\<rparr>) (set_coin p (moved_coin (coin e)) (m_map cursor)) else Some cursor) = Some cursor1"
    "cursor_moved p cursor cursor1" using batch_moved [OF cur] by (elim exE conjE)
  let ?us0 = "try_emplace p (coin e) us"
  have em: "entries ?us0 = (entries us)(p \<mapsto> (0, coin e))" "flagged_list ?us0 ys"
    using try_emplace_spec [OF us(1), of p "coin e"] new by simp_all
  obtain us1 ys1 where us1: "SetDirty p ?us0 = Some us1" "entries us1 = (entries us)(p \<mapsto> (1, coin e))" "flagged_list us1 ys1"
    using AddFlags_spec [OF em(2), of p 0 "coin e" DIRTY] em(1) by (auto simp: SetDirty_def DIRTY_def)
  have "\<exists>us2 ys2. (if IsFresh e then SetFresh p us1 else Some us1) = Some us2 \<and> flagged_list us2 ys2 \<and>
      entries us2 = (entries us)(p \<mapsto> (m_flags e, coin e))"
  proof (cases "m_flags e = 3")
    case True
    then show ?thesis using AddFlags_spec [OF us1(3), of p 1 "coin e" FRESH] us1(2)
      by (auto simp: SetFresh_def FRESH_def flag_tests)
  next
    case False
    then show ?thesis using f us1 by (auto simp: flag_tests)
  qed
  then obtain us2 ys2 where us2: "(if IsFresh e then SetFresh p us1 else Some us1) = Some us2" "flagged_list us2 ys2"
      "entries us2 = (entries us)(p \<mapsto> (m_flags e, coin e))" by (elim exE conjE)
  have dirty: "IsDirty e" using f by (auto simp: flag_tests)
  have "\<not> (IsFresh e \<and> IsSpent (coin e))" using f fr by (auto simp: flag_tests)
  then have "batch_entry p e cursor us = Inr (cursor1, us2)"
    using dirty new us1(1) us2(1) c1(1) by (simp add: batch_entry_def entries_None_iff Let_def)
  moreover have "coherent stores U (entries us2)" unfolding us2(3)
    using us(2) p f st fr by (intro coherent_upd) auto
  ultimately show ?thesis using c1(2) us2(2,3) by blast
qed

lemma batch_entry_old:
  assumes us: "flagged_list us ys" "coherent stores U (entries us)" and old: "entries us p = Some (g, d)"
    and cur: "flagged_list (m_map cursor) xs" "cacheCoins (m_map cursor) p = Some e"
    and f: "m_flags e \<in> {1, 3}" and p: "outpoint_ok p" and st: "\<not> IsSpent (coin e) \<Longrightarrow> stores (coin e)"
    and fr: "m_flags e = 3 \<Longrightarrow> IsSpent d"
  shows "\<exists>cursor1 us' ys'. batch_entry p e cursor us = Inr (cursor1, us') \<and> cursor_moved p cursor cursor1 \<and>
    flagged_list us' ys' \<and> coherent stores U (entries us') \<and>
    overlay U (entries us') = (overlay U (entries us))(p := if IsSpent (coin e) then None else Some (coin e))"
proof -
  obtain itUs where it: "cacheCoins us p = Some itUs" "m_flags itUs = g" "coin itUs = d" using entries_SomeE [OF old] by blast
  note cd = coherentD [OF us(2) old]
  have dirty: "IsDirty e" using f by (auto simp: flag_tests)
  have nt: "\<not> (IsFresh e \<and> \<not> IsSpent d)" using f fr by (auto simp: flag_tests)
  show ?thesis
  proof (cases "g = 3 \<and> IsSpent (coin e)")
    case True
    obtain us1 where us1: "map_erase p us = Some us1" "entries us1 = (entries us)(p := None)" "flagged_list us1 (filter (\<lambda>q. q \<noteq> p) ys)"
      using map_erase_spec [OF us(1) old] by (elim exE conjE)
    have "batch_entry p e cursor us = Inr (cursor, us1)"
      using True dirty nt it us1(1) by (simp add: batch_entry_def flag_tests Let_def)
    then show ?thesis using us1 cd(5) True coherent_remove [OF us(2), of p]
      by (auto simp: overlay_remove cursor_moved_def)
  next
    case False
    obtain cursor1 where c1: "(if WillErase e cursor
        then map_option (\<lambda>fm. cursor\<lparr>m_map := fm\<rparr>) (set_coin p (moved_coin (coin e)) (m_map cursor)) else Some cursor) = Some cursor1"
      "cursor_moved p cursor cursor1" using batch_moved [OF cur] by (elim exE conjE)
    obtain us1 where us1: "set_coin p (coin e) us = Some us1" "entries us1 = (entries us)(p \<mapsto> (g, coin e))" "flagged_list us1 ys"
      using set_coin_spec [OF us(1) old] by blast
    obtain us2 ys2 where us2: "SetDirty p us1 = Some us2" "entries us2 = (entries us)(p \<mapsto> (g OR 1, coin e))" "flagged_list us2 ys2"
      using AddFlags_spec [OF us1(3), of p g "coin e" DIRTY] us1(2) by (auto simp: SetDirty_def DIRTY_def)
    have "\<not> (IsFresh itUs \<and> IsSpent (coin e))" using False it(2) cd(2) by (auto simp: flag_tests)
    then have "batch_entry p e cursor us = Inr (cursor1, us2)"
      using dirty nt it us1(1) us2(1) c1(1) by (auto simp: batch_entry_def Let_def)
    moreover have "coherent stores U (entries us2)" unfolding us2(2)
      using us(2) p st cd(2,5) False by (intro coherent_upd) auto
    ultimately show ?thesis using c1(2) us2(2,3) by auto
  qed
qed

lemma batch_entry_spec:
  assumes us: "flagged_list us ys" "coherent stores U (entries us)"
    and cur: "flagged_list (m_map cursor) xs" "cacheCoins (m_map cursor) p = Some e"
    and f: "m_flags e \<in> {1, 3}" and p: "outpoint_ok p" and st: "\<not> IsSpent (coin e) \<Longrightarrow> stores (coin e)"
    and fr: "m_flags e = 3 \<Longrightarrow> overlay U (entries us) p = None \<and> \<not> IsSpent (coin e)"
  shows "\<exists>cursor1 us' ys'. batch_entry p e cursor us = Inr (cursor1, us') \<and> cursor_moved p cursor cursor1 \<and>
    flagged_list us' ys' \<and> coherent stores U (entries us') \<and>
    overlay U (entries us') = (overlay U (entries us))(p := if IsSpent (coin e) then None else Some (coin e))"
proof (cases "entries us p")
  case None
  have "\<exists>cursor1 us' ys'. batch_entry p e cursor us = Inr (cursor1, us') \<and> cursor_moved p cursor cursor1 \<and>
    flagged_list us' ys' \<and> coherent stores U (entries us') \<and> entries us' = (entries us)(p \<mapsto> (m_flags e, coin e))"
    by (rule batch_entry_new [OF us None cur f p]) (use st fr None in \<open>auto simp: overlay_def\<close>)
  then show ?thesis by (elim exE conjE) auto
next
  case (Some gd)
  obtain g d where gd: "entries us p = Some (g, d)" using Some by (cases gd) simp
  show ?thesis
    by (rule batch_entry_old [OF us gd cur f p]) (use st fr gd in \<open>auto simp: overlay_def split: if_splits\<close>)
qed

lemma batch_loop_spec:
  assumes "cursor_at cursor D xs" "distinct xs" "coherent stores W D" "\<forall>q \<in> set xs. \<exists>f c. D q = Some (f, c) \<and> f \<noteq> 0"
    and "flagged_list us ys" "coherent stores U (entries us)" "\<forall>q \<in> set xs. overlay U (entries us) q = W q"
  shows "\<exists>cursor' us' ys'. batch_loop (first_link xs) cursor us = Some (Inr (cursor', us')) \<and> cursor_at cursor' D [] \<and>
    m_will_erase cursor' = m_will_erase cursor \<and> flagged_list us' ys' \<and> coherent stores U (entries us') \<and>
    overlay U (entries us') = (\<lambda>q. if q \<in> set xs then overlay W D q else overlay U (entries us) q)"
  using assms
proof (induction xs arbitrary: cursor us ys)
  case Nil
  then show ?case by (subst batch_loop.simps) (auto simp: first_link_def)
next
  case (Cons p xs)
  obtain f c where fc: "D p = Some (f, c)" "f \<noteq> 0" using Cons.prems(4) by auto
  note cd = coherentD [OF Cons.prems(3) fc(1)]
  have ent: "entries (m_map cursor) p = Some (f, c)" using cursor_entry [OF Cons.prems(1)] fc by simp
  obtain e where e: "cacheCoins (m_map cursor) p = Some e" "m_flags e = f" "coin e = c" using entries_SomeE [OF ent] by blast
  obtain pre where pre: "flagged_list (m_map cursor) (pre @ p # xs)" using Cons.prems(1) by (auto simp: cursor_at_def)
  have f13: "m_flags e \<in> {1, 3}" using cd(2) fc(2) e(2) by auto
  have st: "\<not> IsSpent (coin e) \<Longrightarrow> stores (coin e)" using cd(3) e(3) by simp
  have fr: "m_flags e = 3 \<Longrightarrow> overlay U (entries us) p = None \<and> \<not> IsSpent (coin e)"
    using cd(5) e Cons.prems(7) by simp
  obtain cursor1 us1 ys1 where b: "batch_entry p e cursor us = Inr (cursor1, us1)" "cursor_moved p cursor cursor1"
    "flagged_list us1 ys1" "coherent stores U (entries us1)"
    "overlay U (entries us1) = (overlay U (entries us))(p := if IsSpent (coin e) then None else Some (coin e))"
    using batch_entry_spec [OF Cons.prems(5,6) pre e(1) f13 cd(1)] st fr by (auto elim!: exE conjE)
  obtain cursor2 where n: "NextAndMaybeErase p cursor1 = Some (first_link xs, cursor2)" "cursor_at cursor2 D xs"
    "m_will_erase cursor2 = m_will_erase cursor"
    using cursor_step [OF Cons.prems(1) fc b(2)] by (elim exE conjE)
  have px: "p \<notin> set xs" "distinct xs" using Cons.prems(2) by auto
  have W1: "\<forall>q \<in> set xs. overlay U (entries us1) q = W q" using Cons.prems(7) px(1) b(5) by auto
  obtain cursor' us' ys' where r: "batch_loop (first_link xs) cursor2 us1 = Some (Inr (cursor', us'))" "cursor_at cursor' D []"
    "m_will_erase cursor' = m_will_erase cursor2" "flagged_list us' ys'" "coherent stores U (entries us')"
    "overlay U (entries us') = (\<lambda>q. if q \<in> set xs then overlay W D q else overlay U (entries us1) q)"
    using Cons.IH [OF n(2) px(2) Cons.prems(3) _ b(3,4) W1] Cons.prems(4) by (auto elim!: exE conjE)
  have "batch_loop (first_link (p # xs)) cursor us = Some (Inr (cursor', us'))"
    using e(1) b(1) n(1) r(1) by (subst batch_loop.simps) (simp add: first_link_def)
  moreover have "overlay U (entries us') = (\<lambda>q. if q \<in> set (p # xs) then overlay W D q else overlay U (entries us) q)"
    unfolding r(6) b(5) using fc e(3) px(1) by (auto simp: fun_eq_iff overlay_def)
  ultimately show ?case using r n(3) by auto
qed

lemma coherent_flagged:
  "flagged_list fm xs \<Longrightarrow> coherent stores U (entries fm) \<Longrightarrow> q \<notin> set xs \<Longrightarrow> overlay U (entries fm) q = U q"
  by (cases "entries fm q") (auto simp: flagged_list_def overlay_def dest: coherentD)

lemma flagged_listD:
  assumes "flagged_list fm xs"
  shows "distinct xs" "\<forall>q \<in> set xs. \<exists>f c. entries fm q = Some (f, c) \<and> f \<noteq> 0"
  using assms by (auto simp: flagged_list_def)

context coins_view
begin

lemma Cache_BatchWrite_spec:
  assumes c: "cache_ok stores ok utxo c" and l: "flagged_list (m_map cursor) xs"
    and co: "coherent stores (cache_utxo utxo c) (entries (m_map cursor))" and h: "\<not> IsNull h"
  shows "\<exists>cursor' c'. Cache_BatchWrite c cursor h = Some (Inr (True, cursor', c')) \<and> cache_ok stores ok utxo c' \<and>
    cache_utxo utxo c' = overlay (cache_utxo utxo c) (entries (m_map cursor)) \<and> cache_tip tip c' = h \<and> cursor_done cursor cursor'"
proof -
  obtain ys where b: "ok (base c)" and lc: "flagged_list (coins c) ys" and cc: "coherent stores (utxo (base c)) (entries (coins c))"
    using c by (rule cache_okE)
  note fl = flagged_listD [OF l]
  obtain cursor' us' ys' where r: "batch_loop (first_link xs) cursor (coins c) = Some (Inr (cursor', us'))"
    "cursor_at cursor' (entries (m_map cursor)) []" "m_will_erase cursor' = m_will_erase cursor"
    "flagged_list us' ys'" "coherent stores (utxo (base c)) (entries us')"
    "overlay (utxo (base c)) (entries us') =
      (\<lambda>q. if q \<in> set xs then overlay (cache_utxo utxo c) (entries (m_map cursor)) q else overlay (utxo (base c)) (entries (coins c)) q)"
    using batch_loop_spec [OF cursor_start(2) [OF l] fl(1) co fl(2) lc cc] by (auto simp: cache_utxo_def elim!: exE conjE)
  let ?c = "c\<lparr>coins := us', hashBlock := h\<rparr>"
  have "Cache_BatchWrite c cursor h = Some (Inr (True, cursor', ?c))"
    using r(1) cursor_start(1) [OF l] by (simp add: Cache_BatchWrite_def)
  moreover have "cache_utxo utxo ?c = overlay (cache_utxo utxo c) (entries (m_map cursor))"
  proof (rule ext)
    fix q
    show "cache_utxo utxo ?c q = overlay (cache_utxo utxo c) (entries (m_map cursor)) q"
      using coherent_flagged [OF l co, of q] by (cases "q \<in> set xs") (simp_all add: cache_utxo_def r(6))
  qed
  moreover have "cache_ok stores ok utxo ?c" using b r(4,5) by (auto simp: cache_ok_def)
  moreover have "cache_tip tip ?c = h" using h by (simp add: cache_tip_def)
  ultimately show ?thesis using cursor_finished [OF r(2,3)] by blast
qed

text \<open>A cache over a view is again a view, for a cache on top of it.\<close>

lemma cache_is_view: "coins_view stores (cache_view V) (cache_ok stores ok utxo) (cache_utxo utxo) (cache_tip tip)"
proof (unfold_locales, goal_cases)
  case (1 c)
  then show ?case by (rule unspent)
next
  case (2 v p c)
  then show ?case
    by (elim cache_okE) (auto simp: cache_utxo_def intro: overlay_storable stored)
next
  case (3 v p)
  then show ?case using Cache_GetCoin_spec by (simp add: cache_view_def)
next
  case (4 v p)
  then show ?case using Cache_HaveCoin_spec by (simp add: cache_view_def)
next
  case (5 v)
  then show ?case using Cache_GetBestBlock_spec by (simp add: cache_view_def)
next
  case (6 v cursor xs h)
  then show ?case using Cache_BatchWrite_spec by (simp add: cache_view_def)
qed

lemma Flush_spec:
  assumes c: "cache_ok stores ok utxo c" and h: "length (hashBlock c) = 32" "\<not> IsNull (hashBlock c)"
  shows "\<exists>c'. Flush V c = Some (Inr (True, c')) \<and> cache_ok stores ok utxo c' \<and> entries (coins c') = Map.empty \<and>
    cache_utxo utxo c' = cache_utxo utxo c \<and> utxo (base c') = cache_utxo utxo c \<and> tip (base c') = hashBlock c"
proof -
  obtain xs where b: "ok (base c)" and l: "flagged_list (coins c) xs" and co: "coherent stores (utxo (base c)) (entries (coins c))"
    using c by (rule cache_okE)
  let ?cur = "\<lparr>m_map = coins c, m_will_erase = True\<rparr>"
  obtain cursor' b' where w: "view_BatchWrite V (base c) ?cur (hashBlock c) = Some (Inr (True, cursor', b'))" "ok b'"
    "utxo b' = overlay (utxo (base c)) (entries (coins c))" "tip b' = hashBlock c"
    using BatchWrite [OF b, of ?cur xs "hashBlock c"] l co h by auto
  show ?thesis using w empty_map_spec
    by (intro exI [of _ "c\<lparr>base := b', coins := empty_map\<rparr>"]) (auto simp: Flush_def cache_ok_def cache_utxo_def)
qed

lemma Sync_spec:
  assumes c: "cache_ok stores ok utxo c" and h: "length (hashBlock c) = 32" "\<not> IsNull (hashBlock c)"
  shows "\<exists>c'. Sync V c = Some (Inr (True, c')) \<and> cache_ok stores ok utxo c' \<and> entries (coins c') = swept (entries (coins c)) \<and>
    cache_utxo utxo c' = cache_utxo utxo c \<and> utxo (base c') = cache_utxo utxo c \<and> tip (base c') = hashBlock c"
proof -
  obtain xs where b: "ok (base c)" and l: "flagged_list (coins c) xs" and co: "coherent stores (utxo (base c)) (entries (coins c))"
    using c by (rule cache_okE)
  let ?cur = "\<lparr>m_map = coins c, m_will_erase = False\<rparr>"
  obtain cursor' b' where w: "view_BatchWrite V (base c) ?cur (hashBlock c) = Some (Inr (True, cursor', b'))" "ok b'"
    "utxo b' = overlay (utxo (base c)) (entries (coins c))" "tip b' = hashBlock c" "cursor_done ?cur cursor'"
    using BatchWrite [OF b, of ?cur xs "hashBlock c"] l co h by auto
  then have d: "flagged_list (m_map cursor') []" "entries (m_map cursor') = swept (entries (coins c))"
    by (simp_all add: cursor_done_def)
  then have s: "m_next (m_sentinel (m_map cursor')) = Some Sentinel"
    by (auto simp: flagged_list_def nxt_def)
  have sw: "overlay (utxo b') (swept (entries (coins c))) = utxo b'"
    unfolding w(3) by (auto simp: fun_eq_iff overlay_def swept_def split: option.splits dest: coherentD [OF co])
  have "coherent stores (utxo b') (swept (entries (coins c)))"
    unfolding w(3) coherent_def swept_def overlay_def using co
    by (auto simp: coherent_def split: option.splits if_splits)
  then show ?thesis using w d s sw
    by (intro exI [of _ "c\<lparr>base := b', coins := m_map cursor'\<rparr>"]) (auto simp: Sync_def cache_ok_def cache_utxo_def)
qed

end

text \<open>The consistency check of the code never fails on a well-formed cache.\<close>

lemma sanity_entries_ok:
  assumes "\<forall>e \<in> set es. m_flags e \<in> {0, 1, 3} \<and> (m_flags e = 0 \<longrightarrow> \<not> IsSpent (coin e)) \<and> (m_flags e = 3 \<longrightarrow> \<not> IsSpent (coin e))"
  shows "sanity_entries es n = Some (n + length (filter (\<lambda>e. m_flags e \<noteq> 0) es))"
  using assms
proof (induction es arbitrary: n)
  case (Cons e es)
  then show ?case by (auto simp: flag_tests)
qed simp

lemma sanity_links_ok:
  assumes "flagged_list fm (pre @ xs)" "\<forall>q \<in> set xs. \<exists>f c. entries fm q = Some (f, c) \<and> f \<in> {1, 3}"
  shows "sanity_links fm (first_link xs) n = Some (n + length xs)"
  using assms
proof (induction xs arbitrary: pre n)
  case Nil
  then show ?case by (subst sanity_links.simps) (simp add: first_link_def)
next
  case (Cons p xs)
  let ?ls = "map Pair pre @ Pair p # map Pair xs" and ?rs = "map Pair (rev xs) @ Pair p # map Pair (rev pre)"
  have path: "link_path (nxt fm) Sentinel ?ls Sentinel" "link_path (prv fm) Sentinel ?rs Sentinel"
    using Cons.prems(1) by (simp_all add: flagged_list_def)
  obtain e where e: "cacheCoins fm p = Some e" "m_flags e \<in> {1, 3}"
    using Cons.prems(2) entries_SomeE [of fm p] by fastforce
  have nx: "m_next e = Some (first_link xs)" using flagged_list_next [OF Cons.prems(1) e(1)] .
  have pv: "m_prev e = Some (hd (map Pair (rev pre) @ [Sentinel]))"
    using path(2) e(1) link_path_start [of "prv fm" "Pair p" "map Pair (rev pre)"] by (auto simp: link_path_append prv_def)
  have bk: "prv fm (first_link xs) = Some (Pair p)"
    using path(2) by (cases xs) (auto simp: first_link_def link_path_append)
  have forth: "nxt fm (hd (map Pair (rev pre) @ [Sentinel])) = Some (Pair p)"
    using path(1) by (cases pre rule: rev_cases) (auto simp: link_path_append)
  have "sanity_links fm (first_link xs) (Suc n) = Some (Suc n + length xs)"
    using Cons.IH [of "pre @ [p]" "Suc n"] Cons.prems by simp
  then show ?case using e nx pv bk forth
    by (subst sanity_links.simps) (auto simp: first_link_def flag_tests nxt_def prv_def bind_eq_Some_conv)
qed

section \<open>Stored coins\<close>

text \<open>Coins that occur in valid transactions and are worth storing.\<close>

definition storable :: "Coin \<Rightarrow> bool" where
  "storable c \<longleftrightarrow> MoneyRange (nValue (out c)) \<and> length (scriptPubKey (out c)) \<le> MAX_SCRIPT_SIZE"

lemma storable_unspent: "storable c \<Longrightarrow> \<not> IsSpent c"
  by (auto simp: storable_def IsSpent_def CTxOut_IsNull_def MoneyRange_def)


definition stores_coin :: "(bytes \<Rightarrow> bool) \<Rightarrow> (bytes \<Rightarrow> bytes) \<Rightarrow> Coin \<Rightarrow> bool" where
  "stores_coin parse uncompressed c \<longleftrightarrow> storable c \<and> script_survives parse uncompressed (scriptPubKey (out c))"

lemma coin_code_nat:
  "unat (coin_code c) = 2 * unat (coin_nHeight c) + (if fCoinBase c then 1 else 0)"
proof -
  have h: "unat (coin_nHeight c) < 2 ^ 31" using unsigned_less [of "coin_nHeight c", where ?'a = nat] by simp
  have "unat (ucast (coin_nHeight c) * 2 :: u32) = unat (coin_nHeight c) * 2"
    using h by (simp add: unat_mult_lem [symmetric] unat_word_ariths unsigned_ucast_eq take_bit_eq_mod)
  then show ?thesis using h by (auto simp: coin_code_def unat_word_ariths)
qed

lemma coin_code_parts:
  "bit (unat (coin_code c)) 0 = fCoinBase c" "(of_nat (unat (coin_code c) div 2) :: 31 word) = coin_nHeight c"
  "unat (coin_code c) \<le> UINT32_MAX"
  using unat_u32_less [of "coin_code c"] by (auto simp: coin_code_nat bit_0 UINT32_MAX_def)

lemma Coin_round_trip:
  assumes "stores_coin parse uncompressed c"
  shows "\<exists>bs. Coin_Serialize parse c = Some bs \<and> Coin_Unserialize parse uncompressed (bs @ s) = Inr (c, s)"
proof -
  obtain t where t: "TxOutCompression_Ser parse (out c) = Some t"
    "TxOutCompression_Unser parse uncompressed CTxOut_SetNull (t @ s) = Inr (out c, s)"
    using txout_round_trip [of parse uncompressed "out c" CTxOut_SetNull s] assms by (auto simp: storable_def stores_coin_def)
  have "ReadVarInt UINT32_MAX (WriteVarInt (unat (coin_code c)) @ t @ s) = Inr (unat (coin_code c), t @ s)"
    by (rule varint32.dec_enc) (rule coin_code_parts(3))
  then show ?thesis using t storable_unspent [of c] assms
    by (simp add: stores_coin_def Coin_Serialize_def Coin_Unserialize_def rbind_step coin_code_parts(1,2))
qed

lemma TxInUndo_round_trip:
  assumes "secp_serializations parse uncompressed" "storable c"
  shows "\<exists>bs. TxInUndo_Ser parse c = Some bs \<and> (\<forall>s. TxInUndo_Unser parse uncompressed (bs @ s) = Inr (c, s))"
proof -
  obtain t where t: "TxOutCompression_Ser parse (out c) = Some t"
    "\<And>s. TxOutCompression_Unser parse uncompressed CTxOut_SetNull (t @ s) = Inr (out c, s)"
    using txout_round_trip [OF secp_script_survives [OF assms(1)], of "out c" CTxOut_SetNull] assms(2)
    by (metis option.inject storable_def)
  have v: "ReadVarInt UINT32_MAX (WriteVarInt (unat (coin_code c)) @ u) = Inr (unat (coin_code c), u)" for u
    by (rule varint32.dec_enc) (rule coin_code_parts(3))
  have z: "ReadVarInt UINT32_MAX (0 # u) = Inr (0, u)" for u
    using varint32.dec_enc [of 0 u] by (simp add: WriteVarInt_small)
  show ?thesis
  proof (cases "coin_nHeight c > 0")
    case True
    then show ?thesis using t v z
      by (simp add: TxInUndo_Ser_def TxInUndo_Unser_def Let_def rbind_step coin_code_parts(1,2) ser_writedata8_def)
  next
    case False
    then show ?thesis using t v
      by (simp add: TxInUndo_Ser_def TxInUndo_Unser_def Let_def rbind_step coin_code_parts(1,2))
  qed
qed

text \<open>Vectors of elements that are read back, as in the undo records of transactions and blocks.\<close>

lemma read_many_back:
  assumes "list_all2 (\<lambda>x bs. \<forall>s. unser (bs @ s) = Inr (x, s)) xs bss"
  shows "read_many unser (length xs) (concat bss @ s) = Inr (xs, s)"
  using assms by (induction xs bss rule: list_all2_induct) (simp_all add: rbind_step)

lemma those_all2:
  "list_all (\<lambda>x. \<exists>y. f x = Some y \<and> P x y) xs \<Longrightarrow> \<exists>ys. those (map f xs) = Some ys \<and> list_all2 P xs ys"
  by (induction xs) auto

lemma those_vector_back:
  assumes "list_all (\<lambda>x. \<exists>bs. ser x = Some bs \<and> (\<forall>s. unser (bs @ s) = Inr (x, s))) xs" "length xs \<le> unat MAX_SIZE"
  shows "\<exists>bss. those (map ser xs) = Some bss \<and>
    (\<forall>s. VectorFormatter_Unser unser (WriteCompactSize (of_nat (length xs)) @ concat bss @ s) = Inr (xs, s))"
proof -
  obtain bss where b: "those (map ser xs) = Some bss" "list_all2 (\<lambda>x bs. \<forall>s. unser (bs @ s) = Inr (x, s)) xs bss"
    using those_all2 [OF assms(1)] by blast
  have "ReadCompactSize True (WriteCompactSize (of_nat (length xs)) @ u) = Inr (of_nat (length xs), u)" for u
    using assms(2) by (intro compact_size.dec_enc) (simp add: of_length_MAX_SIZE MAX_SIZE_nat)
  then show ?thesis using b read_many_back [OF b(2)] assms(2)
    by (auto simp: VectorFormatter_Unser_def rbind_step MAX_SIZE_nat unat_of_length)
qed


definition undo_ok :: "CBlockUndo \<Rightarrow> bool" where
  "undo_ok u \<longleftrightarrow> length (vtxundo u) \<le> unat MAX_SIZE \<and>
     list_all (\<lambda>t. length (vprevout t) \<le> unat MAX_SIZE \<and> list_all storable (vprevout t)) (vtxundo u)"

lemma CTxUndo_round_trip:
  assumes "secp_serializations parse uncompressed" "length (vprevout u) \<le> unat MAX_SIZE" "list_all storable (vprevout u)"
  shows "\<exists>bs. ser_CTxUndo parse u = Some bs \<and> (\<forall>s. unser_CTxUndo parse uncompressed (bs @ s) = Inr (u, s))"
proof -
  have "list_all (\<lambda>x. \<exists>bs. TxInUndo_Ser parse x = Some bs \<and> (\<forall>s. TxInUndo_Unser parse uncompressed (bs @ s) = Inr (x, s))) (vprevout u)"
    using assms(3) TxInUndo_round_trip [OF assms(1)] by (simp add: list_all_iff)
  from those_vector_back [OF this assms(2)] show ?thesis
    by (auto simp: ser_CTxUndo_def unser_CTxUndo_def rbind_step)
qed

lemma CBlockUndo_round_trip:
  assumes "secp_serializations parse uncompressed" "undo_ok u"
  shows "\<exists>bs. ser_CBlockUndo parse u = Some bs \<and> (\<forall>s. unser_CBlockUndo parse uncompressed (bs @ s) = Inr (u, s))"
proof -
  have "list_all (\<lambda>x. \<exists>bs. ser_CTxUndo parse x = Some bs \<and> (\<forall>s. unser_CTxUndo parse uncompressed (bs @ s) = Inr (x, s))) (vtxundo u)"
    using assms(2) CTxUndo_round_trip [OF assms(1)] by (simp add: list_all_iff undo_ok_def)
  from those_vector_back [OF this] assms(2) show ?thesis
    by (auto simp: ser_CBlockUndo_def unser_CBlockUndo_def rbind_step undo_ok_def)
qed

text \<open>
  C38. What is stored of a coin is enough to get it back. For every coin whose value is in the
  money range and whose script is not longer than \<open>MAX_SCRIPT_SIZE\<close> (which holds for every coin
  \<^verbatim>\<open>AddCoin\<close> keeps), the record of the coin database and the record of the undo file are read
  back as the same coin, whatever follows them, and so is the undo data of a block; the compact
  forms of amounts and of the special scripts lose nothing. The curve library is assumed to compress
  a point to its parity and first coordinate.
\<close>

theorem stored_coins_round_trip:
  assumes "secp_serializations parse uncompressed"
  shows "(storable c \<longrightarrow> (\<exists>bs. Coin_Serialize parse c = Some bs \<and> Coin_Unserialize parse uncompressed (bs @ s) = Inr (c, s))) \<and>
    (undo_ok u \<longrightarrow> (\<exists>bs. ser_CBlockUndo parse u = Some bs \<and> unser_CBlockUndo parse uncompressed (bs @ s) = Inr (u, s)))"
proof (intro conjI impI)
  assume "storable c"
  then have "stores_coin parse uncompressed c" using secp_script_survives [OF assms] by (simp add: stores_coin_def)
  then show "\<exists>bs. Coin_Serialize parse c = Some bs \<and> Coin_Unserialize parse uncompressed (bs @ s) = Inr (c, s)"
    by (rule Coin_round_trip)
next
  assume "undo_ok u"
  then show "\<exists>bs. ser_CBlockUndo parse u = Some bs \<and> unser_CBlockUndo parse uncompressed (bs @ s) = Inr (u, s)"
    using CBlockUndo_round_trip [OF assms] by blast
qed

text \<open>A curve on which every first coordinate has the points with the second coordinate 0 and 1.\<close>

definition sample_parse :: "bytes \<Rightarrow> bool" where
  "sample_parse b \<longleftrightarrow> length b = 33 \<or> length b = 65 \<and> take 31 (drop 33 b) = replicate 31 0 \<and> b ! 64 \<in> {0, 1}"

definition sample_uncompressed :: "bytes \<Rightarrow> bytes" where
  "sample_uncompressed b = 4 # tl b @ replicate 31 0 @ [hd b - 2]"

definition sample_coin :: Coin where
  "sample_coin = Coin_of \<lparr>nValue = 1800000000, scriptPubKey = [0x76, 0xa9, 20] @ replicate 20 7 @ [0x88, 0xac]\<rparr> 12 True"

lemma sample_secp: "secp_serializations sample_parse sample_uncompressed"
  unfolding secp_serializations_def
proof (intro allI impI)
  fix x y :: bytes
  assume l: "length x = 32" "length y = 32" and p: "sample_parse (4 # x @ y)"
  then obtain z b where y: "y = z @ [b]" "length z = 31" by (cases y rule: rev_cases) auto
  then have "z = replicate 31 0" "b \<in> {0, 1}" using p l by (auto simp: sample_parse_def nth_append)
  then show "sample_parse ((2 + (last y AND 1)) # x) \<and> sample_uncompressed ((2 + (last y AND 1)) # x) = 4 # x @ y"
    using y l by (auto simp: sample_parse_def sample_uncompressed_def)
qed

theorem stored_coins_round_trip_witness:
  "storable sample_coin \<and>
   (\<exists>bs. Coin_Serialize sample_parse sample_coin = Some bs \<and>
      Coin_Unserialize sample_parse sample_uncompressed (bs @ [1]) = Inr (sample_coin, [1])) \<and>
   (\<exists>bs. ser_CBlockUndo sample_parse \<lparr>vtxundo = [\<lparr>vprevout = [sample_coin]\<rparr>]\<rparr> = Some bs \<and>
      unser_CBlockUndo sample_parse sample_uncompressed (bs @ [1]) = Inr (\<lparr>vtxundo = [\<lparr>vprevout = [sample_coin]\<rparr>]\<rparr>, [1]))"
proof -
  have "storable sample_coin"
    by (simp add: storable_def sample_coin_def Coin_of_def MoneyRange_def MAX_MONEY_def COIN_def MAX_SCRIPT_SIZE_def)
  moreover from this have "undo_ok \<lparr>vtxundo = [\<lparr>vprevout = [sample_coin]\<rparr>]\<rparr>" by (simp add: undo_ok_def MAX_SIZE_nat)
  ultimately show ?thesis
    using stored_coins_round_trip [OF sample_secp, of sample_coin "[1]" "\<lparr>vtxundo = [\<lparr>vprevout = [sample_coin]\<rparr>]\<rparr>"] by blast
qed

end
