(* ===== verification/TxDb.thy ===== *)
theory TxDb
  imports CoinsCache
begin

text \<open>
  The coin database (\<^verbatim>\<open>txdb.h\<close>, \<^verbatim>\<open>txdb.cpp\<close>): the view at the bottom of the stack of caches. The
  store behind \<^verbatim>\<open>CDBWrapper\<close> is a map from serialized keys to serialized values, changed by
  atomic batches. Arguments stand for what is outside this code: \<open>parse\<close> and \<open>uncompressed\<close> for the
  curve library, \<open>ApproximateSize\<close> for the size estimate of a LevelDB batch, and \<open>crash\<close> for the
  random choices of the crash simulation.
\<close>

section \<open>Model\<close>

definition DB_COIN :: byte where "DB_COIN = 0x43"

definition DB_BEST_BLOCK :: byte where "DB_BEST_BLOCK = 0x42"

definition DB_HEAD_BLOCKS :: byte where "DB_HEAD_BLOCKS = 0x48"

definition CoinEntry :: "COutPoint \<Rightarrow> bytes" where
  "CoinEntry outpoint = ser_writedata8 DB_COIN @ ser_blob (op_hash outpoint) @ WriteVarInt (unat (op_n outpoint))"

definition nDefaultDbBatchSize :: nat where
  "nDefaultDbBatchSize = 16 * 2 ^ 20"

record CoinsViewOptions =
  batch_write_bytes :: nat
  simulate_crash_ratio :: int

record CCoinsViewDB =
  m_options :: CoinsViewOptions
  m_db :: "bytes \<rightharpoonup> bytes"

text \<open>Batches of changes of the store.\<close>

datatype batch_op = BatchWrite_op bytes bytes | BatchErase_op bytes

fun apply_op :: "(bytes \<rightharpoonup> bytes) \<Rightarrow> batch_op \<Rightarrow> bytes \<rightharpoonup> bytes" where
  "apply_op db (BatchWrite_op key val) = db(key \<mapsto> val)"
| "apply_op db (BatchErase_op key) = db(key := None)"

definition WriteBatch :: "(bytes \<rightharpoonup> bytes) \<Rightarrow> batch_op list \<Rightarrow> bytes \<rightharpoonup> bytes" where
  "WriteBatch db batch = foldl apply_op db batch"

text \<open>\<^verbatim>\<open>CDBWrapper::Read\<close>: a missing value and one that cannot be parsed both give false.\<close>

definition db_Read :: "'a reader \<Rightarrow> (bytes \<rightharpoonup> bytes) \<Rightarrow> bytes \<Rightarrow> coins_error + 'a option" where
  "db_Read unser db key =
     (case db key of
        None \<Rightarrow> Inr None
      | Some val \<Rightarrow>
          (case unser val of
             Inl AssertionFailed \<Rightarrow> Inl CoinsAssertion
           | Inl _ \<Rightarrow> Inr None
           | Inr (x, rest) \<Rightarrow> Inr (Some x)))"

definition DB_GetCoin ::
  "(bytes \<Rightarrow> bool) \<Rightarrow> (bytes \<Rightarrow> bytes) \<Rightarrow> CCoinsViewDB \<Rightarrow> COutPoint \<Rightarrow> coins_error + (Coin option \<times> CCoinsViewDB)" where
  "DB_GetCoin parse uncompressed v outpoint =
     ebind (db_Read (Coin_Unserialize parse uncompressed) (m_db v) (CoinEntry outpoint)) (\<lambda>r. Inr (r, v))"

definition DB_HaveCoin :: "CCoinsViewDB \<Rightarrow> COutPoint \<Rightarrow> coins_error + (bool \<times> CCoinsViewDB)" where
  "DB_HaveCoin v outpoint = Inr (m_db v (CoinEntry outpoint) \<noteq> None, v)"

definition DB_GetBestBlock :: "CCoinsViewDB \<Rightarrow> uint256" where
  "DB_GetBestBlock v =
     (case db_Read (unser_blob 32) (m_db v) [DB_BEST_BLOCK] of
        Inr (Some hashBestChain) \<Rightarrow> hashBestChain
      | _ \<Rightarrow> uint256_zero)"

definition DB_GetHeadBlocks :: "CCoinsViewDB \<Rightarrow> uint256 list" where
  "DB_GetHeadBlocks v =
     (case db_Read (VectorFormatter_Unser (unser_blob 32)) (m_db v) [DB_HEAD_BLOCKS] of
        Inr (Some vhashHeadBlocks) \<Rightarrow> vhashHeadBlocks
      | _ \<Rightarrow> [])"

text \<open>
  The loop over the cursor writes a batch whenever it has become too large, and may end the process
  there when a crash is simulated; \<open>k\<close> counts these writes. The result is the state of the store at
  a crash, an error, or the state with the batch that is left.
\<close>

datatype db_result =
    Crashed "bytes \<rightharpoonup> bytes"
  | Stopped coins_error
  | Written CoinsViewCacheCursor "batch_op list" "bytes \<rightharpoonup> bytes"

definition coin_ops :: "(bytes \<Rightarrow> bool) \<Rightarrow> COutPoint \<Rightarrow> CCoinsCacheEntry \<Rightarrow> batch_op list option" where
  "coin_ops parse key e =
     (if IsDirty e
      then if IsSpent (coin e) then Some [BatchErase_op (CoinEntry key)]
           else map_option (\<lambda>val. [BatchWrite_op (CoinEntry key) val]) (Coin_Serialize parse (coin e))
      else Some [])"

partial_function (option) db_loop ::
  "(bytes \<Rightarrow> bool) \<Rightarrow> (batch_op list \<Rightarrow> nat) \<Rightarrow> (nat \<Rightarrow> bool) \<Rightarrow> CoinsViewOptions \<Rightarrow>
     link \<Rightarrow> CoinsViewCacheCursor \<Rightarrow> batch_op list \<Rightarrow> (bytes \<rightharpoonup> bytes) \<Rightarrow> nat \<Rightarrow> db_result option" where
  "db_loop parse ApproximateSize crash opts it cursor batch db k =
     (case it of
        Sentinel \<Rightarrow> Some (Written cursor batch db)
      | Pair key \<Rightarrow>
          case cacheCoins (m_map cursor) key of
            None \<Rightarrow> Some (Stopped BadPointer)
          | Some e \<Rightarrow>
              case coin_ops parse key e of
                None \<Rightarrow> Some (Stopped CoinsAssertion)
              | Some ops \<Rightarrow>
                  case NextAndMaybeErase key cursor of
                    None \<Rightarrow> Some (Stopped BadPointer)
                  | Some (it, cursor) \<Rightarrow>
                      if ApproximateSize (batch @ ops) > batch_write_bytes opts
                      then let db = WriteBatch db (batch @ ops)
                           in if simulate_crash_ratio opts \<noteq> 0 \<and> crash k then Some (Crashed db)
                              else db_loop parse ApproximateSize crash opts it cursor [] db (Suc k)
                      else db_loop parse ApproximateSize crash opts it cursor (batch @ ops) db k)"

definition DB_write ::
  "(bytes \<Rightarrow> bool) \<Rightarrow> (batch_op list \<Rightarrow> nat) \<Rightarrow> (nat \<Rightarrow> bool) \<Rightarrow> CCoinsViewDB \<Rightarrow> CoinsViewCacheCursor \<Rightarrow> uint256 \<Rightarrow>
     db_result option" where
  "DB_write parse ApproximateSize crash v cursor hashBlockIn =
     (if IsNull hashBlockIn then Some (Stopped CoinsAssertion)
      else
        let best = DB_GetBestBlock v;
            old_heads = DB_GetHeadBlocks v;
            replaying = IsNull best \<and> length old_heads = 2
        in if replaying \<and> old_heads ! 0 \<noteq> hashBlockIn then Some (Stopped CoinsAssertion)
           else
             let old_tip = (if replaying then old_heads ! 1 else best);
                 batch = [BatchErase_op [DB_BEST_BLOCK],
                          BatchWrite_op [DB_HEAD_BLOCKS] (VectorFormatter_Ser ser_blob [hashBlockIn, old_tip])]
             in case Begin cursor of
                  None \<Rightarrow> Some (Stopped BadPointer)
                | Some it \<Rightarrow>
                    map_option (\<lambda>r. case r of
                        Written cursor batch db \<Rightarrow>
                          Written cursor [] (WriteBatch db (batch @ [BatchErase_op [DB_HEAD_BLOCKS],
                            BatchWrite_op [DB_BEST_BLOCK] (ser_blob hashBlockIn)]))
                      | _ \<Rightarrow> r)
                      (db_loop parse ApproximateSize crash (m_options v) it cursor batch (m_db v) 0))"

definition DB_BatchWrite ::
  "(bytes \<Rightarrow> bool) \<Rightarrow> (batch_op list \<Rightarrow> nat) \<Rightarrow> (nat \<Rightarrow> bool) \<Rightarrow> CCoinsViewDB \<Rightarrow> CoinsViewCacheCursor \<Rightarrow> uint256 \<Rightarrow>
     (coins_error + (bool \<times> CoinsViewCacheCursor \<times> CCoinsViewDB)) option" where
  "DB_BatchWrite parse ApproximateSize crash v cursor hashBlockIn =
     map_option (\<lambda>r. case r of
         Crashed db \<Rightarrow> Inl DatabaseCrash
       | Stopped err \<Rightarrow> Inl err
       | Written cursor batch db \<Rightarrow> Inr (True, cursor, v\<lparr>m_db := db\<rparr>))
       (DB_write parse ApproximateSize crash v cursor hashBlockIn)"

definition db_view ::
  "(bytes \<Rightarrow> bool) \<Rightarrow> (bytes \<Rightarrow> bytes) \<Rightarrow> (batch_op list \<Rightarrow> nat) \<Rightarrow> (nat \<Rightarrow> bool) \<Rightarrow> CCoinsViewDB CCoinsView" where
  "db_view parse uncompressed ApproximateSize crash =
     \<lparr>view_GetCoin = DB_GetCoin parse uncompressed,
      view_HaveCoin = DB_HaveCoin,
      view_GetBestBlock = (\<lambda>v. (DB_GetBestBlock v, v)),
      view_GetHeadBlocks = DB_GetHeadBlocks,
      view_BatchWrite = DB_BatchWrite parse ApproximateSize crash\<rparr>"

section \<open>Batches\<close>

lemma WriteBatch_append: "WriteBatch db (a @ b) = WriteBatch (WriteBatch db a) b"
  by (simp add: WriteBatch_def)

lemma WriteBatch_simps [simp]:
  "WriteBatch db [] = db" "WriteBatch db (opr # ops) = WriteBatch (apply_op db opr) ops"
  by (simp_all add: WriteBatch_def)

lemma CoinEntry_bytes: "CoinEntry p = DB_COIN # op_hash p @ WriteVarInt (unat (op_n p))"
  by (simp add: CoinEntry_def ser_writedata8_def ser_blob_def)

lemma CoinEntry_inject:
  assumes "CoinEntry p = CoinEntry q" "outpoint_ok p" "outpoint_ok q"
  shows "p = q"
proof -
  have h: "op_hash p = op_hash q" "WriteVarInt (unat (op_n p)) = WriteVarInt (unat (op_n q))"
    using assms by (auto simp: CoinEntry_bytes outpoint_ok_def append_eq_append_conv)
  have "unat (op_n p) = unat (op_n q)"
    using varint32.enc_inject [of "unat (op_n p)" "unat (op_n q)" "[]" "[]"] h(2) unat_u32_less [of "op_n p"] unat_u32_less [of "op_n q"]
    by (simp add: UINT32_MAX_def)
  then show ?thesis using h(1) by (cases p; cases q) (simp add: word_unat_eq_iff)
qed

lemma CoinEntry_not_marker: "CoinEntry p \<noteq> [DB_BEST_BLOCK]" "CoinEntry p \<noteq> [DB_HEAD_BLOCKS]"
  by (simp_all add: CoinEntry_bytes DB_COIN_def DB_BEST_BLOCK_def DB_HEAD_BLOCKS_def)

text \<open>What the entry of an outpoint becomes in the store.\<close>

definition entry_value :: "(bytes \<Rightarrow> bool) \<Rightarrow> (COutPoint \<rightharpoonup> u8 \<times> Coin) \<Rightarrow> COutPoint \<Rightarrow> bytes option" where
  "entry_value parse D q =
     (case D q of None \<Rightarrow> None | Some (f, c) \<Rightarrow> if IsSpent c then None else Coin_Serialize parse c)"

definition entry_ops :: "(bytes \<Rightarrow> bool) \<Rightarrow> (COutPoint \<rightharpoonup> u8 \<times> Coin) \<Rightarrow> COutPoint \<Rightarrow> batch_op list" where
  "entry_ops parse D q =
     (case entry_value parse D q of
        None \<Rightarrow> [BatchErase_op (CoinEntry q)] | Some val \<Rightarrow> [BatchWrite_op (CoinEntry q) val])"

lemma WriteBatch_entry_ops: "WriteBatch db (entry_ops parse D q) = db(CoinEntry q := entry_value parse D q)"
  by (auto simp: entry_ops_def split: option.splits)

lemma WriteBatch_entries:
  assumes "\<forall>q \<in> set xs. outpoint_ok q" "distinct xs"
  shows "outpoint_ok p \<Longrightarrow> WriteBatch db (concat (map (entry_ops parse D) xs)) (CoinEntry p) =
      (if p \<in> set xs then entry_value parse D p else db (CoinEntry p))"
    and "(\<And>q. key \<noteq> CoinEntry q) \<Longrightarrow> WriteBatch db (concat (map (entry_ops parse D) xs)) key = db key"
  using assms
  by (induction xs arbitrary: db) (auto simp: WriteBatch_append WriteBatch_entry_ops dest: CoinEntry_inject)

section \<open>The loop\<close>

lemma coin_ops_spec:
  assumes "cacheCoins fm p = Some e" "D p = Some (f, c)" "entries fm p = D p" "f \<in> {1, 3}" "\<not> IsSpent c \<Longrightarrow> stores_coin parse uncompressed c"
  shows "coin_ops parse p e = Some (entry_ops parse D p)"
proof -
  have e: "m_flags e = f" "coin e = c" using assms(1-3) by (simp_all add: entries_def)
  have "IsDirty e" using assms(4) e by (auto simp: flag_tests)
  moreover obtain bs where "\<not> IsSpent c \<Longrightarrow> Coin_Serialize parse c = Some bs"
    using Coin_round_trip [of parse uncompressed c "[]"] assms(5) by blast
  ultimately show ?thesis using assms(2) e
    by (cases "IsSpent c") (auto simp: coin_ops_def entry_ops_def entry_value_def)
qed

text \<open>
  The loop writes the entries in the order of the list; it ends with all of them, or with a crash
  after some.
\<close>

lemma db_loop_spec:
  assumes "cursor_at cursor D xs" "coherent (stores_coin parse uncompressed) W D"
    "\<forall>q \<in> set xs. \<exists>f c. D q = Some (f, c) \<and> f \<noteq> 0"
  shows "(\<exists>cursor' batch' db'. db_loop parse size_of crash opts (first_link xs) cursor batch db k = Some (Written cursor' batch' db') \<and>
      cursor_at cursor' D [] \<and> m_will_erase cursor' = m_will_erase cursor \<and>
      WriteBatch db' batch' = WriteBatch (WriteBatch db batch) (concat (map (entry_ops parse D) xs))) \<or>
    (simulate_crash_ratio opts \<noteq> 0 \<and>
     (\<exists>ys zs. xs = ys @ zs \<and> db_loop parse size_of crash opts (first_link xs) cursor batch db k =
        Some (Crashed (WriteBatch (WriteBatch db batch) (concat (map (entry_ops parse D) ys))))))"
  using assms
proof (induction xs arbitrary: cursor batch db k)
  case Nil
  then show ?case by (subst db_loop.simps) (auto simp: first_link_def)
next
  case (Cons p xs)
  obtain f c where fc: "D p = Some (f, c)" "f \<noteq> 0" using Cons.prems(3) by auto
  note cd = coherentD [OF Cons.prems(2) fc(1)]
  have ent: "entries (m_map cursor) p = D p" by (rule cursor_entry [OF Cons.prems(1)])
  obtain e where e: "cacheCoins (m_map cursor) p = Some e" using ent fc(1) entries_SomeE [of "m_map cursor" p f c] by auto
  have ops: "coin_ops parse p e = Some (entry_ops parse D p)"
    using cd(2,3) fc(2) by (intro coin_ops_spec [where D = D, OF e fc(1) ent]) auto
  obtain cursor2 where n: "NextAndMaybeErase p cursor = Some (first_link xs, cursor2)" "cursor_at cursor2 D xs"
    "m_will_erase cursor2 = m_will_erase cursor"
    using cursor_step [OF Cons.prems(1) fc, of cursor] by (auto simp: cursor_moved_def)
  let ?loop = "db_loop parse size_of crash opts"
  let ?b = "batch @ entry_ops parse D p"
  have unf: "?loop (first_link (p # xs)) cursor batch db k =
      (if size_of ?b > batch_write_bytes opts
       then if simulate_crash_ratio opts \<noteq> 0 \<and> crash k then Some (Crashed (WriteBatch db ?b))
            else ?loop (first_link xs) cursor2 [] (WriteBatch db ?b) (Suc k)
       else ?loop (first_link xs) cursor2 ?b db k)"
    using e ops n(1) by (subst db_loop.simps) (simp add: first_link_def Let_def)
  show ?case
  proof (cases "size_of ?b > batch_write_bytes opts \<and> simulate_crash_ratio opts \<noteq> 0 \<and> crash k")
    case True
    then have "?loop (first_link (p # xs)) cursor batch db k =
        Some (Crashed (WriteBatch (WriteBatch db batch) (concat (map (entry_ops parse D) [p]))))"
      using unf by (simp add: WriteBatch_append)
    moreover have "p # xs = [p] @ xs" by simp
    ultimately show ?thesis using True by blast
  next
    case False
    define batch1 db1 k1 where "batch1 = (if size_of ?b > batch_write_bytes opts then [] else ?b)"
      and "db1 = (if size_of ?b > batch_write_bytes opts then WriteBatch db ?b else db)"
      and "k1 = (if size_of ?b > batch_write_bytes opts then Suc k else k)"
    have eq: "?loop (first_link (p # xs)) cursor batch db k = ?loop (first_link xs) cursor2 batch1 db1 k1"
      using unf False by (auto simp: batch1_def db1_def k1_def)
    have w: "WriteBatch db1 batch1 = WriteBatch (WriteBatch db batch) (entry_ops parse D p)"
      by (simp add: db1_def batch1_def WriteBatch_append)
    have "\<forall>q \<in> set xs. \<exists>f c. D q = Some (f, c) \<and> f \<noteq> 0" using Cons.prems(3) by simp
    from Cons.IH [OF n(2) Cons.prems(2) this, of batch1 db1 k1] show ?thesis
    proof (elim disjE exE conjE, goal_cases)
      case (1 cursor' batch' db')
      then show ?case unfolding eq using n(3) w by (auto simp: WriteBatch_append)
    next
      case (2 ys zs)
      then have "p # xs = (p # ys) @ zs \<and> ?loop (first_link (p # xs)) cursor batch db k =
          Some (Crashed (WriteBatch (WriteBatch db batch) (concat (map (entry_ops parse D) (p # ys)))))"
        unfolding eq using w by (simp add: WriteBatch_append)
      then show ?case using 2 by blast
    qed
  qed
qed

section \<open>The database as a view\<close>

definition db_utxo :: "(bytes \<Rightarrow> bool) \<Rightarrow> (bytes \<Rightarrow> bytes) \<Rightarrow> (bytes \<rightharpoonup> bytes) \<Rightarrow> COutPoint \<rightharpoonup> Coin" where
  "db_utxo parse uncompressed db p =
     (if outpoint_ok p
      then (case db_Read (Coin_Unserialize parse uncompressed) db (CoinEntry p) of Inr r \<Rightarrow> r | Inl _ \<Rightarrow> None)
      else None)"

text \<open>Every stored coin is the serialization of a coin that can be stored.\<close>

definition db_coins_ok :: "(bytes \<Rightarrow> bool) \<Rightarrow> (bytes \<Rightarrow> bytes) \<Rightarrow> (bytes \<rightharpoonup> bytes) \<Rightarrow> bool" where
  "db_coins_ok parse uncompressed db \<longleftrightarrow>
     (\<forall>p bs. outpoint_ok p \<longrightarrow> db (CoinEntry p) = Some bs \<longrightarrow>
        (\<exists>c. stores_coin parse uncompressed c \<and> Coin_Serialize parse c = Some bs))"

text \<open>A database between two writes: no heads, and a best block once there has been a write.\<close>

definition db_ok :: "(bytes \<Rightarrow> bool) \<Rightarrow> (bytes \<Rightarrow> bytes) \<Rightarrow> CCoinsViewDB \<Rightarrow> bool" where
  "db_ok parse uncompressed v \<longleftrightarrow>
     simulate_crash_ratio (m_options v) = 0 \<and> db_coins_ok parse uncompressed (m_db v) \<and>
     m_db v [DB_HEAD_BLOCKS] = None \<and> (\<forall>bs. m_db v [DB_BEST_BLOCK] = Some bs \<longrightarrow> length bs = 32)"

lemma Coin_Serialize_read:
  assumes "stores_coin parse uncompressed c" "Coin_Serialize parse c = Some bs"
  shows "Coin_Unserialize parse uncompressed bs = Inr (c, [])"
  using Coin_round_trip [OF assms(1), of "[]"] assms(2) by auto

lemma db_Read_coin:
  assumes "db_coins_ok parse uncompressed db" "outpoint_ok p"
  shows "db_Read (Coin_Unserialize parse uncompressed) db (CoinEntry p) = Inr (db_utxo parse uncompressed db p)"
    "db_utxo parse uncompressed db p = None \<longleftrightarrow> db (CoinEntry p) = None"
    "db_utxo parse uncompressed db p = Some c \<Longrightarrow> stores_coin parse uncompressed c"
proof -
  have "db_Read (Coin_Unserialize parse uncompressed) db (CoinEntry p) = Inr (db_utxo parse uncompressed db p) \<and>
      (db_utxo parse uncompressed db p = None \<longleftrightarrow> db (CoinEntry p) = None) \<and>
      (\<forall>c. db_utxo parse uncompressed db p = Some c \<longrightarrow> stores_coin parse uncompressed c)"
  proof (cases "db (CoinEntry p)")
    case None
    then show ?thesis by (simp add: db_utxo_def db_Read_def)
  next
    case (Some bs)
    then obtain c where c: "stores_coin parse uncompressed c" "Coin_Serialize parse c = Some bs"
      using assms by (auto simp: db_coins_ok_def)
    then show ?thesis using Some Coin_Serialize_read [OF c] assms(2) by (simp add: db_utxo_def db_Read_def)
  qed
  then show "db_Read (Coin_Unserialize parse uncompressed) db (CoinEntry p) = Inr (db_utxo parse uncompressed db p)"
    "db_utxo parse uncompressed db p = None \<longleftrightarrow> db (CoinEntry p) = None"
    "db_utxo parse uncompressed db p = Some c \<Longrightarrow> stores_coin parse uncompressed c"
    by blast+
qed

text \<open>The coins after some of the entries have been written.\<close>

lemma entries_written:
  assumes D: "coherent (stores_coin parse uncompressed) U D" and xs: "distinct xs" "\<forall>q \<in> set xs. \<exists>f c. D q = Some (f, c) \<and> f \<noteq> 0"
    and db: "db_coins_ok parse uncompressed db" and coins: "\<And>p. db0 (CoinEntry p) = db (CoinEntry p)"
    and db': "\<And>p. db' (CoinEntry p) = WriteBatch db0 (concat (map (entry_ops parse D) xs)) (CoinEntry p)"
  shows "db_coins_ok parse uncompressed db'"
    "db_utxo parse uncompressed db' = (\<lambda>p. if p \<in> set xs then overlay U D p else db_utxo parse uncompressed db p)"
proof -
  have ok: "\<forall>q \<in> set xs. outpoint_ok q" using D xs(2) coherentD(1) [OF D] by blast
  have val: "db' (CoinEntry p) = (if p \<in> set xs then entry_value parse D p else db (CoinEntry p))" if "outpoint_ok p" for p
    using WriteBatch_entries(1) [OF ok xs(1) that] db' coins by simp
  show "db_coins_ok parse uncompressed db'"
    unfolding db_coins_ok_def
  proof (intro allI impI)
    fix p bs
    assume p: "outpoint_ok p" "db' (CoinEntry p) = Some bs"
    show "\<exists>c. stores_coin parse uncompressed c \<and> Coin_Serialize parse c = Some bs"
    proof (cases "p \<in> set xs")
      case True
      then obtain f c where d: "D p = Some (f, c)" using xs(2) by blast
      then show ?thesis using p val True coherentD(3) [OF D d] by (auto simp: entry_value_def split: if_splits)
    next
      case False
      then show ?thesis using p val db by (simp add: db_coins_ok_def)
    qed
  qed
  show "db_utxo parse uncompressed db' = (\<lambda>p. if p \<in> set xs then overlay U D p else db_utxo parse uncompressed db p)"
  proof (rule ext)
    fix p
    show "db_utxo parse uncompressed db' p = (if p \<in> set xs then overlay U D p else db_utxo parse uncompressed db p)"
    proof (cases "p \<in> set xs")
      case True
      then obtain f c where d: "D p = Some (f, c)" using xs(2) by blast
      show ?thesis
      proof (cases "IsSpent c")
        case sp: True
        then show ?thesis using True d val ok by (simp add: entry_value_def db_utxo_def db_Read_def overlay_def)
      next
        case False
        then have s: "stores_coin parse uncompressed c" using coherentD(3) [OF D d] by simp
        then obtain bs where bs: "Coin_Serialize parse c = Some bs" using Coin_round_trip [OF s] by blast
        show ?thesis using True False d val ok bs Coin_Serialize_read [OF s bs]
          by (simp add: entry_value_def db_utxo_def db_Read_def overlay_def)
      qed
    next
      case False
      then show ?thesis using val by (simp add: db_utxo_def db_Read_def)
    qed
  qed
qed

lemma best_block_read: "db [DB_BEST_BLOCK] = Some h \<Longrightarrow> length h = 32 \<Longrightarrow> db_Read (unser_blob 32) db [DB_BEST_BLOCK] = Inr (Some h)"
  using blob256.dec_enc [of h "[]"] by (simp add: db_Read_def ser_blob_def)

lemma DB_GetBestBlock_written: "m_db v [DB_BEST_BLOCK] = Some h \<Longrightarrow> length h = 32 \<Longrightarrow> DB_GetBestBlock v = h"
  by (simp add: DB_GetBestBlock_def best_block_read)

lemma DB_GetBestBlock_length: "db_ok parse uncompressed v \<Longrightarrow> length (DB_GetBestBlock v) = 32"
proof (cases "m_db v [DB_BEST_BLOCK]")
  case None
  then show ?thesis by (simp add: DB_GetBestBlock_def db_Read_def uint256_zero_def)
next
  case (Some h)
  assume "db_ok parse uncompressed v"
  then show ?thesis using Some DB_GetBestBlock_written [OF Some] by (simp add: db_ok_def)
qed

lemma DB_heads_written:
  assumes "m_db v [DB_HEAD_BLOCKS] = Some (VectorFormatter_Ser ser_blob [h, t])" "length h = 32" "length t = 32"
  shows "DB_GetHeadBlocks v = [h, t]"
proof -
  have "VectorFormatter_Unser (unser_blob 32) (VectorFormatter_Ser ser_blob [h, t] @ []) = Inr ([h, t], [])"
    by (rule hashes.dec_enc) (simp add: vec_ok_def assms(2,3) MAX_SIZE_nat)
  then show ?thesis using assms(1) by (simp add: DB_GetHeadBlocks_def db_Read_def)
qed

text \<open>
  A whole write, from a consistent database: it finishes with the changes of the cursor, or it
  crashes with the markers of the transition and some of the changes.
\<close>

lemma DB_write_spec:
  assumes db: "db_coins_ok parse uncompressed (m_db v)" "m_db v [DB_HEAD_BLOCKS] = None"
    and l: "flagged_list (m_map cursor) xs"
    and D: "coherent (stores_coin parse uncompressed) (db_utxo parse uncompressed (m_db v)) (entries (m_map cursor))"
    and h: "length h = 32" "\<not> IsNull h"
  shows "(\<exists>cursor' db'. DB_write parse size_of crash v cursor h = Some (Written cursor' [] db') \<and> cursor_done cursor cursor' \<and>
      db_coins_ok parse uncompressed db' \<and> db' [DB_HEAD_BLOCKS] = None \<and> db' [DB_BEST_BLOCK] = Some h \<and>
      db_utxo parse uncompressed db' = overlay (db_utxo parse uncompressed (m_db v)) (entries (m_map cursor))) \<or>
    (simulate_crash_ratio (m_options v) \<noteq> 0 \<and>
     (\<exists>db' ys. DB_write parse size_of crash v cursor h = Some (Crashed db') \<and> set ys \<subseteq> set xs \<and>
       db_coins_ok parse uncompressed db' \<and> db' [DB_BEST_BLOCK] = None \<and>
       db' [DB_HEAD_BLOCKS] = Some (VectorFormatter_Ser ser_blob [h, DB_GetBestBlock v]) \<and>
       db_utxo parse uncompressed db' =
         (\<lambda>p. if p \<in> set ys then overlay (db_utxo parse uncompressed (m_db v)) (entries (m_map cursor)) p
              else db_utxo parse uncompressed (m_db v) p)))"
proof -
  let ?D = "entries (m_map cursor)" and ?U = "db_utxo parse uncompressed (m_db v)"
  let ?heads = "VectorFormatter_Ser ser_blob [h, DB_GetBestBlock v]"
  let ?batch = "[BatchErase_op [DB_BEST_BLOCK], BatchWrite_op [DB_HEAD_BLOCKS] ?heads]"
  let ?last = "[BatchErase_op [DB_HEAD_BLOCKS], BatchWrite_op [DB_BEST_BLOCK] (ser_blob h)]"
  let ?db0 = "WriteBatch (m_db v) ?batch"
  have heads: "DB_GetHeadBlocks v = []" using db(2) by (simp add: DB_GetHeadBlocks_def db_Read_def)
  note fl = flagged_listD [OF l]
  have ok: "\<forall>q \<in> set xs. outpoint_ok q" using fl(2) coherentD(1) [OF D] by blast
  have c0: "?db0 (CoinEntry p) = m_db v (CoinEntry p)" for p
    using CoinEntry_not_marker [of p] by simp
  have w: "DB_write parse size_of crash v cursor h =
      map_option (\<lambda>r. case r of Written cursor batch db \<Rightarrow> Written cursor [] (WriteBatch db (batch @ ?last)) | _ \<Rightarrow> r)
        (db_loop parse size_of crash (m_options v) (first_link xs) cursor ?batch (m_db v) 0)"
    using h(2) heads cursor_start(1) [OF l] by (simp add: DB_write_def Let_def)
  from db_loop_spec [OF cursor_start(2) [OF l] D fl(2), of size_of crash "m_options v" ?batch "m_db v" 0]
  show ?thesis
  proof (elim disjE exE conjE, goal_cases)
    case (1 cursor' batch' db')
    define db2 where "db2 = WriteBatch db' (batch' @ ?last)"
    have r: "DB_write parse size_of crash v cursor h = Some (Written cursor' [] db2)" using w 1(1) by (simp add: db2_def)
    have d2: "db2 = (WriteBatch ?db0 (concat (map (entry_ops parse ?D) xs)))([DB_HEAD_BLOCKS] := None, [DB_BEST_BLOCK] := Some h)"
      using 1(4) by (simp add: db2_def WriteBatch_append ser_blob_def)
    then have e: "db2 (CoinEntry p) = WriteBatch ?db0 (concat (map (entry_ops parse ?D) xs)) (CoinEntry p)" for p
      using CoinEntry_not_marker [of p] by simp
    note wr = entries_written [OF D fl db(1) c0 e]
    have "db_utxo parse uncompressed db2 = overlay ?U ?D"
      unfolding wr(2) using coherent_flagged [OF l D] by (auto simp: fun_eq_iff)
    moreover have "db2 [DB_HEAD_BLOCKS] = None" "db2 [DB_BEST_BLOCK] = Some h"
      unfolding d2 by (simp_all add: DB_HEAD_BLOCKS_def DB_BEST_BLOCK_def)
    ultimately show ?case using r wr(1) cursor_finished [OF 1(2,3)] by blast
  next
    case (2 ys zs)
    define db2 where "db2 = WriteBatch ?db0 (concat (map (entry_ops parse ?D) ys))"
    have r: "DB_write parse size_of crash v cursor h = Some (Crashed db2)" using w 2(3) by (simp add: db2_def)
    have ys: "distinct ys" "\<forall>q \<in> set ys. \<exists>f c. ?D q = Some (f, c) \<and> f \<noteq> 0" "\<forall>q \<in> set ys. outpoint_ok q" "set ys \<subseteq> set xs"
      using 2(2) fl ok by auto
    have mk: "db2 key = ?db0 key" if "\<And>q. key \<noteq> CoinEntry q" for key
      using WriteBatch_entries(2) [OF ys(3,1) that] by (simp add: db2_def)
    have "db2 [DB_BEST_BLOCK] = None" "db2 [DB_HEAD_BLOCKS] = Some ?heads"
      using mk [OF not_sym, OF CoinEntry_not_marker(1)] mk [OF not_sym, OF CoinEntry_not_marker(2)]
      by (simp_all add: DB_HEAD_BLOCKS_def DB_BEST_BLOCK_def)
    moreover have "db2 (CoinEntry p) = WriteBatch ?db0 (concat (map (entry_ops parse ?D) ys)) (CoinEntry p)" for p
      by (simp add: db2_def)
    from entries_written [OF D ys(1,2) db(1) c0 this]
    have "db_coins_ok parse uncompressed db2"
      "db_utxo parse uncompressed db2 = (\<lambda>p. if p \<in> set ys then overlay ?U ?D p else ?U p)" .
    ultimately show ?case using 2(1) r ys(4) by blast
  qed
qed

interpretation coins_db: coins_view "stores_coin parse uncompressed" "db_view parse uncompressed size_of crash"
  "db_ok parse uncompressed" "\<lambda>v. db_utxo parse uncompressed (m_db v)" DB_GetBestBlock
  for parse uncompressed size_of crash
proof (unfold_locales, goal_cases)
  case (1 c)
  then show ?case by (simp add: stores_coin_def storable_unspent)
next
  case (2 v p c)
  then show ?case using db_Read_coin(3) [of parse uncompressed "m_db v" p c]
    by (cases "outpoint_ok p") (simp_all add: db_ok_def db_utxo_def)
next
  case (3 v p)
  then show ?case using db_Read_coin(1) [of parse uncompressed "m_db v" p]
    by (simp add: db_view_def DB_GetCoin_def db_ok_def)
next
  case (4 v p)
  then show ?case using db_Read_coin(2) [of parse uncompressed "m_db v" p]
    by (simp add: db_view_def DB_HaveCoin_def db_ok_def)
next
  case (5 v)
  then show ?case by (simp add: db_view_def)
next
  case (6 v cursor xs h)
  then have db: "db_coins_ok parse uncompressed (m_db v)" "m_db v [DB_HEAD_BLOCKS] = None" "simulate_crash_ratio (m_options v) = 0"
    by (simp_all add: db_ok_def)
  from DB_write_spec [OF db(1,2) 6(2,3,4,5), of size_of crash] db(3) obtain cursor' db' where
    w: "DB_write parse size_of crash v cursor h = Some (Written cursor' [] db')" "cursor_done cursor cursor'"
      "db_coins_ok parse uncompressed db'" "db' [DB_HEAD_BLOCKS] = None" "db' [DB_BEST_BLOCK] = Some h"
      "db_utxo parse uncompressed db' = overlay (db_utxo parse uncompressed (m_db v)) (entries (m_map cursor))"
    by (auto elim!: disjE exE conjE)
  have "DB_BatchWrite parse size_of crash v cursor h = Some (Inr (True, cursor', v\<lparr>m_db := db'\<rparr>))"
    using w(1) by (simp add: DB_BatchWrite_def)
  moreover have "db_ok parse uncompressed (v\<lparr>m_db := db'\<rparr>)" using w(3,4,5) db(3) 6(4) by (simp add: db_ok_def)
  moreover have "DB_GetBestBlock (v\<lparr>m_db := db'\<rparr>) = h" using w(5) 6(4) by (simp add: DB_GetBestBlock_written)
  ultimately show ?case using w(2,6) by (simp add: db_view_def)
qed

text \<open>
  The cache over the database, and a cache over that cache, as the node stacks them while it
  connects a block.
\<close>

interpretation coins_tip: coins_view "stores_coin parse uncompressed" "cache_view (db_view parse uncompressed size_of crash)"
  "cache_ok (stores_coin parse uncompressed) (db_ok parse uncompressed) (\<lambda>v. db_utxo parse uncompressed (m_db v))"
  "cache_utxo (\<lambda>v. db_utxo parse uncompressed (m_db v))" "cache_tip DB_GetBestBlock"
  for parse uncompressed size_of crash
  by (rule coins_db.cache_is_view)

section \<open>Sequences of operations\<close>

datatype coins_op =
    OpGet COutPoint | OpHave COutPoint | OpAccess COutPoint | OpAdd COutPoint Coin bool | OpSpend COutPoint
  | OpUncache COutPoint | OpBest uint256 | OpFlush | OpSync

definition keep_cache :: "coins_error + ('a \<times> 'c) \<Rightarrow> (coins_error + 'c) option" where
  "keep_cache r = Some (map_sum id snd r)"

fun run_op :: "'v CCoinsView \<Rightarrow> coins_op \<Rightarrow> 'v CCoinsViewCache \<Rightarrow> (coins_error + 'v CCoinsViewCache) option" where
  "run_op V (OpGet p) c = keep_cache (Cache_GetCoin V c p)"
| "run_op V (OpHave p) c = keep_cache (Cache_HaveCoin V c p)"
| "run_op V (OpAccess p) c = keep_cache (AccessCoin V p c)"
| "run_op V (OpAdd p cn overwrite) c = Some (AddCoin p cn overwrite c)"
| "run_op V (OpSpend p) c = keep_cache (map_sum id snd (SpendCoin V p c))"
| "run_op V (OpUncache p) c = Some (Uncache p c)"
| "run_op V (OpBest h) c = Some (Inr (SetBestBlock h c))"
| "run_op V OpFlush c = map_option (map_sum id snd) (Flush V c)"
| "run_op V OpSync c = map_option (map_sum id snd) (Sync V c)"

fun run_ops :: "'v CCoinsView \<Rightarrow> coins_op list \<Rightarrow> 'v CCoinsViewCache \<Rightarrow> (coins_error + 'v CCoinsViewCache) option" where
  "run_ops V [] c = Some (Inr c)"
| "run_ops V (x # xs) c =
     (case run_op V x c of None \<Rightarrow> None | Some (Inl e) \<Rightarrow> Some (Inl e) | Some (Inr c) \<Rightarrow> run_ops V xs c)"

text \<open>The specification: a set of unspent coins and the block that has been set.\<close>

fun spec_op :: "coins_op \<Rightarrow> (COutPoint \<rightharpoonup> Coin) \<times> uint256 \<Rightarrow> (COutPoint \<rightharpoonup> Coin) \<times> uint256" where
  "spec_op (OpAdd p cn overwrite) (U, h) = (if IsUnspendable (scriptPubKey (out cn)) then U else U(p \<mapsto> cn), h)"
| "spec_op (OpSpend p) (U, h) = (U(p := None), h)"
| "spec_op (OpBest b) (U, h) = (U, b)"
| "spec_op _ (U, h) = (U, h)"

text \<open>
  What the callers guarantee: a coin that is added without permission to overwrite is new, and a
  block is set before the first flush.
\<close>

fun op_allowed :: "(Coin \<Rightarrow> bool) \<Rightarrow> coins_op \<Rightarrow> (COutPoint \<rightharpoonup> Coin) \<times> uint256 \<Rightarrow> bool" where
  "op_allowed stores (OpGet p) (U, h) \<longleftrightarrow> outpoint_ok p"
| "op_allowed stores (OpHave p) (U, h) \<longleftrightarrow> outpoint_ok p"
| "op_allowed stores (OpAccess p) (U, h) \<longleftrightarrow> outpoint_ok p"
| "op_allowed stores (OpAdd p cn overwrite) (U, h) \<longleftrightarrow> outpoint_ok p \<and> stores cn \<and> (overwrite \<or> U p = None)"
| "op_allowed stores (OpSpend p) (U, h) \<longleftrightarrow> outpoint_ok p"
| "op_allowed stores (OpUncache p) (U, h) \<longleftrightarrow> True"
| "op_allowed stores (OpBest b) (U, h) \<longleftrightarrow> True"
| "op_allowed stores OpFlush (U, h) \<longleftrightarrow> length h = 32 \<and> \<not> IsNull h"
| "op_allowed stores OpSync (U, h) \<longleftrightarrow> length h = 32 \<and> \<not> IsNull h"

fun ops_allowed :: "(Coin \<Rightarrow> bool) \<Rightarrow> coins_op list \<Rightarrow> (COutPoint \<rightharpoonup> Coin) \<times> uint256 \<Rightarrow> bool" where
  "ops_allowed stores [] s \<longleftrightarrow> True"
| "ops_allowed stores (x # xs) s \<longleftrightarrow> op_allowed stores x s \<and> ops_allowed stores xs (spec_op x s)"

lemma written_hashBlock:
  "Flush V c = Some (Inr (r, c')) \<Longrightarrow> hashBlock c' = hashBlock c"
  "Sync V c = Some (Inr (r, c')) \<Longrightarrow> hashBlock c' = hashBlock c"
  by (auto simp: Flush_def Sync_def elim!: map_sum_InrE ebind_InrE split: if_splits)

context coins_view
begin

lemma Fetch_hashBlock:
  assumes "cache_ok stores ok utxo c" "outpoint_ok p"
  shows "ebind (FetchCoin V p c) (\<lambda>(it, c'). Inr (f it, c')) = Inr (r, c') \<Longrightarrow> hashBlock c' = hashBlock c"
  by (rule FetchCoin_cases [OF assms]) auto

lemma run_op_refines:
  assumes "cache_ok stores ok utxo c" "op_allowed stores x (cache_utxo utxo c, hashBlock c)"
  shows "\<exists>c'. run_op V x c = Some (Inr c') \<and> cache_ok stores ok utxo c' \<and>
    (cache_utxo utxo c', hashBlock c') = spec_op x (cache_utxo utxo c, hashBlock c)"
proof (cases x)
  case (OpGet p)
  then show ?thesis using Cache_GetCoin_spec [OF assms(1), of p] Fetch_hashBlock [OF assms(1), of p] assms(2)
    by (fastforce simp: keep_cache_def Cache_GetCoin_def)
next
  case (OpHave p)
  then show ?thesis using Cache_HaveCoin_spec [OF assms(1), of p] Fetch_hashBlock [OF assms(1), of p] assms(2)
    by (fastforce simp: keep_cache_def Cache_HaveCoin_def)
next
  case (OpAccess p)
  then show ?thesis using AccessCoin_spec [OF assms(1), of p] Fetch_hashBlock [OF assms(1), of p] assms(2)
    by (fastforce simp: keep_cache_def AccessCoin_def)
next
  case (OpAdd p cn overwrite)
  then show ?thesis using AddCoin_spec [OF assms(1), of p cn overwrite] assms(2) by auto
next
  case (OpSpend p)
  then show ?thesis using SpendCoin_spec [OF assms(1), of p] assms(2) by (auto simp: keep_cache_def)
next
  case (OpUncache p)
  then show ?thesis using Uncache_spec [OF assms(1), of p] by (auto simp: Uncache_def pointer_def ebind_def split: option.splits if_splits sum.splits)
next
  case (OpBest h)
  then show ?thesis using assms(1) by (simp add: SetBestBlock_def cache_ok_def cache_utxo_def)
next
  case OpFlush
  then show ?thesis using Flush_spec [OF assms(1)] assms(2) by (auto dest: written_hashBlock)
next
  case OpSync
  then show ?thesis using Sync_spec [OF assms(1)] assms(2) by (auto dest: written_hashBlock)
qed

end

context coins_view
begin

lemma run_ops_refines:
  assumes "cache_ok stores ok utxo c" "ops_allowed stores xs (cache_utxo utxo c, hashBlock c)"
  shows "\<exists>c'. run_ops V xs c = Some (Inr c') \<and> cache_ok stores ok utxo c' \<and>
    (cache_utxo utxo c', hashBlock c') = fold spec_op xs (cache_utxo utxo c, hashBlock c)"
  using assms
proof (induction xs arbitrary: c)
  case (Cons x xs)
  obtain c' where c': "run_op V x c = Some (Inr c')" "cache_ok stores ok utxo c'"
    "(cache_utxo utxo c', hashBlock c') = spec_op x (cache_utxo utxo c, hashBlock c)"
    using run_op_refines [OF Cons.prems(1), of x] Cons.prems(2) by (auto elim!: exE conjE)
  have "ops_allowed stores xs (cache_utxo utxo c', hashBlock c')" using Cons.prems(2) c'(3) by simp
  from Cons.IH [OF c'(2) this] c'(1,3) show ?case by simp
qed simp

end

lemma SanityCheck_ok:
  assumes c: "cache_ok stores ok utxo c" and keys: "distinct keys" "set keys = dom (cacheCoins (coins c))"
  shows "SanityCheck keys c"
proof -
  obtain xs where l: "flagged_list (coins c) xs" and co: "coherent stores (utxo (base c)) (entries (coins c))"
    using c by (rule cache_okE)
  let ?es = "map (\<lambda>k. the (cacheCoins (coins c) k)) keys"
  have entry: "entries (coins c) k = Some (m_flags (the (cacheCoins (coins c) k)), coin (the (cacheCoins (coins c) k)))"
    if "k \<in> set keys" for k
    using that keys(2) by (auto simp: entries_def)
  have "\<forall>e \<in> set ?es. m_flags e \<in> {0, 1, 3} \<and> (m_flags e = 0 \<longrightarrow> \<not> IsSpent (coin e)) \<and> (m_flags e = 3 \<longrightarrow> \<not> IsSpent (coin e))"
    using coherentD [OF co entry] by auto
  from sanity_entries_ok [OF this, of 0]
  have es: "sanity_entries ?es 0 = Some (length (filter (\<lambda>k. m_flags (the (cacheCoins (coins c) k)) \<noteq> 0) keys))"
    by (simp add: filter_map comp_def)
  have "set (filter (\<lambda>k. m_flags (the (cacheCoins (coins c) k)) \<noteq> 0) keys) = set xs"
    using l keys(2) entry by (fastforce simp: flagged_list_def entries_def)
  moreover have "distinct (filter (\<lambda>k. m_flags (the (cacheCoins (coins c) k)) \<noteq> 0) keys)" "distinct xs"
    using keys(1) l by (simp_all add: flagged_list_def)
  ultimately have n: "length (filter (\<lambda>k. m_flags (the (cacheCoins (coins c) k)) \<noteq> 0) keys) = length xs"
    by (metis distinct_card)
  have "\<forall>q \<in> set xs. \<exists>f cn. entries (coins c) q = Some (f, cn) \<and> f \<in> {1, 3}"
    using flagged_listD(2) [OF l] coherentD(2) [OF co] by fastforce
  from sanity_links_ok [of "coins c" "[]" xs, OF _ this, of 0] l
  have ls: "sanity_links (coins c) (first_link xs) 0 = Some (length xs)" by simp
  have "m_next (m_sentinel (coins c)) = Some (first_link xs)"
    using l by (cases xs) (auto simp: flagged_list_def nxt_def first_link_def)
  then show ?thesis using es ls n by (simp add: SanityCheck_def)
qed

lemma Flush_base_hashBlock:
  assumes "Flush (cache_view V) d = Some (Inr (True, d'))"
  shows "hashBlock (base d') = hashBlock d"
  using assms by (cases d) (auto simp: Flush_def cache_view_def Cache_BatchWrite_def split: option.splits elim!: map_sum_InrE)


section \<open>Properties of the coin stack\<close>

text \<open>
  C1. The cache over the coin database implements a set of unspent coins. From every well-formed
  state, every sequence of reads, additions, spends, evictions, flushes and syncs that its callers
  may issue (a coin is added over an existing one only with permission, and a block is set before a
  flush) runs without a failed assertion, an exception or a bad pointer, ends in a well-formed state
  whose coins and best block are those the specification computes on the plain set, answers reads
  with exactly that set, and passes \<^verbatim>\<open>SanityCheck\<close>, in whatever order the map is iterated.
\<close>

theorem coin_cache_refines_utxo_set:
  assumes "cache_ok (stores_coin parse uncompressed) (db_ok parse uncompressed) (\<lambda>v. db_utxo parse uncompressed (m_db v)) c"
    and "ops_allowed (stores_coin parse uncompressed) xs (cache_utxo (\<lambda>v. db_utxo parse uncompressed (m_db v)) c, hashBlock c)"
  shows "\<exists>c'. run_ops (db_view parse uncompressed size_of crash) xs c = Some (Inr c') \<and>
    cache_ok (stores_coin parse uncompressed) (db_ok parse uncompressed) (\<lambda>v. db_utxo parse uncompressed (m_db v)) c' \<and>
    (cache_utxo (\<lambda>v. db_utxo parse uncompressed (m_db v)) c', hashBlock c') =
      fold spec_op xs (cache_utxo (\<lambda>v. db_utxo parse uncompressed (m_db v)) c, hashBlock c) \<and>
    (\<forall>p. outpoint_ok p \<longrightarrow> (\<exists>c''. Cache_GetCoin (db_view parse uncompressed size_of crash) c' p =
      Inr (fst (fold spec_op xs (cache_utxo (\<lambda>v. db_utxo parse uncompressed (m_db v)) c, hashBlock c)) p, c''))) \<and>
    (\<forall>keys. distinct keys \<longrightarrow> set keys = dom (cacheCoins (coins c')) \<longrightarrow> SanityCheck keys c')"
proof -
  let ?U = "\<lambda>v. db_utxo parse uncompressed (m_db v)" and ?V = "db_view parse uncompressed size_of crash"
  obtain c' where c': "run_ops ?V xs c = Some (Inr c')"
    "cache_ok (stores_coin parse uncompressed) (db_ok parse uncompressed) ?U c'"
    "(cache_utxo ?U c', hashBlock c') = fold spec_op xs (cache_utxo ?U c, hashBlock c)"
    using coins_db.run_ops_refines [OF assms, of size_of crash] by (elim exE conjE)
  have "\<exists>c''. Cache_GetCoin ?V c' p = Inr (fst (fold spec_op xs (cache_utxo ?U c, hashBlock c)) p, c'')" if "outpoint_ok p" for p
    using coins_db.Cache_GetCoin_spec [OF c'(2) that, of size_of crash] c'(3) [symmetric] by auto
  then show ?thesis using c' SanityCheck_ok [OF c'(2)] by (intro exI [where x = c']) simp
qed

text \<open>
  What a cache holds reaches the disk. A cache over the cache over the database, as the node
  keeps one while it connects a block, is flushed into the cache below it and that one into the
  database: both writes succeed, and the database then holds exactly the coins the upper cache stood
  for, and its block as the best block.
\<close>

theorem flush_reaches_database:
  assumes "cache_ok (stores_coin parse uncompressed)
      (cache_ok (stores_coin parse uncompressed) (db_ok parse uncompressed) (\<lambda>v. db_utxo parse uncompressed (m_db v)))
      (cache_utxo (\<lambda>v. db_utxo parse uncompressed (m_db v))) d"
    and "length (hashBlock d) = 32" "\<not> IsNull (hashBlock d)"
  shows "\<exists>d' c'. Flush (cache_view (db_view parse uncompressed size_of crash)) d = Some (Inr (True, d')) \<and>
    Flush (db_view parse uncompressed size_of crash) (base d') = Some (Inr (True, c')) \<and>
    db_ok parse uncompressed (base c') \<and>
    db_utxo parse uncompressed (m_db (base c')) = cache_utxo (cache_utxo (\<lambda>v. db_utxo parse uncompressed (m_db v))) d \<and>
    DB_GetBestBlock (base c') = hashBlock d"
proof -
  let ?U = "\<lambda>v. db_utxo parse uncompressed (m_db v)" and ?V = "db_view parse uncompressed size_of crash"
  obtain d' where d': "Flush (cache_view ?V) d = Some (Inr (True, d'))"
    "cache_ok (stores_coin parse uncompressed)
      (cache_ok (stores_coin parse uncompressed) (db_ok parse uncompressed) ?U) (cache_utxo ?U) d'"
    "cache_utxo ?U (base d') = cache_utxo (cache_utxo ?U) d"
    using coins_tip.Flush_spec [OF assms, of size_of crash] by (auto elim!: exE conjE)
  have h: "hashBlock (base d') = hashBlock d" using d'(1) by (rule Flush_base_hashBlock)
  have b: "cache_ok (stores_coin parse uncompressed) (db_ok parse uncompressed) ?U (base d')"
    using d'(2) by (simp add: cache_ok_def)
  obtain c' where "Flush ?V (base d') = Some (Inr (True, c'))"
    "cache_ok (stores_coin parse uncompressed) (db_ok parse uncompressed) ?U c'"
    "?U (base c') = cache_utxo ?U (base d')" "DB_GetBestBlock (base c') = hashBlock (base d')"
    using coins_db.Flush_spec [OF b, of size_of crash] assms(2,3) h by (auto elim!: exE conjE)
  then show ?thesis using d' h by (simp add: cache_ok_def)
qed

text \<open>
  C9. A crash in the middle of a write to the coin database is recognisable. A write to a consistent
  database either finishes with all changes, the new best block and no marker, or stops after some of
  its partial batches; then there is no best block, the stored heads are the new and the old block,
  every coin is still as it was or already as it will be, and a later write is refused with a failed
  assertion unless it leads to the same block.
\<close>

theorem coin_database_crash_safe:
  assumes "db_coins_ok parse uncompressed (m_db v)" "m_db v [DB_HEAD_BLOCKS] = None"
    and "flagged_list (m_map cursor) xs"
    and "coherent (stores_coin parse uncompressed) (db_utxo parse uncompressed (m_db v)) (entries (m_map cursor))"
    and "length h = 32" "\<not> IsNull h" "length (DB_GetBestBlock v) = 32"
  shows "(\<exists>cursor' db'. DB_write parse size_of crash v cursor h = Some (Written cursor' [] db') \<and>
      db_utxo parse uncompressed db' = overlay (db_utxo parse uncompressed (m_db v)) (entries (m_map cursor)) \<and>
      DB_GetBestBlock (v\<lparr>m_db := db'\<rparr>) = h \<and> DB_GetHeadBlocks (v\<lparr>m_db := db'\<rparr>) = []) \<or>
    (\<exists>db'. DB_write parse size_of crash v cursor h = Some (Crashed db') \<and>
      DB_GetBestBlock (v\<lparr>m_db := db'\<rparr>) = uint256_zero \<and> DB_GetHeadBlocks (v\<lparr>m_db := db'\<rparr>) = [h, DB_GetBestBlock v] \<and>
      (\<forall>p. db_utxo parse uncompressed db' p \<in>
         {db_utxo parse uncompressed (m_db v) p, overlay (db_utxo parse uncompressed (m_db v)) (entries (m_map cursor)) p}) \<and>
      (\<forall>h' later. h' \<noteq> h \<longrightarrow> DB_write parse size_of crash (v\<lparr>m_db := db'\<rparr>) later h' = Some (Stopped CoinsAssertion)))"
  using DB_write_spec [OF assms(1-6), of size_of crash]
proof (elim disjE exE conjE)
  fix cursor' db'
  assume "DB_write parse size_of crash v cursor h = Some (Written cursor' [] db')" "db' [DB_HEAD_BLOCKS] = None"
    "db' [DB_BEST_BLOCK] = Some h"
    "db_utxo parse uncompressed db' = overlay (db_utxo parse uncompressed (m_db v)) (entries (m_map cursor))"
  then show ?thesis using assms(5)
    by (intro disjI1 exI [of _ cursor'] exI [of _ db']) (simp add: DB_GetBestBlock_written DB_GetHeadBlocks_def db_Read_def)
next
  fix db' ys
  assume w: "DB_write parse size_of crash v cursor h = Some (Crashed db')" "db' [DB_BEST_BLOCK] = None"
    "db' [DB_HEAD_BLOCKS] = Some (VectorFormatter_Ser ser_blob [h, DB_GetBestBlock v])"
    "db_utxo parse uncompressed db' = (\<lambda>p. if p \<in> set ys then overlay (db_utxo parse uncompressed (m_db v)) (entries (m_map cursor)) p
       else db_utxo parse uncompressed (m_db v) p)"
  have best: "DB_GetBestBlock (v\<lparr>m_db := db'\<rparr>) = uint256_zero" using w(2) by (simp add: DB_GetBestBlock_def db_Read_def)
  have heads: "DB_GetHeadBlocks (v\<lparr>m_db := db'\<rparr>) = [h, DB_GetBestBlock v]"
    using DB_heads_written [of "v\<lparr>m_db := db'\<rparr>"] w(3) assms(5,7) by simp
  have "DB_write parse size_of crash (v\<lparr>m_db := db'\<rparr>) later h' = Some (Stopped CoinsAssertion)" if "h' \<noteq> h" for h' later
    using that by (simp add: DB_write_def best heads IsNull_def uint256_zero_def list_all_iff)
  then show ?thesis using w(1,4) best heads by (intro disjI2 exI [of _ db']) simp
qed

definition sample_db :: CCoinsViewDB where
  "sample_db = \<lparr>m_options = \<lparr>batch_write_bytes = 0, simulate_crash_ratio = 0\<rparr>, m_db = Map.empty\<rparr>"

definition sample_outpoint :: COutPoint where
  "sample_outpoint = \<lparr>op_hash = replicate 32 7, op_n = 1\<rparr>"

definition sample_ops :: "coins_op list" where
  "sample_ops = [OpAdd sample_outpoint sample_coin False, OpGet sample_outpoint, OpBest (replicate 32 9)]"

lemma sample_storable: "storable sample_coin"
  by (simp add: storable_def sample_coin_def Coin_of_def MoneyRange_def MAX_MONEY_def COIN_def MAX_SCRIPT_SIZE_def)

lemma sample_stores: "stores_coin sample_parse sample_uncompressed sample_coin"
  using sample_storable secp_script_survives [OF sample_secp] by (simp add: stores_coin_def)

lemma sample_db_ok: "db_ok sample_parse sample_uncompressed sample_db"
  by (simp add: db_ok_def db_coins_ok_def sample_db_def)

lemma sample_db_utxo: "db_utxo sample_parse sample_uncompressed (m_db sample_db) = Map.empty"
  by (simp add: db_utxo_def db_Read_def sample_db_def fun_eq_iff)

lemma sample_outpoint_ok: "outpoint_ok sample_outpoint"
  by (simp add: sample_outpoint_def outpoint_ok_def)

lemma AddCoin_base: "AddCoin p cn overwrite c = Inr c' \<Longrightarrow> base c' = base c"
  by (auto simp: AddCoin_def Let_def elim!: ebind_InrE split: if_splits option.splits)

lemma sample_allowed: "ops_allowed (stores_coin sample_parse sample_uncompressed) (sample_ops @ [OpSync, OpSpend sample_outpoint, OpFlush]) (Map.empty, z)"
  and sample_begin: "ops_allowed (stores_coin sample_parse sample_uncompressed) sample_ops (Map.empty, z)"
  by (simp_all add: sample_ops_def sample_stores sample_outpoint_def outpoint_ok_def IsNull_def list_all_iff)

lemma sample_not_unspendable: "\<not> IsUnspendable (scriptPubKey (out sample_coin))"
  by (simp add: sample_coin_def Coin_of_def IsUnspendable_def MAX_SCRIPT_SIZE_def OP_RETURN_def)

lemma sample_spec: "fold spec_op sample_ops (Map.empty, z) = ([sample_outpoint \<mapsto> sample_coin], replicate 32 9)"
  by (simp add: sample_ops_def sample_not_unspendable)

lemma sample_cache_ok:
  "cache_ok (stores_coin sample_parse sample_uncompressed) (db_ok sample_parse sample_uncompressed)
     (\<lambda>v. db_utxo sample_parse sample_uncompressed (m_db v)) (CCoinsViewCache_of sample_db)"
  by (intro cache_of_base(1) sample_db_ok)

theorem coin_cache_refines_utxo_set_witness:
  "\<exists>c'. run_ops (db_view sample_parse sample_uncompressed length (\<lambda>k. False)) (sample_ops @ [OpSync, OpSpend sample_outpoint, OpFlush])
      (CCoinsViewCache_of sample_db) = Some (Inr c') \<and>
    cache_utxo (\<lambda>v. db_utxo sample_parse sample_uncompressed (m_db v)) c' = Map.empty \<and> hashBlock c' = replicate 32 9"
proof -
  have "ops_allowed (stores_coin sample_parse sample_uncompressed) (sample_ops @ [OpSync, OpSpend sample_outpoint, OpFlush])
      (cache_utxo (\<lambda>v. db_utxo sample_parse sample_uncompressed (m_db v)) (CCoinsViewCache_of sample_db), hashBlock (CCoinsViewCache_of sample_db))"
    using sample_allowed by (simp add: cache_of_base(2) sample_db_utxo)
  from coin_cache_refines_utxo_set [OF sample_cache_ok this, of length "\<lambda>k. False"]
  show ?thesis by (elim exE conjE) (auto simp: cache_of_base(2) sample_db_utxo sample_spec simp del: split_paired_Ex intro!: exI)
qed

theorem flush_reaches_database_witness:
  "\<exists>d d' c'. cache_utxo (cache_utxo (\<lambda>v. db_utxo sample_parse sample_uncompressed (m_db v))) d = [sample_outpoint \<mapsto> sample_coin] \<and>
    Flush (cache_view (db_view sample_parse sample_uncompressed length (\<lambda>k. False))) d = Some (Inr (True, d')) \<and>
    Flush (db_view sample_parse sample_uncompressed length (\<lambda>k. False)) (base d') = Some (Inr (True, c')) \<and>
    db_utxo sample_parse sample_uncompressed (m_db (base c')) = [sample_outpoint \<mapsto> sample_coin] \<and>
    DB_GetBestBlock (base c') = replicate 32 9"
proof -
  let ?U = "\<lambda>v. db_utxo sample_parse sample_uncompressed (m_db v)"
  let ?d0 = "CCoinsViewCache_of (CCoinsViewCache_of sample_db)"
  have ok: "cache_ok (stores_coin sample_parse sample_uncompressed)
      (cache_ok (stores_coin sample_parse sample_uncompressed) (db_ok sample_parse sample_uncompressed) ?U) (cache_utxo ?U) ?d0"
    by (intro cache_of_base(1) sample_db_ok)
  have u: "cache_utxo (cache_utxo ?U) ?d0 = Map.empty" by (simp add: cache_of_base(2) sample_db_utxo)
  obtain d where d: "cache_ok (stores_coin sample_parse sample_uncompressed)
      (cache_ok (stores_coin sample_parse sample_uncompressed) (db_ok sample_parse sample_uncompressed) ?U) (cache_utxo ?U) d"
    "cache_utxo (cache_utxo ?U) d = [sample_outpoint \<mapsto> sample_coin]" "hashBlock d = replicate 32 9"
    using coins_tip.run_ops_refines [OF ok, of sample_ops length "\<lambda>k. False"] sample_begin sample_spec unfolding u
    by (auto elim!: exE conjE)
  have "length (hashBlock d) = 32" "\<not> IsNull (hashBlock d)" using d(3) by (simp_all add: IsNull_def list_all_iff)
  from flush_reaches_database [OF d(1) this, of length "\<lambda>k. False"] d(2,3) show ?thesis
    by (elim exE conjE) (intro exI conjI, assumption+, simp_all)
qed

theorem coin_database_crash_safe_witness:
  "\<exists>cursor. entries (m_map cursor) sample_outpoint \<noteq> None \<and>
    (let v = sample_db\<lparr>m_options := \<lparr>batch_write_bytes = 0, simulate_crash_ratio = 1\<rparr>\<rparr> in
      (\<exists>cursor' db'. DB_write sample_parse length (\<lambda>k. True) v cursor (replicate 32 9) = Some (Written cursor' [] db')) \<or>
      (\<exists>db'. DB_write sample_parse length (\<lambda>k. True) v cursor (replicate 32 9) = Some (Crashed db') \<and>
        DB_GetHeadBlocks (v\<lparr>m_db := db'\<rparr>) = [replicate 32 9, uint256_zero]))"
proof -
  let ?U = "\<lambda>v. db_utxo sample_parse sample_uncompressed (m_db v)"
  let ?v = "sample_db\<lparr>m_options := \<lparr>batch_write_bytes = 0, simulate_crash_ratio = 1\<rparr>\<rparr>"
  obtain c where add: "AddCoin sample_outpoint sample_coin False (CCoinsViewCache_of sample_db) = Inr c"
    and c: "cache_ok (stores_coin sample_parse sample_uncompressed) (db_ok sample_parse sample_uncompressed) ?U c"
      "cache_utxo ?U c sample_outpoint = Some sample_coin"
    using coins_db.AddCoin_spec [OF sample_cache_ok, of sample_outpoint sample_coin False]
    by (auto simp: sample_stores sample_outpoint_ok cache_of_base(2) sample_db_utxo sample_not_unspendable)
  have b: "base c = sample_db" using add by (auto simp: AddCoin_base CCoinsViewCache_of_def)
  obtain xs where l: "flagged_list (coins c) xs"
    and co: "coherent (stores_coin sample_parse sample_uncompressed) (?U (base c)) (entries (coins c))"
    using c(1) by (rule cache_okE)
  have tip: "DB_GetBestBlock ?v = uint256_zero" by (simp add: DB_GetBestBlock_def db_Read_def sample_db_def)
  have e: "entries (coins c) sample_outpoint \<noteq> None"
    using c(2) sample_db_utxo b by (auto simp: cache_utxo_def overlay_def split: option.splits)
  show ?thesis
    using coin_database_crash_safe [of sample_parse sample_uncompressed ?v "\<lparr>m_map = coins c, m_will_erase = True\<rparr>" xs "replicate 32 9"
        length "\<lambda>k. True"] l co b sample_db_ok e tip
    by (intro exI [of _ "\<lparr>m_map = coins c, m_will_erase = True\<rparr>"])
      (auto simp: db_ok_def IsNull_def list_all_iff uint256_zero_def)
qed

end
