(* ===== verification/ScriptErr.thy ===== *)
theory ScriptErr
  imports Compressor
begin

text \<open>
  The results of script evaluation (\<^verbatim>\<open>script/script_error.h\<close>) and the verification flags of
  \<^verbatim>\<open>script/interpreter.h\<close>.
\<close>

datatype (plugins only: code) ScriptError =
    SCRIPT_ERR_OK | SCRIPT_ERR_UNKNOWN_ERROR | SCRIPT_ERR_EVAL_FALSE | SCRIPT_ERR_OP_RETURN
    | SCRIPT_ERR_SCRIPT_SIZE | SCRIPT_ERR_PUSH_SIZE | SCRIPT_ERR_OP_COUNT | SCRIPT_ERR_STACK_SIZE
    | SCRIPT_ERR_SIG_COUNT | SCRIPT_ERR_PUBKEY_COUNT | SCRIPT_ERR_VERIFY | SCRIPT_ERR_EQUALVERIFY
    | SCRIPT_ERR_CHECKMULTISIGVERIFY | SCRIPT_ERR_CHECKSIGVERIFY | SCRIPT_ERR_NUMEQUALVERIFY
    | SCRIPT_ERR_BAD_OPCODE | SCRIPT_ERR_DISABLED_OPCODE | SCRIPT_ERR_INVALID_STACK_OPERATION
    | SCRIPT_ERR_INVALID_ALTSTACK_OPERATION | SCRIPT_ERR_UNBALANCED_CONDITIONAL | SCRIPT_ERR_NEGATIVE_LOCKTIME
    | SCRIPT_ERR_UNSATISFIED_LOCKTIME | SCRIPT_ERR_SIG_HASHTYPE | SCRIPT_ERR_SIG_DER | SCRIPT_ERR_MINIMALDATA
    | SCRIPT_ERR_SIG_PUSHONLY | SCRIPT_ERR_SIG_HIGH_S | SCRIPT_ERR_SIG_NULLDUMMY | SCRIPT_ERR_PUBKEYTYPE
    | SCRIPT_ERR_CLEANSTACK | SCRIPT_ERR_MINIMALIF | SCRIPT_ERR_SIG_NULLFAIL
    | SCRIPT_ERR_DISCOURAGE_UPGRADABLE_NOPS | SCRIPT_ERR_DISCOURAGE_UPGRADABLE_WITNESS_PROGRAM
    | SCRIPT_ERR_DISCOURAGE_UPGRADABLE_TAPROOT_VERSION | SCRIPT_ERR_DISCOURAGE_OP_SUCCESS
    | SCRIPT_ERR_DISCOURAGE_UPGRADABLE_PUBKEYTYPE | SCRIPT_ERR_WITNESS_PROGRAM_WRONG_LENGTH
    | SCRIPT_ERR_WITNESS_PROGRAM_WITNESS_EMPTY | SCRIPT_ERR_WITNESS_PROGRAM_MISMATCH
    | SCRIPT_ERR_WITNESS_MALLEATED | SCRIPT_ERR_WITNESS_MALLEATED_P2SH | SCRIPT_ERR_WITNESS_UNEXPECTED
    | SCRIPT_ERR_WITNESS_PUBKEYTYPE | SCRIPT_ERR_SCHNORR_SIG_SIZE | SCRIPT_ERR_SCHNORR_SIG_HASHTYPE
    | SCRIPT_ERR_SCHNORR_SIG | SCRIPT_ERR_TAPROOT_WRONG_CONTROL_SIZE | SCRIPT_ERR_TAPSCRIPT_VALIDATION_WEIGHT
    | SCRIPT_ERR_TAPSCRIPT_CHECKMULTISIG | SCRIPT_ERR_TAPSCRIPT_MINIMALIF | SCRIPT_ERR_OP_CODESEPARATOR
    | SCRIPT_ERR_SIG_FINDANDDELETE | SCRIPT_ERR_ERROR_COUNT

abbreviation (input) SCRIPT_VERIFY_P2SH :: u32 where "SCRIPT_VERIFY_P2SH \<equiv> 0x1"

abbreviation (input) SCRIPT_VERIFY_STRICTENC :: u32 where "SCRIPT_VERIFY_STRICTENC \<equiv> 0x2"

abbreviation (input) SCRIPT_VERIFY_DERSIG :: u32 where "SCRIPT_VERIFY_DERSIG \<equiv> 0x4"

abbreviation (input) SCRIPT_VERIFY_LOW_S :: u32 where "SCRIPT_VERIFY_LOW_S \<equiv> 0x8"

abbreviation (input) SCRIPT_VERIFY_NULLDUMMY :: u32 where "SCRIPT_VERIFY_NULLDUMMY \<equiv> 0x10"

abbreviation (input) SCRIPT_VERIFY_SIGPUSHONLY :: u32 where "SCRIPT_VERIFY_SIGPUSHONLY \<equiv> 0x20"

abbreviation (input) SCRIPT_VERIFY_MINIMALDATA :: u32 where "SCRIPT_VERIFY_MINIMALDATA \<equiv> 0x40"

abbreviation (input) SCRIPT_VERIFY_DISCOURAGE_UPGRADABLE_NOPS :: u32 where "SCRIPT_VERIFY_DISCOURAGE_UPGRADABLE_NOPS \<equiv> 0x80"

abbreviation (input) SCRIPT_VERIFY_CLEANSTACK :: u32 where "SCRIPT_VERIFY_CLEANSTACK \<equiv> 0x100"

abbreviation (input) SCRIPT_VERIFY_CHECKLOCKTIMEVERIFY :: u32 where "SCRIPT_VERIFY_CHECKLOCKTIMEVERIFY \<equiv> 0x200"

abbreviation (input) SCRIPT_VERIFY_CHECKSEQUENCEVERIFY :: u32 where "SCRIPT_VERIFY_CHECKSEQUENCEVERIFY \<equiv> 0x400"

abbreviation (input) SCRIPT_VERIFY_WITNESS :: u32 where "SCRIPT_VERIFY_WITNESS \<equiv> 0x800"

abbreviation (input) SCRIPT_VERIFY_DISCOURAGE_UPGRADABLE_WITNESS_PROGRAM :: u32 where "SCRIPT_VERIFY_DISCOURAGE_UPGRADABLE_WITNESS_PROGRAM \<equiv> 0x1000"

abbreviation (input) SCRIPT_VERIFY_MINIMALIF :: u32 where "SCRIPT_VERIFY_MINIMALIF \<equiv> 0x2000"

abbreviation (input) SCRIPT_VERIFY_NULLFAIL :: u32 where "SCRIPT_VERIFY_NULLFAIL \<equiv> 0x4000"

abbreviation (input) SCRIPT_VERIFY_WITNESS_PUBKEYTYPE :: u32 where "SCRIPT_VERIFY_WITNESS_PUBKEYTYPE \<equiv> 0x8000"

abbreviation (input) SCRIPT_VERIFY_CONST_SCRIPTCODE :: u32 where "SCRIPT_VERIFY_CONST_SCRIPTCODE \<equiv> 0x10000"

abbreviation (input) SCRIPT_VERIFY_TAPROOT :: u32 where "SCRIPT_VERIFY_TAPROOT \<equiv> 0x20000"

abbreviation (input) SCRIPT_VERIFY_DISCOURAGE_UPGRADABLE_TAPROOT_VERSION :: u32 where "SCRIPT_VERIFY_DISCOURAGE_UPGRADABLE_TAPROOT_VERSION \<equiv> 0x40000"

abbreviation (input) SCRIPT_VERIFY_DISCOURAGE_OP_SUCCESS :: u32 where "SCRIPT_VERIFY_DISCOURAGE_OP_SUCCESS \<equiv> 0x80000"

abbreviation (input) SCRIPT_VERIFY_DISCOURAGE_UPGRADABLE_PUBKEYTYPE :: u32 where "SCRIPT_VERIFY_DISCOURAGE_UPGRADABLE_PUBKEYTYPE \<equiv> 0x100000"

end
