(* ===== verification/Interpreter.thy ===== *)
theory Interpreter
  imports ScriptErr
begin

text \<open>
  The script interpreter (\<^verbatim>\<open>script/interpreter.cpp\<close>, \<^verbatim>\<open>script/interpreter.h\<close>): the encodings of
  signatures and keys, the stack of conditions and \<^verbatim>\<open>EvalScript\<close>. Stacks are lists with the top
  first. Hash functions and the operations of the curve library are the fields of an argument
  \<open>lib\<close>, and the virtual functions of \<^verbatim>\<open>BaseSignatureChecker\<close> those of an argument \<open>checker\<close>.
\<close>

section \<open>Model\<close>

subsection \<open>Errors, flags and parameters\<close>

definition flag :: "u32 \<Rightarrow> u32 \<Rightarrow> bool" where
  "flag flags f \<longleftrightarrow> flags AND f \<noteq> 0"

text \<open>
  How a computation ends that does not return true: with an error that has been written, with false
  and no error written, with an exception of a script number, with a read or a pop outside of a
  stack by \<^verbatim>\<open>stacktop\<close> or \<^verbatim>\<open>popstack\<close> (which throw too), with undefined behaviour (an iterator outside of
  its vector, \<^verbatim>\<open>back\<close> of an empty span or vector, a signed overflow), or with a failed assertion.
\<close>

datatype script_fault = Failed ScriptError | FailedUnset | Thrown | BadAccess | Undefined | AssertFailed

abbreviation (input) set_error :: "ScriptError \<Rightarrow> script_fault + 'a" where
  "set_error e \<equiv> Inl (Failed e)"

datatype SigVersion = BASE | WITNESS_V0 | TAPROOT | TAPSCRIPT

text \<open>Fields without an initializer have a value here that no code reads before it is set.\<close>

record ScriptExecutionData =
  m_tapleaf_hash_init :: bool
  m_tapleaf_hash :: uint256
  m_codeseparator_pos_init :: bool
  m_codeseparator_pos :: u32
  m_annex_init :: bool
  m_annex_present :: bool
  m_annex_hash :: uint256
  m_validation_weight_left_init :: bool
  m_validation_weight_left :: int
  m_output_hash :: "uint256 option"

definition ScriptExecutionData_init :: ScriptExecutionData where
  "ScriptExecutionData_init =
     \<lparr>m_tapleaf_hash_init = False, m_tapleaf_hash = uint256_zero, m_codeseparator_pos_init = False, m_codeseparator_pos = 0,
      m_annex_init = False, m_annex_present = False, m_annex_hash = uint256_zero,
      m_validation_weight_left_init = False, m_validation_weight_left = 0, m_output_hash = None\<rparr>"

record script_lib =
  RIPEMD160 :: "bytes \<Rightarrow> bytes"
  SHA1 :: "bytes \<Rightarrow> bytes"
  SHA256 :: "bytes \<Rightarrow> bytes"
  BLAKE3 :: "bytes \<Rightarrow> bytes"
  CheckLowS :: "bytes \<Rightarrow> bool"
  VerifyECDSA :: "bytes \<Rightarrow> uint256 \<Rightarrow> bytes \<Rightarrow> bool"
  VerifySchnorr :: "bytes \<Rightarrow> uint256 \<Rightarrow> bytes \<Rightarrow> bool"
  CheckTapTweak :: "bytes \<Rightarrow> bytes \<Rightarrow> uint256 \<Rightarrow> bool \<Rightarrow> bool"

record BaseSignatureChecker =
  CheckECDSASignature :: "bytes \<Rightarrow> bytes \<Rightarrow> CScript \<Rightarrow> SigVersion \<Rightarrow> script_fault + bool"
  CheckSchnorrSignature :: "bytes \<Rightarrow> bytes \<Rightarrow> SigVersion \<Rightarrow> ScriptExecutionData \<Rightarrow> script_fault + ScriptExecutionData"
  CheckLockTime :: "int \<Rightarrow> bool"
  CheckSequence :: "int \<Rightarrow> bool"

subsection \<open>Values and encodings\<close>

type_synonym valtype = bytes

fun cast_loop :: "valtype \<Rightarrow> bool" where
  "cast_loop [] = False"
| "cast_loop (b # bs) = (if b \<noteq> 0 then \<not> (bs = [] \<and> b = 0x80) else cast_loop bs)"

definition CastToBool :: "valtype \<Rightarrow> bool" where
  "CastToBool vch = cast_loop vch"

text \<open>
  \<open>stacktop n\<close> is \<^verbatim>\<open>stacktop(-n)\<close>; \<open>erase_at n\<close> erases \<^verbatim>\<open>stack.end() - n\<close> and \<open>insert_at n\<close> inserts there.
\<close>

definition stacktop :: "nat \<Rightarrow> valtype list \<Rightarrow> script_fault + valtype" where
  "stacktop n s = (if 0 < n \<and> n \<le> length s then Inr (s ! (n - 1)) else Inl BadAccess)"

definition popstack :: "valtype list \<Rightarrow> script_fault + valtype list" where
  "popstack s = (case s of [] \<Rightarrow> Inl BadAccess | _ # s \<Rightarrow> Inr s)"

fun popstacks :: "nat \<Rightarrow> valtype list \<Rightarrow> script_fault + valtype list" where
  "popstacks 0 s = Inr s"
| "popstacks (Suc n) s = ebind (popstack s) (popstacks n)"

definition erase_at :: "nat \<Rightarrow> valtype list \<Rightarrow> script_fault + valtype list" where
  "erase_at n s = (if 0 < n \<and> n \<le> length s then Inr (take (n - 1) s @ drop n s) else Inl Undefined)"

definition insert_at :: "nat \<Rightarrow> valtype \<Rightarrow> valtype list \<Rightarrow> script_fault + valtype list" where
  "insert_at n v s = (if n \<le> length s then Inr (take n s @ v # drop n s) else Inl Undefined)"

definition stack_back :: "valtype list \<Rightarrow> script_fault + valtype" where
  "stack_back s = (case s of [] \<Rightarrow> Inl Undefined | v # _ \<Rightarrow> Inr v)"

definition swap_at :: "nat \<Rightarrow> nat \<Rightarrow> valtype list \<Rightarrow> script_fault + valtype list" where
  "swap_at i j s = ebind (stacktop i s) (\<lambda>a. ebind (stacktop j s) (\<lambda>b. Inr (s[i - 1 := b, j - 1 := a])))"

definition IsCompressedOrUncompressedPubKey :: "valtype \<Rightarrow> bool" where
  "IsCompressedOrUncompressedPubKey vchPubKey =
     (if length vchPubKey < COMPRESSED_SIZE then False
      else if vchPubKey ! 0 = 0x04 then length vchPubKey = CPubKey_SIZE
      else if vchPubKey ! 0 = 0x02 \<or> vchPubKey ! 0 = 0x03 then length vchPubKey = COMPRESSED_SIZE
      else False)"

definition IsCompressedPubKey :: "valtype \<Rightarrow> bool" where
  "IsCompressedPubKey vchPubKey =
     (if length vchPubKey \<noteq> COMPRESSED_SIZE then False
      else \<not> (vchPubKey ! 0 \<noteq> 0x02 \<and> vchPubKey ! 0 \<noteq> 0x03))"

definition IsValidSignatureEncoding :: "bytes \<Rightarrow> bool" where
  "IsValidSignatureEncoding sig =
     (if length sig < 9 then False
      else if length sig > 73 then False
      else if sig ! 0 \<noteq> 0x30 then False
      else if unat (sig ! 1) \<noteq> length sig - 3 then False
      else let lenR = unat (sig ! 3) in
        if 5 + lenR \<ge> length sig then False
        else let lenS = unat (sig ! (5 + lenR)) in
          if lenR + lenS + 7 \<noteq> length sig then False
          else if sig ! 2 \<noteq> 0x02 then False
          else if lenR = 0 then False
          else if sig ! 4 AND 0x80 \<noteq> 0 then False
          else if lenR > 1 \<and> sig ! 4 = 0 \<and> sig ! 5 AND 0x80 = 0 then False
          else if sig ! (lenR + 4) \<noteq> 0x02 then False
          else if lenS = 0 then False
          else if sig ! (lenR + 6) AND 0x80 \<noteq> 0 then False
          else \<not> (lenS > 1 \<and> sig ! (lenR + 6) = 0 \<and> sig ! (lenR + 7) AND 0x80 = 0))"

definition IsLowDERSignature :: "script_lib \<Rightarrow> valtype \<Rightarrow> script_fault + unit" where
  "IsLowDERSignature lib vchSig =
     (if \<not> IsValidSignatureEncoding vchSig then set_error SCRIPT_ERR_SIG_DER
      else if \<not> CheckLowS lib (butlast vchSig) then set_error SCRIPT_ERR_SIG_HIGH_S
      else Inr ())"

abbreviation (input) SIGHASH_ALL :: byte where "SIGHASH_ALL \<equiv> 1"

abbreviation (input) SIGHASH_NONE :: byte where "SIGHASH_NONE \<equiv> 2"

abbreviation (input) SIGHASH_SINGLE :: byte where "SIGHASH_SINGLE \<equiv> 3"

abbreviation (input) SIGHASH_ANYONECANPAY :: byte where "SIGHASH_ANYONECANPAY \<equiv> 0x80"

definition IsDefinedHashtypeSignature :: "valtype \<Rightarrow> bool" where
  "IsDefinedHashtypeSignature vchSig =
     (if length vchSig = 0 then False
      else let nHashType = vchSig ! (length vchSig - 1) AND NOT SIGHASH_ANYONECANPAY
           in \<not> (nHashType < SIGHASH_ALL \<or> nHashType > SIGHASH_SINGLE))"

definition CheckSignatureEncoding :: "script_lib \<Rightarrow> u32 \<Rightarrow> bytes \<Rightarrow> script_fault + unit" where
  "CheckSignatureEncoding lib flags vchSig =
     (if length vchSig = 0 then Inr ()
      else if flag flags (SCRIPT_VERIFY_DERSIG OR SCRIPT_VERIFY_LOW_S OR SCRIPT_VERIFY_STRICTENC) \<and> \<not> IsValidSignatureEncoding vchSig
      then set_error SCRIPT_ERR_SIG_DER
      else ebind (if flag flags SCRIPT_VERIFY_LOW_S then IsLowDERSignature lib vchSig else Inr ()) (\<lambda>_.
        if flag flags SCRIPT_VERIFY_STRICTENC \<and> \<not> IsDefinedHashtypeSignature vchSig then set_error SCRIPT_ERR_SIG_HASHTYPE
        else Inr ()))"

definition CheckPubKeyEncoding :: "u32 \<Rightarrow> SigVersion \<Rightarrow> valtype \<Rightarrow> script_fault + unit" where
  "CheckPubKeyEncoding flags sigversion vchPubKey =
     (if flag flags SCRIPT_VERIFY_STRICTENC \<and> \<not> IsCompressedOrUncompressedPubKey vchPubKey then set_error SCRIPT_ERR_PUBKEYTYPE
      else if flag flags SCRIPT_VERIFY_WITNESS_PUBKEYTYPE \<and> sigversion = WITNESS_V0 \<and> \<not> IsCompressedPubKey vchPubKey
      then set_error SCRIPT_ERR_WITNESS_PUBKEYTYPE
      else Inr ())"

subsection \<open>Deleting a pattern from a script\<close>

text \<open>The inner loop skips the occurrences of the pattern at a position; the outer loop moves on by an operation.\<close>

function skip_matches :: "CScript \<Rightarrow> bytes \<Rightarrow> bytes \<times> nat" where
  "skip_matches b pc =
     (if b \<noteq> [] \<and> length pc \<ge> length b \<and> take (length b) pc = b
      then let (pc, n) = skip_matches b (drop (length b) pc) in (pc, Suc n)
      else (pc, 0))"
  by pat_completeness auto
termination
proof (relation "measure (\<lambda>(b, pc). length pc)", goal_cases)
  case (2 b pc)
  then show ?case by (cases b) auto
qed simp

declare skip_matches.simps [simp del]

lemma skip_matches_length: "length (fst (skip_matches b pc)) \<le> length pc"
proof (induction b pc rule: skip_matches.induct)
  case (1 b pc)
  then show ?case by (subst skip_matches.simps) (auto simp: Let_def split: prod.splits)
qed

function delete_loop :: "CScript \<Rightarrow> bytes \<Rightarrow> bytes \<times> nat" where
  "delete_loop b pc =
     (let (pc2, n) = skip_matches b pc
      in case GetScriptOp pc2 of
           (False, _) \<Rightarrow> (pc2, n)
         | (True, opcode, data, rest) \<Rightarrow>
             let (result, m) = delete_loop b rest
             in (take (length pc2 - length rest) pc2 @ result, n + m))"
  by pat_completeness auto
termination
proof (relation "measure (\<lambda>(b, pc). length pc)", goal_cases)
  case (2 b pc x pc2 n ok y opcode z data rest)
  then have "GetScriptOp pc2 = (True, opcode, data, rest)" "fst (skip_matches b pc) = pc2" by (simp_all, metis fst_conv)
  then show ?case using skip_matches_length [of b pc] GetScriptOp_shorter [of pc2] by fastforce
qed simp

declare delete_loop.simps [simp del]

definition FindAndDelete :: "CScript \<Rightarrow> CScript \<Rightarrow> CScript \<times> nat" where
  "FindAndDelete script b =
     (if b = [] then (script, 0)
      else let (result, nFound) = delete_loop b script
           in if nFound > 0 then (result, nFound) else (script, 0))"

subsection \<open>The stack of conditions\<close>

definition NO_FALSE :: u32 where "NO_FALSE = 0xffffffff"

record ConditionStack =
  m_stack_size :: u32
  m_first_false_pos :: u32

definition cs_new :: ConditionStack where
  "cs_new = \<lparr>m_stack_size = 0, m_first_false_pos = NO_FALSE\<rparr>"

definition cs_empty :: "ConditionStack \<Rightarrow> bool" where
  "cs_empty cs \<longleftrightarrow> m_stack_size cs = 0"

definition all_true :: "ConditionStack \<Rightarrow> bool" where
  "all_true cs \<longleftrightarrow> m_first_false_pos cs = NO_FALSE"

definition cs_push_back :: "bool \<Rightarrow> ConditionStack \<Rightarrow> ConditionStack" where
  "cs_push_back f cs =
     (let cs = (if m_first_false_pos cs = NO_FALSE \<and> \<not> f then cs\<lparr>m_first_false_pos := m_stack_size cs\<rparr> else cs)
      in cs\<lparr>m_stack_size := m_stack_size cs + 1\<rparr>)"

definition cs_pop_back :: "ConditionStack \<Rightarrow> script_fault + ConditionStack" where
  "cs_pop_back cs =
     (if \<not> m_stack_size cs > 0 then Inl AssertFailed
      else let cs = cs\<lparr>m_stack_size := m_stack_size cs - 1\<rparr>
           in Inr (if m_first_false_pos cs = m_stack_size cs then cs\<lparr>m_first_false_pos := NO_FALSE\<rparr> else cs))"

definition toggle_top :: "ConditionStack \<Rightarrow> script_fault + ConditionStack" where
  "toggle_top cs =
     (if \<not> m_stack_size cs > 0 then Inl AssertFailed
      else Inr (if m_first_false_pos cs = NO_FALSE then cs\<lparr>m_first_false_pos := m_stack_size cs - 1\<rparr>
                else if m_first_false_pos cs = m_stack_size cs - 1 then cs\<lparr>m_first_false_pos := NO_FALSE\<rparr>
                else cs))"

subsection \<open>Operations on the stack\<close>

definition vchFalse :: valtype where "vchFalse = []"

definition vchTrue :: valtype where "vchTrue = [1]"

definition num_operand :: "bool \<Rightarrow> nat \<Rightarrow> valtype \<Rightarrow> script_fault + int" where
  "num_operand fRequireMinimal nMaxNumSize vch = map_sum (\<lambda>_. Thrown) id (CScriptNum vch fRequireMinimal nMaxNumSize)"

abbreviation (input) need :: "nat \<Rightarrow> valtype list \<Rightarrow> (script_fault + 'a) \<Rightarrow> script_fault + 'a" where
  "need n s r \<equiv> (if length s < n then set_error SCRIPT_ERR_INVALID_STACK_OPERATION else r)"

definition op_push_number :: "byte \<Rightarrow> valtype list \<Rightarrow> valtype list" where
  "op_push_number opcode s = scriptnum_serialize (uint opcode - (uint OP_1 - 1)) # s"

definition op_checklocktime :: "BaseSignatureChecker \<Rightarrow> u32 \<Rightarrow> bool \<Rightarrow> valtype list \<Rightarrow> script_fault + valtype list" where
  "op_checklocktime checker flags fRequireMinimal s =
     (if \<not> flag flags SCRIPT_VERIFY_CHECKLOCKTIMEVERIFY then Inr s
      else need 1 s (ebind (stacktop 1 s) (\<lambda>vch. ebind (num_operand fRequireMinimal 5 vch) (\<lambda>nLockTime.
        if nLockTime < 0 then set_error SCRIPT_ERR_NEGATIVE_LOCKTIME
        else if \<not> CheckLockTime checker nLockTime then set_error SCRIPT_ERR_UNSATISFIED_LOCKTIME
        else Inr s))))"

definition op_checksequence :: "BaseSignatureChecker \<Rightarrow> u32 \<Rightarrow> bool \<Rightarrow> valtype list \<Rightarrow> script_fault + valtype list" where
  "op_checksequence checker flags fRequireMinimal s =
     (if \<not> flag flags SCRIPT_VERIFY_CHECKSEQUENCEVERIFY then Inr s
      else need 1 s (ebind (stacktop 1 s) (\<lambda>vch. ebind (num_operand fRequireMinimal 5 vch) (\<lambda>nSequence.
        if nSequence < 0 then set_error SCRIPT_ERR_NEGATIVE_LOCKTIME
        else if nSequence AND uint SEQUENCE_LOCKTIME_DISABLE_FLAG \<noteq> 0 then Inr s
        else if \<not> CheckSequence checker nSequence then set_error SCRIPT_ERR_UNSATISFIED_LOCKTIME
        else Inr s))))"

definition op_if ::
  "u32 \<Rightarrow> SigVersion \<Rightarrow> byte \<Rightarrow> bool \<Rightarrow> valtype list \<Rightarrow> ConditionStack \<Rightarrow> script_fault + valtype list \<times> ConditionStack" where
  "op_if flags sigversion opcode fExec s cs =
     (if fExec
      then if length s < 1 then set_error SCRIPT_ERR_UNBALANCED_CONDITIONAL
           else ebind (stacktop 1 s) (\<lambda>vch.
             if sigversion = TAPSCRIPT \<and> (length vch > 1 \<or> length vch = 1 \<and> vch ! 0 \<noteq> 1)
             then set_error SCRIPT_ERR_TAPSCRIPT_MINIMALIF
             else if sigversion = WITNESS_V0 \<and> flag flags SCRIPT_VERIFY_MINIMALIF \<and>
                     (length vch > 1 \<or> length vch = 1 \<and> vch ! 0 \<noteq> 1)
             then set_error SCRIPT_ERR_MINIMALIF
             else let fValue = CastToBool vch;
                      fValue = (if opcode = OP_NOTIF then \<not> fValue else fValue)
                  in ebind (popstack s) (\<lambda>s. Inr (s, cs_push_back fValue cs)))
      else Inr (s, cs_push_back False cs))"

definition op_verify :: "valtype list \<Rightarrow> script_fault + valtype list" where
  "op_verify s = need 1 s (ebind (stacktop 1 s) (\<lambda>vch. if CastToBool vch then popstack s else set_error SCRIPT_ERR_VERIFY))"

definition op_altstack :: "byte \<Rightarrow> valtype list \<Rightarrow> valtype list \<Rightarrow> script_fault + valtype list \<times> valtype list" where
  "op_altstack opcode s alt =
     (if opcode = OP_TOALTSTACK
      then need 1 s (ebind (stacktop 1 s) (\<lambda>vch. ebind (popstack s) (\<lambda>s. Inr (s, vch # alt))))
      else if length alt < 1 then set_error SCRIPT_ERR_INVALID_ALTSTACK_OPERATION
      else ebind (stacktop 1 alt) (\<lambda>vch. ebind (popstack alt) (\<lambda>alt. Inr (vch # s, alt))))"

definition stack_op_many :: "byte \<Rightarrow> valtype list \<Rightarrow> script_fault + valtype list" where
  "stack_op_many opcode s =
     (if opcode = OP_2DROP then need 2 s (popstacks 2 s)
      else if opcode = OP_2DUP
      then need 2 s (ebind (stacktop 2 s) (\<lambda>vch1. ebind (stacktop 1 s) (\<lambda>vch2. Inr (vch2 # vch1 # s))))
      else if opcode = OP_3DUP
      then need 3 s (ebind (stacktop 3 s) (\<lambda>vch1. ebind (stacktop 2 s) (\<lambda>vch2. ebind (stacktop 1 s) (\<lambda>vch3.
             Inr (vch3 # vch2 # vch1 # s)))))
      else if opcode = OP_2OVER
      then need 4 s (ebind (stacktop 4 s) (\<lambda>vch1. ebind (stacktop 3 s) (\<lambda>vch2. Inr (vch2 # vch1 # s))))
      else if opcode = OP_2ROT
      then need 6 s (ebind (stacktop 6 s) (\<lambda>vch1. ebind (stacktop 5 s) (\<lambda>vch2.
             ebind (erase_at 6 s) (\<lambda>s. ebind (erase_at 5 s) (\<lambda>s. Inr (vch2 # vch1 # s))))))
      else if opcode = OP_2SWAP then need 4 s (ebind (swap_at 4 2 s) (swap_at 3 1))
      else if opcode = OP_IFDUP
      then need 1 s (ebind (stacktop 1 s) (\<lambda>vch. Inr (if CastToBool vch then vch # s else s)))
      else if opcode = OP_DEPTH then Inr (scriptnum_serialize (int (length s)) # s)
      else set_error SCRIPT_ERR_BAD_OPCODE)"

definition stack_op_one :: "bool \<Rightarrow> byte \<Rightarrow> valtype list \<Rightarrow> script_fault + valtype list" where
  "stack_op_one fRequireMinimal opcode s =
     (if opcode = OP_DROP then need 1 s (popstack s)
      else if opcode = OP_DUP then need 1 s (ebind (stacktop 1 s) (\<lambda>vch. Inr (vch # s)))
      else if opcode = OP_NIP then need 2 s (erase_at 2 s)
      else if opcode = OP_OVER then need 2 s (ebind (stacktop 2 s) (\<lambda>vch. Inr (vch # s)))
      else if opcode = OP_PICK \<or> opcode = OP_ROLL
      then need 2 s (ebind (stacktop 1 s) (\<lambda>vch. ebind (num_operand fRequireMinimal nDefaultMaxNumSize vch) (\<lambda>bn.
             let n = getint bn in
             ebind (popstack s) (\<lambda>s.
               if n < 0 \<or> n \<ge> int (length s) then set_error SCRIPT_ERR_INVALID_STACK_OPERATION
               else ebind (stacktop (nat n + 1) s) (\<lambda>vch.
                 ebind (if opcode = OP_ROLL then erase_at (nat n + 1) s else Inr s) (\<lambda>s. Inr (vch # s)))))))
      else if opcode = OP_ROT then need 3 s (ebind (swap_at 3 2 s) (swap_at 2 1))
      else if opcode = OP_SWAP then need 2 s (swap_at 2 1 s)
      else if opcode = OP_TUCK
      then need 2 s (ebind (stacktop 1 s) (\<lambda>vch. insert_at 2 vch s))
      else if opcode = OP_SIZE
      then need 1 s (ebind (stacktop 1 s) (\<lambda>vch. Inr (scriptnum_serialize (int (length vch)) # s)))
      else set_error SCRIPT_ERR_BAD_OPCODE)"

definition op_equal :: "byte \<Rightarrow> valtype list \<Rightarrow> script_fault + valtype list" where
  "op_equal opcode s =
     need 2 s (ebind (stacktop 2 s) (\<lambda>vch1. ebind (stacktop 1 s) (\<lambda>vch2.
       let fEqual = (vch1 = vch2) in
       ebind (popstacks 2 s) (\<lambda>s.
         let s = (if fEqual then vchTrue else vchFalse) # s in
         if opcode = OP_EQUALVERIFY
         then if fEqual then popstack s else set_error SCRIPT_ERR_EQUALVERIFY
         else Inr s))))"

subsection \<open>Arithmetic\<close>

definition bool_num :: "bool \<Rightarrow> int" where
  "bool_num b = (if b then 1 else 0)"

definition asserted :: "'a option \<Rightarrow> script_fault + 'a" where
  "asserted r = (case r of None \<Rightarrow> Inl AssertFailed | Some x \<Rightarrow> Inr x)"

text \<open>A sum of two \<^verbatim>\<open>int64_t\<close> is undefined when it does not fit.\<close>

definition int64_result :: "int \<Rightarrow> script_fault + int" where
  "int64_result n = (if fits_int64 n then Inr n else Inl Undefined)"

definition op_unary :: "bool \<Rightarrow> byte \<Rightarrow> valtype list \<Rightarrow> script_fault + valtype list" where
  "op_unary fRequireMinimal opcode s =
     need 1 s (ebind (stacktop 1 s) (\<lambda>vch. ebind (num_operand fRequireMinimal nDefaultMaxNumSize vch) (\<lambda>bn.
       ebind (if opcode = OP_1ADD then asserted (scriptnum_add_assign bn 1)
              else if opcode = OP_1SUB then asserted (scriptnum_sub_assign bn 1)
              else if opcode = OP_NEGATE then asserted (scriptnum_neg bn)
              else if opcode = OP_ABS then (if bn < 0 then asserted (scriptnum_neg bn) else Inr bn)
              else if opcode = OP_NOT then Inr (bool_num (bn = 0))
              else if opcode = OP_0NOTEQUAL then Inr (bool_num (bn \<noteq> 0))
              else Inl AssertFailed) (\<lambda>bn.
       ebind (popstack s) (\<lambda>s. Inr (scriptnum_serialize bn # s))))))"

definition binary_value :: "byte \<Rightarrow> int \<Rightarrow> int \<Rightarrow> script_fault + int" where
  "binary_value opcode bn1 bn2 =
     (if opcode = OP_ADD then int64_result (bn1 + bn2)
      else if opcode = OP_SUB then int64_result (bn1 - bn2)
      else if opcode = OP_BOOLAND then Inr (bool_num (bn1 \<noteq> 0 \<and> bn2 \<noteq> 0))
      else if opcode = OP_BOOLOR then Inr (bool_num (bn1 \<noteq> 0 \<or> bn2 \<noteq> 0))
      else if opcode = OP_NUMEQUAL then Inr (bool_num (bn1 = bn2))
      else if opcode = OP_NUMEQUALVERIFY then Inr (bool_num (bn1 = bn2))
      else if opcode = OP_NUMNOTEQUAL then Inr (bool_num (bn1 \<noteq> bn2))
      else if opcode = OP_LESSTHAN then Inr (bool_num (bn1 < bn2))
      else if opcode = OP_GREATERTHAN then Inr (bool_num (bn1 > bn2))
      else if opcode = OP_LESSTHANOREQUAL then Inr (bool_num (bn1 \<le> bn2))
      else if opcode = OP_GREATERTHANOREQUAL then Inr (bool_num (bn1 \<ge> bn2))
      else if opcode = OP_MIN then Inr (if bn1 < bn2 then bn1 else bn2)
      else if opcode = OP_MAX then Inr (if bn1 > bn2 then bn1 else bn2)
      else Inl AssertFailed)"

definition op_binary :: "bool \<Rightarrow> byte \<Rightarrow> valtype list \<Rightarrow> script_fault + valtype list" where
  "op_binary fRequireMinimal opcode s =
     need 2 s (ebind (stacktop 2 s) (\<lambda>vch1. ebind (num_operand fRequireMinimal nDefaultMaxNumSize vch1) (\<lambda>bn1.
       ebind (stacktop 1 s) (\<lambda>vch2. ebind (num_operand fRequireMinimal nDefaultMaxNumSize vch2) (\<lambda>bn2.
       ebind (binary_value opcode bn1 bn2) (\<lambda>bn.
       ebind (popstacks 2 s) (\<lambda>s.
         let s = scriptnum_serialize bn # s in
         if opcode = OP_NUMEQUALVERIFY
         then ebind (stacktop 1 s) (\<lambda>vch. if CastToBool vch then popstack s else set_error SCRIPT_ERR_NUMEQUALVERIFY)
         else Inr s)))))))"

definition op_within :: "bool \<Rightarrow> valtype list \<Rightarrow> script_fault + valtype list" where
  "op_within fRequireMinimal s =
     need 3 s (ebind (stacktop 3 s) (\<lambda>vch1. ebind (num_operand fRequireMinimal nDefaultMaxNumSize vch1) (\<lambda>bn1.
       ebind (stacktop 2 s) (\<lambda>vch2. ebind (num_operand fRequireMinimal nDefaultMaxNumSize vch2) (\<lambda>bn2.
       ebind (stacktop 1 s) (\<lambda>vch3. ebind (num_operand fRequireMinimal nDefaultMaxNumSize vch3) (\<lambda>bn3.
       ebind (popstacks 3 s) (\<lambda>s.
         Inr ((if bn2 \<le> bn1 \<and> bn1 < bn3 then vchTrue else vchFalse) # s)))))))))"

definition op_crypto :: "script_lib \<Rightarrow> byte \<Rightarrow> valtype list \<Rightarrow> script_fault + valtype list" where
  "op_crypto lib opcode s =
     need 1 s (ebind (stacktop 1 s) (\<lambda>vch.
       let vchHash = (if opcode = OP_RIPEMD160 then RIPEMD160 lib vch
                      else if opcode = OP_SHA1 then SHA1 lib vch
                      else if opcode = OP_SHA256 then SHA256 lib vch
                      else if opcode = OP_HASH160 then RIPEMD160 lib (SHA256 lib vch)
                      else BLAKE3 lib vch)
       in ebind (popstack s) (\<lambda>s. Inr (vchHash # s))))"

subsection \<open>Signatures\<close>

definition EvalChecksigPreTapscript ::
  "script_lib \<Rightarrow> BaseSignatureChecker \<Rightarrow> u32 \<Rightarrow> SigVersion \<Rightarrow> valtype \<Rightarrow> valtype \<Rightarrow> CScript \<Rightarrow> script_fault + bool" where
  "EvalChecksigPreTapscript lib checker flags sigversion vchSig vchPubKey scriptCode =
     (if \<not> (sigversion = BASE \<or> sigversion = WITNESS_V0) then Inl AssertFailed
      else let (scriptCode, found) = (if sigversion = BASE then FindAndDelete scriptCode (push_data [] vchSig) else (scriptCode, 0))
           in if found > 0 \<and> flag flags SCRIPT_VERIFY_CONST_SCRIPTCODE then set_error SCRIPT_ERR_SIG_FINDANDDELETE
              else ebind (CheckSignatureEncoding lib flags vchSig) (\<lambda>_.
                   ebind (CheckPubKeyEncoding flags sigversion vchPubKey) (\<lambda>_.
                   ebind (CheckECDSASignature checker vchSig vchPubKey scriptCode sigversion) (\<lambda>fSuccess.
                     if \<not> fSuccess \<and> flag flags SCRIPT_VERIFY_NULLFAIL \<and> length vchSig \<noteq> 0
                     then set_error SCRIPT_ERR_SIG_NULLFAIL
                     else Inr fSuccess))))"

definition EvalChecksigTapscript ::
  "BaseSignatureChecker \<Rightarrow> u32 \<Rightarrow> SigVersion \<Rightarrow> valtype \<Rightarrow> valtype \<Rightarrow> ScriptExecutionData \<Rightarrow>
     script_fault + bool \<times> ScriptExecutionData" where
  "EvalChecksigTapscript checker flags sigversion sig pubkey ed =
     (if sigversion \<noteq> TAPSCRIPT then Inl AssertFailed
      else let success = (sig \<noteq> []) in
        ebind (if success
               then if \<not> m_validation_weight_left_init ed then Inl AssertFailed
                    else let ed = ed\<lparr>m_validation_weight_left := m_validation_weight_left ed - VALIDATION_WEIGHT_PER_SIGOP_PASSED\<rparr>
                         in if m_validation_weight_left ed < 0 then set_error SCRIPT_ERR_TAPSCRIPT_VALIDATION_WEIGHT else Inr ed
               else Inr ed) (\<lambda>ed.
        if length pubkey = 0 then set_error SCRIPT_ERR_PUBKEYTYPE
        else if length pubkey = 32
        then ebind (if success then CheckSchnorrSignature checker sig pubkey sigversion ed else Inr ed) (\<lambda>ed. Inr (success, ed))
        else if flag flags SCRIPT_VERIFY_DISCOURAGE_UPGRADABLE_PUBKEYTYPE
        then set_error SCRIPT_ERR_DISCOURAGE_UPGRADABLE_PUBKEYTYPE
        else Inr (success, ed)))"

definition EvalChecksig ::
  "script_lib \<Rightarrow> BaseSignatureChecker \<Rightarrow> u32 \<Rightarrow> SigVersion \<Rightarrow> valtype \<Rightarrow> valtype \<Rightarrow> CScript \<Rightarrow> ScriptExecutionData \<Rightarrow>
     script_fault + bool \<times> ScriptExecutionData" where
  "EvalChecksig lib checker flags sigversion sig pubkey scriptCode ed =
     (case sigversion of
        BASE \<Rightarrow> map_sum id (\<lambda>success. (success, ed)) (EvalChecksigPreTapscript lib checker flags sigversion sig pubkey scriptCode)
      | WITNESS_V0 \<Rightarrow> map_sum id (\<lambda>success. (success, ed)) (EvalChecksigPreTapscript lib checker flags sigversion sig pubkey scriptCode)
      | TAPSCRIPT \<Rightarrow> EvalChecksigTapscript checker flags sigversion sig pubkey ed
      | TAPROOT \<Rightarrow> Inl AssertFailed)"

definition op_checksig ::
  "script_lib \<Rightarrow> BaseSignatureChecker \<Rightarrow> u32 \<Rightarrow> SigVersion \<Rightarrow> byte \<Rightarrow> CScript \<Rightarrow> valtype list \<Rightarrow> ScriptExecutionData \<Rightarrow>
     script_fault + valtype list \<times> ScriptExecutionData" where
  "op_checksig lib checker flags sigversion opcode scriptCode s ed =
     need 2 s (ebind (stacktop 2 s) (\<lambda>vchSig. ebind (stacktop 1 s) (\<lambda>vchPubKey.
       ebind (EvalChecksig lib checker flags sigversion vchSig vchPubKey scriptCode ed) (\<lambda>(fSuccess, ed).
       ebind (popstacks 2 s) (\<lambda>s.
         let s = (if fSuccess then vchTrue else vchFalse) # s in
         if opcode = OP_CHECKSIGVERIFY
         then if fSuccess then ebind (popstack s) (\<lambda>s. Inr (s, ed)) else set_error SCRIPT_ERR_CHECKSIGVERIFY
         else Inr (s, ed))))))"

definition op_checksigadd ::
  "script_lib \<Rightarrow> BaseSignatureChecker \<Rightarrow> u32 \<Rightarrow> SigVersion \<Rightarrow> bool \<Rightarrow> CScript \<Rightarrow> valtype list \<Rightarrow> ScriptExecutionData \<Rightarrow>
     script_fault + valtype list \<times> ScriptExecutionData" where
  "op_checksigadd lib checker flags sigversion fRequireMinimal scriptCode s ed =
     (if sigversion = BASE \<or> sigversion = WITNESS_V0 then set_error SCRIPT_ERR_BAD_OPCODE
      else need 3 s (ebind (stacktop 3 s) (\<lambda>sig. ebind (stacktop 2 s) (\<lambda>vch.
        ebind (num_operand fRequireMinimal nDefaultMaxNumSize vch) (\<lambda>num. ebind (stacktop 1 s) (\<lambda>pubkey.
        ebind (EvalChecksig lib checker flags sigversion sig pubkey scriptCode ed) (\<lambda>(success, ed).
        ebind (popstacks 3 s) (\<lambda>s.
        ebind (int64_result (num + (if success then 1 else 0))) (\<lambda>num. Inr (scriptnum_serialize num # s, ed))))))))))"

text \<open>The three loops of \<^verbatim>\<open>OP_CHECKMULTISIG\<close>; positions count from the top of the stack, from 1.\<close>

fun multisig_delete :: "u32 \<Rightarrow> SigVersion \<Rightarrow> valtype list \<Rightarrow> nat \<Rightarrow> nat \<Rightarrow> CScript \<Rightarrow> script_fault + CScript" where
  "multisig_delete flags sigversion s isig 0 scriptCode = Inr scriptCode"
| "multisig_delete flags sigversion s isig (Suc nSigsCount) scriptCode =
     ebind (stacktop isig s) (\<lambda>vchSig.
       if sigversion = BASE
       then let (scriptCode, found) = FindAndDelete scriptCode (push_data [] vchSig)
            in if found > 0 \<and> flag flags SCRIPT_VERIFY_CONST_SCRIPTCODE then set_error SCRIPT_ERR_SIG_FINDANDDELETE
               else multisig_delete flags sigversion s (Suc isig) nSigsCount scriptCode
       else multisig_delete flags sigversion s (Suc isig) nSigsCount scriptCode)"

function multisig_check ::
  "script_lib \<Rightarrow> BaseSignatureChecker \<Rightarrow> u32 \<Rightarrow> SigVersion \<Rightarrow> CScript \<Rightarrow> valtype list \<Rightarrow> nat \<Rightarrow> nat \<Rightarrow> int \<Rightarrow> int \<Rightarrow>
     script_fault + bool" where
  "multisig_check lib checker flags sigversion scriptCode s isig ikey nSigsCount nKeysCount =
     (if nSigsCount > 0
      then ebind (stacktop isig s) (\<lambda>vchSig. ebind (stacktop ikey s) (\<lambda>vchPubKey.
           ebind (CheckSignatureEncoding lib flags vchSig) (\<lambda>_. ebind (CheckPubKeyEncoding flags sigversion vchPubKey) (\<lambda>_.
           ebind (CheckECDSASignature checker vchSig vchPubKey scriptCode sigversion) (\<lambda>fOk.
             if (if fOk then nSigsCount - 1 else nSigsCount) > nKeysCount - 1 then Inr False
             else multisig_check lib checker flags sigversion scriptCode s (if fOk then isig + 1 else isig) (ikey + 1)
                    (if fOk then nSigsCount - 1 else nSigsCount) (nKeysCount - 1))))))
      else Inr True)"
  by pat_completeness auto
termination
  by (relation "measure (\<lambda>(lib, checker, flags, sigversion, scriptCode, s, isig, ikey, nSigsCount, nKeysCount). nat nKeysCount)")
    (auto split: if_splits)

declare multisig_check.simps [simp del]

fun multisig_cleanup :: "u32 \<Rightarrow> bool \<Rightarrow> nat \<Rightarrow> int \<Rightarrow> valtype list \<Rightarrow> script_fault + valtype list" where
  "multisig_cleanup flags fSuccess 0 ikey2 s = Inr s"
| "multisig_cleanup flags fSuccess (Suc n) ikey2 s =
     ebind (if \<not> fSuccess \<and> flag flags SCRIPT_VERIFY_NULLFAIL \<and> ikey2 = 0
            then ebind (stacktop 1 s) (\<lambda>vch. if length vch \<noteq> 0 then set_error SCRIPT_ERR_SIG_NULLFAIL else Inr ())
            else Inr ()) (\<lambda>_.
     ebind (popstack s) (multisig_cleanup flags fSuccess n (if ikey2 > 0 then ikey2 - 1 else ikey2)))"

definition multisig_finish :: "u32 \<Rightarrow> byte \<Rightarrow> bool \<Rightarrow> valtype list \<Rightarrow> script_fault + valtype list" where
  "multisig_finish flags opcode fSuccess s =
     need 1 s (ebind (stacktop 1 s) (\<lambda>dummy.
       if flag flags SCRIPT_VERIFY_NULLDUMMY \<and> length dummy \<noteq> 0 then set_error SCRIPT_ERR_SIG_NULLDUMMY
       else ebind (popstack s) (\<lambda>s.
         let s = (if fSuccess then vchTrue else vchFalse) # s in
         if opcode = OP_CHECKMULTISIGVERIFY
         then if fSuccess then popstack s else set_error SCRIPT_ERR_CHECKMULTISIGVERIFY
         else Inr s)))"

definition op_checkmultisig ::
  "script_lib \<Rightarrow> BaseSignatureChecker \<Rightarrow> u32 \<Rightarrow> SigVersion \<Rightarrow> bool \<Rightarrow> byte \<Rightarrow> CScript \<Rightarrow> valtype list \<Rightarrow> int \<Rightarrow>
     script_fault + valtype list \<times> int" where
  "op_checkmultisig lib checker flags sigversion fRequireMinimal opcode scriptCode s nOps =
     (if sigversion = TAPSCRIPT then set_error SCRIPT_ERR_TAPSCRIPT_CHECKMULTISIG
      else need 1 s (ebind (stacktop 1 s) (\<lambda>vch. ebind (num_operand fRequireMinimal nDefaultMaxNumSize vch) (\<lambda>bn.
        let nKeysCount = getint bn in
        if nKeysCount < 0 \<or> nKeysCount > MAX_PUBKEYS_PER_MULTISIG then set_error SCRIPT_ERR_PUBKEY_COUNT
        else let nOps = nOps + nKeysCount in
          if nOps > MAX_OPS_PER_SCRIPT then set_error SCRIPT_ERR_OP_COUNT
          else let ikey = 2; ikey2 = nKeysCount + 2; i = 2 + nat nKeysCount in
            need i s (ebind (stacktop i s) (\<lambda>vch. ebind (num_operand fRequireMinimal nDefaultMaxNumSize vch) (\<lambda>bn.
              let nSigsCount = getint bn in
              if nSigsCount < 0 \<or> nSigsCount > nKeysCount then set_error SCRIPT_ERR_SIG_COUNT
              else let isig = i + 1; i = i + 1 + nat nSigsCount in
                need i s (ebind (multisig_delete flags sigversion s isig (nat nSigsCount) scriptCode) (\<lambda>scriptCode.
                  ebind (multisig_check lib checker flags sigversion scriptCode s isig ikey nSigsCount nKeysCount) (\<lambda>fSuccess.
                  ebind (multisig_cleanup flags fSuccess (i - 1) ikey2 s) (\<lambda>s.
                  ebind (multisig_finish flags opcode fSuccess s) (\<lambda>s. Inr (s, nOps)))))))))))))"

subsection \<open>Evaluation\<close>

record eval_state =
  main_stack :: "valtype list"
  alt_stack :: "valtype list"
  vfExec :: ConditionStack
  nOpCount :: int
  pbegincodehash :: CScript
  execdata :: ScriptExecutionData

abbreviation (input) on_stack :: "eval_state \<Rightarrow> (script_fault + valtype list) \<Rightarrow> script_fault + eval_state" where
  "on_stack st r \<equiv> ebind r (\<lambda>s. Inr (st\<lparr>main_stack := s\<rparr>))"

text \<open>The switch over the operations; \<open>rest\<close> is the script after the operation.\<close>

definition eval_op ::
  "script_lib \<Rightarrow> BaseSignatureChecker \<Rightarrow> u32 \<Rightarrow> SigVersion \<Rightarrow> u32 \<Rightarrow> byte \<Rightarrow> bool \<Rightarrow> bytes \<Rightarrow> eval_state \<Rightarrow> script_fault + eval_state" where
  "eval_op lib checker flags sigversion opcode_pos opcode fExec rest st =
     (let s = main_stack st; fRequireMinimal = flag flags SCRIPT_VERIFY_MINIMALDATA in
      if opcode = OP_1NEGATE \<or> OP_1 \<le> opcode \<and> opcode \<le> OP_16 then on_stack st (Inr (op_push_number opcode s))
      else if opcode = OP_NOP then Inr st
      else if opcode = OP_CHECKLOCKTIMEVERIFY then on_stack st (op_checklocktime checker flags fRequireMinimal s)
      else if opcode = OP_CHECKSEQUENCEVERIFY then on_stack st (op_checksequence checker flags fRequireMinimal s)
      else if opcode \<in> {OP_NOP1, OP_NOP4, OP_NOP5, OP_NOP6, OP_NOP7, OP_NOP8, OP_NOP9, OP_NOP10}
      then if flag flags SCRIPT_VERIFY_DISCOURAGE_UPGRADABLE_NOPS then set_error SCRIPT_ERR_DISCOURAGE_UPGRADABLE_NOPS else Inr st
      else if opcode = OP_IF \<or> opcode = OP_NOTIF
      then ebind (op_if flags sigversion opcode fExec s (vfExec st)) (\<lambda>(s, cs). Inr (st\<lparr>main_stack := s, vfExec := cs\<rparr>))
      else if opcode = OP_ELSE
      then if cs_empty (vfExec st) then set_error SCRIPT_ERR_UNBALANCED_CONDITIONAL
           else ebind (toggle_top (vfExec st)) (\<lambda>cs. Inr (st\<lparr>vfExec := cs\<rparr>))
      else if opcode = OP_ENDIF
      then if cs_empty (vfExec st) then set_error SCRIPT_ERR_UNBALANCED_CONDITIONAL
           else ebind (cs_pop_back (vfExec st)) (\<lambda>cs. Inr (st\<lparr>vfExec := cs\<rparr>))
      else if opcode = OP_VERIFY then on_stack st (op_verify s)
      else if opcode = OP_RETURN then set_error SCRIPT_ERR_OP_RETURN
      else if opcode = OP_TOALTSTACK \<or> opcode = OP_FROMALTSTACK
      then ebind (op_altstack opcode s (alt_stack st)) (\<lambda>(s, alt). Inr (st\<lparr>main_stack := s, alt_stack := alt\<rparr>))
      else if OP_2DROP \<le> opcode \<and> opcode \<le> OP_DEPTH then on_stack st (stack_op_many opcode s)
      else if OP_DROP \<le> opcode \<and> opcode \<le> OP_TUCK \<or> opcode = OP_SIZE
      then on_stack st (stack_op_one fRequireMinimal opcode s)
      else if opcode = OP_EQUAL \<or> opcode = OP_EQUALVERIFY then on_stack st (op_equal opcode s)
      else if opcode \<in> {OP_1ADD, OP_1SUB, OP_NEGATE, OP_ABS, OP_NOT, OP_0NOTEQUAL}
      then on_stack st (op_unary fRequireMinimal opcode s)
      else if opcode = OP_ADD \<or> opcode = OP_SUB \<or> OP_BOOLAND \<le> opcode \<and> opcode \<le> OP_MAX
      then on_stack st (op_binary fRequireMinimal opcode s)
      else if opcode = OP_WITHIN then on_stack st (op_within fRequireMinimal s)
      else if opcode \<in> {OP_RIPEMD160, OP_SHA1, OP_SHA256, OP_HASH160, OP_HASH256} then on_stack st (op_crypto lib opcode s)
      else if opcode = OP_CODESEPARATOR
      then Inr (st\<lparr>pbegincodehash := rest, execdata := (execdata st)\<lparr>m_codeseparator_pos := opcode_pos\<rparr>\<rparr>)
      else if opcode = OP_CHECKSIG \<or> opcode = OP_CHECKSIGVERIFY
      then ebind (op_checksig lib checker flags sigversion opcode (pbegincodehash st) s (execdata st))
             (\<lambda>(s, ed). Inr (st\<lparr>main_stack := s, execdata := ed\<rparr>))
      else if opcode = OP_CHECKSIGADD
      then ebind (op_checksigadd lib checker flags sigversion fRequireMinimal (pbegincodehash st) s (execdata st))
             (\<lambda>(s, ed). Inr (st\<lparr>main_stack := s, execdata := ed\<rparr>))
      else if opcode = OP_CHECKMULTISIG \<or> opcode = OP_CHECKMULTISIGVERIFY
      then ebind (op_checkmultisig lib checker flags sigversion fRequireMinimal opcode (pbegincodehash st) s (nOpCount st))
             (\<lambda>(s, nOps). Inr (st\<lparr>main_stack := s, nOpCount := nOps\<rparr>))
      else set_error SCRIPT_ERR_BAD_OPCODE)"

definition disabled_opcodes :: "byte list" where
  "disabled_opcodes =
     [OP_CAT, OP_SUBSTR, OP_LEFT, OP_RIGHT, OP_INVERT, OP_AND, OP_OR, OP_XOR, OP_2MUL, OP_2DIV, OP_MUL, OP_DIV, OP_MOD, OP_LSHIFT, OP_RSHIFT]"

definition eval_step ::
  "script_lib \<Rightarrow> BaseSignatureChecker \<Rightarrow> u32 \<Rightarrow> SigVersion \<Rightarrow> u32 \<Rightarrow> byte \<Rightarrow> valtype \<Rightarrow> bytes \<Rightarrow> eval_state \<Rightarrow> script_fault + eval_state" where
  "eval_step lib checker flags sigversion opcode_pos opcode vchPushValue rest st =
     (let fExec = all_true (vfExec st) in
      if length vchPushValue > MAX_SCRIPT_ELEMENT_SIZE then set_error SCRIPT_ERR_PUSH_SIZE
      else let count = (sigversion = BASE \<or> sigversion = WITNESS_V0) \<and> opcode > OP_16;
               st = (if count then st\<lparr>nOpCount := nOpCount st + 1\<rparr> else st)
           in if count \<and> nOpCount st > MAX_OPS_PER_SCRIPT then set_error SCRIPT_ERR_OP_COUNT
              else if opcode \<in> set disabled_opcodes then set_error SCRIPT_ERR_DISABLED_OPCODE
              else if opcode = OP_CODESEPARATOR \<and> sigversion = BASE \<and> flag flags SCRIPT_VERIFY_CONST_SCRIPTCODE
              then set_error SCRIPT_ERR_OP_CODESEPARATOR
              else ebind
                (if fExec \<and> opcode \<le> OP_PUSHDATA4
                 then ebind (if flag flags SCRIPT_VERIFY_MINIMALDATA then asserted (CheckMinimalPush vchPushValue opcode) else Inr True) (\<lambda>minimal.
                        if \<not> minimal then set_error SCRIPT_ERR_MINIMALDATA
                        else Inr (st\<lparr>main_stack := vchPushValue # main_stack st\<rparr>))
                 else if fExec \<or> OP_IF \<le> opcode \<and> opcode \<le> OP_ENDIF
                 then eval_op lib checker flags sigversion opcode_pos opcode fExec rest st
                 else Inr st) (\<lambda>st.
                if length (main_stack st) + length (alt_stack st) > MAX_STACK_SIZE then set_error SCRIPT_ERR_STACK_SIZE
                else Inr st))"

function eval_loop ::
  "script_lib \<Rightarrow> BaseSignatureChecker \<Rightarrow> u32 \<Rightarrow> SigVersion \<Rightarrow> bytes \<Rightarrow> u32 \<Rightarrow> eval_state \<Rightarrow> script_fault + eval_state" where
  "eval_loop lib checker flags sigversion pc opcode_pos st =
     (if pc = [] then Inr st
      else case GetScriptOp pc of
        (False, _) \<Rightarrow> set_error SCRIPT_ERR_BAD_OPCODE
      | (True, opcode, vchPushValue, rest) \<Rightarrow>
          ebind (eval_step lib checker flags sigversion opcode_pos opcode vchPushValue rest st)
            (eval_loop lib checker flags sigversion rest (opcode_pos + 1)))"
  by pat_completeness auto
termination
  by (relation "measure (\<lambda>(lib, checker, flags, sigversion, pc, opcode_pos, st). length pc)")
    (auto dest!: sym [THEN GetScriptOp_shorter] GetScriptOp_shorter)

declare eval_loop.simps [simp del]

text \<open>The exceptions are caught; \<^verbatim>\<open>serror\<close> has been set to \<^verbatim>\<open>SCRIPT_ERR_UNKNOWN_ERROR\<close> before the loop.\<close>

definition catch :: "script_fault \<Rightarrow> script_fault" where
  "catch e = (case e of Failed err \<Rightarrow> Failed err | Undefined \<Rightarrow> Undefined | AssertFailed \<Rightarrow> AssertFailed | _ \<Rightarrow> Failed SCRIPT_ERR_UNKNOWN_ERROR)"

definition eval_start :: "CScript \<Rightarrow> ScriptExecutionData \<Rightarrow> valtype list \<Rightarrow> eval_state" where
  "eval_start script ed s =
     \<lparr>main_stack = s, alt_stack = [], vfExec = cs_new, nOpCount = 0, pbegincodehash = script,
      execdata = ed\<lparr>m_codeseparator_pos := 0xffffffff, m_codeseparator_pos_init := True\<rparr>\<rparr>"

definition EvalScript ::
  "script_lib \<Rightarrow> BaseSignatureChecker \<Rightarrow> u32 \<Rightarrow> SigVersion \<Rightarrow> valtype list \<Rightarrow> CScript \<Rightarrow> ScriptExecutionData \<Rightarrow>
     script_fault + valtype list \<times> ScriptExecutionData" where
  "EvalScript lib checker flags sigversion s script ed =
     (if \<not> (sigversion = BASE \<or> sigversion = WITNESS_V0 \<or> sigversion = TAPSCRIPT) then Inl AssertFailed
      else if (sigversion = BASE \<or> sigversion = WITNESS_V0) \<and> length script > MAX_SCRIPT_SIZE then set_error SCRIPT_ERR_SCRIPT_SIZE
      else ebind (map_sum catch id (eval_loop lib checker flags sigversion script 0 (eval_start script ed s))) (\<lambda>st.
        if \<not> cs_empty (vfExec st) then set_error SCRIPT_ERR_UNBALANCED_CONDITIONAL
        else Inr (main_stack st, execdata st)))"

section \<open>Type safety and bounds\<close>

text \<open>
  \<open>good P r\<close>: the computation ends neither with an access outside of a stack nor with undefined
  behaviour nor with a failed assertion, and a result satisfies \<open>P\<close>. The rules compute the condition backwards.
\<close>

definition good :: "('a \<Rightarrow> bool) \<Rightarrow> script_fault + 'a \<Rightarrow> bool" where
  "good P r = (case r of Inr x \<Rightarrow> P x | Inl e \<Rightarrow> e \<noteq> BadAccess \<and> e \<noteq> Undefined \<and> e \<noteq> AssertFailed)"

lemma good_simps [simp]:
  "good P (Inr x) = P x" "good P (Inl e) = (e \<noteq> BadAccess \<and> e \<noteq> Undefined \<and> e \<noteq> AssertFailed)"
  "good P (if b then z else z') = (if b then good P z else good P z')"
  by (auto simp: good_def)

lemma good_ebind [simp]: "good P (ebind r f) = good (\<lambda>x. good P (f x)) r"
  by (cases r) (auto simp: good_def)

lemma good_map_sum [simp]: "good P (map_sum id g r) = good (\<lambda>x. P (g x)) r"
  by (cases r) (auto simp: good_def)

lemma good_mono: "good Q r \<Longrightarrow> (\<And>x. Q x \<Longrightarrow> P x) \<Longrightarrow> good P r"
  by (auto simp: good_def split: sum.splits)

lemma good_stack [simp]:
  "good Q (stacktop n s) \<longleftrightarrow> 0 < n \<and> n \<le> length s \<and> Q (s ! (n - 1))"
  "good P (popstack s) \<longleftrightarrow> s \<noteq> [] \<and> P (tl s)"
  "good P (erase_at n s) \<longleftrightarrow> 0 < n \<and> n \<le> length s \<and> P (take (n - 1) s @ drop n s)"
  "good P (insert_at n v s) \<longleftrightarrow> n \<le> length s \<and> P (take n s @ v # drop n s)"
  "good Q (stack_back s) \<longleftrightarrow> s \<noteq> [] \<and> Q (hd s)"
  "good P (swap_at i j s) \<longleftrightarrow> 0 < i \<and> i \<le> length s \<and> 0 < j \<and> j \<le> length s \<and> P (s[i - 1 := s ! (j - 1), j - 1 := s ! (i - 1)])"
  by (auto simp: stacktop_def popstack_def erase_at_def insert_at_def stack_back_def swap_at_def split: list.splits)

lemma good_popstacks [simp]: "good P (popstacks n s) \<longleftrightarrow> n \<le> length s \<and> P (drop n s)"
  by (induction n arbitrary: s) (auto simp: neq_Nil_conv drop_Suc, (case_tac s; auto)+)

lemma good_asserted [simp]: "good P (asserted r) \<longleftrightarrow> (\<exists>x. r = Some x \<and> P x)"
  by (auto simp: asserted_def split: option.splits)

lemma good_int64_result [simp]: "good P (int64_result n) \<longleftrightarrow> fits_int64 n \<and> P n"
  by (auto simp: int64_result_def)

text \<open>Operands of four bytes have less than 32 bits.\<close>

lemma set_vch_small:
  assumes "length vch \<le> 4"
  shows "\<bar>set_vch vch\<bar> < 2147483648"
proof (cases vch rule: rev_cases)
  case Nil
  then show ?thesis by (simp add: set_vch_def)
next
  case (snoc xs b)
  have "le_val (xs @ [take_bit 7 b]) < 256 ^ length xs * Suc (unat b mod 128)"
    using le_val_less [of xs] by (simp add: le_val_snoc unat_byte_7f)
  also have "\<dots> \<le> 256 ^ 3 * 128"
    using assms snoc by (intro mult_mono power_increasing) (simp_all add: Suc_le_eq)
  finally show ?thesis using set_vch_snoc [of xs b] assms snoc by simp
qed

lemma good_num_operand: "(\<And>x. n \<le> 4 \<Longrightarrow> \<bar>x\<bar> < 2147483648 \<Longrightarrow> P x) \<Longrightarrow> n \<le> 4 \<Longrightarrow> good P (num_operand m n vch)"
  using set_vch_small [of vch] by (auto simp: num_operand_def CScriptNum_def)

lemma good_num_operand_any: "(\<And>x. P x) \<Longrightarrow> good P (num_operand m n vch)"
  by (auto simp: num_operand_def CScriptNum_def)

lemma length_scriptnum_serialize: "length (scriptnum_serialize n) \<le> 9"
  using length_abs_bytes by (auto simp: scriptnum_serialize_def Let_def intro: order_trans [OF diff_le_self] order_trans [OF length_abs_bytes])

definition elems_ok :: "valtype list \<Rightarrow> bool" where
  "elems_ok s \<longleftrightarrow> (\<forall>v \<in> set s. length v \<le> MAX_SCRIPT_ELEMENT_SIZE)"

lemma elems_ok_simps [simp]:
  "elems_ok []" "elems_ok (v # s) \<longleftrightarrow> length v \<le> MAX_SCRIPT_ELEMENT_SIZE \<and> elems_ok s" "elems_ok (s @ t) \<longleftrightarrow> elems_ok s \<and> elems_ok t"
  by (auto simp: elems_ok_def)

lemma elems_ok_parts [simp]:
  "elems_ok s \<Longrightarrow> elems_ok (tl s)" "elems_ok s \<Longrightarrow> elems_ok (drop n s)" "elems_ok s \<Longrightarrow> elems_ok (take n s)"
  "elems_ok s \<Longrightarrow> i < length s \<Longrightarrow> length (s ! i) \<le> MAX_SCRIPT_ELEMENT_SIZE"
  "elems_ok s \<Longrightarrow> length v \<le> MAX_SCRIPT_ELEMENT_SIZE \<Longrightarrow> elems_ok (s[i := v])"
  by (auto simp: elems_ok_def dest: in_set_dropD in_set_takeD list.set_sel(2) set_update_subset_insert [THEN subsetD])
    (metis list.set_sel(2) tl_Nil list.sel(2))

lemma small_elems [simp]:
  "length (scriptnum_serialize n) \<le> MAX_SCRIPT_ELEMENT_SIZE" "length vchTrue \<le> MAX_SCRIPT_ELEMENT_SIZE"
  "length vchFalse \<le> MAX_SCRIPT_ELEMENT_SIZE"
  using length_scriptnum_serialize [of n] by (simp_all add: MAX_SCRIPT_ELEMENT_SIZE_def vchTrue_def vchFalse_def)

definition lib_ok :: "script_lib \<Rightarrow> bool" where
  "lib_ok lib \<longleftrightarrow> (\<forall>v. length (RIPEMD160 lib v) = 20 \<and> length (SHA1 lib v) = 20 \<and> length (SHA256 lib v) = 32 \<and> length (BLAKE3 lib v) = 32)"

lemma good_ops:
  assumes "elems_ok s"
  shows "good elems_ok (op_checklocktime checker flags m s)" "good elems_ok (op_checksequence checker flags m s)"
    "good elems_ok (op_verify s)" "good elems_ok (stack_op_many opcode s)" "good elems_ok (op_equal opcode s)"
    "good elems_ok (op_within m s)"
  using assms
  by (auto simp: op_checklocktime_def op_checksequence_def op_verify_def stack_op_many_def op_equal_def op_within_def
    Let_def Suc_le_eq intro!: good_num_operand_any)

lemma good_op_if: "elems_ok s \<Longrightarrow> good (\<lambda>(s, cs). elems_ok s) (op_if flags sigversion opcode fExec s cs)"
  by (auto simp: op_if_def Let_def Suc_le_eq)

lemma good_op_altstack: "elems_ok s \<Longrightarrow> elems_ok alt \<Longrightarrow> good (\<lambda>(s, alt). elems_ok s \<and> elems_ok alt) (op_altstack opcode s alt)"
  by (auto simp: op_altstack_def Suc_le_eq)

lemma good_stack_op_one: "elems_ok s \<Longrightarrow> good elems_ok (stack_op_one m opcode s)"
  by (auto simp: stack_op_one_def Let_def Suc_le_eq intro!: good_num_operand_any)

lemma good_op_crypto: "lib_ok lib \<Longrightarrow> elems_ok s \<Longrightarrow> good elems_ok (op_crypto lib opcode s)"
  by (auto simp: op_crypto_def Let_def lib_ok_def MAX_SCRIPT_ELEMENT_SIZE_def Suc_le_eq)

lemma good_op_unary:
  "elems_ok s \<Longrightarrow> opcode \<in> {OP_1ADD, OP_1SUB, OP_NEGATE, OP_ABS, OP_NOT, OP_0NOTEQUAL} \<Longrightarrow> good elems_ok (op_unary m opcode s)"
  by (auto simp: op_unary_def nDefaultMaxNumSize_def scriptnum_add_assign_def scriptnum_sub_assign_def scriptnum_neg_def int_limits Suc_le_eq
    intro!: good_num_operand)

lemma good_binary_value:
  "\<bar>a\<bar> < 2147483648 \<Longrightarrow> \<bar>b\<bar> < 2147483648 \<Longrightarrow> opcode = OP_ADD \<or> opcode = OP_SUB \<or> OP_BOOLAND \<le> opcode \<and> opcode \<le> OP_MAX \<Longrightarrow>
     good (\<lambda>_. True) (binary_value opcode a b)"
proof -
  assume small: "\<bar>a\<bar> < 2147483648" "\<bar>b\<bar> < 2147483648"
    and "opcode = OP_ADD \<or> opcode = OP_SUB \<or> OP_BOOLAND \<le> opcode \<and> opcode \<le> OP_MAX"
  then have "opcode \<in> {147, 148, 154, 155, 156, 157, 158, 159, 160, 161, 162, 163, 164}"
    by (simp add: word_le_nat_alt word_unat_eq_iff) presburger
  then show ?thesis using small by (auto simp: binary_value_def int_limits)
qed

lemma good_op_binary:
  "elems_ok s \<Longrightarrow> opcode = OP_ADD \<or> opcode = OP_SUB \<or> OP_BOOLAND \<le> opcode \<and> opcode \<le> OP_MAX \<Longrightarrow> good elems_ok (op_binary m opcode s)"
  by (auto simp: op_binary_def Let_def nDefaultMaxNumSize_def Suc_le_eq intro!: good_num_operand good_mono [OF good_binary_value])

text \<open>What evaluation relies on: execution data that has been filled in, and a checker that returns.\<close>

definition ed_ready :: "ScriptExecutionData \<Rightarrow> bool" where
  "ed_ready ed \<longleftrightarrow> m_tapleaf_hash_init ed \<and> m_codeseparator_pos_init ed \<and> m_annex_init ed \<and> m_validation_weight_left_init ed"

definition checker_ok :: "SigVersion \<Rightarrow> BaseSignatureChecker \<Rightarrow> bool" where
  "checker_ok sigversion checker \<longleftrightarrow>
     (if sigversion = TAPSCRIPT
      then \<forall>sig key ed. length key = 32 \<longrightarrow> ed_ready ed \<longrightarrow> good ed_ready (CheckSchnorrSignature checker sig key TAPSCRIPT ed)
      else if sigversion = TAPROOT
      then \<forall>sig key ed. length key = 32 \<longrightarrow> m_annex_init ed \<longrightarrow> good (\<lambda>_. True) (CheckSchnorrSignature checker sig key TAPROOT ed)
      else \<forall>sig key code. good (\<lambda>_. True) (CheckECDSASignature checker sig key code sigversion))"

lemma good_encodings [simp]:
  "good P (CheckPubKeyEncoding flags sigversion key) \<longleftrightarrow> (CheckPubKeyEncoding flags sigversion key = Inr () \<longrightarrow> P ())"
  "good P (CheckSignatureEncoding lib flags sig) \<longleftrightarrow> (CheckSignatureEncoding lib flags sig = Inr () \<longrightarrow> P ())"
  by (auto simp: CheckPubKeyEncoding_def CheckSignatureEncoding_def IsLowDERSignature_def)

lemma checker_okD:
  "checker_ok sv checker \<Longrightarrow> sv = BASE \<or> sv = WITNESS_V0 \<Longrightarrow> good (\<lambda>_. True) (CheckECDSASignature checker sig key code sv)"
  "checker_ok TAPSCRIPT checker \<Longrightarrow> length key = 32 \<Longrightarrow> ed_ready ed \<Longrightarrow> good ed_ready (CheckSchnorrSignature checker sig key TAPSCRIPT ed)"
  "checker_ok TAPROOT checker \<Longrightarrow> length key = 32 \<Longrightarrow> m_annex_init ed \<Longrightarrow> good (\<lambda>_. True) (CheckSchnorrSignature checker sig key TAPROOT ed)"
  unfolding checker_ok_def by (auto split: if_splits)

lemma good_EvalChecksigPreTapscript:
  assumes "checker_ok sigversion checker" "sigversion = BASE \<or> sigversion = WITNESS_V0"
  shows "good (\<lambda>_. True) (EvalChecksigPreTapscript lib checker flags sigversion sig key code)"
proof -
  note E = checker_okD(1) [OF assms(1,2)]
  obtain code' found where "(if sigversion = BASE then FindAndDelete code (push_data [] sig) else (code, 0)) = (code', found)"
    by (rule prod.exhaust)
  then show ?thesis using assms(2) E [of sig key code'] by (simp add: EvalChecksigPreTapscript_def)
qed

lemma good_EvalChecksigTapscript:
  assumes "checker_ok TAPSCRIPT checker" "ed_ready ed"
  shows "good (\<lambda>(success, ed). ed_ready ed) (EvalChecksigTapscript checker flags TAPSCRIPT sig key ed)"
proof -
  have "ed_ready (ed\<lparr>m_validation_weight_left := w\<rparr>)" for w using assms(2) by (simp add: ed_ready_def)
  then show ?thesis using assms(2) checker_okD(2) [OF assms(1)]
    by (simp add: EvalChecksigTapscript_def Let_def) (simp add: ed_ready_def)
qed

lemma good_EvalChecksig:
  assumes "checker_ok sigversion checker" "sigversion \<noteq> TAPROOT" "sigversion = TAPSCRIPT \<longrightarrow> ed_ready ed"
  shows "good (\<lambda>(success, ed'). sigversion = TAPSCRIPT \<longrightarrow> ed_ready ed') (EvalChecksig lib checker flags sigversion sig key code ed)"
  using assms good_EvalChecksigPreTapscript [OF assms(1)] good_EvalChecksigTapscript [of checker ed]
  by (cases sigversion) (auto simp: EvalChecksig_def)

lemma good_op_checksig:
  assumes "checker_ok sigversion checker" "sigversion \<noteq> TAPROOT" "sigversion = TAPSCRIPT \<longrightarrow> ed_ready ed" "elems_ok s"
  shows "good (\<lambda>(s, ed'). elems_ok s \<and> (sigversion = TAPSCRIPT \<longrightarrow> ed_ready ed'))
      (op_checksig lib checker flags sigversion opcode code s ed)"
    "good (\<lambda>(s, ed'). elems_ok s \<and> (sigversion = TAPSCRIPT \<longrightarrow> ed_ready ed'))
      (op_checksigadd lib checker flags sigversion m code s ed)"
  using assms(4)
  by (auto simp: op_checksig_def op_checksigadd_def Let_def Suc_le_eq nDefaultMaxNumSize_def int_limits
    intro!: good_num_operand good_mono [OF good_EvalChecksig [OF assms(1-3)]])

lemma good_multisig_delete:
  "isig + n \<le> Suc (length s) \<Longrightarrow> 0 < isig \<Longrightarrow> good (\<lambda>_. True) (multisig_delete flags sigversion s isig n code)"
proof (induction n arbitrary: isig code)
  case (Suc n)
  then show ?case by (auto split: prod.splits)
qed simp

lemma good_multisig_check:
  assumes "checker_ok sigversion checker" "sigversion = BASE \<or> sigversion = WITNESS_V0"
  shows "0 < isig \<Longrightarrow> 0 < ikey \<Longrightarrow> int isig + nSigs \<le> int (length s) + 1 \<Longrightarrow> int ikey + nKeys \<le> int (length s) + 1 \<Longrightarrow>
    nSigs \<le> nKeys \<Longrightarrow> good (\<lambda>_. True) (multisig_check lib checker flags sigversion code s isig ikey nSigs nKeys)"
proof (induction "nat nKeys" arbitrary: isig ikey nSigs nKeys rule: less_induct)
  case less
  show ?case
  proof (cases "nSigs > 0")
    case True
    have rec: "good (\<lambda>_. True) (multisig_check lib checker flags sigversion code s (if fOk then isig + 1 else isig) (ikey + 1)
        (if fOk then nSigs - 1 else nSigs) (nKeys - 1))"
      if "\<not> (if fOk then nSigs - 1 else nSigs) > nKeys - 1" for fOk
      using that True less.prems by (intro less.hyps) (auto split: if_splits)
    have "good (\<lambda>fOk. good (\<lambda>_. True) (if (if fOk then nSigs - 1 else nSigs) > nKeys - 1 then Inr False
        else multisig_check lib checker flags sigversion code s (if fOk then isig + 1 else isig) (ikey + 1)
          (if fOk then nSigs - 1 else nSigs) (nKeys - 1))) (CheckECDSASignature checker sig key code sigversion)" for sig key
      by (rule good_mono [OF checker_okD(1) [OF assms]]) (use rec in simp)
    then show ?thesis using True less.prems by (subst multisig_check.simps) (simp add: Suc_le_eq)
  next
    case False
    then show ?thesis by (subst multisig_check.simps) simp
  qed
qed

lemma good_multisig_cleanup: "n \<le> length s \<Longrightarrow> good (\<lambda>s'. s' = drop n s) (multisig_cleanup flags fSuccess n ikey2 s)"
proof (induction n arbitrary: s ikey2)
  case (Suc n)
  from Suc.prems obtain v t where "s = v # t" by (cases s) auto
  then show ?case using Suc by (auto simp: Suc_le_eq)
qed simp

lemma good_multisig_finish: "elems_ok s \<Longrightarrow> good elems_ok (multisig_finish flags opcode fSuccess s)"
  by (auto simp: multisig_finish_def Let_def Suc_le_eq)

lemma good_op_checkmultisig:
  assumes "checker_ok sigversion checker" "sigversion \<noteq> TAPROOT" "elems_ok s" "0 \<le> nOps"
  shows "good (\<lambda>(s, n). elems_ok s \<and> 0 \<le> n \<and> n \<le> MAX_OPS_PER_SCRIPT) (op_checkmultisig lib checker flags sigversion m opcode code s nOps)"
proof -
  have num: "good P (num_operand m nDefaultMaxNumSize v)" if "\<And>x. P x" for P v using that by (rule good_num_operand_any)
  show ?thesis
  proof (cases "sigversion = TAPSCRIPT")
    case False
    then have sv: "sigversion = BASE \<or> sigversion = WITNESS_V0" using assms(2) by (cases sigversion) auto
    show ?thesis using assms(3,4) False
      by (auto simp: op_checkmultisig_def Let_def Suc_le_eq
        intro!: num good_mono [OF good_multisig_delete] good_mono [OF good_multisig_check [OF assms(1) sv]]
          good_mono [OF good_multisig_cleanup] good_mono [OF good_multisig_finish]) (cases s; simp)
  qed (simp add: op_checkmultisig_def)
qed

definition state_ok :: "SigVersion \<Rightarrow> eval_state \<Rightarrow> bool" where
  "state_ok sigversion st \<longleftrightarrow>
     elems_ok (main_stack st) \<and> elems_ok (alt_stack st) \<and> (sigversion = TAPSCRIPT \<longrightarrow> ed_ready (execdata st)) \<and>
     (sigversion \<noteq> TAPSCRIPT \<longrightarrow> 0 \<le> nOpCount st \<and> nOpCount st \<le> MAX_OPS_PER_SCRIPT)"

lemma good_if: "(b \<Longrightarrow> good P x) \<Longrightarrow> (\<not> b \<Longrightarrow> good P y) \<Longrightarrow> good P (if b then x else y)"
  by simp

lemma good_error: "good P (set_error e)"
  by simp

lemma good_toggles: "\<not> cs_empty cs \<Longrightarrow> good (\<lambda>_. True) (toggle_top cs)" "\<not> cs_empty cs \<Longrightarrow> good (\<lambda>_. True) (cs_pop_back cs)"
  by (auto simp: cs_empty_def toggle_top_def cs_pop_back_def Let_def word_neq_0_conv)

lemma good_on_stack:
  assumes "state_ok sigversion st" "good elems_ok r"
  shows "good (state_ok sigversion) (ebind r (\<lambda>s. Inr (st\<lparr>main_stack := s\<rparr>)))"
  using good_mono [OF assms(2)] assms(1) by (auto simp: state_ok_def)

lemma good_on_conditions:
  assumes "state_ok sigversion st" "good (\<lambda>_. True) r"
  shows "good (state_ok sigversion) (ebind r (\<lambda>cs. Inr (st\<lparr>vfExec := cs\<rparr>)))"
  using good_mono [OF assms(2)] assms(1) by (auto simp: state_ok_def)

lemma good_eval_op:
  assumes lib: "lib_ok lib" and ck: "checker_ok sigversion checker" and sv: "sigversion \<noteq> TAPROOT" and st: "state_ok sigversion st"
  shows "good (state_ok sigversion) (eval_op lib checker flags sigversion pos opcode fExec rest st)"
proof -
  have s: "elems_ok (main_stack st)" "elems_ok (alt_stack st)" and ed: "sigversion = TAPSCRIPT \<longrightarrow> ed_ready (execdata st)"
    using st by (simp_all add: state_ok_def)
  have sig: "good (state_ok sigversion) (ebind r (\<lambda>(s, ed). Inr (st\<lparr>main_stack := s, execdata := ed\<rparr>)))"
    if "good (\<lambda>(s, ed'). elems_ok s \<and> (sigversion = TAPSCRIPT \<longrightarrow> ed_ready ed')) r" for r
    using good_mono [OF that] st by (auto simp: state_ok_def split_beta)
  have multi: "good (state_ok sigversion) (ebind (op_checkmultisig lib checker flags sigversion m opcode code (main_stack st) (nOpCount st))
      (\<lambda>(s, n). Inr (st\<lparr>main_stack := s, nOpCount := n\<rparr>)))" for m code
  proof (cases "sigversion = TAPSCRIPT")
    case False
    then have "0 \<le> nOpCount st" using st by (simp add: state_ok_def)
    from good_mono [OF good_op_checkmultisig [OF ck sv s(1) this]] show ?thesis using st by (auto simp: state_ok_def split_beta)
  qed (simp add: op_checkmultisig_def)
  have cond: "good (state_ok sigversion) (ebind (op_if flags sigversion opcode fExec (main_stack st) (vfExec st))
      (\<lambda>(s, cs). Inr (st\<lparr>main_stack := s, vfExec := cs\<rparr>)))"
    using good_mono [OF good_op_if [OF s(1)]] st by (auto simp: state_ok_def split_beta)
  have alt: "good (state_ok sigversion) (ebind (op_altstack opcode (main_stack st) (alt_stack st))
      (\<lambda>(s, alt). Inr (st\<lparr>main_stack := s, alt_stack := alt\<rparr>)))"
    using good_mono [OF good_op_altstack [OF s]] st by (auto simp: state_ok_def split_beta)
  have number: "good elems_ok (Inr (op_push_number opcode (main_stack st)))" using s(1) by (simp add: op_push_number_def)
  have sep: "good (state_ok sigversion) (Inr (st\<lparr>pbegincodehash := rest, execdata := (execdata st)\<lparr>m_codeseparator_pos := pos\<rparr>\<rparr>))"
    "good (state_ok sigversion) (Inr st)"
    using st by (auto simp: state_ok_def ed_ready_def)
  show ?thesis
    unfolding eval_op_def Let_def
    by (intro good_if good_error sep cond alt multi sig good_op_checksig [OF ck sv ed s(1)]
      good_on_conditions [OF st] good_toggles good_on_stack [OF st] number good_ops [OF s(1)] good_stack_op_one [OF s(1)]
      good_op_unary [OF s(1)] good_op_binary [OF s(1)] good_op_crypto [OF lib s(1)])
qed

definition within_limits :: "SigVersion \<Rightarrow> eval_state \<Rightarrow> bool" where
  "within_limits sigversion st \<longleftrightarrow> state_ok sigversion st \<and> length (main_stack st) + length (alt_stack st) \<le> MAX_STACK_SIZE"

lemma good_push:
  assumes st: "state_ok sigversion st" and "length v \<le> MAX_SCRIPT_ELEMENT_SIZE" "opcode \<le> OP_PUSHDATA4"
  shows "good (state_ok sigversion) (ebind (if m then asserted (CheckMinimalPush v opcode) else Inr True) (\<lambda>minimal.
      if \<not> minimal then set_error SCRIPT_ERR_MINIMALDATA else Inr (st\<lparr>main_stack := v # main_stack st\<rparr>)))"
  using assms by (auto simp: CheckMinimalPush_def state_ok_def)

lemma good_eval_step:
  assumes lib: "lib_ok lib" and ck: "checker_ok sigversion checker" and sv: "sigversion \<noteq> TAPROOT" and st: "state_ok sigversion st"
  shows "good (within_limits sigversion) (eval_step lib checker flags sigversion pos opcode v rest st)"
proof -
  let ?count = "(sigversion = BASE \<or> sigversion = WITNESS_V0) \<and> opcode > OP_16"
  let ?st = "if ?count then st\<lparr>nOpCount := nOpCount st + 1\<rparr> else st"
  let ?run = "if all_true (vfExec st) \<and> opcode \<le> OP_PUSHDATA4
      then ebind (if flag flags SCRIPT_VERIFY_MINIMALDATA then asserted (CheckMinimalPush v opcode) else Inr True) (\<lambda>minimal.
        if \<not> minimal then set_error SCRIPT_ERR_MINIMALDATA else Inr (?st\<lparr>main_stack := v # main_stack ?st\<rparr>))
      else if all_true (vfExec st) \<or> OP_IF \<le> opcode \<and> opcode \<le> OP_ENDIF
      then eval_op lib checker flags sigversion pos opcode (all_true (vfExec st)) rest ?st
      else Inr ?st"
  have main: "good (within_limits sigversion) (ebind ?run (\<lambda>st. if length (main_stack st) + length (alt_stack st) > MAX_STACK_SIZE
        then set_error SCRIPT_ERR_STACK_SIZE else Inr st))"
    if "\<not> length v > MAX_SCRIPT_ELEMENT_SIZE" "\<not> (?count \<and> nOpCount ?st > MAX_OPS_PER_SCRIPT)"
  proof -
    have st': "state_ok sigversion ?st" using st that(2) by (auto simp: state_ok_def)
    have v: "length v \<le> MAX_SCRIPT_ELEMENT_SIZE" using that(1) by simp
    have "good (state_ok sigversion) ?run"
      by (intro good_if good_push [OF st' v] good_eval_op [OF lib ck sv st']) (use st' in auto)
    then show ?thesis unfolding good_ebind by (rule good_mono) (auto simp: within_limits_def)
  qed
  show ?thesis unfolding eval_step_def Let_def by (intro good_if good_error main)
qed

lemma good_eval_loop:
  assumes lib: "lib_ok lib" and ck: "checker_ok sigversion checker" and sv: "sigversion \<noteq> TAPROOT"
  shows "state_ok sigversion st \<Longrightarrow>
    good (\<lambda>st'. state_ok sigversion st' \<and> (within_limits sigversion st \<or> pc \<noteq> [] \<longrightarrow> within_limits sigversion st'))
      (eval_loop lib checker flags sigversion pc pos st)"
proof (induction pc arbitrary: pos st rule: length_induct)
  case (1 pc)
  obtain ok opcode v rest where op: "GetScriptOp pc = (ok, opcode, v, rest)" by (rule prod_cases4)
  show ?case
  proof (cases "pc \<noteq> [] \<and> ok")
    case True
    then have "length rest < length pc" using op GetScriptOp_shorter [of pc] by simp
    then have "good (\<lambda>st'. good (\<lambda>st''. state_ok sigversion st'' \<and> within_limits sigversion st'')
        (eval_loop lib checker flags sigversion rest (pos + 1) st')) (eval_step lib checker flags sigversion pos opcode v rest st)"
      using 1 by (intro good_mono [OF good_eval_step [OF lib ck sv 1(2)]]) (auto simp: within_limits_def intro: good_mono)
    then show ?thesis using True op by (subst eval_loop.simps) (auto intro: good_mono)
  next
    case False
    then show ?thesis using op 1(2) by (subst eval_loop.simps) auto
  qed
qed

section \<open>Flags only restrict\<close>

definition fewer_flags :: "u32 \<Rightarrow> u32 \<Rightarrow> bool" where
  "fewer_flags f g \<longleftrightarrow> f AND g = f"

lemma flag_mono: "fewer_flags f g \<Longrightarrow> flag f b \<Longrightarrow> flag g b"
proof -
  assume "fewer_flags f g" "flag f b"
  then have "f AND (g AND b) \<noteq> 0" by (simp add: fewer_flags_def flag_def and.assoc [symmetric])
  then show "flag g b" by (auto simp: flag_def)
qed

text \<open>\<open>accepts r r'\<close>: whenever the strict run \<open>r\<close> succeeds, the lax run \<open>r'\<close> succeeds with the same result.\<close>

definition accepts :: "script_fault + 'a \<Rightarrow> script_fault + 'a \<Rightarrow> bool" where
  "accepts r r' \<longleftrightarrow> (\<forall>x. r = Inr x \<longrightarrow> r' = Inr x)"

lemma accepts_refl: "accepts r r"
  by (simp add: accepts_def)

lemma accepts_error: "accepts (set_error e) r"
  by (simp add: accepts_def)

lemma accepts_ebind: "accepts r r' \<Longrightarrow> (\<And>x. accepts (h x) (h' x)) \<Longrightarrow> accepts (ebind r h) (ebind r' h')"
  by (auto simp: accepts_def ebind_Inr_iff)

lemma accepts_if: "(b \<Longrightarrow> accepts x x') \<Longrightarrow> (\<not> b \<Longrightarrow> accepts y y') \<Longrightarrow> accepts (if b then x else y) (if b then x' else y')"
  by simp

lemma accepts_check: "(b' \<Longrightarrow> b) \<Longrightarrow> accepts y y' \<Longrightarrow> accepts (if b then set_error e else y) (if b' then set_error e' else y')"
  by (auto simp: accepts_def)

lemma accepts_prod: "(\<And>a b. accepts (h a b) (h' a b)) \<Longrightarrow> accepts (case p of (a, b) \<Rightarrow> h a b) (case p of (a, b) \<Rightarrow> h' a b)"
  by (cases p) simp

lemma accepts_map_sum: "accepts r r' \<Longrightarrow> accepts (map_sum e k r) (map_sum e k r')"
  by (cases r; cases r') (auto simp: accepts_def)

lemma accepts_num: "(m' \<Longrightarrow> m) \<Longrightarrow> accepts (num_operand m n v) (num_operand m' n v)"
  by (auto simp: accepts_def num_operand_def CScriptNum_def)

lemmas accepts_intros = accepts_error accepts_ebind accepts_check accepts_num accepts_prod accepts_map_sum

lemma accepts_stack_ops:
  assumes "m' \<Longrightarrow> m"
  shows "accepts (stack_op_one m opcode s) (stack_op_one m' opcode s)" "accepts (op_unary m opcode s) (op_unary m' opcode s)"
    "accepts (op_binary m opcode s) (op_binary m' opcode s)" "accepts (op_within m s) (op_within m' s)"
  unfolding stack_op_one_def op_unary_def op_binary_def op_within_def Let_def
  by (intro accepts_if accepts_ebind accepts_num assms accepts_refl; assumption?)+

lemma accepts_encodings:
  assumes "fewer_flags f g"
  shows "accepts (CheckSignatureEncoding lib g sig) (CheckSignatureEncoding lib f sig)"
    "accepts (CheckPubKeyEncoding g sv key) (CheckPubKeyEncoding f sv key)"
  using flag_mono [OF assms]
  by (auto simp: accepts_def CheckSignatureEncoding_def CheckPubKeyEncoding_def ebind_Inr_iff split: if_splits)

lemma accepts_locktimes:
  assumes "fewer_flags f g" "m' \<Longrightarrow> m"
  shows "accepts (op_checklocktime checker g m s) (op_checklocktime checker f m' s)"
    "accepts (op_checksequence checker g m s) (op_checksequence checker f m' s)"
  using flag_mono [OF assms(1)] accepts_num [OF assms(2)]
  by (auto simp: accepts_def op_checklocktime_def op_checksequence_def ebind_Inr_iff split: if_splits)

lemma accepts_op_if:
  assumes "fewer_flags f g"
  shows "accepts (op_if g sv opcode fExec s cs) (op_if f sv opcode fExec s cs)"
  unfolding op_if_def Let_def
  by (intro accepts_if accepts_ebind accepts_check accepts_refl) (auto dest: flag_mono [OF assms])

lemma accepts_EvalChecksigPreTapscript:
  assumes "fewer_flags f g"
  shows "accepts (EvalChecksigPreTapscript lib checker g sv sig key code) (EvalChecksigPreTapscript lib checker f sv sig key code)"
  unfolding EvalChecksigPreTapscript_def Let_def
  by (intro accepts_if accepts_prod accepts_check accepts_ebind accepts_refl accepts_encodings [OF assms])
    (auto dest: flag_mono [OF assms])

lemma accepts_EvalChecksigTapscript:
  assumes "fewer_flags f g"
  shows "accepts (EvalChecksigTapscript checker g sv sig key ed) (EvalChecksigTapscript checker f sv sig key ed)"
  unfolding EvalChecksigTapscript_def Let_def
  by (intro accepts_if accepts_check accepts_ebind accepts_refl) (auto dest: flag_mono [OF assms])

lemma accepts_EvalChecksig:
  assumes "fewer_flags f g"
  shows "accepts (EvalChecksig lib checker g sv sig key code ed) (EvalChecksig lib checker f sv sig key code ed)"
  by (cases sv) (simp_all add: EvalChecksig_def accepts_map_sum accepts_refl
    accepts_EvalChecksigPreTapscript [OF assms] accepts_EvalChecksigTapscript [OF assms])

lemma accepts_op_checksig:
  assumes "fewer_flags f g" "m' \<Longrightarrow> m"
  shows "accepts (op_checksig lib checker g sv opcode code s ed) (op_checksig lib checker f sv opcode code s ed)"
    "accepts (op_checksigadd lib checker g sv m code s ed) (op_checksigadd lib checker f sv m' code s ed)"
  unfolding op_checksig_def op_checksigadd_def Let_def
  by (intro accepts_if accepts_prod accepts_ebind accepts_refl accepts_num accepts_EvalChecksig [OF assms(1)] assms(2); assumption?)+

lemma accepts_multisig_delete:
  assumes "fewer_flags f g"
  shows "accepts (multisig_delete g sv s isig n code) (multisig_delete f sv s isig n code)"
proof (induction n arbitrary: isig code)
  case (Suc n)
  show ?case unfolding multisig_delete.simps Let_def
    by (intro accepts_if accepts_prod accepts_check accepts_ebind accepts_refl Suc.IH) (auto dest: flag_mono [OF assms])
qed (simp add: accepts_refl)

lemma accepts_multisig_check:
  assumes "fewer_flags f g"
  shows "accepts (multisig_check lib checker g sv code s isig ikey nSigs nKeys) (multisig_check lib checker f sv code s isig ikey nSigs nKeys)"
proof (induction "nat nKeys" arbitrary: isig ikey nSigs nKeys rule: less_induct)
  case less
  have rec: "accepts (multisig_check lib checker g sv code s i k n (nKeys - 1)) (multisig_check lib checker f sv code s i k n (nKeys - 1))"
    if "0 < nSigs" "\<not> n > nKeys - 1" "n = nSigs - 1 \<or> n = nSigs" for i k n
    using that by (intro less) auto
  show ?case
    by (subst (1 2) multisig_check.simps)
      (intro accepts_if accepts_ebind accepts_refl accepts_encodings [OF assms] rec; auto)
qed

lemma accepts_multisig_cleanup:
  assumes "fewer_flags f g"
  shows "accepts (multisig_cleanup g ok n ikey2 s) (multisig_cleanup f ok n ikey2 s)"
proof (induction n arbitrary: ikey2 s)
  case (Suc n)
  have "accepts (if \<not> ok \<and> flag g SCRIPT_VERIFY_NULLFAIL \<and> ikey2 = 0
        then ebind (stacktop 1 s) (\<lambda>vch. if length vch \<noteq> 0 then set_error SCRIPT_ERR_SIG_NULLFAIL else Inr ()) else Inr ())
      (if \<not> ok \<and> flag f SCRIPT_VERIFY_NULLFAIL \<and> ikey2 = 0
        then ebind (stacktop 1 s) (\<lambda>vch. if length vch \<noteq> 0 then set_error SCRIPT_ERR_SIG_NULLFAIL else Inr ()) else Inr ())"
    using flag_mono [OF assms] by (auto simp: accepts_def)
  then show ?case unfolding multisig_cleanup.simps by (intro accepts_ebind accepts_refl Suc.IH)
qed (simp add: accepts_refl)

lemma accepts_multisig_finish:
  assumes "fewer_flags f g"
  shows "accepts (multisig_finish g opcode ok s) (multisig_finish f opcode ok s)"
  unfolding multisig_finish_def Let_def
  by (intro accepts_if accepts_ebind accepts_check accepts_refl) (auto dest: flag_mono [OF assms])

lemma accepts_op_checkmultisig:
  assumes "fewer_flags f g" "m' \<Longrightarrow> m"
  shows "accepts (op_checkmultisig lib checker g sv m opcode code s n) (op_checkmultisig lib checker f sv m' opcode code s n)"
  unfolding op_checkmultisig_def Let_def
  by (intro accepts_if accepts_ebind accepts_refl accepts_num accepts_multisig_delete [OF assms(1)] accepts_multisig_check [OF assms(1)]
    accepts_multisig_cleanup [OF assms(1)] accepts_multisig_finish [OF assms(1)] assms(2); assumption?)

lemma accepts_eval_op:
  assumes "fewer_flags f g"
  shows "accepts (eval_op lib checker g sv pos opcode fExec rest st) (eval_op lib checker f sv pos opcode fExec rest st)"
proof -
  have m: "flag f b \<Longrightarrow> flag g b" for b by (rule flag_mono [OF assms])
  show ?thesis
    unfolding eval_op_def Let_def
    by (intro accepts_if accepts_ebind accepts_prod accepts_refl accepts_locktimes [OF assms m] accepts_op_if [OF assms]
      accepts_stack_ops [OF m] accepts_op_checksig [OF assms m] accepts_op_checkmultisig [OF assms m] accepts_check; (assumption | erule m)?)
qed

lemma accepts_eval_step:
  assumes "fewer_flags f g"
  shows "accepts (eval_step lib checker g sv pos opcode v rest st) (eval_step lib checker f sv pos opcode v rest st)"
proof -
  have m: "flag f b \<Longrightarrow> flag g b" for b by (rule flag_mono [OF assms])
  have push: "accepts
      (ebind (if flag g SCRIPT_VERIFY_MINIMALDATA then asserted (CheckMinimalPush v opcode) else Inr True) (\<lambda>minimal.
         if \<not> minimal then set_error SCRIPT_ERR_MINIMALDATA else Inr st'))
      (ebind (if flag f SCRIPT_VERIFY_MINIMALDATA then asserted (CheckMinimalPush v opcode) else Inr True) (\<lambda>minimal.
         if \<not> minimal then set_error SCRIPT_ERR_MINIMALDATA else Inr st'))" for st' :: eval_state
    using m by (auto simp: accepts_def ebind_Inr_iff split: if_splits)
  show ?thesis
    unfolding eval_step_def Let_def
    by (intro accepts_if accepts_ebind accepts_refl accepts_eval_op [OF assms] push accepts_check) (auto dest: m)
qed

lemma accepts_eval_loop:
  assumes "fewer_flags f g"
  shows "accepts (eval_loop lib checker g sv pc pos st) (eval_loop lib checker f sv pc pos st)"
proof (induction pc arbitrary: pos st rule: length_induct)
  case (1 pc)
  obtain ok opcode v rest where op: "GetScriptOp pc = (ok, opcode, v, rest)" by (rule prod_cases4)
  show ?case
  proof (cases "pc \<noteq> [] \<and> ok")
    case True
    then have "length rest < length pc" using op GetScriptOp_shorter [of pc] by simp
    then have "accepts (eval_loop lib checker g sv rest (pos + 1) st') (eval_loop lib checker f sv rest (pos + 1) st')" for st'
      using 1 by blast
    then show ?thesis using True op
      by (subst (1 2) eval_loop.simps) (simp add: accepts_ebind [OF accepts_eval_step [OF assms]])
  next
    case False
    then show ?thesis using op by (subst (1 2) eval_loop.simps) (auto simp: accepts_refl)
  qed
qed

lemma accepts_EvalScript:
  assumes "fewer_flags f g"
  shows "accepts (EvalScript lib checker g sv s script ed) (EvalScript lib checker f sv s script ed)"
  unfolding EvalScript_def
  by (intro accepts_if accepts_ebind accepts_refl accepts_map_sum accepts_eval_loop [OF assms])

section \<open>The stack of conditions\<close>

text \<open>The conditions as a list, the innermost first.\<close>

definition cs_rel :: "bool list \<Rightarrow> ConditionStack \<Rightarrow> bool" where
  "cs_rel bs cs \<longleftrightarrow>
     length bs < unat NO_FALSE \<and> m_stack_size cs = of_nat (length bs) \<and>
     m_first_false_pos cs = (if list_all id bs then NO_FALSE else of_nat (length (takeWhile id (rev bs))))"

lemma cs_nat: "n < unat NO_FALSE \<Longrightarrow> unat (of_nat n :: u32) = n \<and> (of_nat n :: u32) \<noteq> NO_FALSE"
  by (auto simp: NO_FALSE_def unat_of_nat word_unat_eq_iff)

lemma takeWhile_rev_Cons:
  "takeWhile id (rev (b # bs)) = (if list_all id bs then (if b then rev (b # bs) else rev bs) else takeWhile id (rev bs))"
  by (auto simp: list_all_iff takeWhile_append takeWhile_eq_all_conv [THEN iffD2])

lemma takeWhile_rev_less: "\<not> list_all id bs \<Longrightarrow> length (takeWhile id (rev bs)) < length bs"
  by (metis length_rev length_takeWhile_le le_neq_implies_less list_all_iff set_rev takeWhile_eq_all_conv takeWhile_eq_take take_all_iff order_refl)

lemma cs_rel_new: "cs_rel [] cs_new"
  by (simp add: cs_rel_def cs_new_def NO_FALSE_def)

lemma cs_rel_tests: "cs_rel bs cs \<Longrightarrow> cs_empty cs \<longleftrightarrow> bs = []" "cs_rel bs cs \<Longrightarrow> all_true cs \<longleftrightarrow> list_all id bs"
proof -
  assume r: "cs_rel bs cs"
  then have "unat (of_nat (length bs) :: u32) = length bs" using cs_nat by (simp add: cs_rel_def)
  then have "(of_nat (length bs) :: u32) = 0 \<longleftrightarrow> length bs = 0" by (simp add: word_unat_eq_iff)
  then show "cs_empty cs \<longleftrightarrow> bs = []" using r by (simp add: cs_rel_def cs_empty_def)
  have "length (takeWhile id (rev bs)) < unat NO_FALSE" using r length_takeWhile_le [of id "rev bs"] by (simp add: cs_rel_def)
  from cs_nat [OF this] show "all_true cs \<longleftrightarrow> list_all id bs" using r by (simp add: cs_rel_def all_true_def)
qed

lemma cs_rel_push:
  assumes "cs_rel bs cs" "Suc (length bs) < unat NO_FALSE"
  shows "cs_rel (b # bs) (cs_push_back b cs)"
proof -
  have "length (takeWhile id (rev bs)) < unat NO_FALSE" using assms(1) length_takeWhile_le [of id "rev bs"] by (simp add: cs_rel_def)
  from cs_nat [OF this] assms show ?thesis
    by (auto simp: cs_rel_def cs_push_back_def takeWhile_rev_Cons simp del: rev.simps)
qed

lemma cs_top:
  assumes "cs_rel (b # bs) cs"
  shows "\<not> cs_empty cs" "m_stack_size cs - 1 = of_nat (length bs)" "m_stack_size cs > 0"
  using cs_rel_tests(1) [OF assms] assms by (auto simp: cs_rel_def cs_empty_def word_neq_0_conv)

lemma cs_first_eq:
  assumes "cs_rel (b # bs) cs" "\<not> list_all id (b # bs)"
  shows "m_first_false_pos cs = of_nat (length bs) \<longleftrightarrow> list_all id bs"
proof -
  let ?n = "length (takeWhile id (rev (b # bs)))"
  have n: "?n < length (b # bs)" using assms(2) by (rule takeWhile_rev_less)
  then have "?n < unat NO_FALSE" "length bs < unat NO_FALSE" using assms(1) by (simp_all add: cs_rel_def)
  then have "(of_nat ?n :: u32) = of_nat (length bs) \<longleftrightarrow> ?n = length bs" using cs_nat [of ?n] cs_nat [of "length bs"] by (simp add: word_unat_eq_iff)
  moreover have "?n = length bs \<longleftrightarrow> list_all id bs"
    using takeWhile_rev_less [of bs] assms(2) by (auto simp: takeWhile_rev_Cons simp del: rev.simps)
  ultimately show ?thesis using assms by (auto simp: cs_rel_def simp del: rev.simps)
qed

lemma cs_rel_pop:
  assumes "cs_rel (b # bs) cs"
  shows "\<exists>cs'. cs_pop_back cs = Inr cs' \<and> cs_rel bs cs'"
proof -
  have "length bs < unat NO_FALSE" using assms by (simp add: cs_rel_def)
  then show ?thesis using assms cs_top [OF assms] cs_first_eq [OF assms] cs_nat [of "length bs"]
    by (auto simp: cs_pop_back_def Let_def cs_rel_def takeWhile_rev_Cons simp del: rev.simps)
qed

lemma cs_rel_toggle:
  assumes "cs_rel (b # bs) cs"
  shows "\<exists>cs'. toggle_top cs = Inr cs' \<and> cs_rel ((\<not> b) # bs) cs'"
proof -
  have "length bs < unat NO_FALSE" "length (takeWhile id (rev bs)) < unat NO_FALSE"
    using assms length_takeWhile_le [of id "rev bs"] by (simp_all add: cs_rel_def)
  then have n: "(of_nat (length bs) :: u32) \<noteq> NO_FALSE" "(of_nat (length (takeWhile id (rev bs))) :: u32) \<noteq> NO_FALSE"
    using cs_nat by blast+
  show ?thesis
    using assms n cs_top [OF assms] cs_first_eq [OF assms]
    by (cases "list_all id bs"; cases b) (simp_all add: toggle_top_def cs_rel_def takeWhile_rev_Cons del: rev.simps)
qed

text \<open>
  The operations the interpreter uses, on a vector of booleans and on any implementation of it. The
  locale is the contract: an implementation tracks the vector as long as it is within its capacity.
\<close>

datatype cond_op = CondPush bool | CondPop | CondToggle

fun vector_cond :: "cond_op \<Rightarrow> bool list \<Rightarrow> bool list option" where
  "vector_cond (CondPush b) bs = Some (b # bs)"
| "vector_cond CondPop [] = None"
| "vector_cond CondPop (b # bs) = Some bs"
| "vector_cond CondToggle [] = None"
| "vector_cond CondToggle (b # bs) = Some ((\<not> b) # bs)"

fun vector_run :: "cond_op list \<Rightarrow> bool list \<Rightarrow> bool list option" where
  "vector_run [] bs = Some bs"
| "vector_run (x # xs) bs = Option.bind (vector_cond x bs) (vector_run xs)"

fun counter_cond :: "cond_op \<Rightarrow> ConditionStack \<Rightarrow> script_fault + ConditionStack" where
  "counter_cond (CondPush b) cs = Inr (cs_push_back b cs)"
| "counter_cond CondPop cs = cs_pop_back cs"
| "counter_cond CondToggle cs = toggle_top cs"

fun cond_run :: "(cond_op \<Rightarrow> 'c \<Rightarrow> script_fault + 'c) \<Rightarrow> cond_op list \<Rightarrow> 'c \<Rightarrow> script_fault + 'c" where
  "cond_run step [] c = Inr c"
| "cond_run step (x # xs) c = ebind (step x c) (cond_run step xs)"

locale condition_vector =
  fixes tracks :: "bool list \<Rightarrow> 'c \<Rightarrow> bool" and step :: "cond_op \<Rightarrow> 'c \<Rightarrow> script_fault + 'c" and capacity :: nat
    and new :: 'c and is_empty all_set :: "'c \<Rightarrow> bool"
  assumes new: "tracks [] new"
    and step: "tracks bs c \<Longrightarrow> Suc (length bs) < capacity \<Longrightarrow> vector_cond x bs = Some bs' \<Longrightarrow> \<exists>c'. step x c = Inr c' \<and> tracks bs' c'"
    and tests: "tracks bs c \<Longrightarrow> is_empty c \<longleftrightarrow> bs = []" "tracks bs c \<Longrightarrow> all_set c \<longleftrightarrow> list_all id bs"
begin

lemma run_tracks:
  "tracks bs c \<Longrightarrow> length bs + length xs < capacity \<Longrightarrow> vector_run xs bs = Some bs' \<Longrightarrow>
     \<exists>c'. cond_run step xs c = Inr c' \<and> tracks bs' c'"
proof (induction xs arbitrary: bs c)
  case (Cons x xs)
  then obtain bs1 where b: "vector_cond x bs = Some bs1" "vector_run xs bs1 = Some bs'" by (auto simp: bind_eq_Some_conv)
  have "\<exists>c1. step x c = Inr c1 \<and> tracks bs1 c1" using step [OF Cons.prems(1) _ b(1)] Cons.prems(2) by simp
  moreover have "length bs1 \<le> Suc (length bs)" using b(1) by (cases x; cases bs) auto
  ultimately show ?case using Cons.IH [of bs1] Cons.prems(2) b(2) by auto
qed simp

lemma run_new:
  assumes "vector_run xs [] = Some bs" "length xs < capacity"
  shows "\<exists>c. cond_run step xs new = Inr c \<and> (is_empty c \<longleftrightarrow> bs = []) \<and> (all_set c \<longleftrightarrow> list_all id bs)"
  using run_tracks [OF new _ assms(1)] assms(2) tests by fastforce

end

interpretation counters: condition_vector cs_rel counter_cond "unat NO_FALSE" cs_new cs_empty all_true
proof
  show "\<exists>c'. counter_cond x c = Inr c' \<and> cs_rel bs' c'"
    if "cs_rel bs c" "Suc (length bs) < unat NO_FALSE" "vector_cond x bs = Some bs'" for bs c x bs'
    using that cs_rel_push [OF that(1,2)] cs_rel_pop cs_rel_toggle by (cases x; cases bs) auto
qed (simp_all add: cs_rel_new cs_rel_tests)

text \<open>
  C40. The two counters of \<^verbatim>\<open>ConditionStack\<close> behave as the vector of booleans they replace: every sequence
  of pushes, pops and toggles that the vector admits runs without a failed assertion, and the tests the
  interpreter makes, whether it is empty and whether all conditions hold, have the same result.
\<close>

theorem ConditionStack_as_vector:
  assumes "vector_run xs [] = Some bs" "length xs < 4294967295"
  shows "\<exists>cs. cond_run counter_cond xs cs_new = Inr cs \<and> (cs_empty cs \<longleftrightarrow> bs = []) \<and> (all_true cs \<longleftrightarrow> list_all id bs)"
  using counters.run_new [OF assms(1)] assms(2) by (simp add: NO_FALSE_def)

theorem ConditionStack_as_vector_witness:
  "\<exists>cs. cond_run counter_cond [CondPush True, CondPush False, CondToggle, CondPush False, CondPop] cs_new = Inr cs \<and>
     \<not> cs_empty cs \<and> all_true cs"
  using ConditionStack_as_vector [of "[CondPush True, CondPush False, CondToggle, CondPush False, CondPop]" "[True, True]"] by simp

end
