(* ===== verification/SigCheck.thy ===== *)
theory SigCheck
  imports Interpreter
begin

text \<open>
  Signature hashes and the checker of transaction signatures (\<^verbatim>\<open>script/interpreter.cpp\<close>):
  what a signature commits to under the three schemes, the hashes that are computed once for a
  transaction, and the checks of lock times. A pointer to precomputed data is an option.
\<close>

section \<open>Model\<close>

definition uint256_ONE :: uint256 where
  "uint256_ONE = 1 # replicate 31 0"

subsection \<open>The original scheme\<close>

function count_separators :: "bytes \<Rightarrow> nat" where
  "count_separators it =
     (case GetScriptOp it of
        (False, _) \<Rightarrow> 0
      | (True, opcode, data, rest) \<Rightarrow> (if opcode = OP_CODESEPARATOR then 1 else 0) + count_separators rest)"
  by pat_completeness auto
termination
  by (relation "measure length") (auto dest!: sym [THEN GetScriptOp_shorter] GetScriptOp_shorter)

declare count_separators.simps [simp del]

text \<open>
  \<open>start\<close> is the script from \<^verbatim>\<open>itBegin\<close> on. A push that runs over the end of the script stops the
  loop behind its length; what follows is not written.
\<close>

function write_parts :: "bytes \<Rightarrow> bytes \<Rightarrow> bytes" where
  "write_parts start it =
     (case GetScriptOp it of
        (False, opcode, data, rest) \<Rightarrow> (if start \<noteq> [] then take (length start - length rest) start else [])
      | (True, opcode, data, rest) \<Rightarrow>
          if opcode = OP_CODESEPARATOR
          then take (length start - length rest - 1) start @ write_parts rest rest
          else write_parts start rest)"
  by pat_completeness auto
termination
  by (relation "measure (\<lambda>(start, it). length it)") (auto dest!: sym [THEN GetScriptOp_shorter] GetScriptOp_shorter)

declare write_parts.simps [simp del]

definition SerializeScriptCode :: "CScript \<Rightarrow> bytes" where
  "SerializeScriptCode scriptCode =
     WriteCompactSize (of_nat (length scriptCode - count_separators scriptCode)) @ write_parts scriptCode scriptCode"

record CTransactionSignatureSerializer =
  txTo :: CTransaction
  scriptCode :: CScript
  nIn :: nat
  fAnyoneCanPay :: bool
  fHashSingle :: bool
  fHashNone :: bool

definition signature_serializer :: "CTransaction \<Rightarrow> CScript \<Rightarrow> nat \<Rightarrow> int \<Rightarrow> CTransactionSignatureSerializer" where
  "signature_serializer txToIn scriptCodeIn nInIn nHashTypeIn =
     \<lparr>txTo = txToIn, scriptCode = scriptCodeIn, nIn = nInIn,
      fAnyoneCanPay = nHashTypeIn AND uint SIGHASH_ANYONECANPAY \<noteq> 0,
      fHashSingle = nHashTypeIn AND 0x1f = uint SIGHASH_SINGLE,
      fHashNone = nHashTypeIn AND 0x1f = uint SIGHASH_NONE\<rparr>"

definition SerializeInput :: "CTransactionSignatureSerializer \<Rightarrow> nat \<Rightarrow> bytes" where
  "SerializeInput t nInput =
     (let nInput = (if fAnyoneCanPay t then nIn t else nInput);
          txin = vin (txTo t) ! nInput
      in ser_COutPoint (prevout txin) @
         (if nInput \<noteq> nIn t then ser_bytevec [] else SerializeScriptCode (scriptCode t)) @
         (if nInput \<noteq> nIn t \<and> (fHashSingle t \<or> fHashNone t) then ser_int32 0 else ser_writedata32 (nSequence txin)))"

definition SerializeOutput :: "CTransactionSignatureSerializer \<Rightarrow> nat \<Rightarrow> bytes" where
  "SerializeOutput t nOutput =
     (if fHashSingle t \<and> nOutput \<noteq> nIn t then ser_CTxOut CTxOut_SetNull else ser_CTxOut (vout (txTo t) ! nOutput))"

definition signature_Serialize :: "CTransactionSignatureSerializer \<Rightarrow> bytes" where
  "signature_Serialize t =
     (let nInputs = (if fAnyoneCanPay t then 1 else length (vin (txTo t)));
          nOutputs = (if fHashNone t then 0 else if fHashSingle t then nIn t + 1 else length (vout (txTo t)))
      in ser_writedata32 (version (txTo t)) @
         WriteCompactSize (of_nat nInputs) @ concat (map (SerializeInput t) [0..<nInputs]) @
         WriteCompactSize (of_nat nOutputs) @ concat (map (SerializeOutput t) [0..<nOutputs]) @
         ser_writedata32 (nLockTime (txTo t)))"

subsection \<open>Precomputed hashes\<close>

definition GetPrevoutsSHA256 :: "script_lib \<Rightarrow> CTransaction \<Rightarrow> uint256" where
  "GetPrevoutsSHA256 lib tx = SHA256 lib (concat (map (\<lambda>txin. ser_COutPoint (prevout txin)) (vin tx)))"

definition GetSequencesSHA256 :: "script_lib \<Rightarrow> CTransaction \<Rightarrow> uint256" where
  "GetSequencesSHA256 lib tx = SHA256 lib (concat (map (\<lambda>txin. ser_writedata32 (nSequence txin)) (vin tx)))"

definition GetOutputsSHA256 :: "script_lib \<Rightarrow> CTransaction \<Rightarrow> uint256" where
  "GetOutputsSHA256 lib tx = SHA256 lib (concat (map ser_CTxOut (vout tx)))"

definition GetSpentAmountsSHA256 :: "script_lib \<Rightarrow> CTxOut list \<Rightarrow> uint256" where
  "GetSpentAmountsSHA256 lib outputs_spent = SHA256 lib (concat (map (\<lambda>txout. ser_int64 (nValue txout)) outputs_spent))"

definition GetSpentScriptsSHA256 :: "script_lib \<Rightarrow> CTxOut list \<Rightarrow> uint256" where
  "GetSpentScriptsSHA256 lib outputs_spent = SHA256 lib (concat (map (\<lambda>txout. ser_bytevec (scriptPubKey txout)) outputs_spent))"

record PrecomputedTransactionData =
  m_prevouts_single_hash :: uint256
  m_sequences_single_hash :: uint256
  m_outputs_single_hash :: uint256
  m_spent_amounts_single_hash :: uint256
  m_spent_scripts_single_hash :: uint256
  m_bip341_taproot_ready :: bool
  hashPrevouts :: uint256
  hashSequence :: uint256
  hashOutputs :: uint256
  m_bip143_segwit_ready :: bool
  m_spent_outputs :: "CTxOut list"
  m_spent_outputs_ready :: bool

definition PrecomputedTransactionData_empty :: PrecomputedTransactionData where
  "PrecomputedTransactionData_empty =
     \<lparr>m_prevouts_single_hash = uint256_zero, m_sequences_single_hash = uint256_zero, m_outputs_single_hash = uint256_zero,
      m_spent_amounts_single_hash = uint256_zero, m_spent_scripts_single_hash = uint256_zero, m_bip341_taproot_ready = False,
      hashPrevouts = uint256_zero, hashSequence = uint256_zero, hashOutputs = uint256_zero, m_bip143_segwit_ready = False,
      m_spent_outputs = [], m_spent_outputs_ready = False\<rparr>"

definition WITNESS_V1_TAPROOT_SIZE :: nat where
  "WITNESS_V1_TAPROOT_SIZE = 32"

fun uses_loop :: "(nat \<Rightarrow> CTxOut option) \<Rightarrow> CTxIn list \<Rightarrow> nat \<Rightarrow> bool \<Rightarrow> bool \<Rightarrow> bool \<times> bool" where
  "uses_loop spent [] inpos uses_bip143_segwit uses_bip341_taproot = (uses_bip143_segwit, uses_bip341_taproot)"
| "uses_loop spent (txin # ins) inpos uses_bip143_segwit uses_bip341_taproot =
     (if uses_bip143_segwit \<and> uses_bip341_taproot then (True, True)
      else if scriptWitness txin \<noteq> []
      then (case spent inpos of
              Some txout \<Rightarrow>
                if length (scriptPubKey txout) = 2 + WITNESS_V1_TAPROOT_SIZE \<and> scriptPubKey txout ! 0 = OP_1
                then uses_loop spent ins (Suc inpos) uses_bip143_segwit True
                else uses_loop spent ins (Suc inpos) True uses_bip341_taproot
            | None \<Rightarrow> uses_loop spent ins (Suc inpos) True uses_bip341_taproot)
      else uses_loop spent ins (Suc inpos) uses_bip143_segwit uses_bip341_taproot)"

definition PrecomputedTransactionData_Init ::
  "script_lib \<Rightarrow> CTransaction \<Rightarrow> CTxOut list \<Rightarrow> bool \<Rightarrow> PrecomputedTransactionData \<Rightarrow> PrecomputedTransactionData option" where
  "PrecomputedTransactionData_Init lib tx spent_outputs force d =
     (if m_spent_outputs_ready d then None
      else if spent_outputs \<noteq> [] \<and> length spent_outputs \<noteq> length (vin tx) then None
      else let ready = (spent_outputs \<noteq> []);
               d = d\<lparr>m_spent_outputs := spent_outputs, m_spent_outputs_ready := ready\<rparr>;
               (segwit, taproot) = uses_loop (\<lambda>i. if ready then Some (spent_outputs ! i) else None) (vin tx) 0 force force;
               d = (if segwit \<or> taproot
                    then d\<lparr>m_prevouts_single_hash := GetPrevoutsSHA256 lib tx, m_sequences_single_hash := GetSequencesSHA256 lib tx,
                           m_outputs_single_hash := GetOutputsSHA256 lib tx\<rparr>
                    else d);
               d = (if segwit
                    then d\<lparr>hashPrevouts := SHA256 lib (m_prevouts_single_hash d), hashSequence := SHA256 lib (m_sequences_single_hash d),
                           hashOutputs := SHA256 lib (m_outputs_single_hash d), m_bip143_segwit_ready := True\<rparr>
                    else d);
               d = (if taproot \<and> ready
                    then d\<lparr>m_spent_amounts_single_hash := GetSpentAmountsSHA256 lib spent_outputs,
                           m_spent_scripts_single_hash := GetSpentScriptsSHA256 lib spent_outputs, m_bip341_taproot_ready := True\<rparr>
                    else d)
           in Some d)"

subsection \<open>Signature hashes\<close>

definition GetHash :: "script_lib \<Rightarrow> bytes \<Rightarrow> uint256" where
  "GetHash lib ss = SHA256 lib (SHA256 lib ss)"

definition SignatureHash ::
  "script_lib \<Rightarrow> CScript \<Rightarrow> CTransaction \<Rightarrow> nat \<Rightarrow> int \<Rightarrow> CAmount \<Rightarrow> SigVersion \<Rightarrow> PrecomputedTransactionData option \<Rightarrow>
     script_fault + uint256" where
  "SignatureHash lib code tx n nHashType amount sigversion cache =
     (if \<not> n < length (vin tx) then Inl AssertFailed
      else if sigversion = WITNESS_V0
      then let cached = (\<lambda>field h. case cache of Some d \<Rightarrow> if m_bip143_segwit_ready d then field d else h | None \<Rightarrow> h);
               anyone = (nHashType AND uint SIGHASH_ANYONECANPAY \<noteq> 0);
               single = (nHashType AND 0x1f = uint SIGHASH_SINGLE);
               none = (nHashType AND 0x1f = uint SIGHASH_NONE);
               prevouts = (if \<not> anyone then cached hashPrevouts (SHA256 lib (GetPrevoutsSHA256 lib tx)) else uint256_zero);
               sequence = (if \<not> anyone \<and> \<not> single \<and> \<not> none then cached hashSequence (SHA256 lib (GetSequencesSHA256 lib tx))
                           else uint256_zero);
               outputs = (if \<not> single \<and> \<not> none then cached hashOutputs (SHA256 lib (GetOutputsSHA256 lib tx))
                          else if single \<and> n < length (vout tx) then GetHash lib (ser_CTxOut (vout tx ! n))
                          else uint256_zero)
           in Inr (GetHash lib
                (ser_writedata32 (version tx) @ ser_blob prevouts @ ser_blob sequence @
                 ser_COutPoint (prevout (vin tx ! n)) @ ser_bytevec code @ ser_int64 amount @
                 ser_writedata32 (nSequence (vin tx ! n)) @ ser_blob outputs @ ser_writedata32 (nLockTime tx) @ ser_int32 nHashType))
      else if nHashType AND 0x1f = uint SIGHASH_SINGLE \<and> n \<ge> length (vout tx) then Inr uint256_ONE
      else Inr (GetHash lib (signature_Serialize (signature_serializer tx code n nHashType) @ ser_int32 nHashType)))"

datatype MissingDataBehavior = ASSERT_FAIL | FAIL

definition HandleMissingData :: "MissingDataBehavior \<Rightarrow> script_fault + bool" where
  "HandleMissingData mdb = (case mdb of ASSERT_FAIL \<Rightarrow> Inl AssertFailed | FAIL \<Rightarrow> Inr False)"

definition TaggedHash :: "script_lib \<Rightarrow> string \<Rightarrow> bytes" where
  "TaggedHash lib tag = (let taghash = SHA256 lib (map of_char tag) in ser_blob taghash @ ser_blob taghash)"

text \<open>The hash, or nothing when the function returns false.\<close>

definition SignatureHashSchnorr ::
  "script_lib \<Rightarrow> ScriptExecutionData \<Rightarrow> CTransaction \<Rightarrow> nat \<Rightarrow> byte \<Rightarrow> SigVersion \<Rightarrow> PrecomputedTransactionData \<Rightarrow> MissingDataBehavior \<Rightarrow>
     script_fault + uint256 option \<times> ScriptExecutionData" where
  "SignatureHashSchnorr lib ed tx in_pos hash_type sigversion cache mdb =
     (if \<not> (sigversion = TAPROOT \<or> sigversion = TAPSCRIPT) then Inl AssertFailed
      else let ext_flag = (if sigversion = TAPROOT then 0 else 1 :: byte); key_version = (0 :: byte) in
        if \<not> in_pos < length (vin tx) then Inl AssertFailed
        else if \<not> (m_bip341_taproot_ready cache \<and> m_spent_outputs_ready cache)
        then ebind (HandleMissingData mdb) (\<lambda>_. Inr (None, ed))
        else let output_type = (if hash_type = 0 then SIGHASH_ALL else hash_type AND 3);
                 input_type = hash_type AND 0x80 in
          if \<not> (hash_type \<le> 0x03 \<or> hash_type \<ge> 0x81 \<and> hash_type \<le> 0x83) then Inr (None, ed)
          else if \<not> m_annex_init ed then Inl AssertFailed
          else let have_annex = m_annex_present ed;
                   spend_type = push_bit 1 ext_flag + (if have_annex then 1 else 0);
                   ss1 = TaggedHash lib ''TapSighash'' @ ser_writedata8 0 @ ser_writedata8 hash_type @
                     ser_writedata32 (version tx) @ ser_writedata32 (nLockTime tx) @
                     (if input_type \<noteq> SIGHASH_ANYONECANPAY
                      then ser_blob (m_prevouts_single_hash cache) @ ser_blob (m_spent_amounts_single_hash cache) @
                           ser_blob (m_spent_scripts_single_hash cache) @ ser_blob (m_sequences_single_hash cache)
                      else []) @
                     (if output_type = SIGHASH_ALL then ser_blob (m_outputs_single_hash cache) else []) @
                     ser_writedata8 spend_type @
                     (if input_type = SIGHASH_ANYONECANPAY
                      then ser_COutPoint (prevout (vin tx ! in_pos)) @ ser_CTxOut (m_spent_outputs cache ! in_pos) @
                           ser_writedata32 (nSequence (vin tx ! in_pos))
                      else ser_writedata32 (of_nat in_pos)) @
                     (if have_annex then ser_blob (m_annex_hash ed) else []) in
            if output_type = SIGHASH_SINGLE \<and> in_pos \<ge> length (vout tx) then Inr (None, ed)
            else let ed = (if output_type = SIGHASH_SINGLE \<and> m_output_hash ed = None
                           then ed\<lparr>m_output_hash := Some (SHA256 lib (ser_CTxOut (vout tx ! in_pos)))\<rparr> else ed);
                     ss2 = (if output_type = SIGHASH_SINGLE then ser_blob (the (m_output_hash ed)) else []) in
              if sigversion = TAPSCRIPT \<and> \<not> (m_tapleaf_hash_init ed \<and> m_codeseparator_pos_init ed) then Inl AssertFailed
              else let ss3 = (if sigversion = TAPSCRIPT
                              then ser_blob (m_tapleaf_hash ed) @ ser_writedata8 key_version @ ser_writedata32 (m_codeseparator_pos ed)
                              else [])
                   in Inr (Some (SHA256 lib (ss1 @ ss2 @ ss3)), ed))"

subsection \<open>The checker\<close>

record checker_data =
  ck_tx :: CTransaction
  ck_mdb :: MissingDataBehavior
  ck_nIn :: nat
  ck_amount :: CAmount
  ck_txdata :: "PrecomputedTransactionData option"

definition Generic_CheckECDSASignature ::
  "script_lib \<Rightarrow> checker_data \<Rightarrow> bytes \<Rightarrow> bytes \<Rightarrow> CScript \<Rightarrow> SigVersion \<Rightarrow> script_fault + bool" where
  "Generic_CheckECDSASignature lib ck vchSigIn vchPubKey code sigversion =
     (let pubkey = CPubKey_Set vchPubKey in
      if \<not> CPubKey_IsValid pubkey then Inr False
      else if vchSigIn = [] then Inr False
      else let nHashType = uint (last vchSigIn); vchSig = butlast vchSigIn in
        if sigversion = WITNESS_V0 \<and> ck_amount ck < 0 then HandleMissingData (ck_mdb ck)
        else ebind (SignatureHash lib code (ck_tx ck) (ck_nIn ck) nHashType (ck_amount ck) sigversion (ck_txdata ck)) (\<lambda>sighash.
          Inr (VerifyECDSA lib pubkey sighash vchSig)))"

definition Generic_CheckSchnorrSignature ::
  "script_lib \<Rightarrow> checker_data \<Rightarrow> bytes \<Rightarrow> bytes \<Rightarrow> SigVersion \<Rightarrow> ScriptExecutionData \<Rightarrow> script_fault + ScriptExecutionData" where
  "Generic_CheckSchnorrSignature lib ck sig pubkey_in sigversion ed =
     (if \<not> (sigversion = TAPROOT \<or> sigversion = TAPSCRIPT) then Inl AssertFailed
      else if length pubkey_in \<noteq> 32 then Inl AssertFailed
      else if length sig \<noteq> 64 \<and> length sig \<noteq> 65 then set_error SCRIPT_ERR_SCHNORR_SIG_SIZE
      else if length sig = 65 \<and> last sig = 0 then set_error SCRIPT_ERR_SCHNORR_SIG_HASHTYPE
      else let hashtype = (if length sig = 65 then last sig else 0);
               sig = (if length sig = 65 then butlast sig else sig) in
        case ck_txdata ck of
          None \<Rightarrow> ebind (HandleMissingData (ck_mdb ck)) (\<lambda>_. Inl FailedUnset)
        | Some txdata \<Rightarrow>
            ebind (SignatureHashSchnorr lib ed (ck_tx ck) (ck_nIn ck) hashtype sigversion txdata (ck_mdb ck)) (\<lambda>(r, ed).
              case r of
                None \<Rightarrow> set_error SCRIPT_ERR_SCHNORR_SIG_HASHTYPE
              | Some sighash \<Rightarrow>
                  if \<not> VerifySchnorr lib pubkey_in sighash sig then set_error SCRIPT_ERR_SCHNORR_SIG else Inr ed))"

definition Generic_CheckLockTime :: "checker_data \<Rightarrow> int \<Rightarrow> bool" where
  "Generic_CheckLockTime ck n =
     (let txLockTime = nLockTime (ck_tx ck) in
      if \<not> (txLockTime < LOCKTIME_THRESHOLD \<and> n < uint LOCKTIME_THRESHOLD \<or>
            txLockTime \<ge> LOCKTIME_THRESHOLD \<and> n \<ge> uint LOCKTIME_THRESHOLD) then False
      else if n > uint txLockTime then False
      else SEQUENCE_FINAL \<noteq> nSequence (vin (ck_tx ck) ! ck_nIn ck))"

definition Generic_CheckSequence :: "checker_data \<Rightarrow> int \<Rightarrow> bool" where
  "Generic_CheckSequence ck n =
     (let txToSequence = uint (nSequence (vin (ck_tx ck) ! ck_nIn ck)) in
      if version (ck_tx ck) < 2 then False
      else if txToSequence AND uint SEQUENCE_LOCKTIME_DISABLE_FLAG \<noteq> 0 then False
      else let nLockTimeMask = uint (SEQUENCE_LOCKTIME_TYPE_FLAG OR SEQUENCE_LOCKTIME_MASK);
               txToSequenceMasked = txToSequence AND nLockTimeMask;
               nSequenceMasked = n AND nLockTimeMask
           in if \<not> (txToSequenceMasked < uint SEQUENCE_LOCKTIME_TYPE_FLAG \<and> nSequenceMasked < uint SEQUENCE_LOCKTIME_TYPE_FLAG \<or>
                     txToSequenceMasked \<ge> uint SEQUENCE_LOCKTIME_TYPE_FLAG \<and> nSequenceMasked \<ge> uint SEQUENCE_LOCKTIME_TYPE_FLAG)
              then False
              else \<not> nSequenceMasked > txToSequenceMasked)"

definition GenericTransactionSignatureChecker :: "script_lib \<Rightarrow> checker_data \<Rightarrow> BaseSignatureChecker" where
  "GenericTransactionSignatureChecker lib ck =
     \<lparr>CheckECDSASignature = Generic_CheckECDSASignature lib ck,
      CheckSchnorrSignature = Generic_CheckSchnorrSignature lib ck,
      CheckLockTime = Generic_CheckLockTime ck,
      CheckSequence = Generic_CheckSequence ck\<rparr>"

section \<open>Precomputed hashes change nothing\<close>

lemma Init_ready:
  assumes "PrecomputedTransactionData_Init lib tx spent force PrecomputedTransactionData_empty = Some d" "m_bip143_segwit_ready d"
  shows "hashPrevouts d = SHA256 lib (GetPrevoutsSHA256 lib tx)" "hashSequence d = SHA256 lib (GetSequencesSHA256 lib tx)"
    "hashOutputs d = SHA256 lib (GetOutputsSHA256 lib tx)"
  using assms
  by (auto simp: PrecomputedTransactionData_Init_def PrecomputedTransactionData_empty_def Let_def split: if_splits prod.splits)

lemma Init_taproot:
  assumes "PrecomputedTransactionData_Init lib tx spent force PrecomputedTransactionData_empty = Some d"
  shows "m_bip341_taproot_ready d \<Longrightarrow>
      m_spent_outputs d = spent \<and> length spent = length (vin tx) \<and> m_spent_outputs_ready d \<and>
      m_prevouts_single_hash d = GetPrevoutsSHA256 lib tx \<and> m_sequences_single_hash d = GetSequencesSHA256 lib tx \<and>
      m_outputs_single_hash d = GetOutputsSHA256 lib tx \<and> m_spent_amounts_single_hash d = GetSpentAmountsSHA256 lib spent \<and>
      m_spent_scripts_single_hash d = GetSpentScriptsSHA256 lib spent"
  using assms
  by (auto simp: PrecomputedTransactionData_Init_def PrecomputedTransactionData_empty_def Let_def split: if_splits prod.splits)

text \<open>A taproot spend makes the taproot hashes available.\<close>

definition taproot_spend :: "CTxIn \<Rightarrow> CTxOut \<Rightarrow> bool" where
  "taproot_spend txin txout \<longleftrightarrow>
     scriptWitness txin \<noteq> [] \<and> length (scriptPubKey txout) = 2 + WITNESS_V1_TAPROOT_SIZE \<and> scriptPubKey txout ! 0 = OP_1"

lemma uses_loop_keeps: "snd (uses_loop spent ins i seg True)"
  by (induction ins arbitrary: i seg) (auto split: option.splits)

lemma uses_loop_taproot:
  "k < length ins \<Longrightarrow> spent (i + k) = Some txout \<Longrightarrow> taproot_spend (ins ! k) txout \<Longrightarrow> snd (uses_loop spent ins i seg tap)"
proof (induction ins arbitrary: i k seg tap)
  case (Cons txin ins)
  show ?case
  proof (cases k)
    case 0
    then show ?thesis using Cons.prems by (auto simp: taproot_spend_def uses_loop_keeps)
  next
    case (Suc j)
    then have "snd (uses_loop spent ins (Suc i) seg' tap')" for seg' tap'
      using Cons.prems by (intro Cons.IH [of j]) auto
    then show ?thesis by (auto split: option.splits)
  qed
qed simp

lemma Init_taproot_ready:
  assumes "PrecomputedTransactionData_Init lib tx spent force PrecomputedTransactionData_empty = Some d"
    "k < length (vin tx)" "taproot_spend (vin tx ! k) (spent ! k)" "spent \<noteq> []"
  shows "m_bip341_taproot_ready d" "m_spent_outputs_ready d"
proof -
  have "snd (uses_loop (\<lambda>i. if spent \<noteq> [] then Some (spent ! i) else None) (vin tx) 0 force force)"
    using assms(2-4) by (intro uses_loop_taproot [of k]) auto
  then show "m_bip341_taproot_ready d" "m_spent_outputs_ready d" using assms(1,4)
    by (auto simp: PrecomputedTransactionData_Init_def PrecomputedTransactionData_empty_def Let_def split: if_splits prod.splits)
qed

section \<open>The checker returns\<close>

definition checker_data_ok :: "checker_data \<Rightarrow> bool" where
  "checker_data_ok ck \<longleftrightarrow> ck_nIn ck < length (vin (ck_tx ck)) \<and> ck_amount ck \<ge> 0"

definition taproot_ready :: "checker_data \<Rightarrow> bool" where
  "taproot_ready ck \<longleftrightarrow> (\<exists>d. ck_txdata ck = Some d \<and> m_bip341_taproot_ready d \<and> m_spent_outputs_ready d)"

lemma good_SignatureHashSchnorr:
  assumes "in_pos < length (vin tx)" "m_bip341_taproot_ready d" "m_spent_outputs_ready d"
  shows "ed_ready ed \<Longrightarrow> good (\<lambda>(r, ed'). ed_ready ed') (SignatureHashSchnorr lib ed tx in_pos hash_type TAPSCRIPT d mdb)"
    "m_annex_init ed \<Longrightarrow> good (\<lambda>_. True) (SignatureHashSchnorr lib ed tx in_pos hash_type TAPROOT d mdb)"
  using assms by (auto simp: SignatureHashSchnorr_def Let_def ed_ready_def)

lemma generic_checker_ok:
  assumes n: "checker_data_ok ck" and "sv = TAPROOT \<or> sv = TAPSCRIPT \<longrightarrow> taproot_ready ck"
  shows "checker_ok sv (GenericTransactionSignatureChecker lib ck)"
proof -
  have ecdsa: "good (\<lambda>_. True) (Generic_CheckECDSASignature lib ck sig key code sv)" for sig key code sv
    using n by (auto simp: Generic_CheckECDSASignature_def SignatureHash_def Let_def checker_data_ok_def)
  have schnorr: "length key = 32 \<Longrightarrow> ed_ready ed \<Longrightarrow> good ed_ready (Generic_CheckSchnorrSignature lib ck sig key TAPSCRIPT ed)"
    "length key = 32 \<Longrightarrow> m_annex_init ed \<Longrightarrow> good (\<lambda>_. True) (Generic_CheckSchnorrSignature lib ck sig key TAPROOT ed)"
    if ready: "taproot_ready ck" for sig key ed
  proof -
    obtain d where d: "ck_txdata ck = Some d" "m_bip341_taproot_ready d" "m_spent_outputs_ready d"
      using ready by (auto simp: taproot_ready_def)
    have i: "ck_nIn ck < length (vin (ck_tx ck))" using n by (simp add: checker_data_ok_def)
    note hash = good_SignatureHashSchnorr [OF i d(2,3), of ed lib]
    show "length key = 32 \<Longrightarrow> ed_ready ed \<Longrightarrow> good ed_ready (Generic_CheckSchnorrSignature lib ck sig key TAPSCRIPT ed)"
      using d(1) good_mono [OF hash(1)]
      by (auto simp: Generic_CheckSchnorrSignature_def Let_def split_beta split: option.splits)
    show "length key = 32 \<Longrightarrow> m_annex_init ed \<Longrightarrow> good (\<lambda>_. True) (Generic_CheckSchnorrSignature lib ck sig key TAPROOT ed)"
      using d(1) good_mono [OF hash(2)]
      by (auto simp: Generic_CheckSchnorrSignature_def Let_def split_beta split: option.splits)
  qed
  show ?thesis using assms(2) ecdsa schnorr
    by (cases sv) (simp_all add: checker_ok_def GenericTransactionSignatureChecker_def)
qed

end
