(* ===== verification/ScriptVerify.thy ===== *)
theory ScriptVerify
  imports SigCheck
begin

text \<open>
  Verification of a spend (\<^verbatim>\<open>script/interpreter.cpp\<close>): the scripts of an input and of the output it
  spends, scripts behind a hash, witness programs of version 0 and taproot, and the count of
  signature operations in witnesses. A witness stack is a list with the bottom first, as it is
  serialized.
\<close>

section \<open>Model\<close>

definition WITNESS_V0_SCRIPTHASH_SIZE :: nat where "WITNESS_V0_SCRIPTHASH_SIZE = 32"

definition WITNESS_V0_KEYHASH_SIZE :: nat where "WITNESS_V0_KEYHASH_SIZE = 20"

abbreviation (input) TAPROOT_LEAF_MASK :: byte where "TAPROOT_LEAF_MASK \<equiv> 0xfe"

abbreviation (input) TAPROOT_LEAF_TAPSCRIPT :: byte where "TAPROOT_LEAF_TAPSCRIPT \<equiv> 0xc0"

definition TAPROOT_CONTROL_BASE_SIZE :: nat where "TAPROOT_CONTROL_BASE_SIZE = 33"

definition TAPROOT_CONTROL_NODE_SIZE :: nat where "TAPROOT_CONTROL_NODE_SIZE = 32"

definition TAPROOT_CONTROL_MAX_SIZE :: nat where
  "TAPROOT_CONTROL_MAX_SIZE = TAPROOT_CONTROL_BASE_SIZE + TAPROOT_CONTROL_NODE_SIZE * 128"

text \<open>
  Spans have the bottom first, as the witness; reading an empty one is undefined. \<^verbatim>\<open>resize(1)\<close> keeps the
  bottom of a stack, or makes an empty element.
\<close>

definition SpanPopBack :: "bytes list \<Rightarrow> script_fault + bytes \<times> bytes list" where
  "SpanPopBack s = (if s = [] then Inl Undefined else Inr (last s, butlast s))"

definition span_back :: "bytes list \<Rightarrow> script_fault + bytes" where
  "span_back s = (if s = [] then Inl Undefined else Inr (last s))"

definition span_front :: "bytes list \<Rightarrow> script_fault + bytes" where
  "span_front s = (if s = [] then Inl Undefined else Inr (hd s))"

definition resize_1 :: "valtype list \<Rightarrow> valtype list" where
  "resize_1 s = (if s = [] then [[]] else [last s])"

text \<open>The search for an operation that makes the script succeed; the result says whether there is one.\<close>

function success_scan :: "u32 \<Rightarrow> bytes \<Rightarrow> script_fault + bool" where
  "success_scan flags pc =
     (if pc = [] then Inr False
      else case GetScriptOp pc of
        (False, _) \<Rightarrow> set_error SCRIPT_ERR_BAD_OPCODE
      | (True, opcode, data, rest) \<Rightarrow>
          if IsOpSuccess opcode
          then if flag flags SCRIPT_VERIFY_DISCOURAGE_OP_SUCCESS then set_error SCRIPT_ERR_DISCOURAGE_OP_SUCCESS else Inr True
          else success_scan flags rest)"
  by pat_completeness auto
termination
  by (relation "measure (\<lambda>(flags, pc). length pc)") (auto dest!: sym [THEN GetScriptOp_shorter] GetScriptOp_shorter)

declare success_scan.simps [simp del]

definition ExecuteWitnessScript ::
  "script_lib \<Rightarrow> BaseSignatureChecker \<Rightarrow> u32 \<Rightarrow> SigVersion \<Rightarrow> valtype list \<Rightarrow> CScript \<Rightarrow> ScriptExecutionData \<Rightarrow> script_fault + unit" where
  "ExecuteWitnessScript lib checker flags sigversion stack_span exec_script ed =
     ebind (if sigversion = TAPSCRIPT then success_scan flags exec_script else Inr False) (\<lambda>success.
       if success then Inr ()
       else if sigversion = TAPSCRIPT \<and> length stack_span > MAX_STACK_SIZE then set_error SCRIPT_ERR_STACK_SIZE
       else if list_ex (\<lambda>elem. length elem > MAX_SCRIPT_ELEMENT_SIZE) stack_span then set_error SCRIPT_ERR_PUSH_SIZE
       else ebind (EvalScript lib checker flags sigversion (rev stack_span) exec_script ed) (\<lambda>(s, ed).
         if length s \<noteq> 1 then set_error SCRIPT_ERR_CLEANSTACK
         else ebind (stack_back s) (\<lambda>v. if \<not> CastToBool v then set_error SCRIPT_ERR_EVAL_FALSE else Inr ())))"

definition ComputeTapleafHash :: "script_lib \<Rightarrow> byte \<Rightarrow> bytes \<Rightarrow> uint256" where
  "ComputeTapleafHash lib leaf_version script =
     SHA256 lib (TaggedHash lib ''TapLeaf'' @ ser_writedata8 leaf_version @ WriteCompactSize (of_nat (length script)) @ script)"

fun lexicographical_compare :: "bytes \<Rightarrow> bytes \<Rightarrow> bool" where
  "lexicographical_compare a [] = False"
| "lexicographical_compare [] (y # b) = True"
| "lexicographical_compare (x # a) (y # b) = (if x < y then True else if y < x then False else lexicographical_compare a b)"

definition ComputeTapbranchHash :: "script_lib \<Rightarrow> bytes \<Rightarrow> bytes \<Rightarrow> uint256" where
  "ComputeTapbranchHash lib a b =
     SHA256 lib (TaggedHash lib ''TapBranch'' @ (if lexicographical_compare a b then a @ b else b @ a))"

definition ComputeTaprootMerkleRoot :: "script_lib \<Rightarrow> bytes \<Rightarrow> uint256 \<Rightarrow> script_fault + uint256" where
  "ComputeTaprootMerkleRoot lib control tapleaf_hash =
     (if \<not> (length control \<ge> TAPROOT_CONTROL_BASE_SIZE \<and> length control \<le> TAPROOT_CONTROL_MAX_SIZE \<and>
             (length control - TAPROOT_CONTROL_BASE_SIZE) mod TAPROOT_CONTROL_NODE_SIZE = 0) then Inl AssertFailed
      else let path_len = (length control - TAPROOT_CONTROL_BASE_SIZE) div TAPROOT_CONTROL_NODE_SIZE
           in Inr (foldl (\<lambda>k i. ComputeTapbranchHash lib k
                (take TAPROOT_CONTROL_NODE_SIZE (drop (TAPROOT_CONTROL_BASE_SIZE + TAPROOT_CONTROL_NODE_SIZE * i) control)))
                tapleaf_hash [0..<path_len]))"

definition VerifyTaprootCommitment :: "script_lib \<Rightarrow> bytes \<Rightarrow> bytes \<Rightarrow> uint256 \<Rightarrow> script_fault + bool" where
  "VerifyTaprootCommitment lib control program tapleaf_hash =
     (if \<not> length control \<ge> TAPROOT_CONTROL_BASE_SIZE \<or> \<not> length program \<ge> 32 then Inl AssertFailed
      else let p = take (TAPROOT_CONTROL_BASE_SIZE - 1) (drop 1 control); q = program
           in ebind (ComputeTaprootMerkleRoot lib control tapleaf_hash) (\<lambda>merkle_root.
                Inr (CheckTapTweak lib q p merkle_root (control ! 0 AND 1 \<noteq> 0))))"

definition verify_taproot_script ::
  "script_lib \<Rightarrow> BaseSignatureChecker \<Rightarrow> u32 \<Rightarrow> bytes list \<Rightarrow> bytes list \<Rightarrow> bytes \<Rightarrow> ScriptExecutionData \<Rightarrow> script_fault + unit" where
  "verify_taproot_script lib checker flags witness s program ed =
     ebind (SpanPopBack s) (\<lambda>(control, s). ebind (SpanPopBack s) (\<lambda>(script, s).
      if length control < TAPROOT_CONTROL_BASE_SIZE \<or> length control > TAPROOT_CONTROL_MAX_SIZE \<or>
         (length control - TAPROOT_CONTROL_BASE_SIZE) mod TAPROOT_CONTROL_NODE_SIZE \<noteq> 0
      then set_error SCRIPT_ERR_TAPROOT_WRONG_CONTROL_SIZE
      else let ed = ed\<lparr>m_tapleaf_hash := ComputeTapleafHash lib (control ! 0 AND TAPROOT_LEAF_MASK) script\<rparr>
           in ebind (VerifyTaprootCommitment lib control program (m_tapleaf_hash ed)) (\<lambda>ok.
                if \<not> ok then set_error SCRIPT_ERR_WITNESS_PROGRAM_MISMATCH
                else let ed = ed\<lparr>m_tapleaf_hash_init := True\<rparr> in
                  if control ! 0 AND TAPROOT_LEAF_MASK = TAPROOT_LEAF_TAPSCRIPT
                  then ExecuteWitnessScript lib checker flags TAPSCRIPT s script
                         (ed\<lparr>m_validation_weight_left := int (length (ser_stack witness)) + VALIDATION_WEIGHT_OFFSET,
                            m_validation_weight_left_init := True\<rparr>)
                  else if flag flags SCRIPT_VERIFY_DISCOURAGE_UPGRADABLE_TAPROOT_VERSION
                  then set_error SCRIPT_ERR_DISCOURAGE_UPGRADABLE_TAPROOT_VERSION
                  else Inr ())))"

definition verify_taproot ::
  "script_lib \<Rightarrow> BaseSignatureChecker \<Rightarrow> u32 \<Rightarrow> bytes list \<Rightarrow> bytes \<Rightarrow> script_fault + unit" where
  "verify_taproot lib checker flags witness program =
     (if \<not> flag flags SCRIPT_VERIFY_TAPROOT then Inr ()
      else if length witness = 0 then set_error SCRIPT_ERR_WITNESS_PROGRAM_WITNESS_EMPTY
      else ebind (if length witness \<ge> 2 then map_sum id (\<lambda>v. v \<noteq> [] \<and> v ! 0 = ANNEX_TAG) (span_back witness) else Inr False) (\<lambda>annex.
           ebind (if annex
                  then ebind (SpanPopBack witness) (\<lambda>(annex, s).
                         Inr (s, ScriptExecutionData_init\<lparr>m_annex_hash := SHA256 lib (ser_bytevec annex), m_annex_present := True\<rparr>))
                  else Inr (witness, ScriptExecutionData_init\<lparr>m_annex_present := False\<rparr>)) (\<lambda>(s, ed).
           let ed = ed\<lparr>m_annex_init := True\<rparr>
           in if length s = 1
              then ebind (span_front s) (\<lambda>sig. ebind (CheckSchnorrSignature checker sig program TAPROOT ed) (\<lambda>_. Inr ()))
              else verify_taproot_script lib checker flags witness s program ed)))"

definition VerifyWitnessProgram ::
  "script_lib \<Rightarrow> BaseSignatureChecker \<Rightarrow> u32 \<Rightarrow> bytes list \<Rightarrow> int \<Rightarrow> bytes \<Rightarrow> bool \<Rightarrow> script_fault + unit" where
  "VerifyWitnessProgram lib checker flags witness witversion program is_p2sh =
     (if witversion = 0
      then if length program = WITNESS_V0_SCRIPTHASH_SIZE
           then if length witness = 0 then set_error SCRIPT_ERR_WITNESS_PROGRAM_WITNESS_EMPTY
                else ebind (SpanPopBack witness) (\<lambda>(exec_script, s).
                  if SHA256 lib exec_script \<noteq> program then set_error SCRIPT_ERR_WITNESS_PROGRAM_MISMATCH
                  else ExecuteWitnessScript lib checker flags WITNESS_V0 s exec_script ScriptExecutionData_init)
           else if length program = WITNESS_V0_KEYHASH_SIZE
           then if length witness \<noteq> 2 then set_error SCRIPT_ERR_WITNESS_PROGRAM_MISMATCH
                else let exec_script = push_opcode (push_opcode (push_data (push_opcode (push_opcode [] OP_DUP) OP_HASH160) program)
                           OP_EQUALVERIFY) OP_CHECKSIG
                     in ExecuteWitnessScript lib checker flags WITNESS_V0 witness exec_script ScriptExecutionData_init
           else set_error SCRIPT_ERR_WITNESS_PROGRAM_WRONG_LENGTH
      else if witversion = 1 \<and> length program = WITNESS_V1_TAPROOT_SIZE \<and> \<not> is_p2sh
      then verify_taproot lib checker flags witness program
      else if \<not> is_p2sh \<and> IsPayToAnchor_program witversion program then Inr ()
      else if flag flags SCRIPT_VERIFY_DISCOURAGE_UPGRADABLE_WITNESS_PROGRAM
      then set_error SCRIPT_ERR_DISCOURAGE_UPGRADABLE_WITNESS_PROGRAM
      else Inr ())"

text \<open>
  The witness program of a script, if it has one, is verified; the result is whether it has one.
  \<open>malleated\<close> is the error when the input script is not the one that is allowed.
\<close>

definition verify_program ::
  "script_lib \<Rightarrow> BaseSignatureChecker \<Rightarrow> u32 \<Rightarrow> bytes list \<Rightarrow> CScript \<Rightarrow> bool \<Rightarrow> ScriptError \<Rightarrow> bool \<Rightarrow> script_fault + bool" where
  "verify_program lib checker flags witness script allowed malleated is_p2sh =
     (if flag flags SCRIPT_VERIFY_WITNESS
      then ebind (asserted (IsWitnessProgram script)) (\<lambda>wp.
             case wp of
               None \<Rightarrow> Inr False
             | Some (witnessversion, witnessprogram) \<Rightarrow>
                 if \<not> allowed then set_error malleated
                 else ebind (VerifyWitnessProgram lib checker flags witness witnessversion witnessprogram is_p2sh) (\<lambda>_. Inr True))
      else Inr False)"

definition eval_true ::
  "script_lib \<Rightarrow> BaseSignatureChecker \<Rightarrow> u32 \<Rightarrow> valtype list \<Rightarrow> CScript \<Rightarrow> script_fault + valtype list" where
  "eval_true lib checker flags s script =
     ebind (EvalScript lib checker flags BASE s script ScriptExecutionData_init) (\<lambda>(s, ed).
       if s = [] then set_error SCRIPT_ERR_EVAL_FALSE
       else ebind (stack_back s) (\<lambda>v. if CastToBool v = False then set_error SCRIPT_ERR_EVAL_FALSE else Inr s))"

definition verify_p2sh ::
  "script_lib \<Rightarrow> BaseSignatureChecker \<Rightarrow> u32 \<Rightarrow> CScript \<Rightarrow> CScript \<Rightarrow> bytes list \<Rightarrow> valtype list \<Rightarrow> valtype list \<Rightarrow> bool \<Rightarrow>
     script_fault + valtype list \<times> bool" where
  "verify_p2sh lib checker flags sig_script pub_script witness stackCopy s hadWitness =
     (if flag flags SCRIPT_VERIFY_P2SH \<and> IsPayToScriptHash pub_script
      then if \<not> IsPushOnly sig_script then set_error SCRIPT_ERR_SIG_PUSHONLY
           else if stackCopy = [] then Inl AssertFailed
           else ebind (stack_back stackCopy) (\<lambda>pubKey2. ebind (popstack stackCopy) (\<lambda>s.
             ebind (eval_true lib checker flags s pubKey2) (\<lambda>s.
             ebind (verify_program lib checker flags witness pubKey2 (sig_script = push_data [] pubKey2)
                      SCRIPT_ERR_WITNESS_MALLEATED_P2SH True) (\<lambda>wrapped.
               Inr (if wrapped then resize_1 s else s, hadWitness \<or> wrapped)))))
      else Inr (s, hadWitness))"

definition verify_rest :: "u32 \<Rightarrow> bytes list \<Rightarrow> valtype list \<Rightarrow> bool \<Rightarrow> script_fault + unit" where
  "verify_rest flags witness s hadWitness =
     (if flag flags SCRIPT_VERIFY_CLEANSTACK \<and> \<not> (flag flags SCRIPT_VERIFY_P2SH \<and> flag flags SCRIPT_VERIFY_WITNESS) then Inl AssertFailed
      else if flag flags SCRIPT_VERIFY_CLEANSTACK \<and> length s \<noteq> 1 then set_error SCRIPT_ERR_CLEANSTACK
      else if flag flags SCRIPT_VERIFY_WITNESS \<and> \<not> flag flags SCRIPT_VERIFY_P2SH then Inl AssertFailed
      else if flag flags SCRIPT_VERIFY_WITNESS \<and> \<not> hadWitness \<and> witness \<noteq> [] then set_error SCRIPT_ERR_WITNESS_UNEXPECTED
      else Inr ())"

definition VerifyScript ::
  "script_lib \<Rightarrow> BaseSignatureChecker \<Rightarrow> u32 \<Rightarrow> CScript \<Rightarrow> CScript \<Rightarrow> bytes list \<Rightarrow> script_fault + unit" where
  "VerifyScript lib checker flags sig_script pub_script witness =
     (if flag flags SCRIPT_VERIFY_SIGPUSHONLY \<and> \<not> IsPushOnly sig_script then set_error SCRIPT_ERR_SIG_PUSHONLY
      else ebind (EvalScript lib checker flags BASE [] sig_script ScriptExecutionData_init) (\<lambda>(stackCopy, ed).
           ebind (eval_true lib checker flags stackCopy pub_script) (\<lambda>s.
           ebind (verify_program lib checker flags witness pub_script (length sig_script = 0) SCRIPT_ERR_WITNESS_MALLEATED False) (\<lambda>hadWitness.
           ebind (verify_p2sh lib checker flags sig_script pub_script witness stackCopy (if hadWitness then resize_1 s else s) hadWitness)
             (\<lambda>(s, hadWitness). verify_rest flags witness s hadWitness)))))"

subsection \<open>Signature operations\<close>

definition WitnessSigOps :: "int \<Rightarrow> bytes \<Rightarrow> bytes list \<Rightarrow> u32 option" where
  "WitnessSigOps witversion witprogram witness =
     (if witversion = 0 \<and> length witprogram = WITNESS_V0_KEYHASH_SIZE then Some 1
      else if witversion = 0 \<and> length witprogram = WITNESS_V0_SCRIPTHASH_SIZE \<and> length witness > 0
      then case span_back witness of Inr subscript \<Rightarrow> GetSigOpCount subscript True | Inl _ \<Rightarrow> None
      else Some 0)"

lemma GetScriptOp_moves: "GetScriptOp pc = (ok, opcode, data, rest) \<Longrightarrow> pc \<noteq> [] \<Longrightarrow> length rest < length pc"
  by (auto simp: GetScriptOp_def read_push_def split: list.splits if_splits)

function last_data :: "bytes \<Rightarrow> bytes \<Rightarrow> bytes" where
  "last_data pc data =
     (if pc = [] then data else case GetScriptOp pc of (ok, opcode, data, rest) \<Rightarrow> last_data rest data)"
  by pat_completeness auto
termination
  by (relation "measure (\<lambda>(pc, data). length pc)") (auto dest!: sym [THEN GetScriptOp_moves] GetScriptOp_moves)

declare last_data.simps [simp del]

definition CountWitnessSigOps :: "CScript \<Rightarrow> CScript \<Rightarrow> bytes list \<Rightarrow> u32 \<Rightarrow> script_fault + nat" where
  "CountWitnessSigOps sig_script pub_script witness flags =
     (if \<not> flag flags SCRIPT_VERIFY_WITNESS then Inr 0
      else if \<not> flag flags SCRIPT_VERIFY_P2SH then Inl AssertFailed
      else ebind (asserted (IsWitnessProgram pub_script)) (\<lambda>wp.
        case wp of
          Some (witnessversion, witnessprogram) \<Rightarrow> map_sum id unat (asserted (WitnessSigOps witnessversion witnessprogram witness))
        | None \<Rightarrow>
            if IsPayToScriptHash pub_script \<and> IsPushOnly sig_script
            then ebind (asserted (IsWitnessProgram (last_data sig_script []))) (\<lambda>wp.
                   case wp of
                     Some (witnessversion, witnessprogram) \<Rightarrow> map_sum id unat (asserted (WitnessSigOps witnessversion witnessprogram witness))
                   | None \<Rightarrow> Inr 0)
            else Inr 0))"

section \<open>Spans that are not empty\<close>

lemma span_simps [simp]:
  "s \<noteq> [] \<Longrightarrow> SpanPopBack s = Inr (last s, butlast s)" "s \<noteq> [] \<Longrightarrow> span_back s = Inr (last s)" "s \<noteq> [] \<Longrightarrow> span_front s = Inr (hd s)"
  "stack_back (v # t) = Inr v" "length (resize_1 t) = 1"
  by (simp_all add: SpanPopBack_def span_back_def span_front_def stack_back_def resize_1_def)

definition has_annex :: "bytes list \<Rightarrow> bool" where
  "has_annex witness \<longleftrightarrow> length witness \<ge> 2 \<and> last witness \<noteq> [] \<and> last witness ! 0 = ANNEX_TAG"

lemma verify_taproot_cases:
  "verify_taproot lib checker flags witness program =
     (if \<not> flag flags SCRIPT_VERIFY_TAPROOT then Inr ()
      else if length witness = 0 then set_error SCRIPT_ERR_WITNESS_PROGRAM_WITNESS_EMPTY
      else let s = (if has_annex witness then butlast witness else witness);
               ed = (if has_annex witness
                     then ScriptExecutionData_init\<lparr>m_annex_hash := SHA256 lib (ser_bytevec (last witness)), m_annex_present := True, m_annex_init := True\<rparr>
                     else ScriptExecutionData_init\<lparr>m_annex_present := False, m_annex_init := True\<rparr>)
           in if length s = 1
              then ebind (CheckSchnorrSignature checker (hd s) program TAPROOT ed) (\<lambda>_. Inr ())
              else verify_taproot_script lib checker flags witness s program ed)"
proof (cases "witness = []")
  case False
  then have ne: "butlast witness \<noteq> []" if "has_annex witness" using that by (cases witness rule: rev_cases) (auto simp: has_annex_def)
  show ?thesis
  proof (cases "has_annex witness")
    case True
    then have "length witness \<ge> 2" "last witness \<noteq> []" "last witness ! 0 = ANNEX_TAG" by (simp_all add: has_annex_def)
    then show ?thesis using False True ne by (simp add: verify_taproot_def Let_def)
  next
    case no: False
    then show ?thesis using False by (cases "length witness \<ge> 2") (auto simp: verify_taproot_def Let_def has_annex_def)
  qed
qed (simp add: verify_taproot_def)

section \<open>Flags only restrict\<close>

definition flags_wf :: "u32 \<Rightarrow> bool" where
  "flags_wf f \<longleftrightarrow>
     (flag f SCRIPT_VERIFY_WITNESS \<longrightarrow> flag f SCRIPT_VERIFY_P2SH) \<and>
     (flag f SCRIPT_VERIFY_CLEANSTACK \<longrightarrow> flag f SCRIPT_VERIFY_P2SH \<and> flag f SCRIPT_VERIFY_WITNESS)"

lemma accepts_unit: "accepts r (Inr ())"
  by (simp add: accepts_def)

lemma accepts_success_scan:
  assumes "fewer_flags f g"
  shows "accepts (success_scan g pc) (success_scan f pc)"
proof (induction pc rule: length_induct)
  case (1 pc)
  obtain ok opcode v rest where op: "GetScriptOp pc = (ok, opcode, v, rest)" by (rule prod_cases4)
  have "accepts (success_scan g rest) (success_scan f rest)" if "ok" "pc \<noteq> []"
    using that 1 op GetScriptOp_shorter [of pc] by auto
  then show ?case using op flag_mono [OF assms]
    unfolding success_scan.simps [of _ pc] by (cases ok) (auto simp: accepts_def)
qed

lemma accepts_ExecuteWitnessScript:
  assumes "fewer_flags f g"
  shows "accepts (ExecuteWitnessScript lib checker g sv s script ed) (ExecuteWitnessScript lib checker f sv s script ed)"
  unfolding ExecuteWitnessScript_def
  by (intro accepts_ebind accepts_if accepts_prod accepts_refl accepts_success_scan [OF assms] accepts_EvalScript [OF assms])

lemma accepts_taproot:
  assumes "fewer_flags f g"
  shows "accepts (verify_taproot lib checker g witness program) (verify_taproot lib checker f witness program)"
proof -
  have script: "accepts (verify_taproot_script lib checker g witness s program ed) (verify_taproot_script lib checker f witness s program ed)" for s ed
    unfolding verify_taproot_script_def Let_def
    by (intro accepts_ebind accepts_prod accepts_if accepts_check accepts_refl accepts_ExecuteWitnessScript [OF assms] flag_mono [OF assms]; assumption?)
  show ?thesis
  proof (cases "flag f SCRIPT_VERIFY_TAPROOT")
    case True
    then have "flag g SCRIPT_VERIFY_TAPROOT" by (rule flag_mono [OF assms])
    with True show ?thesis unfolding verify_taproot_cases Let_def
      by (simp only: not_True_eq_False if_False) (intro accepts_if accepts_ebind accepts_refl script)
  next
    case False
    then show ?thesis unfolding verify_taproot_def [of lib checker f] by (simp add: accepts_unit)
  qed
qed

lemma accepts_VerifyWitnessProgram:
  assumes "fewer_flags f g"
  shows "accepts (VerifyWitnessProgram lib checker g witness v program p2sh) (VerifyWitnessProgram lib checker f witness v program p2sh)"
  unfolding VerifyWitnessProgram_def Let_def
  by (intro accepts_if accepts_ebind accepts_prod accepts_check accepts_refl accepts_ExecuteWitnessScript [OF assms] accepts_taproot [OF assms] flag_mono [OF assms]; assumption?)

lemma accepts_verify_program:
  assumes "fewer_flags f g" "flag f SCRIPT_VERIFY_WITNESS"
  shows "accepts (verify_program lib checker g witness script allowed e p2sh) (verify_program lib checker f witness script allowed e p2sh)"
proof -
  have "accepts (case wp of None \<Rightarrow> Inr False | Some (wv, prog) \<Rightarrow> if \<not> allowed then set_error e
        else ebind (VerifyWitnessProgram lib checker g witness wv prog p2sh) (\<lambda>_. Inr True))
      (case wp of None \<Rightarrow> Inr False | Some (wv, prog) \<Rightarrow> if \<not> allowed then set_error e
        else ebind (VerifyWitnessProgram lib checker f witness wv prog p2sh) (\<lambda>_. Inr True))" for wp
    by (cases wp) (auto intro!: accepts_refl accepts_ebind accepts_VerifyWitnessProgram [OF assms(1)])
  then show ?thesis using assms(2) flag_mono [OF assms]
    by (simp add: verify_program_def) (intro accepts_ebind accepts_refl)
qed

lemma accepts_eval_true:
  assumes "fewer_flags f g"
  shows "accepts (eval_true lib checker g s script) (eval_true lib checker f s script)"
  unfolding eval_true_def by (intro accepts_ebind accepts_prod accepts_if accepts_refl accepts_EvalScript [OF assms])

lemma accepts_verify_p2sh:
  assumes "fewer_flags f g" "flag f SCRIPT_VERIFY_WITNESS" "flag f SCRIPT_VERIFY_P2SH"
  shows "accepts (verify_p2sh lib checker g ss ps witness sc s had) (verify_p2sh lib checker f ss ps witness sc s had)"
  using flag_mono [OF assms(1,3)] assms(3) unfolding verify_p2sh_def Let_def
  by (simp only: simp_thms) (intro accepts_if accepts_ebind accepts_refl accepts_eval_true [OF assms(1)] accepts_verify_program [OF assms(1,2)])

lemma verify_rest_mono:
  assumes "fewer_flags f g" "flags_wf f" "verify_rest g witness s had = Inr ()"
  shows "verify_rest f witness s had = Inr ()"
  using assms(2,3) flag_mono [OF assms(1)] by (auto simp: verify_rest_def flags_wf_def split: if_splits)

lemma VerifyScript_steps:
  "VerifyScript lib checker g ss ps witness = Inr () \<longleftrightarrow>
     (flag g SCRIPT_VERIFY_SIGPUSHONLY \<longrightarrow> IsPushOnly ss) \<and>
     (\<exists>sc ed s had s' had'. EvalScript lib checker g BASE [] ss ScriptExecutionData_init = Inr (sc, ed) \<and>
        eval_true lib checker g sc ps = Inr s \<and>
        verify_program lib checker g witness ps (length ss = 0) SCRIPT_ERR_WITNESS_MALLEATED False = Inr had \<and>
        verify_p2sh lib checker g ss ps witness sc (if had then resize_1 s else s) had = Inr (s', had') \<and>
        verify_rest g witness s' had' = Inr ())"
  by (auto simp: VerifyScript_def ebind_Inr_iff)

section \<open>Verification is type safe\<close>

lemma good_catch: "good P r \<Longrightarrow> good P (map_sum catch id r)"
  by (cases r) (auto simp: good_def catch_def split: script_fault.splits)

lemma good_EvalScript:
  assumes "lib_ok lib" "checker_ok sv checker" "sv \<noteq> TAPROOT" "elems_ok s"
    "sv = TAPSCRIPT \<longrightarrow> m_tapleaf_hash_init ed \<and> m_annex_init ed \<and> m_validation_weight_left_init ed"
  shows "good (\<lambda>(s', ed'). elems_ok s' \<and> (length s \<le> MAX_STACK_SIZE \<longrightarrow> length s' \<le> MAX_STACK_SIZE)) (EvalScript lib checker flags sv s script ed)"
proof -
  have st: "state_ok sv (eval_start script ed s)"
    using assms(4,5) by (auto simp: state_ok_def eval_start_def ed_ready_def MAX_OPS_PER_SCRIPT_def)
  have loop: "good (\<lambda>st'. state_ok sv st' \<and> (within_limits sv (eval_start script ed s) \<or> script \<noteq> [] \<longrightarrow> within_limits sv st'))
      (map_sum catch id (eval_loop lib checker flags sv script 0 (eval_start script ed s)))"
    by (rule good_catch [OF good_eval_loop [OF assms(1-3) st]])
  have "good (\<lambda>st'. good (\<lambda>(s', ed'). elems_ok s' \<and> (length s \<le> MAX_STACK_SIZE \<longrightarrow> length s' \<le> MAX_STACK_SIZE))
      (if \<not> cs_empty (vfExec st') then set_error SCRIPT_ERR_UNBALANCED_CONDITIONAL else Inr (main_stack st', execdata st')))
      (map_sum catch id (eval_loop lib checker flags sv script 0 (eval_start script ed s)))"
    by (rule good_mono [OF loop]) (use st in \<open>auto simp: within_limits_def state_ok_def eval_start_def\<close>)
  moreover have "sv = BASE \<or> sv = WITNESS_V0 \<or> sv = TAPSCRIPT" using assms(3) by (cases sv) auto
  ultimately show ?thesis unfolding EvalScript_def by (intro good_if good_error) (simp_all del: good_simps)
qed

lemma good_success_scan: "good (\<lambda>_. True) (success_scan flags pc)"
proof (induction pc rule: length_induct)
  case (1 pc)
  obtain ok opcode v rest where op: "GetScriptOp pc = (ok, opcode, v, rest)" by (rule prod_cases4)
  have "good (\<lambda>_. True) (success_scan flags rest)" if "ok" "pc \<noteq> []"
    using that 1 op GetScriptOp_shorter [of pc] by auto
  then show ?case using op unfolding success_scan.simps [of _ pc] by (cases ok) auto
qed

lemma good_ExecuteWitnessScript:
  assumes "lib_ok lib" "checker_ok sv checker" "sv \<noteq> TAPROOT"
    "sv = TAPSCRIPT \<longrightarrow> m_tapleaf_hash_init ed \<and> m_annex_init ed \<and> m_validation_weight_left_init ed"
  shows "good (\<lambda>_. True) (ExecuteWitnessScript lib checker flags sv s script ed)"
proof -
  have scan: "good P (if sv = TAPSCRIPT then success_scan flags script else Inr False)" if "\<And>b. P b" for P
    using that good_mono [OF good_success_scan] by auto
  have run: "good (\<lambda>_. True) (ebind (EvalScript lib checker flags sv (rev s) script ed) (\<lambda>(s, ed).
         if length s \<noteq> 1 then set_error SCRIPT_ERR_CLEANSTACK
         else ebind (stack_back s) (\<lambda>v. if \<not> CastToBool v then set_error SCRIPT_ERR_EVAL_FALSE else Inr ())))"
    if "\<not> list_ex (\<lambda>elem. length elem > MAX_SCRIPT_ELEMENT_SIZE) s"
  proof -
    have "elems_ok (rev s)" using that by (auto simp: elems_ok_def list_ex_iff)
    from good_EvalScript [OF assms(1-3) this assms(4)] show ?thesis unfolding good_ebind by (rule good_mono) auto
  qed
  show ?thesis unfolding ExecuteWitnessScript_def good_ebind [where f = "\<lambda>success. if success then _ else _"]
    by (rule scan) (intro good_if good_error run, simp)
qed

lemma good_VerifyTaprootCommitment:
  "\<not> (length control < TAPROOT_CONTROL_BASE_SIZE \<or> length control > TAPROOT_CONTROL_MAX_SIZE \<or>
      (length control - TAPROOT_CONTROL_BASE_SIZE) mod TAPROOT_CONTROL_NODE_SIZE \<noteq> 0) \<Longrightarrow> length program = 32 \<Longrightarrow>
   good (\<lambda>_. True) (VerifyTaprootCommitment lib control program h)"
  by (auto simp: VerifyTaprootCommitment_def ComputeTaprootMerkleRoot_def Let_def)

lemma good_verify_taproot:
  assumes lib: "lib_ok lib" and program: "length program = 32"
    and ck: "witness \<noteq> [] \<longrightarrow> checker_ok TAPROOT checker \<and> checker_ok TAPSCRIPT checker"
  shows "good (\<lambda>_. True) (verify_taproot lib checker flags witness program)"
proof (cases "witness = []")
  case False
  then have ck: "checker_ok TAPROOT checker" "checker_ok TAPSCRIPT checker" using ck by simp_all
  have script: "good (\<lambda>_. True) (verify_taproot_script lib checker flags witness s program ed)" if "m_annex_init ed" "2 \<le> length s" for s ed
  proof -
    have ne: "s \<noteq> []" "butlast s \<noteq> []" using that(2) by (cases s rule: rev_cases; auto)+
    show ?thesis using that(1)
      unfolding verify_taproot_script_def Let_def span_simps(1) [OF ne(1)] ebind_simps prod.case span_simps(1) [OF ne(2)]
      by (intro good_if good_error)
        (auto intro!: good_mono [OF good_VerifyTaprootCommitment [OF _ program]] good_ExecuteWitnessScript [OF lib ck(2)])
  qed
  have two: "2 \<le> length (if has_annex witness then butlast witness else witness)"
    if "length (if has_annex witness then butlast witness else witness) \<noteq> 1"
    using that False by (cases witness; cases "tl witness") (auto simp: has_annex_def Suc_le_eq split: if_splits)
  have key: "good (\<lambda>_. True) (ebind (CheckSchnorrSignature checker sig program TAPROOT ed) (\<lambda>_. Inr ()))" if "m_annex_init ed" for sig ed
    using checker_okD(3) [OF ck(1) program that] by simp
  show ?thesis unfolding verify_taproot_cases Let_def
    by (intro good_if good_error key script two) simp_all
qed (simp add: verify_taproot_def)

lemma good_VerifyWitnessProgram:
  assumes "lib_ok lib" "checker_ok WITNESS_V0 checker"
    "v = 1 \<and> length program = 32 \<and> \<not> p2sh \<and> witness \<noteq> [] \<longrightarrow> checker_ok TAPROOT checker \<and> checker_ok TAPSCRIPT checker"
  shows "good (\<lambda>_. True) (VerifyWitnessProgram lib checker flags witness v program p2sh)"
  unfolding VerifyWitnessProgram_def Let_def
  by (intro good_if good_error good_ExecuteWitnessScript [OF assms(1,2)] good_verify_taproot [OF assms(1)])
    (use assms(3) in \<open>auto simp: WITNESS_V1_TAPROOT_SIZE_def intro!: good_ExecuteWitnessScript [OF assms(1,2)]\<close>)

lemma IsWitnessProgram_cases:
  obtains "IsWitnessProgram script = Some None"
  | v program where "IsWitnessProgram script = Some (Some (v, program))" "length script = length program + 2"
      "v = 1 \<longrightarrow> script ! 0 = OP_1"
proof (cases "IsWitnessProgram script")
  case None
  then show ?thesis by (auto simp: IsWitnessProgram_def DecodeOP_N_def split: if_splits)
next
  case (Some r)
  show ?thesis
  proof (cases r)
    case None
    then show ?thesis using Some that(1) by simp
  next
    case (Some q)
    obtain v program where "q = (v, program)" by (cases q)
    then show ?thesis using \<open>IsWitnessProgram script = Some r\<close> Some that(2) [of v program]
      by (auto simp: IsWitnessProgram_def DecodeOP_N_def word_uint_eq_iff split: if_splits)
  qed
qed

text \<open>A script that pays to a hash does not run on an empty stack, so the stack is not empty when it is restored.\<close>

lemma p2sh_needs_stack:
  assumes "IsPayToScriptHash ps"
  shows "eval_true lib checker flags [] ps \<noteq> Inr s"
proof -
  have n: "length ps = 23" and h: "ps ! 0 = OP_HASH160" using assms by (simp_all add: IsPayToScriptHash_def)
  then obtain rest where ps: "ps = OP_HASH160 # rest" by (cases ps) auto
  have op: "GetScriptOp ps = (True, OP_HASH160, [], rest)" by (simp add: ps GetScriptOp_def)
  have "eval_op lib checker flags BASE 0 OP_HASH160 True rest st = set_error SCRIPT_ERR_INVALID_STACK_OPERATION"
    if "main_stack st = []" for st
    using that by (simp add: eval_op_def Let_def op_crypto_def OP_RETURN_def)
  then have "eval_step lib checker flags BASE 0 OP_HASH160 [] rest (eval_start ps ed []) = set_error SCRIPT_ERR_INVALID_STACK_OPERATION" for ed
    by (simp add: eval_step_def eval_start_def all_true_def cs_new_def disabled_opcodes_def Let_def MAX_OPS_PER_SCRIPT_def)
  then have "eval_loop lib checker flags BASE ps 0 (eval_start ps ed []) = set_error SCRIPT_ERR_INVALID_STACK_OPERATION" for ed
    using op by (subst eval_loop.simps) (simp add: ps)
  then show ?thesis by (simp add: eval_true_def EvalScript_def n MAX_SCRIPT_SIZE_def catch_def)
qed

lemma good_eval_true:
  assumes "lib_ok lib" "checker_ok BASE checker" "elems_ok s"
  shows "good (\<lambda>s'. elems_ok s' \<and> eval_true lib checker flags s script = Inr s') (eval_true lib checker flags s script)"
proof -
  have "good elems_ok (eval_true lib checker flags s script)"
    unfolding eval_true_def good_ebind
    by (rule good_mono [OF good_EvalScript [OF assms(1,2) _ assms(3)]]) auto
  then show ?thesis by (cases "eval_true lib checker flags s script") auto
qed

lemma good_verify_program:
  assumes "lib_ok lib" "checker_ok WITNESS_V0 checker"
    "\<not> p2sh \<and> length script = 34 \<and> script ! 0 = OP_1 \<and> witness \<noteq> [] \<longrightarrow> checker_ok TAPROOT checker \<and> checker_ok TAPSCRIPT checker"
  shows "good (\<lambda>_. True) (verify_program lib checker flags witness script allowed e p2sh)"
proof (cases script rule: IsWitnessProgram_cases)
  case (2 v program)
  then have "good (\<lambda>_. True) (VerifyWitnessProgram lib checker flags witness v program p2sh)"
    using assms(3) by (intro good_VerifyWitnessProgram [OF assms(1,2)]) auto
  then show ?thesis using 2 by (simp add: verify_program_def)
qed (simp add: verify_program_def)

lemma good_VerifyScript:
  assumes lib: "lib_ok lib" and ck: "checker_ok BASE checker" "checker_ok WITNESS_V0 checker" and wf: "flags_wf flags"
    and tap: "length ps = 34 \<and> ps ! 0 = OP_1 \<and> witness \<noteq> [] \<longrightarrow> checker_ok TAPROOT checker \<and> checker_ok TAPSCRIPT checker"
  shows "good (\<lambda>_. True) (VerifyScript lib checker flags ss ps witness)"
proof -
  have rest: "good (\<lambda>_. True) (verify_rest flags witness s had)" for s had
    using wf by (auto simp: verify_rest_def flags_wf_def)
  have p2sh: "good (\<lambda>(s, had). True) (verify_p2sh lib checker flags ss ps witness sc s had)"
    if "elems_ok sc" "eval_true lib checker flags sc ps = Inr s'" for sc s s' had
  proof -
    have ne: "sc \<noteq> []" if "IsPayToScriptHash ps"
      using p2sh_needs_stack [OF that] \<open>eval_true lib checker flags sc ps = Inr s'\<close> by auto
    have "good (\<lambda>_. True) (ebind (eval_true lib checker flags (tl sc) (hd sc)) (\<lambda>s.
        ebind (verify_program lib checker flags witness (hd sc) (ss = push_data [] (hd sc)) SCRIPT_ERR_WITNESS_MALLEATED_P2SH True) (\<lambda>wrapped.
          Inr (if wrapped then resize_1 s else s, had \<or> wrapped))))"
      unfolding good_ebind
      by (rule good_mono [OF good_eval_true [OF lib ck(1)]])
        (use that(1) in \<open>auto intro!: good_mono [OF good_verify_program [OF lib ck(2)]]\<close>)
    then show ?thesis using ne unfolding verify_p2sh_def Let_def by (intro good_if good_error) (auto simp: split_def)
  qed
  have inner: "good (\<lambda>_. True) (ebind (eval_true lib checker flags sc ps) (\<lambda>s.
      ebind (verify_program lib checker flags witness ps (length ss = 0) SCRIPT_ERR_WITNESS_MALLEATED False) (\<lambda>hadWitness.
      ebind (verify_p2sh lib checker flags ss ps witness sc (if hadWitness then resize_1 s else s) hadWitness)
        (\<lambda>(s, hadWitness). verify_rest flags witness s hadWitness))))" if sc: "elems_ok sc" for sc
    unfolding good_ebind
  proof (rule good_mono [OF good_eval_true [OF lib ck(1) sc]], elim conjE)
    fix s
    assume s: "eval_true lib checker flags sc ps = Inr s"
    show "good (\<lambda>had. good (\<lambda>p. good (\<lambda>_. True) (case p of (s, had) \<Rightarrow> verify_rest flags witness s had))
        (verify_p2sh lib checker flags ss ps witness sc (if had then resize_1 s else s) had))
        (verify_program lib checker flags witness ps (length ss = 0) SCRIPT_ERR_WITNESS_MALLEATED False)"
      by (rule good_mono [OF good_verify_program [OF lib ck(2)]])
        (use tap in \<open>auto intro!: good_mono [OF p2sh [OF sc s]] rest\<close>)
  qed
  show ?thesis unfolding VerifyScript_def good_simps(3) good_ebind [of _ "EvalScript _ _ _ _ _ _ _"]
    using good_mono [OF good_EvalScript [OF lib ck(1)]] inner by (auto intro!: good_mono [OF good_EvalScript [OF lib ck(1)]])
qed

section \<open>Paying to the hash of a key\<close>

definition p2wpkh_script :: "bytes \<Rightarrow> CScript" where
  "p2wpkh_script program = [OP_0, 20] @ program"

definition p2wpkh_code :: "bytes \<Rightarrow> CScript" where
  "p2wpkh_code program = [OP_DUP, OP_HASH160, 20] @ program @ [OP_EQUALVERIFY, OP_CHECKSIG]"

lemma eval_loop_step:
  "GetScriptOp pc = (True, opcode, v, rest) \<Longrightarrow>
   eval_loop lib checker flags sv pc pos st = ebind (eval_step lib checker flags sv pos opcode v rest st) (eval_loop lib checker flags sv rest (pos + 1))"
  by (subst eval_loop.simps) (auto simp: GetScriptOp_def)

lemma eval_loop_Nil [simp]: "eval_loop lib checker flags sv [] pos st = Inr st"
  by (subst eval_loop.simps) simp

lemma GetScriptOp_plain: "\<not> opcode \<le> OP_PUSHDATA4 \<Longrightarrow> GetScriptOp (opcode # rest) = (True, opcode, [], rest)"
  by (simp add: GetScriptOp_def)

lemma GetScriptOp_push20: "length p = 20 \<Longrightarrow> GetScriptOp (20 # p @ rest) = (True, 20, p, rest)"
  by (simp add: GetScriptOp_def read_push_def)

lemma eval_step_push:
  assumes "all_true (vfExec st)" "opcode \<le> OP_PUSHDATA4" "length v \<le> MAX_SCRIPT_ELEMENT_SIZE" "CheckMinimalPush v opcode = Some True"
    "length (main_stack st) + length (alt_stack st) < MAX_STACK_SIZE"
  shows "eval_step lib checker flags sv pos opcode v rest st = Inr (st\<lparr>main_stack := v # main_stack st\<rparr>)"
proof -
  have "\<not> opcode > OP_16" "opcode \<notin> set disabled_opcodes" "opcode \<noteq> OP_CODESEPARATOR"
    using assms(2) by (auto simp: disabled_opcodes_def word_le_nat_alt word_less_nat_alt)
  then show ?thesis using assms by (simp add: eval_step_def asserted_def)
qed

lemma eval_step_op:
  assumes "all_true (vfExec st)" "opcode > OP_16" "opcode \<notin> set disabled_opcodes" "opcode \<noteq> OP_CODESEPARATOR" "sv \<noteq> TAPSCRIPT" "sv \<noteq> TAPROOT"
    "nOpCount st < MAX_OPS_PER_SCRIPT"
  shows "eval_step lib checker flags sv pos opcode [] rest st =
    ebind (eval_op lib checker flags sv pos opcode True rest (st\<lparr>nOpCount := nOpCount st + 1\<rparr>)) (\<lambda>st.
      if length (main_stack st) + length (alt_stack st) > MAX_STACK_SIZE then set_error SCRIPT_ERR_STACK_SIZE else Inr st)"
proof -
  have "\<not> opcode \<le> OP_PUSHDATA4" using assms(2) by (auto simp: word_le_nat_alt word_less_nat_alt)
  moreover have "sv = BASE \<or> sv = WITNESS_V0" using assms(5,6) by (cases sv) auto
  ultimately show ?thesis using assms by (simp add: eval_step_def)
qed

lemma eval_p2wpkh_script:
  assumes "length program = 20"
  shows "EvalScript lib checker flags BASE [] (p2wpkh_script program) ed =
    Inr ([program, []], ed\<lparr>m_codeseparator_pos := 0xffffffff, m_codeseparator_pos_init := True\<rparr>)"
proof -
  have ops: "GetScriptOp (p2wpkh_script program) = (True, 0, [], 20 # program)" "GetScriptOp (20 # program) = (True, 20, program, [])"
    using GetScriptOp_push20 [of program "[]"] assms by (simp_all add: p2wpkh_script_def GetScriptOp_def read_push_def)
  have n: "length (p2wpkh_script program) = 22" using assms by (simp add: p2wpkh_script_def)
  show ?thesis using assms
    by (simp add: EvalScript_def eval_loop_step [OF ops(1)] eval_loop_step [OF ops(2)] eval_step_push CheckMinimalPush_def eval_start_def
      all_true_def cs_new_def cs_empty_def MAX_SCRIPT_ELEMENT_SIZE_def MAX_STACK_SIZE_def MAX_SCRIPT_SIZE_def n)
qed

lemma eval_op_DUP:
  "main_stack st = v # s \<Longrightarrow> eval_op lib checker flags sv pos OP_DUP fExec rest st = Inr (st\<lparr>main_stack := v # v # s\<rparr>)"
  by (simp add: eval_op_def Let_def OP_RETURN_def stack_op_one_def stacktop_def)

lemma eval_op_HASH160:
  "main_stack st = v # s \<Longrightarrow>
     eval_op lib checker flags sv pos OP_HASH160 fExec rest st = Inr (st\<lparr>main_stack := RIPEMD160 lib (SHA256 lib v) # s\<rparr>)"
  by (simp add: eval_op_def Let_def OP_RETURN_def op_crypto_def stacktop_def popstack_def)

lemma popstacks_2: "popstacks 2 (a # b # s) = Inr s"
  by (simp add: numeral_2_eq_2 popstack_def)

lemma eval_op_EQUALVERIFY:
  "main_stack st = a # b # s \<Longrightarrow>
     eval_op lib checker flags sv pos OP_EQUALVERIFY fExec rest st =
       (if b = a then Inr (st\<lparr>main_stack := s\<rparr>) else set_error SCRIPT_ERR_EQUALVERIFY)"
  by (simp add: eval_op_def Let_def OP_RETURN_def op_equal_def stacktop_def popstacks_2) (simp add: popstack_def)

lemma eval_op_CHECKSIG:
  assumes "main_stack st = key # sig # s" "sv = BASE \<or> sv = WITNESS_V0"
  shows "eval_op lib checker flags sv pos OP_CHECKSIG fExec rest st =
    ebind (EvalChecksigPreTapscript lib checker flags sv sig key (pbegincodehash st)) (\<lambda>ok.
      Inr (st\<lparr>main_stack := (if ok then vchTrue else vchFalse) # s\<rparr>))"
proof -
  have "EvalChecksig lib checker flags sv sig key (pbegincodehash st) (execdata st) =
      map_sum id (\<lambda>ok. (ok, execdata st)) (EvalChecksigPreTapscript lib checker flags sv sig key (pbegincodehash st))"
    using assms(2) by (auto simp: EvalChecksig_def)
  then show ?thesis using assms(1)
    by (cases "EvalChecksigPreTapscript lib checker flags sv sig key (pbegincodehash st)")
      (simp_all add: eval_op_def Let_def OP_RETURN_def op_checksig_def stacktop_def popstacks_2)
qed

lemma eval_p2wpkh_code:
  assumes p: "length program = 20" and "length (RIPEMD160 lib (SHA256 lib key)) = 20"
  shows "EvalScript lib checker flags WITNESS_V0 [key, sig] (p2wpkh_code program) ScriptExecutionData_init = Inr (s, ed) \<longleftrightarrow>
    RIPEMD160 lib (SHA256 lib key) = program \<and>
    (\<exists>ok. EvalChecksigPreTapscript lib checker flags WITNESS_V0 sig key (p2wpkh_code program) = Inr ok \<and>
       s = [if ok then vchTrue else vchFalse] \<and> ed = execdata (eval_start (p2wpkh_code program) ScriptExecutionData_init []))"
proof -
  let ?code = "p2wpkh_code program"
  let ?r3 = "[OP_EQUALVERIFY, OP_CHECKSIG]"
  let ?r2 = "20 # program @ ?r3" and ?r4 = "[OP_CHECKSIG]"
  have ops: "GetScriptOp ?code = (True, OP_DUP, [], OP_HASH160 # ?r2)" "GetScriptOp (OP_HASH160 # ?r2) = (True, OP_HASH160, [], ?r2)"
    "GetScriptOp ?r2 = (True, 20, program, ?r3)" "GetScriptOp ?r3 = (True, OP_EQUALVERIFY, [], ?r4)"
    "GetScriptOp ?r4 = (True, OP_CHECKSIG, [], [])"
    using GetScriptOp_push20 [OF p, of ?r3] by (simp_all add: p2wpkh_code_def GetScriptOp_plain)
  let ?st = "\<lambda>n s. (eval_start ?code ScriptExecutionData_init s)\<lparr>nOpCount := n\<rparr>"
  let ?h = "RIPEMD160 lib (SHA256 lib key)"
  have steps:
    "eval_step lib checker flags WITNESS_V0 pos OP_DUP [] r (?st 0 [key, sig]) = Inr (?st 1 [key, key, sig])"
    "eval_step lib checker flags WITNESS_V0 pos OP_HASH160 [] r (?st 1 [key, key, sig]) = Inr (?st 2 [?h, key, sig])"
    "eval_step lib checker flags WITNESS_V0 pos 20 program r (?st 2 [?h, key, sig]) = Inr (?st 2 [program, ?h, key, sig])"
    "eval_step lib checker flags WITNESS_V0 pos OP_EQUALVERIFY [] r (?st 2 [program, ?h, key, sig]) =
       (if ?h = program then Inr (?st 3 [key, sig]) else set_error SCRIPT_ERR_EQUALVERIFY)"
    "eval_step lib checker flags WITNESS_V0 pos OP_CHECKSIG [] r (?st 3 [key, sig]) =
       ebind (EvalChecksigPreTapscript lib checker flags WITNESS_V0 sig key ?code) (\<lambda>ok. Inr (?st 4 [if ok then vchTrue else vchFalse]))"
    for pos r
    using p assms(2)
    by (simp_all add: eval_step_op eval_step_push eval_start_def all_true_def cs_new_def disabled_opcodes_def MAX_OPS_PER_SCRIPT_def
        MAX_STACK_SIZE_def MAX_SCRIPT_ELEMENT_SIZE_def CheckMinimalPush_def eval_op_DUP eval_op_HASH160 eval_op_EQUALVERIFY)
      (cases "EvalChecksigPreTapscript lib checker flags WITNESS_V0 sig key ?code"; simp add: eval_op_CHECKSIG)
  have start: "eval_start ?code ScriptExecutionData_init [key, sig] = ?st 0 [key, sig]" by (simp add: eval_start_def)
  have loop: "eval_loop lib checker flags WITNESS_V0 ?code 0 (?st 0 [key, sig]) =
      (if ?h = program then ebind (EvalChecksigPreTapscript lib checker flags WITNESS_V0 sig key ?code)
         (\<lambda>ok. Inr (?st 4 [if ok then vchTrue else vchFalse])) else set_error SCRIPT_ERR_EQUALVERIFY)"
    unfolding eval_loop_step [OF ops(1)] steps(1) ebind_simps eval_loop_step [OF ops(2)] steps(2) eval_loop_step [OF ops(3)] steps(3)
      eval_loop_step [OF ops(4)] steps(4)
    by (cases "EvalChecksigPreTapscript lib checker flags WITNESS_V0 sig key ?code")
      (simp_all add: eval_loop_step [OF ops(5)] steps(5))
  have n: "\<not> length ?code > MAX_SCRIPT_SIZE" using p by (simp add: p2wpkh_code_def MAX_SCRIPT_SIZE_def)
  have fin: "cs_empty (vfExec (eval_start ?code ScriptExecutionData_init t))"
    "main_stack (eval_start ?code ScriptExecutionData_init t) = t"
    "execdata (eval_start ?code ScriptExecutionData_init t) = execdata (eval_start ?code ScriptExecutionData_init [])" for t
    by (simp_all add: eval_start_def cs_empty_def cs_new_def)
  show ?thesis
    unfolding EvalScript_def loop [unfolded start [symmetric]] using n
    by (cases "?h = program"; cases "EvalChecksigPreTapscript lib checker flags WITNESS_V0 sig key ?code")
      (simp_all add: fin(1,2) fin(3) [of "[_]"] eq_commute [of s] eq_commute [of ed])
qed

lemma EvalScript_Nil:
  "EvalScript lib checker flags BASE s [] ed = Inr (s, ed\<lparr>m_codeseparator_pos := 0xffffffff, m_codeseparator_pos_init := True\<rparr>)"
  by (simp add: EvalScript_def eval_start_def cs_empty_def cs_new_def MAX_SCRIPT_SIZE_def)

lemma program_steps:
  assumes flags: "flag flags SCRIPT_VERIFY_WITNESS" "flags_wf flags"
    and run: "\<And>ed. EvalScript lib checker flags BASE [] ps ed = Inr (program # s, g ed)" and p: "CastToBool program"
    and wp: "IsWitnessProgram ps = Some (Some (v, program))" and no: "\<not> IsPayToScriptHash ps"
  shows "VerifyScript lib checker flags [] ps witness = Inr () \<longleftrightarrow>
    VerifyWitnessProgram lib checker flags witness v program False = Inr ()"
proof -
  have t: "eval_true lib checker flags [] ps = Inr (program # s)" using run p by (simp add: eval_true_def)
  have "flag flags SCRIPT_VERIFY_P2SH" using flags by (simp add: flags_wf_def)
  then show ?thesis using flags(1) wp no
    by (cases "VerifyWitnessProgram lib checker flags witness v program False")
      (simp_all add: VerifyScript_def EvalScript_Nil t verify_program_def verify_p2sh_def verify_rest_def asserted_def IsPushOnly.simps)
qed

lemma EvalChecksig_V0_true:
  "EvalChecksigPreTapscript lib checker flags WITNESS_V0 sig key code = Inr True \<longleftrightarrow>
     CheckSignatureEncoding lib flags sig = Inr () \<and> CheckPubKeyEncoding flags WITNESS_V0 key = Inr () \<and>
     CheckECDSASignature checker sig key code WITNESS_V0 = Inr True"
  by (auto simp: EvalChecksigPreTapscript_def ebind_Inr_iff split: if_splits)

lemma p2wpkh_exec:
  assumes "length program = 20" "length (RIPEMD160 lib (SHA256 lib key)) = 20"
  shows "ExecuteWitnessScript lib checker flags WITNESS_V0 [sig, key] (p2wpkh_code program) ScriptExecutionData_init = Inr () \<longleftrightarrow>
    length sig \<le> MAX_SCRIPT_ELEMENT_SIZE \<and> length key \<le> MAX_SCRIPT_ELEMENT_SIZE \<and>
    RIPEMD160 lib (SHA256 lib key) = program \<and>
    EvalChecksigPreTapscript lib checker flags WITNESS_V0 sig key (p2wpkh_code program) = Inr True"
proof -
  have v: "CastToBool vchTrue" "\<not> CastToBool vchFalse"
    by (simp_all add: CastToBool_def vchTrue_def vchFalse_def)
  show ?thesis
    unfolding ExecuteWitnessScript_def
    by (auto simp: ebind_Inr_iff eval_p2wpkh_code [OF assms] v not_less split: if_splits intro!: exI [of _ "[vchTrue]"] exI [of _ vchTrue])
qed

definition p2tr_script :: "bytes \<Rightarrow> CScript" where
  "p2tr_script program = [OP_1, 32] @ program"

lemma eval_step_OP_1:
  assumes "all_true (vfExec st)" "sv \<noteq> TAPSCRIPT" "sv \<noteq> TAPROOT" "length (main_stack st) + length (alt_stack st) < MAX_STACK_SIZE"
  shows "eval_step lib checker flags sv pos OP_1 [] rest st = Inr (st\<lparr>main_stack := [1] # main_stack st\<rparr>)"
proof -
  have "sv = BASE \<or> sv = WITNESS_V0" using assms(2,3) by (cases sv) auto
  moreover have "scriptnum_serialize 1 = [1]" by code_simp
  ultimately show ?thesis using assms
    by (simp add: eval_step_def eval_op_def Let_def op_push_number_def OP_RETURN_def disabled_opcodes_def)
qed

lemma eval_p2tr_script:
  assumes "length program = 32"
  shows "EvalScript lib checker flags BASE [] (p2tr_script program) ed =
    Inr ([program, [1]], ed\<lparr>m_codeseparator_pos := 0xffffffff, m_codeseparator_pos_init := True\<rparr>)"
proof -
  have ops: "GetScriptOp (p2tr_script program) = (True, OP_1, [], 32 # program)" "GetScriptOp (32 # program) = (True, 32, program, [])"
    using assms by (simp_all add: p2tr_script_def GetScriptOp_def read_push_def)
  have n: "length (p2tr_script program) = 34" using assms by (simp add: p2tr_script_def)
  show ?thesis using assms
    by (simp add: EvalScript_def eval_loop_step [OF ops(1)] eval_loop_step [OF ops(2)] eval_step_push eval_step_OP_1 CheckMinimalPush_def eval_start_def
      all_true_def cs_new_def cs_empty_def MAX_SCRIPT_ELEMENT_SIZE_def MAX_STACK_SIZE_def MAX_SCRIPT_SIZE_def n)
qed

lemma witness_scripts:
  "length program = 20 \<Longrightarrow> IsWitnessProgram (p2wpkh_script program) = Some (Some (0, program))"
  "length program = 20 \<Longrightarrow> \<not> IsPayToScriptHash (p2wpkh_script program)"
  "length program = 32 \<Longrightarrow> IsWitnessProgram (p2tr_script program) = Some (Some (1, program))"
  "length program = 32 \<Longrightarrow> \<not> IsPayToScriptHash (p2tr_script program)"
  by (simp_all add: IsWitnessProgram_def IsPayToScriptHash_def p2wpkh_script_def p2tr_script_def DecodeOP_N_def)

lemma p2wpkh_pushes:
  "length program = 20 \<Longrightarrow>
     push_opcode (push_opcode (push_data (push_opcode (push_opcode [] OP_DUP) OP_HASH160) program) OP_EQUALVERIFY) OP_CHECKSIG = p2wpkh_code program"
  by (simp add: p2wpkh_code_def push_opcode_def push_data_def AppendDataSize_def)

text \<open>Instances on which the properties are evaluated: hash functions with results of the right length.\<close>

definition sample_lib :: script_lib where
  "sample_lib = \<lparr>RIPEMD160 = \<lambda>_. replicate 20 1, SHA1 = \<lambda>_. replicate 20 2, SHA256 = \<lambda>_. replicate 32 3, BLAKE3 = \<lambda>_. replicate 32 4,
     CheckLowS = \<lambda>_. True, VerifyECDSA = \<lambda>_ _ sig. sig = [7], VerifySchnorr = \<lambda>_ _ sig. sig = replicate 64 5, CheckTapTweak = \<lambda>_ _ _ _. True\<rparr>"

definition sample_sigs :: BaseSignatureChecker where
  "sample_sigs = \<lparr>CheckECDSASignature = \<lambda>sig _ _ _. Inr (sig = [7]), CheckSchnorrSignature = \<lambda>sig _ _ ed. Inr ed,
     CheckLockTime = \<lambda>_. True, CheckSequence = \<lambda>_. False\<rparr>"

lemma sample_ok: "lib_ok sample_lib" "checker_ok sv sample_sigs"
  by (auto simp: lib_ok_def sample_lib_def checker_ok_def sample_sigs_def)

section \<open>Properties\<close>



text \<open>
  C4. Verification of an input of a transaction fails no assertion, has no undefined behaviour (an empty witness
  or stack is never read) and, outside of script evaluation, where the exception would be caught, never pops an empty stack:
  with the data that \<^verbatim>\<open>PrecomputedTransactionData::Init\<close> computes from the spent outputs, every script,
  witness and admissible set of flags is either accepted or rejected with an error.
\<close>

theorem input_verification_safe:
  assumes "lib_ok lib" "flags_wf flags"
    and init: "PrecomputedTransactionData_Init lib tx spent force PrecomputedTransactionData_empty = Some d"
    and n: "spent \<noteq> []" "n < length (vin tx)" "nValue (spent ! n) \<ge> 0"
  shows "VerifyScript lib
      (GenericTransactionSignatureChecker lib \<lparr>ck_tx = tx, ck_mdb = mdb, ck_nIn = n, ck_amount = nValue (spent ! n), ck_txdata = Some d\<rparr>)
      flags (scriptSig (vin tx ! n)) (scriptPubKey (spent ! n)) (scriptWitness (vin tx ! n)) \<notin> {Inl BadAccess, Inl Undefined, Inl AssertFailed}"
proof -
  let ?ck = "\<lparr>ck_tx = tx, ck_mdb = mdb, ck_nIn = n, ck_amount = nValue (spent ! n), ck_txdata = Some d\<rparr>"
  have ok: "checker_data_ok ?ck" using n by (simp add: checker_data_ok_def)
  have tap: "taproot_ready ?ck"
    if "length (scriptPubKey (spent ! n)) = 34" "scriptPubKey (spent ! n) ! 0 = OP_1" "scriptWitness (vin tx ! n) \<noteq> []"
    using Init_taproot_ready [OF init n(2) _ n(1)] that by (simp add: taproot_spend_def WITNESS_V1_TAPROOT_SIZE_def taproot_ready_def)
  have "good (\<lambda>_. True) (VerifyScript lib (GenericTransactionSignatureChecker lib ?ck)
      flags (scriptSig (vin tx ! n)) (scriptPubKey (spent ! n)) (scriptWitness (vin tx ! n)))"
    by (rule good_VerifyScript [OF assms(1) generic_checker_ok [OF ok] generic_checker_ok [OF ok] assms(2)])
      (auto intro!: generic_checker_ok [OF ok] dest: tap)
  then show ?thesis by (auto simp: good_def)
qed

definition sample_spent :: CTxOut where
  "sample_spent = \<lparr>nValue = 50, scriptPubKey = p2tr_script (replicate 32 9)\<rparr>"

theorem input_verification_safe_witness:
  "\<exists>d. PrecomputedTransactionData_Init sample_lib (sample_tx [replicate 64 5]) [sample_spent] False PrecomputedTransactionData_empty = Some d \<and>
     VerifyScript sample_lib
       (GenericTransactionSignatureChecker sample_lib
         \<lparr>ck_tx = sample_tx [replicate 64 5], ck_mdb = ASSERT_FAIL, ck_nIn = 0, ck_amount = 50, ck_txdata = Some d\<rparr>)
       (SCRIPT_VERIFY_P2SH OR SCRIPT_VERIFY_WITNESS OR SCRIPT_VERIFY_TAPROOT)
       (scriptSig (vin (sample_tx [replicate 64 5]) ! 0)) (scriptPubKey sample_spent) (scriptWitness (vin (sample_tx [replicate 64 5]) ! 0))
     \<notin> {Inl BadAccess, Inl Undefined, Inl AssertFailed}"
proof -
  obtain d where d: "PrecomputedTransactionData_Init sample_lib (sample_tx [replicate 64 5]) [sample_spent] False PrecomputedTransactionData_empty = Some d"
    by (simp add: PrecomputedTransactionData_Init_def PrecomputedTransactionData_empty_def Let_def split_def sample_tx_def)
  have "flags_wf (SCRIPT_VERIFY_P2SH OR SCRIPT_VERIFY_WITNESS OR SCRIPT_VERIFY_TAPROOT)" by (simp add: flags_wf_def flag_def)
  from input_verification_safe [OF sample_ok(1) this d, of 0 ASSERT_FAIL] d show ?thesis
    by (simp add: sample_tx_def sample_spent_def)
qed

lemma sample_spend:
  "VerifyScript sample_lib sample_sigs (SCRIPT_VERIFY_P2SH OR SCRIPT_VERIFY_WITNESS OR SCRIPT_VERIFY_TAPROOT) []
     (p2tr_script (replicate 32 9)) [replicate 64 5] = Inr ()"
proof -
  have "CastToBool (replicate 32 9)" by code_simp
  then show ?thesis
    by (subst program_steps [OF _ _ eval_p2tr_script _ witness_scripts(3,4)])
      (simp_all add: flag_def flags_wf_def VerifyWitnessProgram_def WITNESS_V1_TAPROOT_SIZE_def verify_taproot_def Let_def sample_sigs_def)
qed

text \<open>
  C5. Verification flags only restrict: a spend that is accepted under some flags is accepted under every
  admissible subset of them. So a new flag is a soft fork, and transactions that pass the stricter rules of
  relay pass the rules of blocks.
\<close>

theorem flags_are_soft_forks:
  assumes fg: "fewer_flags f g" and wf: "flags_wf f" and g: "VerifyScript lib checker g ss ps witness = Inr ()"
  shows "VerifyScript lib checker f ss ps witness = Inr ()"
proof -
  obtain sc ed s had s' had' where g: "flag g SCRIPT_VERIFY_SIGPUSHONLY \<longrightarrow> IsPushOnly ss"
    "EvalScript lib checker g BASE [] ss ScriptExecutionData_init = Inr (sc, ed)" "eval_true lib checker g sc ps = Inr s"
    "verify_program lib checker g witness ps (length ss = 0) SCRIPT_ERR_WITNESS_MALLEATED False = Inr had"
    "verify_p2sh lib checker g ss ps witness sc (if had then resize_1 s else s) had = Inr (s', had')"
    "verify_rest g witness s' had' = Inr ()"
    using g unfolding VerifyScript_steps by (elim conjE exE)
  have f: "flag f SCRIPT_VERIFY_SIGPUSHONLY \<longrightarrow> IsPushOnly ss"
    "EvalScript lib checker f BASE [] ss ScriptExecutionData_init = Inr (sc, ed)" "eval_true lib checker f sc ps = Inr s"
    using g(1-3) flag_mono [OF fg] accepts_EvalScript [OF fg] accepts_eval_true [OF fg] by (auto simp: accepts_def)
  show ?thesis
  proof (cases "flag f SCRIPT_VERIFY_WITNESS")
    case True
    then have "flag f SCRIPT_VERIFY_P2SH" using wf by (simp add: flags_wf_def)
    from accepts_verify_p2sh [OF fg True this] accepts_verify_program [OF fg True] g(4,5)
    have "verify_program lib checker f witness ps (length ss = 0) SCRIPT_ERR_WITNESS_MALLEATED False = Inr had"
      "verify_p2sh lib checker f ss ps witness sc (if had then resize_1 s else s) had = Inr (s', had')"
      by (simp_all add: accepts_def)
    then show ?thesis using f verify_rest_mono [OF fg wf g(6)] by (simp add: VerifyScript_def)
  next
    case False
    then have prog: "verify_program lib checker f witness script b e p2sh = Inr False" for script b e p2sh
      by (simp add: verify_program_def)
    have rest: "verify_rest f witness t False = Inr ()" for t
      using False wf by (auto simp: verify_rest_def flags_wf_def)
    have "\<exists>t. verify_p2sh lib checker f ss ps witness sc s False = Inr (t, False)"
      using g(5) flag_mono [OF fg] accepts_eval_true [OF fg] prog
      by (auto simp: verify_p2sh_def Let_def ebind_Inr_iff accepts_def split: if_splits)
    then show ?thesis using f prog rest by (auto simp: VerifyScript_def)
  qed
qed

theorem flags_are_soft_forks_witness:
  "VerifyScript sample_lib sample_sigs SCRIPT_VERIFY_P2SH [] (p2tr_script (replicate 32 9)) [replicate 64 5] = Inr ()"
  by (rule flags_are_soft_forks [OF _ _ sample_spend]) (simp_all add: fewer_flags_def flags_wf_def flag_def)

text \<open>
  C7. A spend of an output that pays to the hash of a key is accepted exactly when the key in the witness has
  this hash and its signature passes the encoding rules and the check of signatures, which is given the
  script code of the key hash. The exceptions are a program that reads as false and a signature or key
  of more than 520 bytes.
\<close>

theorem key_hash_spend:
  assumes "lib_ok lib" "flag flags SCRIPT_VERIFY_WITNESS" "flags_wf flags" "length program = 20"
  shows "VerifyScript lib checker flags [] (p2wpkh_script program) [sig, key] = Inr () \<longleftrightarrow>
    CastToBool program \<and> length sig \<le> 520 \<and> length key \<le> 520 \<and> RIPEMD160 lib (SHA256 lib key) = program \<and>
    CheckSignatureEncoding lib flags sig = Inr () \<and> CheckPubKeyEncoding flags WITNESS_V0 key = Inr () \<and>
    CheckECDSASignature checker sig key ([OP_DUP, OP_HASH160, 20] @ program @ [OP_EQUALVERIFY, OP_CHECKSIG]) WITNESS_V0 = Inr True"
proof (cases "CastToBool program")
  case True
  have h: "length (RIPEMD160 lib (SHA256 lib key)) = 20" using assms(1) by (simp add: lib_ok_def)
  have "VerifyWitnessProgram lib checker flags [sig, key] 0 program False =
      ExecuteWitnessScript lib checker flags WITNESS_V0 [sig, key] (p2wpkh_code program) ScriptExecutionData_init"
    using assms(4)
    by (simp add: VerifyWitnessProgram_def p2wpkh_pushes WITNESS_V0_KEYHASH_SIZE_def WITNESS_V0_SCRIPTHASH_SIZE_def)
  then show ?thesis
    using True program_steps [OF assms(2,3) eval_p2wpkh_script [OF assms(4)] True witness_scripts(1,2) [OF assms(4)], of lib checker "[sig, key]"]
      p2wpkh_exec [OF assms(4) h, of checker flags sig] EvalChecksig_V0_true [of lib checker flags sig key "p2wpkh_code program"]
    by (auto simp: MAX_SCRIPT_ELEMENT_SIZE_def p2wpkh_code_def)
next
  case False
  then show ?thesis using eval_p2wpkh_script [OF assms(4)]
    by (auto simp: VerifyScript_steps eval_true_def EvalScript_Nil)
qed

theorem key_hash_spend_witness:
  "VerifyScript sample_lib sample_sigs (SCRIPT_VERIFY_P2SH OR SCRIPT_VERIFY_WITNESS) [] (p2wpkh_script (replicate 20 1)) [[7], [2]] = Inr () \<and>
   VerifyScript sample_lib sample_sigs (SCRIPT_VERIFY_P2SH OR SCRIPT_VERIFY_WITNESS) [] (p2wpkh_script (replicate 20 1)) [[8], [2]] \<noteq> Inr ()"
proof -
  have "CastToBool (replicate 20 1)" by code_simp
  then show ?thesis
    by (subst (1 2) key_hash_spend)
      (simp_all add: sample_ok, simp_all add: flag_def flags_wf_def sample_lib_def sample_sigs_def CheckSignatureEncoding_def CheckPubKeyEncoding_def)
qed

text \<open>
  C6. A spend of a taproot output by its key with a signature of 64 bytes, no annex and an empty input script, under
  flags with WITNESS and TAPROOT, where the program does not read as false, is accepted exactly when the signature
  verifies for the hash of the default type over the whole transaction: version, lock time, all outpoints, all spent
  amounts and scripts, all sequence numbers, all outputs and the position of the input. The hashes that were computed
  once for the transaction are the ones of this transaction and of these spent outputs.
\<close>

theorem taproot_key_spend:
  assumes flags: "flag flags SCRIPT_VERIFY_WITNESS" "flag flags SCRIPT_VERIFY_TAPROOT" "flags_wf flags"
    and init: "PrecomputedTransactionData_Init lib tx spent force PrecomputedTransactionData_empty = Some d"
    and n: "spent \<noteq> []" "n < length (vin tx)"
    and input: "scriptWitness (vin tx ! n) = [sig]" "length sig = 64"
    and out: "scriptPubKey (spent ! n) = p2tr_script program" "length program = 32" "CastToBool program"
  shows "VerifyScript lib
      (GenericTransactionSignatureChecker lib \<lparr>ck_tx = tx, ck_mdb = mdb, ck_nIn = n, ck_amount = amount, ck_txdata = Some d\<rparr>)
      flags [] (scriptPubKey (spent ! n)) [sig] = Inr () \<longleftrightarrow>
    VerifySchnorr lib program
      (SHA256 lib (TaggedHash lib ''TapSighash'' @ [0, 0] @ ser_writedata32 (version tx) @ ser_writedata32 (nLockTime tx) @
         GetPrevoutsSHA256 lib tx @ GetSpentAmountsSHA256 lib spent @ GetSpentScriptsSHA256 lib spent @ GetSequencesSHA256 lib tx @
         GetOutputsSHA256 lib tx @ [0] @ ser_writedata32 (of_nat n))) sig"
proof -
  let ?ck = "\<lparr>ck_tx = tx, ck_mdb = mdb, ck_nIn = n, ck_amount = amount, ck_txdata = Some d\<rparr>"
  have "taproot_spend (vin tx ! n) (spent ! n)"
    using input out by (simp add: taproot_spend_def p2tr_script_def WITNESS_V1_TAPROOT_SIZE_def)
  note ready = Init_taproot_ready [OF init n(2) this n(1)]
  note hashes = Init_taproot [OF init ready(1)]
  have "VerifyWitnessProgram lib (GenericTransactionSignatureChecker lib ?ck) flags [sig] 1 program False =
      ebind (Generic_CheckSchnorrSignature lib ?ck sig program TAPROOT (ScriptExecutionData_init\<lparr>m_annex_present := False, m_annex_init := True\<rparr>))
        (\<lambda>_. Inr ())"
    using flags(2) out(2)
    by (simp add: VerifyWitnessProgram_def WITNESS_V1_TAPROOT_SIZE_def verify_taproot_def GenericTransactionSignatureChecker_def)
  then show ?thesis
    using program_steps [OF flags(1,3) eval_p2tr_script [OF out(2)] out(3) witness_scripts(3,4) [OF out(2)]] out ready hashes n(2) input(2)
    by (simp add: Generic_CheckSchnorrSignature_def SignatureHashSchnorr_def Let_def ser_blob_def ser_writedata8_def)
qed

theorem taproot_key_spend_witness:
  "\<exists>d. PrecomputedTransactionData_Init sample_lib (sample_tx [replicate 64 5]) [sample_spent] False PrecomputedTransactionData_empty = Some d \<and>
     VerifyScript sample_lib
       (GenericTransactionSignatureChecker sample_lib
         \<lparr>ck_tx = sample_tx [replicate 64 5], ck_mdb = ASSERT_FAIL, ck_nIn = 0, ck_amount = 50, ck_txdata = Some d\<rparr>)
       (SCRIPT_VERIFY_P2SH OR SCRIPT_VERIFY_WITNESS OR SCRIPT_VERIFY_TAPROOT) [] (p2tr_script (replicate 32 9)) [replicate 64 5] = Inr ()"
proof -
  obtain d where d: "PrecomputedTransactionData_Init sample_lib (sample_tx [replicate 64 5]) [sample_spent] False PrecomputedTransactionData_empty = Some d"
    by (simp add: PrecomputedTransactionData_Init_def PrecomputedTransactionData_empty_def Let_def split_def sample_tx_def)
  have "CastToBool (replicate 32 9)" by code_simp
  then show ?thesis
    using d taproot_key_spend [OF _ _ _ d, of "SCRIPT_VERIFY_P2SH OR SCRIPT_VERIFY_WITNESS OR SCRIPT_VERIFY_TAPROOT" 0 "replicate 64 5" "replicate 32 9" ASSERT_FAIL 50]
    by (simp add: flag_def flags_wf_def sample_tx_def sample_in_def sample_spent_def) (simp add: sample_lib_def)
qed

text \<open>
  C39. The hash that an ECDSA signature signs does not depend on the precomputed data: with the data that
  \<^verbatim>\<open>PrecomputedTransactionData::Init\<close> computes for the transaction, whatever spent outputs it is given, every
  input, script, hash type, amount and version has the hash that is computed without them.
\<close>

theorem signature_hash_cache:
  assumes "PrecomputedTransactionData_Init lib tx spent force PrecomputedTransactionData_empty = Some d"
  shows "SignatureHash lib code tx n nHashType amount sigversion (Some d) = SignatureHash lib code tx n nHashType amount sigversion None"
  using Init_ready [OF assms] by (simp add: SignatureHash_def Let_def)

theorem signature_hash_cache_witness:
  "\<exists>d. PrecomputedTransactionData_Init sample_lib (sample_tx [[7]]) [] True PrecomputedTransactionData_empty = Some d \<and>
     SignatureHash sample_lib [OP_DUP] (sample_tx [[7]]) 0 1 50 WITNESS_V0 (Some d) =
     SignatureHash sample_lib [OP_DUP] (sample_tx [[7]]) 0 1 50 WITNESS_V0 None"
proof -
  obtain d where "PrecomputedTransactionData_Init sample_lib (sample_tx [[7]]) [] True PrecomputedTransactionData_empty = Some d"
    by (simp add: PrecomputedTransactionData_Init_def PrecomputedTransactionData_empty_def Let_def split_def sample_tx_def)
  then show ?thesis using signature_hash_cache by blast
qed

end
