(* ===== verification/TxVerify.thy ===== *)
theory TxVerify
  imports Chain TxDb ScriptVerify
begin

unbundle bit_operations_syntax

text \<open>
  The checks of a transaction (\<^verbatim>\<open>consensus/tx_check.cpp\<close>, \<^verbatim>\<open>consensus/tx_verify.cpp\<close>): the ones that need
  no context, absolute and relative lock times, the count of signature operations and the values of
  the inputs. A view of coins is the cache of \<^verbatim>\<open>Coins\<close> over any view; it is passed on because a
  lookup may fill it.
\<close>

section \<open>Model\<close>

datatype TxValidationResult =
    TX_RESULT_UNSET | TX_CONSENSUS | TX_INPUTS_NOT_STANDARD | TX_NOT_STANDARD | TX_MISSING_INPUTS | TX_PREMATURE_SPEND
  | TX_WITNESS_MUTATED | TX_WITNESS_STRIPPED | TX_CONFLICT | TX_MEMPOOL_POLICY | TX_NO_MEMPOOL | TX_RECONSIDERABLE | TX_UNKNOWN

text \<open>A rejection, a failed assertion, a signed overflow, the exception of \<^verbatim>\<open>GetValueOut\<close>, or an error of the coins.\<close>

datatype tx_fault = Invalid TxValidationResult string | TxAssert | TxOverflow | TxThrow value_error | TxCoins coins_error

abbreviation on_coins :: "coins_error + 'a \<Rightarrow> tx_fault + 'a" where
  "on_coins r \<equiv> map_sum TxCoins id r"

subsection \<open>Checks without context\<close>

fun check_outputs :: "CAmount \<Rightarrow> CTxOut list \<Rightarrow> tx_fault + unit" where
  "check_outputs nValueOut [] = Inr ()"
| "check_outputs nValueOut (txout # outs) =
     (if nValue txout < 0 then Inl (Invalid TX_CONSENSUS ''bad-txns-vout-negative'')
      else if nValue txout > MAX_MONEY then Inl (Invalid TX_CONSENSUS ''bad-txns-vout-toolarge'')
      else if \<not> MoneyRange (nValueOut + nValue txout) then Inl (Invalid TX_CONSENSUS ''bad-txns-txouttotal-toolarge'')
      else check_outputs (nValueOut + nValue txout) outs)"

fun check_duplicates :: "COutPoint set \<Rightarrow> CTxIn list \<Rightarrow> tx_fault + unit" where
  "check_duplicates vInOutPoints [] = Inr ()"
| "check_duplicates vInOutPoints (txin # ins) =
     (if prevout txin \<in> vInOutPoints then Inl (Invalid TX_CONSENSUS ''bad-txns-inputs-duplicate'')
      else check_duplicates (insert (prevout txin) vInOutPoints) ins)"

definition CheckTransaction :: "CTransaction \<Rightarrow> tx_fault + unit" where
  "CheckTransaction tx =
     (if vin tx = [] then Inl (Invalid TX_CONSENSUS ''bad-txns-vin-empty'')
      else if vout tx = [] then Inl (Invalid TX_CONSENSUS ''bad-txns-vout-empty'')
      else if length (SerializeTransaction False tx) * WITNESS_SCALE_FACTOR > MAX_BLOCK_WEIGHT
      then Inl (Invalid TX_CONSENSUS ''bad-txns-oversize'')
      else ebind (check_outputs 0 (vout tx)) (\<lambda>_.
           ebind (check_duplicates {} (vin tx)) (\<lambda>_.
             if IsCoinBase tx
             then if length (scriptSig (vin tx ! 0)) < 2 \<or> length (scriptSig (vin tx ! 0)) > 100
                  then Inl (Invalid TX_CONSENSUS ''bad-cb-length'') else Inr ()
             else if list_ex (\<lambda>txin. COutPoint_IsNull (prevout txin)) (vin tx)
             then Inl (Invalid TX_CONSENSUS ''bad-txns-prevout-null'') else Inr ())))"

subsection \<open>Lock times\<close>

definition IsFinalTx :: "CTransaction \<Rightarrow> int \<Rightarrow> int \<Rightarrow> bool" where
  "IsFinalTx tx nBlockHeight nBlockTime =
     (if nLockTime tx = 0 then True
      else if uint (nLockTime tx) < (if uint (nLockTime tx) < uint LOCKTIME_THRESHOLD then nBlockHeight else nBlockTime) then True
      else list_all (\<lambda>txin. nSequence txin = SEQUENCE_FINAL) (vin tx))"

definition LOCKTIME_VERIFY_SEQUENCE :: u32 where "LOCKTIME_VERIFY_SEQUENCE = 1"

text \<open>The inputs with the heights of their coins; the result has the two minima and the heights as the loop leaves them.\<close>

fun sequence_locks :: "BlockMap \<Rightarrow> ptr \<Rightarrow> (CTxIn \<times> int) list \<Rightarrow> int \<times> int \<Rightarrow> tx_fault + (int \<times> int) \<times> int list" where
  "sequence_locks m block [] locks = Inr (locks, [])"
| "sequence_locks m block ((txin, nCoinHeight) # ins) (nMinHeight, nMinTime) =
     (if nSequence txin AND SEQUENCE_LOCKTIME_DISABLE_FLAG \<noteq> 0
      then map_sum id (\<lambda>(locks, hs). (locks, 0 # hs)) (sequence_locks m block ins (nMinHeight, nMinTime))
      else map_sum id (\<lambda>(locks, hs). (locks, nCoinHeight # hs))
        (if nSequence txin AND SEQUENCE_LOCKTIME_TYPE_FLAG \<noteq> 0
         then if \<not> fits_int32 (nCoinHeight - 1) then Inl TxOverflow
              else case GetAncestor m block (max (nCoinHeight - 1) 0) of
                Some (Some q) \<Rightarrow>
                  (let nCoinTime = GetMedianTimePast m q in
                   sequence_locks m block ins (nMinHeight,
                     max nMinTime (nCoinTime +
                       uint (push_bit SEQUENCE_LOCKTIME_GRANULARITY (nSequence txin AND SEQUENCE_LOCKTIME_MASK)) - 1)))
              | _ \<Rightarrow> Inl TxAssert
         else let h = nCoinHeight + uint (nSequence txin AND SEQUENCE_LOCKTIME_MASK) in
              if \<not> fits_int32 h then Inl TxOverflow
              else sequence_locks m block ins (max nMinHeight (h - 1), nMinTime)))"

definition CalculateSequenceLocks ::
  "BlockMap \<Rightarrow> CTransaction \<Rightarrow> u32 \<Rightarrow> int list \<Rightarrow> ptr \<Rightarrow> tx_fault + (int \<times> int) \<times> int list" where
  "CalculateSequenceLocks m tx flags prevHeights block =
     (if length prevHeights \<noteq> length (vin tx) then Inl TxAssert
      else if \<not> (version tx \<ge> 2 \<and> flags AND LOCKTIME_VERIFY_SEQUENCE \<noteq> 0) then Inr ((-1, -1), prevHeights)
      else sequence_locks m block (zip (vin tx) prevHeights) (-1, -1))"

definition EvaluateSequenceLocks :: "BlockMap \<Rightarrow> ptr \<Rightarrow> int \<times> int \<Rightarrow> tx_fault + bool" where
  "EvaluateSequenceLocks m block lockPair =
     (case m block of
        None \<Rightarrow> Inl TxAssert
      | Some b \<Rightarrow>
          (case pprev b of
             None \<Rightarrow> Inl TxAssert
           | Some prev \<Rightarrow> Inr (\<not> (fst lockPair \<ge> nHeight b \<or> snd lockPair \<ge> GetMedianTimePast m prev))))"

definition SequenceLocks :: "BlockMap \<Rightarrow> CTransaction \<Rightarrow> u32 \<Rightarrow> int list \<Rightarrow> ptr \<Rightarrow> tx_fault + bool \<times> int list" where
  "SequenceLocks m tx flags prevHeights block =
     ebind (CalculateSequenceLocks m tx flags prevHeights block) (\<lambda>(locks, prevHeights).
     ebind (EvaluateSequenceLocks m block locks) (\<lambda>ok. Inr (ok, prevHeights)))"

subsection \<open>Signature operations\<close>

abbreviation counted :: "'a option \<Rightarrow> tx_fault + 'a" where
  "counted r \<equiv> (case r of None \<Rightarrow> Inl TxAssert | Some n \<Rightarrow> Inr n)"

fun sigops_sum :: "CScript list \<Rightarrow> u32 \<Rightarrow> tx_fault + u32" where
  "sigops_sum [] nSigOps = Inr nSigOps"
| "sigops_sum (script # scripts) nSigOps = ebind (counted (GetSigOpCount script False)) (\<lambda>n. sigops_sum scripts (nSigOps + n))"

definition GetLegacySigOpCount :: "CTransaction \<Rightarrow> tx_fault + u32" where
  "GetLegacySigOpCount tx = ebind (sigops_sum (map scriptSig (vin tx)) 0) (sigops_sum (map scriptPubKey (vout tx)))"

definition unspent_coin :: "'v CCoinsView \<Rightarrow> COutPoint \<Rightarrow> 'v CCoinsViewCache \<Rightarrow> tx_fault + Coin \<times> 'v CCoinsViewCache" where
  "unspent_coin V p inputs =
     ebind (on_coins (AccessCoin V p inputs)) (\<lambda>(coin, inputs). if IsSpent coin then Inl TxAssert else Inr (coin, inputs))"

fun p2sh_sum :: "'v CCoinsView \<Rightarrow> CTxIn list \<Rightarrow> u32 \<Rightarrow> 'v CCoinsViewCache \<Rightarrow> tx_fault + u32 \<times> 'v CCoinsViewCache" where
  "p2sh_sum V [] nSigOps inputs = Inr (nSigOps, inputs)"
| "p2sh_sum V (txin # ins) nSigOps inputs =
     ebind (unspent_coin V (prevout txin) inputs) (\<lambda>(coin, inputs).
     ebind (if IsPayToScriptHash (scriptPubKey (out coin))
            then counted (GetSigOpCount_p2sh (scriptPubKey (out coin)) (scriptSig txin)) else Inr 0) (\<lambda>n.
       p2sh_sum V ins (nSigOps + n) inputs))"

definition GetP2SHSigOpCount :: "'v CCoinsView \<Rightarrow> CTransaction \<Rightarrow> 'v CCoinsViewCache \<Rightarrow> tx_fault + u32 \<times> 'v CCoinsViewCache" where
  "GetP2SHSigOpCount V tx inputs = (if IsCoinBase tx then Inr (0, inputs) else p2sh_sum V (vin tx) 0 inputs)"

fun witness_sum :: "'v CCoinsView \<Rightarrow> u32 \<Rightarrow> CTxIn list \<Rightarrow> int \<Rightarrow> 'v CCoinsViewCache \<Rightarrow> tx_fault + int \<times> 'v CCoinsViewCache" where
  "witness_sum V flags [] nSigOps inputs = Inr (nSigOps, inputs)"
| "witness_sum V flags (txin # ins) nSigOps inputs =
     ebind (unspent_coin V (prevout txin) inputs) (\<lambda>(coin, inputs).
     ebind (map_sum (\<lambda>_. TxAssert) id (CountWitnessSigOps (scriptSig txin) (scriptPubKey (out coin)) (scriptWitness txin) flags)) (\<lambda>n.
       witness_sum V flags ins (nSigOps + int n) inputs))"

definition GetTransactionSigOpCost ::
  "'v CCoinsView \<Rightarrow> CTransaction \<Rightarrow> 'v CCoinsViewCache \<Rightarrow> u32 \<Rightarrow> tx_fault + int \<times> 'v CCoinsViewCache" where
  "GetTransactionSigOpCost V tx inputs flags =
     ebind (GetLegacySigOpCount tx) (\<lambda>legacy.
       let nSigOps = uint (legacy * of_nat WITNESS_SCALE_FACTOR) in
       if IsCoinBase tx then Inr (nSigOps, inputs)
       else ebind (if flag flags SCRIPT_VERIFY_P2SH then GetP2SHSigOpCount V tx inputs else Inr (0, inputs)) (\<lambda>(p2sh, inputs).
              witness_sum V flags (vin tx) (nSigOps + uint (p2sh * of_nat WITNESS_SCALE_FACTOR)) inputs))"

subsection \<open>Values of the inputs\<close>

fun check_inputs ::
  "'v CCoinsView \<Rightarrow> int \<Rightarrow> CTxIn list \<Rightarrow> CAmount \<Rightarrow> 'v CCoinsViewCache \<Rightarrow> tx_fault + CAmount \<times> 'v CCoinsViewCache" where
  "check_inputs V nSpendHeight [] nValueIn inputs = Inr (nValueIn, inputs)"
| "check_inputs V nSpendHeight (txin # ins) nValueIn inputs =
     ebind (unspent_coin V (prevout txin) inputs) (\<lambda>(coin, inputs).
       if fCoinBase coin \<and> nSpendHeight - uint (coin_nHeight coin) < COINBASE_MATURITY
       then Inl (Invalid TX_PREMATURE_SPEND ''bad-txns-premature-spend-of-coinbase'')
       else if \<not> fits_int64 (nValueIn + nValue (out coin)) then Inl TxOverflow
       else let nValueIn = nValueIn + nValue (out coin) in
         if \<not> MoneyRange (nValue (out coin)) \<or> \<not> MoneyRange nValueIn
         then Inl (Invalid TX_CONSENSUS ''bad-txns-inputvalues-outofrange'')
         else check_inputs V nSpendHeight ins nValueIn inputs)"

definition CheckTxInputs ::
  "'v CCoinsView \<Rightarrow> CTransaction \<Rightarrow> 'v CCoinsViewCache \<Rightarrow> int \<Rightarrow> tx_fault + CAmount \<times> 'v CCoinsViewCache" where
  "CheckTxInputs V tx inputs nSpendHeight =
     ebind (on_coins (HaveInputs V tx inputs)) (\<lambda>(have_them, inputs).
       if \<not> have_them then Inl (Invalid TX_MISSING_INPUTS ''bad-txns-inputs-missingorspent'')
       else ebind (check_inputs V nSpendHeight (vin tx) 0 inputs) (\<lambda>(nValueIn, inputs).
            ebind (map_sum TxThrow id (GetValueOut tx)) (\<lambda>value_out.
              if nValueIn < value_out then Inl (Invalid TX_CONSENSUS ''bad-txns-in-belowout'')
              else let txfee_aux = nValueIn - value_out in
                if \<not> MoneyRange txfee_aux then Inl (Invalid TX_CONSENSUS ''bad-txns-fee-outofrange'')
                else Inr (txfee_aux, inputs))))"

section \<open>What the checks accept\<close>

lemma check_outputs_iff:
  "0 \<le> n \<Longrightarrow> n \<le> MAX_MONEY \<Longrightarrow> check_outputs n outs = Inr () \<longleftrightarrow>
     (\<forall>txout \<in> set outs. 0 \<le> nValue txout) \<and> n + sum_list (map nValue outs) \<le> MAX_MONEY"
proof (induction outs arbitrary: n)
  case (Cons txout outs)
  show ?case
  proof (cases "0 \<le> nValue txout \<and> n + nValue txout \<le> MAX_MONEY")
    case True
    then show ?thesis using Cons.IH [of "n + nValue txout"] Cons.prems by (auto simp: MoneyRange_def)
  next
    case False
    have "0 \<le> sum_list (map nValue outs)" if "\<forall>x \<in> set outs. 0 \<le> nValue x"
      using that by (auto intro!: sum_list_nonneg)
    then have "\<not> ((\<forall>x \<in> set (txout # outs). 0 \<le> nValue x) \<and> n + sum_list (map nValue (txout # outs)) \<le> MAX_MONEY)"
      using False by auto
    moreover have "check_outputs n (txout # outs) \<noteq> Inr ()" using False by (auto simp: MoneyRange_def)
    ultimately show ?thesis by blast
  qed
qed simp

lemma check_duplicates_iff:
  "check_duplicates S ins = Inr () \<longleftrightarrow> distinct (map prevout ins) \<and> prevout ` set ins \<inter> S = {}"
  by (induction ins arbitrary: S) auto

lemma CheckTransaction_iff:
  "CheckTransaction tx = Inr () \<longleftrightarrow>
     vin tx \<noteq> [] \<and> vout tx \<noteq> [] \<and> 4 * length (SerializeTransaction False tx) \<le> 4000000 \<and>
     (\<forall>txout \<in> set (vout tx). 0 \<le> nValue txout) \<and> sum_list (map nValue (vout tx)) \<le> MAX_MONEY \<and>
     distinct (map prevout (vin tx)) \<and>
     (if IsCoinBase tx then 2 \<le> length (scriptSig (vin tx ! 0)) \<and> length (scriptSig (vin tx ! 0)) \<le> 100
      else \<forall>txin \<in> set (vin tx). \<not> COutPoint_IsNull (prevout txin))"
  using check_outputs_iff [of 0 "vout tx"] check_duplicates_iff [of "{}" "vin tx"]
  by (auto simp: CheckTransaction_def WITNESS_SCALE_FACTOR_def MAX_BLOCK_WEIGHT_def MAX_MONEY_def COIN_def ebind_Inr_iff list_ex_iff
      simp del: check_duplicates.simps)

section \<open>Coins of the inputs\<close>

text \<open>The coins are the ones of the set of unspent coins, and looking at them does not change the set.\<close>

context coins_view
begin

lemma unspent_coin_spec:
  assumes "cache_ok stores ok utxo c" "outpoint_ok p"
  shows "(case cache_utxo utxo c p of
      None \<Rightarrow> unspent_coin V p c = Inl TxAssert
    | Some cn \<Rightarrow> \<exists>c'. unspent_coin V p c = Inr (cn, c') \<and> cache_ok stores ok utxo c' \<and> cache_utxo utxo c' = cache_utxo utxo c)"
proof -
  obtain cn c' where "AccessCoin V p c = Inr (cn, c')" "cache_ok stores ok utxo c'" "cache_utxo utxo c' = cache_utxo utxo c"
    "if IsSpent cn then cache_utxo utxo c p = None else cache_utxo utxo c p = Some cn"
    using AccessCoin_spec [OF assms] by (elim exE conjE)
  then show ?thesis by (auto simp: unspent_coin_def split: if_splits)
qed

lemma have_inputs_spec:
  assumes "cache_ok stores ok utxo c" "\<forall>txin \<in> set ins. outpoint_ok (prevout txin)"
  shows "\<exists>c'. have_inputs_loop V ins c = Inr (\<forall>txin \<in> set ins. cache_utxo utxo c (prevout txin) \<noteq> None, c') \<and>
    cache_ok stores ok utxo c' \<and> cache_utxo utxo c' = cache_utxo utxo c"
  using assms
proof (induction ins arbitrary: c)
  case (Cons txin ins)
  obtain c1 where c1: "Cache_HaveCoin V c (prevout txin) = Inr (cache_utxo utxo c (prevout txin) \<noteq> None, c1)"
    "cache_ok stores ok utxo c1" "cache_utxo utxo c1 = cache_utxo utxo c"
    using Cache_HaveCoin_spec [OF Cons.prems(1), of "prevout txin"] Cons.prems(2) by auto
  show ?case
  proof (cases "cache_utxo utxo c (prevout txin)")
    case None
    then show ?thesis using c1 by simp
  next
    case (Some cn)
    then show ?thesis using c1 Cons.IH [OF c1(2)] Cons.prems(2) by simp
  qed
qed simp

lemma check_inputs_spec:
  assumes "cache_ok stores ok utxo c" "\<forall>txin \<in> set ins. outpoint_ok (prevout txin)"
    "check_inputs V h ins n c = Inr (n', c')"
  shows "cache_ok stores ok utxo c' \<and> cache_utxo utxo c' = cache_utxo utxo c \<and>
    n' = n + (\<Sum>txin\<leftarrow>ins. nValue (out (the (cache_utxo utxo c (prevout txin))))) \<and>
    (\<forall>txin \<in> set ins. \<exists>cn. cache_utxo utxo c (prevout txin) = Some cn \<and> MoneyRange (nValue (out cn)) \<and>
       (fCoinBase cn \<longrightarrow> h - uint (coin_nHeight cn) \<ge> COINBASE_MATURITY))"
  using assms
proof (induction ins arbitrary: c n)
  case (Cons txin ins)
  have p: "outpoint_ok (prevout txin)" using Cons.prems(2) by simp
  obtain cn where cn: "cache_utxo utxo c (prevout txin) = Some cn"
    using unspent_coin_spec [OF Cons.prems(1) p] Cons.prems(3) by (cases "cache_utxo utxo c (prevout txin)") auto
  obtain c1 where c1: "unspent_coin V (prevout txin) c = Inr (cn, c1)" "cache_ok stores ok utxo c1" "cache_utxo utxo c1 = cache_utxo utxo c"
    using unspent_coin_spec [OF Cons.prems(1) p] cn by auto
  have step: "check_inputs V h ins (n + nValue (out cn)) c1 = Inr (n', c')" "MoneyRange (nValue (out cn))"
    "fCoinBase cn \<longrightarrow> h - uint (coin_nHeight cn) \<ge> COINBASE_MATURITY"
    using Cons.prems(3) c1(1) by (auto simp: Let_def split: if_splits)
  have "\<forall>txin \<in> set ins. outpoint_ok (prevout txin)" using Cons.prems(2) by simp
  from Cons.IH [OF c1(2) this step(1)] show ?case using c1(3) cn step(2,3) by simp
qed simp

lemma CheckTxInputs_spec:
  assumes "cache_ok stores ok utxo c" "\<forall>txin \<in> set (vin tx). outpoint_ok (prevout txin)"
    "CheckTxInputs V tx c h = Inr (fee, c')"
  shows "cache_ok stores ok utxo c' \<and> cache_utxo utxo c' = cache_utxo utxo c \<and> MoneyRange fee \<and>
    (\<Sum>txin\<leftarrow>vin tx. nValue (out (the (cache_utxo utxo c (prevout txin))))) = fee + sum_list (map nValue (vout tx)) \<and>
    (\<forall>txin \<in> set (vin tx). \<exists>cn. cache_utxo utxo c (prevout txin) = Some cn \<and>
       (fCoinBase cn \<longrightarrow> h - uint (coin_nHeight cn) \<ge> COINBASE_MATURITY))"
proof -
  obtain b c1 where h: "HaveInputs V tx c = Inr (b, c1)" "cache_ok stores ok utxo c1" "cache_utxo utxo c1 = cache_utxo utxo c"
    using have_inputs_spec [OF assms(1,2)] assms(1) by (cases "IsCoinBase tx") (auto simp: HaveInputs_def)
  obtain n v where n: "check_inputs V h (vin tx) 0 c1 = Inr (n, c')" "GetValueOut tx = Inr v" "fee = n - v" "MoneyRange fee"
    using assms(3) h(1) by (auto simp: CheckTxInputs_def Let_def ebind_Inr_iff split: if_splits elim!: map_sum_InrE)
  have "v = sum_list (map nValue (vout tx))"
    using n(2) GetValueOut_loop_iff [of 0 "vout tx" v] by (auto simp: GetValueOut_def MoneyRange_def MAX_MONEY_def COIN_def)
  then show ?thesis using check_inputs_spec [OF h(2) assms(2) n(1)] h(3) n(3,4) by auto
qed

end

section \<open>Lock times in scripts\<close>

lemma type_bit: "(k :: int) AND 0x400000 = (if bit k 22 then 0x400000 else 0)"
proof -
  have "k AND 2 ^ 22 = (if bit k 22 then 2 ^ 22 else 0)" by (rule bit_eqI) (auto simp: bit_and_iff bit_exp_iff simp del: power_numeral split: if_splits)
  then show ?thesis by simp
qed

lemma mask_split: "(k :: int) AND 0x40ffff = (k AND 0x400000) + (k AND 0xffff)"
proof -
  have "(0x40ffff :: int) = 0x400000 OR 0xffff" by simp
  then have "k AND 0x40ffff = (k AND 0x400000) OR (k AND 0xffff)" by (simp only: bit.conj_disj_distrib)
  also have "\<dots> = (k AND 0x400000) + (k AND 0xffff)"
  proof (rule disjunctive_add [symmetric])
    fix n
    have "(0x400000 :: int) AND 0xffff = 0" by simp
    then have "\<not> bit (0x400000 :: int) n \<or> \<not> bit (0xffff :: int) n" by (metis bit_0_eq bit_and_iff bot_apply bot_bool_def)
    then show "\<not> bit (k AND 0x400000) n \<or> \<not> bit (k AND 0xffff) n" by (auto simp: bit_and_iff)
  qed
  finally show ?thesis .
qed

lemma mask_low: "0 \<le> (k :: int) AND 0xffff" "(k :: int) AND 0xffff \<le> 0xffff"
  by (simp_all add: AND_upper2)

text \<open>The part of a sequence number that counts, as a number: what it locks, and by how much.\<close>

lemma CheckSequence_meaning:
  assumes "Generic_CheckSequence ck n"
  shows "version (ck_tx ck) \<ge> 2" "nSequence (vin (ck_tx ck) ! ck_nIn ck) AND SEQUENCE_LOCKTIME_DISABLE_FLAG = 0"
    "n AND 0x400000 = uint (nSequence (vin (ck_tx ck) ! ck_nIn ck)) AND 0x400000"
    "n AND 0xffff \<le> uint (nSequence (vin (ck_tx ck) ! ck_nIn ck) AND SEQUENCE_LOCKTIME_MASK)"
proof -
  let ?s = "nSequence (vin (ck_tx ck) ! ck_nIn ck)"
  have u: "uint (SEQUENCE_LOCKTIME_TYPE_FLAG OR SEQUENCE_LOCKTIME_MASK) = 0x40ffff" "uint SEQUENCE_LOCKTIME_TYPE_FLAG = 0x400000"
    "uint SEQUENCE_LOCKTIME_MASK = 0xffff"
    by (simp_all add: SEQUENCE_LOCKTIME_TYPE_FLAG_def SEQUENCE_LOCKTIME_MASK_def)
  note ck = assms [unfolded Generic_CheckSequence_def Let_def u]
  show "version (ck_tx ck) \<ge> 2" using ck by (auto split: if_splits)
  have "uint ?s AND uint SEQUENCE_LOCKTIME_DISABLE_FLAG = 0" using ck by (auto split: if_splits)
  then show "?s AND SEQUENCE_LOCKTIME_DISABLE_FLAG = 0" by (simp add: uint_and word_uint_eq_iff)
  have m: "(uint ?s AND 0x40ffff < 0x400000) = (n AND 0x40ffff < 0x400000)" "n AND 0x40ffff \<le> uint ?s AND 0x40ffff"
    using ck by (auto split: if_splits)
  have lt: "k AND 0x40ffff < 0x400000 \<longleftrightarrow> k AND 0x400000 = 0" "k AND 0x400000 = 0 \<or> k AND 0x400000 = 0x400000" for k :: int
    using mask_low [of k] by (auto simp: mask_split type_bit)
  show "n AND 0x400000 = uint ?s AND 0x400000" using m(1) lt(1) [of "uint ?s"] lt(1) [of n] lt(2) [of "uint ?s"] lt(2) [of n] by auto
  then show "n AND 0xffff \<le> uint (?s AND SEQUENCE_LOCKTIME_MASK)" using m(2) by (simp add: mask_split uint_and u)
qed

lemma sequence_locks_bound:
  "sequence_locks m block ins (mh, mt) = Inr ((mh', mt'), hs) \<Longrightarrow>
     mh \<le> mh' \<and> mt \<le> mt' \<and>
     (\<forall>(txin, h) \<in> set ins. nSequence txin AND SEQUENCE_LOCKTIME_DISABLE_FLAG = 0 \<longrightarrow>
        (if nSequence txin AND SEQUENCE_LOCKTIME_TYPE_FLAG = 0
         then h + uint (nSequence txin AND SEQUENCE_LOCKTIME_MASK) - 1 \<le> mh'
         else \<exists>a. GetAncestor m block (max (h - 1) 0) = Some (Some a) \<and>
           GetMedianTimePast m a + uint (push_bit SEQUENCE_LOCKTIME_GRANULARITY (nSequence txin AND SEQUENCE_LOCKTIME_MASK)) - 1 \<le> mt'))"
proof (induction ins arbitrary: mh mt hs)
  case (Cons i ins)
  obtain txin h where i: "i = (txin, h)" by fastforce
  let ?s = "nSequence txin"
  let ?low = "uint (?s AND SEQUENCE_LOCKTIME_MASK)" and ?span = "uint (push_bit SEQUENCE_LOCKTIME_GRANULARITY (?s AND SEQUENCE_LOCKTIME_MASK))"
  consider (off) "?s AND SEQUENCE_LOCKTIME_DISABLE_FLAG \<noteq> 0" "\<exists>hs'. sequence_locks m block ins (mh, mt) = Inr ((mh', mt'), hs')"
    | (height) "?s AND SEQUENCE_LOCKTIME_DISABLE_FLAG = 0" "?s AND SEQUENCE_LOCKTIME_TYPE_FLAG = 0"
        "\<exists>hs'. sequence_locks m block ins (max mh (h + ?low - 1), mt) = Inr ((mh', mt'), hs')"
    | (span) a where "?s AND SEQUENCE_LOCKTIME_DISABLE_FLAG = 0" "?s AND SEQUENCE_LOCKTIME_TYPE_FLAG \<noteq> 0"
        "GetAncestor m block (max (h - 1) 0) = Some (Some a)"
        "\<exists>hs'. sequence_locks m block ins (mh, max mt (GetMedianTimePast m a + ?span - 1)) = Inr ((mh', mt'), hs')"
    using Cons.prems by (auto simp: i Let_def elim!: map_sum_InrE split: if_splits option.splits)
  then show ?case
  proof cases
    case off
    then obtain hs' where "sequence_locks m block ins (mh, mt) = Inr ((mh', mt'), hs')" by blast
    from Cons.IH [OF this] off(1) show ?thesis by (simp add: i)
  next
    case height
    then obtain hs' where "sequence_locks m block ins (max mh (h + ?low - 1), mt) = Inr ((mh', mt'), hs')" by blast
    from Cons.IH [OF this] height(1,2) show ?thesis by (simp add: i)
  next
    case span
    then obtain hs' where "sequence_locks m block ins (mh, max mt (GetMedianTimePast m a + ?span - 1)) = Inr ((mh', mt'), hs')" by blast
    from Cons.IH [OF this] span(1-3) show ?thesis by (simp add: i)
  qed
qed simp

lemma span_units: "uint (push_bit SEQUENCE_LOCKTIME_GRANULARITY ((s :: u32) AND SEQUENCE_LOCKTIME_MASK)) = uint (s AND SEQUENCE_LOCKTIME_MASK) * 512"
proof -
  have "uint (s AND SEQUENCE_LOCKTIME_MASK) \<le> 0xffff" by (simp add: uint_and SEQUENCE_LOCKTIME_MASK_def AND_upper2)
  then show ?thesis
    by (simp add: push_bit_eq_mult SEQUENCE_LOCKTIME_GRANULARITY_def uint_word_ariths(3) mult.commute)
qed

lemma SequenceLocks_bound:
  assumes "SequenceLocks m tx LOCKTIME_VERIFY_SEQUENCE heights block = Inr (True, hs)" "m block = Some b" "pprev b = Some q"
    "n < length (vin tx)" "version tx \<ge> 2" "nSequence (vin tx ! n) AND SEQUENCE_LOCKTIME_DISABLE_FLAG = 0"
  shows "if nSequence (vin tx ! n) AND SEQUENCE_LOCKTIME_TYPE_FLAG = 0
    then heights ! n + uint (nSequence (vin tx ! n) AND SEQUENCE_LOCKTIME_MASK) \<le> nHeight b
    else \<exists>a. GetAncestor m block (max (heights ! n - 1) 0) = Some (Some a) \<and>
      GetMedianTimePast m a + uint (nSequence (vin tx ! n) AND SEQUENCE_LOCKTIME_MASK) * 512 \<le> GetMedianTimePast m q"
proof -
  obtain mh mt where l: "CalculateSequenceLocks m tx LOCKTIME_VERIFY_SEQUENCE heights block = Inr ((mh, mt), hs)"
      "mh < nHeight b" "mt < GetMedianTimePast m q"
    using assms(1-3) by (auto simp: SequenceLocks_def EvaluateSequenceLocks_def elim!: ebind_InrE)
  have len: "length heights = length (vin tx)" using l(1) by (auto simp: CalculateSequenceLocks_def split: if_splits)
  have "sequence_locks m block (zip (vin tx) heights) (-1, -1) = Inr ((mh, mt), hs)"
    using l(1) assms(5) by (auto simp: CalculateSequenceLocks_def LOCKTIME_VERIFY_SEQUENCE_def split: if_splits)
  from sequence_locks_bound [OF this] have "\<forall>(txin, h) \<in> set (zip (vin tx) heights). nSequence txin AND SEQUENCE_LOCKTIME_DISABLE_FLAG = 0 \<longrightarrow>
        (if nSequence txin AND SEQUENCE_LOCKTIME_TYPE_FLAG = 0
         then h + uint (nSequence txin AND SEQUENCE_LOCKTIME_MASK) - 1 \<le> mh
         else \<exists>a. GetAncestor m block (max (h - 1) 0) = Some (Some a) \<and>
           GetMedianTimePast m a + uint (push_bit SEQUENCE_LOCKTIME_GRANULARITY (nSequence txin AND SEQUENCE_LOCKTIME_MASK)) - 1 \<le> mt)"
    by blast
  moreover have "(vin tx ! n, heights ! n) \<in> set (zip (vin tx) heights)" using assms(4) len by (auto simp: set_zip)
  ultimately have "if nSequence (vin tx ! n) AND SEQUENCE_LOCKTIME_TYPE_FLAG = 0
         then heights ! n + uint (nSequence (vin tx ! n) AND SEQUENCE_LOCKTIME_MASK) - 1 \<le> mh
         else \<exists>a. GetAncestor m block (max (heights ! n - 1) 0) = Some (Some a) \<and>
           GetMedianTimePast m a + uint (nSequence (vin tx ! n) AND SEQUENCE_LOCKTIME_MASK) * 512 - 1 \<le> mt"
    using assms(6) unfolding span_units by fastforce
  with l(2,3) show ?thesis by (auto split: if_splits)
qed

text \<open>
  C10. The lock times that scripts check have passed. Take a transaction that is final for the height and the time of
  a block and whose sequence locks hold there. When \<^verbatim>\<open>OP_CHECKLOCKTIMEVERIFY\<close> accepts an operand in the script of an
  input, the operand is below the height or, from 500000000 on, below the time (or zero). When
  \<^verbatim>\<open>OP_CHECKSEQUENCEVERIFY\<close> accepts one without the disable flag, then as many blocks or as many times 512 seconds as it
  says have passed since the coin of this input was created.
\<close>

theorem lock_times_enforced:
  assumes block: "m block = Some b" "pprev b = Some q"
    and final: "IsFinalTx tx height time" "SequenceLocks m tx LOCKTIME_VERIFY_SEQUENCE heights block = Inr (True, hs)"
    and n: "n < length (vin tx)"
    and ck: "checker = GenericTransactionSignatureChecker lib \<lparr>ck_tx = tx, ck_mdb = mdb, ck_nIn = n, ck_amount = amount, ck_txdata = d\<rparr>"
    and operand: "num_operand minimal 5 v = Inr k"
  shows "(flag flags SCRIPT_VERIFY_CHECKLOCKTIMEVERIFY \<and> op_checklocktime checker flags minimal (v # rest) = Inr s' \<longrightarrow>
       k = 0 \<or> (if k < 500000000 then k < height else k < time)) \<and>
    (flag flags SCRIPT_VERIFY_CHECKSEQUENCEVERIFY \<and> op_checksequence checker flags minimal (v # rest) = Inr s' \<and> k AND 0x80000000 = 0 \<longrightarrow>
       (if k AND 0x400000 = 0 then heights ! n + (k AND 0xffff) \<le> nHeight b
        else \<exists>a. GetAncestor m block (max (heights ! n - 1) 0) = Some (Some a) \<and>
          GetMedianTimePast m a + (k AND 0xffff) * 512 \<le> GetMedianTimePast m q))"
proof (intro conjI impI; elim conjE)
  let ?ck = "\<lparr>ck_tx = tx, ck_mdb = mdb, ck_nIn = n, ck_amount = amount, ck_txdata = d\<rparr>"
  assume f: "flag flags SCRIPT_VERIFY_CHECKLOCKTIMEVERIFY" "op_checklocktime checker flags minimal (v # rest) = Inr s'"
  then have k: "0 \<le> k" "Generic_CheckLockTime ?ck k"
    using operand by (auto simp: op_checklocktime_def stacktop_def ck GenericTransactionSignatureChecker_def split: if_splits)
  have "\<not> list_all (\<lambda>txin. nSequence txin = SEQUENCE_FINAL) (vin tx)"
    using k(2) n by (auto simp: Generic_CheckLockTime_def Let_def list_all_length split: if_splits)
  then show "k = 0 \<or> (if k < 500000000 then k < height else k < time)"
    using final(1) k by (auto simp: IsFinalTx_def Generic_CheckLockTime_def Let_def LOCKTIME_THRESHOLD_def word_less_def word_le_def split: if_splits)
next
  let ?ck = "\<lparr>ck_tx = tx, ck_mdb = mdb, ck_nIn = n, ck_amount = amount, ck_txdata = d\<rparr>" and ?s = "nSequence (vin tx ! n)"
  assume f: "flag flags SCRIPT_VERIFY_CHECKSEQUENCEVERIFY" "op_checksequence checker flags minimal (v # rest) = Inr s'" "k AND 0x80000000 = 0"
  then have "Generic_CheckSequence ?ck k"
    using operand by (auto simp: op_checksequence_def stacktop_def ck GenericTransactionSignatureChecker_def SEQUENCE_LOCKTIME_DISABLE_FLAG_def split: if_splits)
  note seq = CheckSequence_meaning [OF this, simplified]
  have "?s AND SEQUENCE_LOCKTIME_TYPE_FLAG = 0 \<longleftrightarrow> k AND 0x400000 = 0"
    unfolding seq(3) by (simp add: word_uint_eq_iff uint_and SEQUENCE_LOCKTIME_TYPE_FLAG_def)
  with SequenceLocks_bound [OF final(2) block n seq(1,2)] seq(4)
  show "if k AND 0x400000 = 0 then heights ! n + (k AND 0xffff) \<le> nHeight b
        else \<exists>a. GetAncestor m block (max (heights ! n - 1) 0) = Some (Some a) \<and>
          GetMedianTimePast m a + (k AND 0xffff) * 512 \<le> GetMedianTimePast m q"
    by fastforce
qed

text \<open>A transaction locked until height 1 and for one block, in a block of height 2.\<close>

definition locked_tx :: CTransaction where
  "locked_tx = \<lparr>vin = [\<lparr>prevout = COutPoint_SetNull, scriptSig = [], nSequence = 1, scriptWitness = []\<rparr>],
     vout = [], version = 2, nLockTime = 1\<rparr>"

definition locked_checker :: BaseSignatureChecker where
  "locked_checker = GenericTransactionSignatureChecker sample_lib
     \<lparr>ck_tx = locked_tx, ck_mdb = ASSERT_FAIL, ck_nIn = 0, ck_amount = 0, ck_txdata = None\<rparr>"

theorem lock_times_enforced_witness:
  "op_checklocktime locked_checker SCRIPT_VERIFY_CHECKLOCKTIMEVERIFY True [[1]] = Inr [[1]] \<and>
   op_checksequence locked_checker SCRIPT_VERIFY_CHECKSEQUENCEVERIFY True [[1]] = Inr [[1]] \<and>
   (1 :: int) < 2 \<and> [0] ! 0 + (1 AND 0xffff) \<le> nHeight (sample_block [3] (Some [2]) (Some [0]) 2 400)"
proof -
  have op: "num_operand True 5 [1] = Inr 1" by code_simp
  have final: "IsFinalTx locked_tx 2 0" by (simp add: IsFinalTx_def locked_tx_def LOCKTIME_THRESHOLD_def)
  have "GetMedianTimePast sample_index [2] > - 1"
    by (simp add: GetMedianTimePast_def nMedianTimeSpan_def sample_index_at GetBlockTime_def median_times_numeral)
  then have seq: "SequenceLocks sample_index locked_tx LOCKTIME_VERIFY_SEQUENCE [0] [3] = Inr (True, [0])"
    by (simp add: SequenceLocks_def CalculateSequenceLocks_def EvaluateSequenceLocks_def locked_tx_def LOCKTIME_VERIFY_SEQUENCE_def
      sample_index_at SEQUENCE_LOCKTIME_DISABLE_FLAG_def SEQUENCE_LOCKTIME_TYPE_FLAG_def SEQUENCE_LOCKTIME_MASK_def int_limits)
  have run: "op_checklocktime locked_checker SCRIPT_VERIFY_CHECKLOCKTIMEVERIFY True [[1]] = Inr [[1]]"
    "op_checksequence locked_checker SCRIPT_VERIFY_CHECKSEQUENCEVERIFY True [[1]] = Inr [[1]]"
    by (simp_all add: op_checklocktime_def op_checksequence_def stacktop_def op flag_def locked_checker_def GenericTransactionSignatureChecker_def
      Generic_CheckLockTime_def Generic_CheckSequence_def locked_tx_def LOCKTIME_THRESHOLD_def SEQUENCE_FINAL_def
      SEQUENCE_LOCKTIME_DISABLE_FLAG_def SEQUENCE_LOCKTIME_TYPE_FLAG_def SEQUENCE_LOCKTIME_MASK_def)
  have "0 < length (vin locked_tx)" by (simp add: locked_tx_def)
  note enforced = lock_times_enforced [OF sample_index_at(4) _ final seq this locked_checker_def op, of "[2]" _ "[]" "[[1]]"]
  show ?thesis
    using run enforced [of SCRIPT_VERIFY_CHECKLOCKTIMEVERIFY] enforced [of SCRIPT_VERIFY_CHECKSEQUENCEVERIFY] by (simp add: flag_def)
qed

end
