(* ===== verification/Connect.thy ===== *)
theory Connect
  imports TxVerify "HOL-Library.Signed_Division"
begin

text \<open>
  The effect of a block on the set of unspent coins (\<^verbatim>\<open>validation.cpp\<close>): the subsidy, spending the inputs and
  adding the outputs of a transaction with the record that undoes it, and disconnecting a block with the
  records of its transactions. What is read from the undo file is an argument.
\<close>

section \<open>Model\<close>

text \<open>Division by zero and a shift by a negative number have no result.\<close>

definition GetBlockSubsidy :: "int \<Rightarrow> Params \<Rightarrow> CAmount option" where
  "GetBlockSubsidy height consensusParams =
     (if nSubsidyHalvingInterval consensusParams = 0 then None
      else let halvings = height sdiv nSubsidyHalvingInterval consensusParams in
        if halvings \<ge> 64 then Some 0
        else if halvings < 0 then None
        else Some (drop_bit (nat halvings) (nSubsidyInitial consensusParams)))"

fun spend_inputs :: "'v CCoinsView \<Rightarrow> CTxIn list \<Rightarrow> 'v CCoinsViewCache \<Rightarrow> tx_fault + Coin list \<times> 'v CCoinsViewCache" where
  "spend_inputs V [] inputs = Inr ([], inputs)"
| "spend_inputs V (txin # ins) inputs =
     ebind (on_coins (SpendCoin V (prevout txin) inputs)) (\<lambda>(is_spent, moved, inputs).
       if \<not> is_spent then Inl TxAssert
       else ebind (spend_inputs V ins inputs) (\<lambda>(undos, inputs).
              Inr ((case moved of None \<Rightarrow> Coin_Clear | Some c \<Rightarrow> c) # undos, inputs)))"

definition UpdateCoins ::
  "'v CCoinsView \<Rightarrow> uint256 \<Rightarrow> CTransaction \<Rightarrow> 'v CCoinsViewCache \<Rightarrow> CTxUndo \<Rightarrow> int \<Rightarrow> tx_fault + CTxUndo \<times> 'v CCoinsViewCache" where
  "UpdateCoins V txid tx inputs txundo height =
     ebind (if \<not> IsCoinBase tx then spend_inputs V (vin tx) inputs else Inr ([], inputs)) (\<lambda>(undos, inputs).
     ebind (on_coins (AddCoins V txid inputs tx height False)) (\<lambda>inputs.
       Inr (txundo\<lparr>vprevout := vprevout txundo @ undos\<rparr>, inputs)))"

datatype DisconnectResult = DISCONNECT_OK | DISCONNECT_UNCLEAN | DISCONNECT_FAILED

definition ApplyTxInUndo ::
  "'v CCoinsView \<Rightarrow> Coin \<Rightarrow> 'v CCoinsViewCache \<Rightarrow> COutPoint \<Rightarrow> coins_error + DisconnectResult \<times> 'v CCoinsViewCache" where
  "ApplyTxInUndo V undo view p =
     ebind (Cache_HaveCoin V view p) (\<lambda>(have_it, view).
       let fClean = \<not> have_it in
       ebind (if coin_nHeight undo = 0
              then ebind (AccessByTxid V view (op_hash p)) (\<lambda>(alternate, view).
                     Inr (if \<not> IsSpent alternate
                          then Some (undo\<lparr>coin_nHeight := coin_nHeight alternate, fCoinBase := fCoinBase alternate\<rparr>) else None, view))
              else Inr (Some undo, view)) (\<lambda>(undo, view).
         case undo of
           None \<Rightarrow> Inr (DISCONNECT_FAILED, view)
         | Some undo \<Rightarrow> ebind (AddCoin p undo (\<not> fClean) view) (\<lambda>view.
             Inr (if fClean then DISCONNECT_OK else DISCONNECT_UNCLEAN, view))))"

text \<open>The outputs of a transaction from number \<open>n\<close> on.\<close>

fun undo_outputs ::
  "'v CCoinsView \<Rightarrow> uint256 \<Rightarrow> int \<Rightarrow> bool \<Rightarrow> bool \<Rightarrow> nat \<Rightarrow> CTxOut list \<Rightarrow> bool \<Rightarrow> 'v CCoinsViewCache \<Rightarrow>
     coins_error + bool \<times> 'v CCoinsViewCache" where
  "undo_outputs V hash height is_coinbase is_bip30_exception n [] fClean view = Inr (fClean, view)"
| "undo_outputs V hash height is_coinbase is_bip30_exception n (txout # outs) fClean view =
     ebind (if \<not> IsUnspendable (scriptPubKey txout)
            then ebind (SpendCoin V \<lparr>op_hash = hash, op_n = of_nat n\<rparr> view) (\<lambda>(is_spent, moved, view).
                   let coin = (case moved of None \<Rightarrow> Coin_Clear | Some c \<Rightarrow> c) in
                   Inr (if (\<not> is_spent \<or> txout \<noteq> out coin \<or> height \<noteq> uint (coin_nHeight coin) \<or> is_coinbase \<noteq> fCoinBase coin) \<and>
                           \<not> is_bip30_exception then False else fClean, view))
            else Inr (fClean, view)) (\<lambda>(fClean, view).
       undo_outputs V hash height is_coinbase is_bip30_exception (Suc n) outs fClean view)"

text \<open>The inputs with their records, in the order of the loop; no flag means that the block cannot be disconnected.\<close>

fun undo_inputs ::
  "'v CCoinsView \<Rightarrow> (CTxIn \<times> Coin) list \<Rightarrow> bool \<Rightarrow> 'v CCoinsViewCache \<Rightarrow> coins_error + bool option \<times> 'v CCoinsViewCache" where
  "undo_inputs V [] fClean view = Inr (Some fClean, view)"
| "undo_inputs V ((txin, undo) # ins) fClean view =
     ebind (ApplyTxInUndo V undo view (prevout txin)) (\<lambda>(res, view).
       if res = DISCONNECT_FAILED then Inr (None, view)
       else undo_inputs V ins (fClean \<and> res \<noteq> DISCONNECT_UNCLEAN) view)"

text \<open>The transactions below number \<open>i\<close>, the last one first.\<close>

fun undo_txs ::
  "'v CCoinsView \<Rightarrow> (CTransaction \<Rightarrow> uint256) \<Rightarrow> int \<Rightarrow> bool \<Rightarrow> CTransaction list \<Rightarrow> CTxUndo list \<Rightarrow> nat \<Rightarrow> bool \<Rightarrow> 'v CCoinsViewCache \<Rightarrow>
     coins_error + bool option \<times> 'v CCoinsViewCache" where
  "undo_txs V txid_of height fEnforceBIP30 txs undos 0 fClean view = Inr (Some fClean, view)"
| "undo_txs V txid_of height fEnforceBIP30 txs undos (Suc i) fClean view =
     (let tx = txs ! i; is_coinbase = IsCoinBase tx in
      ebind (undo_outputs V (txid_of tx) height is_coinbase (is_coinbase \<and> \<not> fEnforceBIP30) 0 (vout tx) fClean view) (\<lambda>(fClean, view).
      ebind (if i > 0
             then if length (vprevout (undos ! (i - 1))) \<noteq> length (vin tx) then Inr (None, view)
                  else undo_inputs V (rev (zip (vin tx) (vprevout (undos ! (i - 1))))) fClean view
             else Inr (Some fClean, view)) (\<lambda>(r, view).
        case r of
          None \<Rightarrow> Inr (None, view)
        | Some fClean \<Rightarrow> undo_txs V txid_of height fEnforceBIP30 txs undos i fClean view)))"

definition DisconnectBlock ::
  "'v CCoinsView \<Rightarrow> (CTransaction \<Rightarrow> uint256) \<Rightarrow> CBlockUndo option \<Rightarrow> BlockMap \<Rightarrow> CBlock \<Rightarrow> ptr \<Rightarrow> 'v CCoinsViewCache \<Rightarrow>
     coins_error + DisconnectResult \<times> 'v CCoinsViewCache" where
  "DisconnectBlock V txid_of blockUndo m block pindex view =
     (case blockUndo of
        None \<Rightarrow> Inr (DISCONNECT_FAILED, view)
      | Some blockUndo \<Rightarrow>
          if length (vtxundo blockUndo) + 1 \<noteq> length (vtx block) then Inr (DISCONNECT_FAILED, view)
          else ebind (pointer (m pindex)) (\<lambda>b. ebind (pointer (phashBlock b)) (\<lambda>hash.
            let fEnforceBIP30 =
                  (\<not> (nHeight b = 91722 \<and> hash = uint256_hex ''00000000000271a2dc26e7667f8419f2e15416dc6955e5a6c6cdf3f2574dd08e'' \<or>
                      nHeight b = 91812 \<and> hash = uint256_hex ''00000000000af0aed4792b1acee3d966af36cf5def14935db8de83d6f9306f2f''))
            in ebind (undo_txs V txid_of (nHeight b) fEnforceBIP30 (vtx block) (vtxundo blockUndo) (length (vtx block)) True view) (\<lambda>(r, view).
                 case r of
                   None \<Rightarrow> Inr (DISCONNECT_FAILED, view)
                 | Some fClean \<Rightarrow>
                     ebind (pointer (Option.bind (Option.bind (pprev b) m) phashBlock)) (\<lambda>prev_hash.
                       Inr (if fClean then DISCONNECT_OK else DISCONNECT_UNCLEAN, SetBestBlock prev_hash view))))))"

text \<open>The coins part of connecting the transactions of a block, with the records that are written to the undo file.\<close>

fun connect_txs ::
  "'v CCoinsView \<Rightarrow> (CTransaction \<Rightarrow> uint256) \<Rightarrow> int \<Rightarrow> CTransaction list \<Rightarrow> 'v CCoinsViewCache \<Rightarrow> tx_fault + CTxUndo list \<times> 'v CCoinsViewCache" where
  "connect_txs V txid_of height [] view = Inr ([], view)"
| "connect_txs V txid_of height (tx # txs) view =
     ebind (UpdateCoins V (txid_of tx) tx view \<lparr>vprevout = []\<rparr> height) (\<lambda>(txundo, view).
     ebind (connect_txs V txid_of height txs view) (\<lambda>(undos, view). Inr (txundo # undos, view)))"

section \<open>The effect on the set of unspent coins\<close>

definition spend_map :: "CTxIn list \<Rightarrow> (COutPoint \<rightharpoonup> Coin) \<Rightarrow> COutPoint \<rightharpoonup> Coin" where
  "spend_map ins U p = (if p \<in> prevout ` set ins then None else U p)"

lemma spend_map_simps [simp]:
  "spend_map [] U = U" "spend_map (txin # ins) U = spend_map ins (U(prevout txin := None))"
  by (auto simp: spend_map_def fun_eq_iff)

text \<open>The outputs from number \<open>n\<close> on.\<close>

fun add_map :: "uint256 \<Rightarrow> bool \<Rightarrow> int \<Rightarrow> nat \<Rightarrow> CTxOut list \<Rightarrow> (COutPoint \<rightharpoonup> Coin) \<Rightarrow> COutPoint \<rightharpoonup> Coin" where
  "add_map txid cb h n [] U = U"
| "add_map txid cb h n (txout # outs) U =
     add_map txid cb h (Suc n) outs
       (if IsUnspendable (scriptPubKey txout) then U else U(\<lparr>op_hash = txid, op_n = of_nat n\<rparr> \<mapsto> Coin_of txout h cb))"

definition connect_map :: "uint256 \<Rightarrow> int \<Rightarrow> CTransaction \<Rightarrow> (COutPoint \<rightharpoonup> Coin) \<Rightarrow> COutPoint \<rightharpoonup> Coin" where
  "connect_map txid h tx U = add_map txid (IsCoinBase tx) h 0 (vout tx) (if IsCoinBase tx then U else spend_map (vin tx) U)"

text \<open>An output is either never stored or can be stored.\<close>

definition output_ok :: "(Coin \<Rightarrow> bool) \<Rightarrow> int \<Rightarrow> bool \<Rightarrow> CTxOut \<Rightarrow> bool" where
  "output_ok stores h cb txout \<longleftrightarrow>
     (if IsUnspendable (scriptPubKey txout) then nValue txout \<noteq> -1 else stores (Coin_of txout h cb))"

text \<open>
  What the checks before it guarantee for a transaction: the inputs are distinct unspent coins,
  the outputs have new names and can be stored.
\<close>

definition connectable :: "(Coin \<Rightarrow> bool) \<Rightarrow> uint256 \<Rightarrow> int \<Rightarrow> CTransaction \<Rightarrow> (COutPoint \<rightharpoonup> Coin) \<Rightarrow> bool" where
  "connectable stores txid h tx U \<longleftrightarrow>
     length txid = 32 \<and> (\<forall>n. U \<lparr>op_hash = txid, op_n = n\<rparr> = None) \<and> length (vout tx) < 2 ^ 32 \<and>
     (\<forall>txout \<in> set (vout tx). output_ok stores h (IsCoinBase tx) txout) \<and>
     (\<not> IsCoinBase tx \<longrightarrow> distinct (map prevout (vin tx)) \<and>
        (\<forall>txin \<in> set (vin tx). outpoint_ok (prevout txin) \<and> U (prevout txin) \<noteq> None))"

lemma of_nat_u32_eq: "i < 2 ^ 32 \<Longrightarrow> j < 2 ^ 32 \<Longrightarrow> (of_nat i :: u32) = of_nat j \<longleftrightarrow> i = j"
  by (simp add: word_unat_eq_iff unat_of_nat)

lemma add_map_other: "(\<And>i. i < length outs \<Longrightarrow> p \<noteq> \<lparr>op_hash = txid, op_n = of_nat (n + i)\<rparr>) \<Longrightarrow> add_map txid cb h n outs U p = U p"
proof (induction outs arbitrary: n U)
  case (Cons txout outs)
  have "p \<noteq> \<lparr>op_hash = txid, op_n = of_nat n\<rparr>" using Cons.prems [of 0] by simp
  moreover have "\<And>i. i < length outs \<Longrightarrow> p \<noteq> \<lparr>op_hash = txid, op_n = of_nat (Suc n + i)\<rparr>" using Cons.prems [of "Suc _"] by simp
  ultimately show ?case using Cons.IH [of "Suc n"] by simp
qed simp

context coins_view
begin

lemma add_coins_spec:
  assumes "cache_ok stores ok utxo c" "length txid = 32" "\<forall>txout \<in> set outs. output_ok stores h cb txout" "n + length outs < 2 ^ 32"
    "\<forall>i \<ge> n. i < n + length outs \<longrightarrow> cache_utxo utxo c \<lparr>op_hash = txid, op_n = of_nat i\<rparr> = None"
  shows "\<exists>c'. add_coins_loop V txid cb h False n outs c = Inr c' \<and> cache_ok stores ok utxo c' \<and> hashBlock c' = hashBlock c \<and>
    cache_utxo utxo c' = add_map txid cb h n outs (cache_utxo utxo c)"
  using assms
proof (induction outs arbitrary: n c)
  case (Cons txout outs)
  let ?p = "\<lparr>op_hash = txid, op_n = of_nat n\<rparr>" and ?U = "cache_utxo utxo c"
  have o: "output_ok stores h cb txout" and rest: "\<forall>txout \<in> set outs. output_ok stores h cb txout" "Suc n + length outs < 2 ^ 32"
    using Cons.prems(3,4) by simp_all
  have "\<exists>c1. AddCoin ?p (Coin_of txout h cb) cb c = Inr c1 \<and> cache_ok stores ok utxo c1 \<and> hashBlock c1 = hashBlock c \<and>
      cache_utxo utxo c1 = (if IsUnspendable (scriptPubKey txout) then ?U else ?U(?p \<mapsto> Coin_of txout h cb))"
  proof (cases "IsUnspendable (scriptPubKey txout)")
    case True
    then have "AddCoin ?p (Coin_of txout h cb) cb c = Inr c"
      using o by (simp add: AddCoin_def Coin_of_def IsSpent_def CTxOut_IsNull_def output_ok_def)
    then show ?thesis using True Cons.prems(1) by simp
  next
    case False
    have p: "outpoint_ok ?p" using Cons.prems(2) by (simp add: outpoint_ok_def)
    have cn: "stores (Coin_of txout h cb)" using o False by (simp add: output_ok_def)
    have new: "?U ?p = None" using Cons.prems(5) by simp
    obtain c1 where "AddCoin ?p (Coin_of txout h cb) cb c = Inr c1" "cache_ok stores ok utxo c1" "hashBlock c1 = hashBlock c"
      "cache_utxo utxo c1 = (if IsUnspendable (scriptPubKey (out (Coin_of txout h cb))) then ?U else ?U(?p \<mapsto> Coin_of txout h cb))"
      using AddCoin_spec [OF Cons.prems(1) p cn new, of cb] by (elim exE conjE)
    then show ?thesis using False by (simp add: Coin_of_def)
  qed
  then obtain c1 where c1: "AddCoin ?p (Coin_of txout h cb) cb c = Inr c1" "cache_ok stores ok utxo c1" "hashBlock c1 = hashBlock c"
    "cache_utxo utxo c1 = (if IsUnspendable (scriptPubKey txout) then ?U else ?U(?p \<mapsto> Coin_of txout h cb))" by (elim exE conjE)
  have "cache_utxo utxo c1 \<lparr>op_hash = txid, op_n = of_nat i\<rparr> = None" if "i \<ge> Suc n" "i < Suc n + length outs" for i
    using that Cons.prems(4,5) c1(4) of_nat_u32_eq [of i n] by simp
  with Cons.IH [OF c1(2) Cons.prems(2) rest] c1 show ?case by simp
qed simp

lemma spend_inputs_spec:
  assumes "cache_ok stores ok utxo c" "distinct (map prevout ins)"
    "\<forall>txin \<in> set ins. outpoint_ok (prevout txin) \<and> cache_utxo utxo c (prevout txin) \<noteq> None"
  shows "\<exists>c'. spend_inputs V ins c = Inr (map (\<lambda>txin. the (cache_utxo utxo c (prevout txin))) ins, c') \<and> cache_ok stores ok utxo c' \<and>
    hashBlock c' = hashBlock c \<and> cache_utxo utxo c' = spend_map ins (cache_utxo utxo c)"
  using assms
proof (induction ins arbitrary: c)
  case (Cons txin ins)
  let ?U = "cache_utxo utxo c"
  obtain cn where cn: "?U (prevout txin) = Some cn" using Cons.prems(3) by auto
  have p: "outpoint_ok (prevout txin)" using Cons.prems(3) by simp
  obtain c1 where c1: "SpendCoin V (prevout txin) c = Inr (True, Some cn, c1)" "cache_ok stores ok utxo c1" "hashBlock c1 = hashBlock c"
    "cache_utxo utxo c1 = ?U(prevout txin := None)"
    using SpendCoin_spec [OF Cons.prems(1) p] cn by auto
  have "prevout i \<noteq> prevout txin" if "i \<in> set ins" for i using Cons.prems(2) imageI [OF that, of prevout] by auto
  then have *: "\<forall>i \<in> set ins. outpoint_ok (prevout i) \<and> cache_utxo utxo c1 (prevout i) \<noteq> None"
    "map (\<lambda>i. the (cache_utxo utxo c1 (prevout i))) ins = map (\<lambda>i. the (?U (prevout i))) ins"
    using Cons.prems(3) c1(4) by auto
  have d: "distinct (map prevout ins)" using Cons.prems(2) by simp
  from Cons.IH [OF c1(2) d *(1)] obtain c2 where
    "spend_inputs V ins c1 = Inr (map (\<lambda>i. the (?U (prevout i))) ins, c2)" "cache_ok stores ok utxo c2"
    "hashBlock c2 = hashBlock c1" "cache_utxo utxo c2 = spend_map ins (?U(prevout txin := None))"
    unfolding *(2) unfolding c1(4) by (elim exE conjE)
  then show ?case using c1 cn by simp
qed simp

lemma UpdateCoins_spec:
  assumes c: "cache_ok stores ok utxo c" and tx: "connectable stores txid h tx (cache_utxo utxo c)"
  shows "\<exists>c'. UpdateCoins V txid tx c u h =
      Inr (u\<lparr>vprevout := vprevout u @ (if IsCoinBase tx then [] else map (\<lambda>txin. the (cache_utxo utxo c (prevout txin))) (vin tx))\<rparr>, c') \<and>
    cache_ok stores ok utxo c' \<and> hashBlock c' = hashBlock c \<and> cache_utxo utxo c' = connect_map txid h tx (cache_utxo utxo c)"
proof -
  let ?U = "cache_utxo utxo c" and ?cb = "IsCoinBase tx"
  let ?us = "if ?cb then [] else map (\<lambda>txin. the (?U (prevout txin))) (vin tx)"
  have "\<exists>c1. (if \<not> ?cb then spend_inputs V (vin tx) c else Inr ([], c)) = Inr (?us, c1) \<and> cache_ok stores ok utxo c1 \<and> hashBlock c1 = hashBlock c \<and>
      cache_utxo utxo c1 = (if ?cb then ?U else spend_map (vin tx) ?U)"
    using spend_inputs_spec [OF c, of "vin tx"] c tx by (auto simp: connectable_def)
  then obtain c1 where c1: "(if \<not> ?cb then spend_inputs V (vin tx) c else Inr ([], c)) = Inr (?us, c1)" "cache_ok stores ok utxo c1"
    "hashBlock c1 = hashBlock c" "cache_utxo utxo c1 = (if ?cb then ?U else spend_map (vin tx) ?U)" by (elim exE conjE)
  have "cache_utxo utxo c1 \<lparr>op_hash = txid, op_n = of_nat i\<rparr> = None" for i
    using c1(4) tx by (simp add: connectable_def spend_map_def)
  then obtain c2 where "add_coins_loop V txid ?cb h False 0 (vout tx) c1 = Inr c2" "cache_ok stores ok utxo c2" "hashBlock c2 = hashBlock c1"
    "cache_utxo utxo c2 = add_map txid ?cb h 0 (vout tx) (cache_utxo utxo c1)"
    using add_coins_spec [OF c1(2), of txid "vout tx" h ?cb 0] tx by (auto simp: connectable_def)
  then show ?thesis using c1 unfolding UpdateCoins_def AddCoins_def c1(1) connect_map_def by simp
qed

end

section \<open>Value is conserved\<close>

definition total_value :: "(COutPoint \<rightharpoonup> Coin) \<Rightarrow> CAmount" where
  "total_value U = (\<Sum>p \<in> dom U. nValue (out (the (U p))))"

lemma total_value_upd:
  assumes "finite (dom U)"
  shows "U p = Some c \<Longrightarrow> total_value (U(p := None)) = total_value U - nValue (out c)"
    "U p = None \<Longrightarrow> total_value (U(p \<mapsto> c)) = total_value U + nValue (out c)"
proof -
  let ?v = "\<lambda>U p. nValue (out (the (U p :: Coin option)))"
  have same: "sum (?v (U(p := x))) (dom U - {p}) = sum (?v U) (dom U - {p})" for x by (rule sum.cong) auto
  show "total_value (U(p := None)) = total_value U - nValue (out c)" if "U p = Some c"
    using sum.remove [OF assms, of p "?v U"] same [of None] that by (simp add: total_value_def domI)
  show "total_value (U(p \<mapsto> c)) = total_value U + nValue (out c)" if "U p = None"
    using same [of "Some c"] that assms by (simp add: total_value_def domIff)
qed

lemma total_value_spend:
  assumes "finite (dom U)" "distinct (map prevout ins)" "\<forall>txin \<in> set ins. U (prevout txin) \<noteq> None"
  shows "finite (dom (spend_map ins U)) \<and>
    total_value (spend_map ins U) = total_value U - (\<Sum>txin\<leftarrow>ins. nValue (out (the (U (prevout txin)))))"
  using assms
proof (induction ins arbitrary: U)
  case (Cons txin ins)
  let ?U = "U(prevout txin := None)"
  have o: "prevout i \<noteq> prevout txin" if "i \<in> set ins" for i using Cons.prems(2) imageI [OF that, of prevout] by auto
  have "(\<Sum>i\<leftarrow>ins. nValue (out (the (?U (prevout i))))) = (\<Sum>i\<leftarrow>ins. nValue (out (the (U (prevout i)))))"
    using o by (intro arg_cong [where f = sum_list] map_cong refl) simp
  moreover have "\<forall>i \<in> set ins. ?U (prevout i) \<noteq> None" using o Cons.prems(3) by auto
  moreover obtain cn where "U (prevout txin) = Some cn" using Cons.prems(3) by auto
  ultimately show ?case using Cons.IH [of ?U] Cons.prems(1,2) total_value_upd(1) [OF Cons.prems(1)] by (simp del: fun_upd_apply)
qed simp

text \<open>The value of the outputs that are not stored because nobody can spend them.\<close>

definition burnt_value :: "CTxOut list \<Rightarrow> CAmount" where
  "burnt_value outs = sum_list (map nValue (filter (\<lambda>txout. IsUnspendable (scriptPubKey txout)) outs))"

lemma total_value_add:
  assumes "finite (dom U)" "n + length outs < 2 ^ 32" "\<forall>i \<ge> n. i < n + length outs \<longrightarrow> U \<lparr>op_hash = txid, op_n = of_nat i\<rparr> = None"
  shows "finite (dom (add_map txid cb h n outs U)) \<and>
    total_value (add_map txid cb h n outs U) = total_value U + sum_list (map nValue outs) - burnt_value outs"
  using assms
proof (induction outs arbitrary: n U)
  case (Cons txout outs)
  let ?p = "\<lparr>op_hash = txid, op_n = of_nat n\<rparr>"
  let ?U = "if IsUnspendable (scriptPubKey txout) then U else U(?p \<mapsto> Coin_of txout h cb)"
  have "U ?p = None" using Cons.prems(3) by simp
  then have "total_value ?U = total_value U + (if IsUnspendable (scriptPubKey txout) then 0 else nValue txout)" "finite (dom ?U)"
    using total_value_upd(2) [OF Cons.prems(1)] Cons.prems(1) by (simp_all add: Coin_of_def)
  moreover have "?U \<lparr>op_hash = txid, op_n = of_nat i\<rparr> = None" if "i \<ge> Suc n" "i < Suc n + length outs" for i
    using that Cons.prems(2,3) of_nat_u32_eq [of i n] by simp
  ultimately show ?case using Cons.IH [of ?U "Suc n"] Cons.prems(2) by (simp add: burnt_value_def)
qed (simp add: burnt_value_def)

lemma connect_value:
  assumes "connectable stores txid h tx U" "finite (dom U)" "\<not> IsCoinBase tx"
  shows "finite (dom (connect_map txid h tx U)) \<and>
    total_value (connect_map txid h tx U) =
      total_value U - (\<Sum>txin\<leftarrow>vin tx. nValue (out (the (U (prevout txin))))) + sum_list (map nValue (vout tx)) - burnt_value (vout tx)"
proof -
  note tx = assms(1) [unfolded connectable_def]
  have "finite (dom (spend_map (vin tx) U)) \<and>
      total_value (spend_map (vin tx) U) = total_value U - (\<Sum>txin\<leftarrow>vin tx. nValue (out (the (U (prevout txin)))))"
    using tx assms(2,3) by (intro total_value_spend) auto
  moreover have "spend_map (vin tx) U \<lparr>op_hash = txid, op_n = n\<rparr> = None" for n using tx by (simp add: spend_map_def)
  ultimately show ?thesis
    using total_value_add [of "spend_map (vin tx) U" 0 "vout tx" txid "IsCoinBase tx" h] tx assms(3) by (simp add: connect_map_def)
qed

text \<open>A transaction of limited size has few outputs.\<close>

lemma length_vout: "length (vout tx) \<le> length (SerializeTransaction False tx)"
proof -
  have "length xs \<le> length (concat (map ser_CTxOut xs))" for xs
    by (induction xs) (auto simp: ser_CTxOut_def ser_int64_def ser_writedata64_def)
  from this [of "vout tx"] show ?thesis by (simp add: SerializeTransaction_def VectorFormatter_Ser_def)
qed

lemma checked_connectable:
  assumes "secp_serializations parse uncompressed" "CheckTransaction tx = Inr ()" "length txid = 32" "\<forall>n. U \<lparr>op_hash = txid, op_n = n\<rparr> = None"
    "\<forall>txin \<in> set (vin tx). outpoint_ok (prevout txin) \<and> U (prevout txin) \<noteq> None"
  shows "connectable (stores_coin parse uncompressed) txid h tx U"
proof -
  note tx = assms(2) [unfolded CheckTransaction_iff]
  have "nValue txout \<le> sum_list (map nValue (vout tx))" if "txout \<in> set (vout tx)" for txout
    using that tx by (intro member_le_sum_list) auto
  then have range: "MoneyRange (nValue txout)" if "txout \<in> set (vout tx)" for txout
    using that tx by (fastforce simp: MoneyRange_def)
  have "output_ok (stores_coin parse uncompressed) h cb txout" if "txout \<in> set (vout tx)" for txout cb
    using range [OF that] secp_script_survives [OF assms(1)]
    by (auto simp: output_ok_def stores_coin_def storable_def Coin_of_def IsUnspendable_def MoneyRange_def)
  then show ?thesis using assms(3-5) tx length_vout [of tx] by (auto simp: connectable_def)
qed

text \<open>The view while a block is connected: a cache over the cache over the database.\<close>

abbreviation tip_view where
  "tip_view parse uncompressed size_of crash \<equiv> cache_view (db_view parse uncompressed size_of crash)"

abbreviation view_ok where
  "view_ok parse uncompressed \<equiv> cache_ok (stores_coin parse uncompressed)
     (cache_ok (stores_coin parse uncompressed) (db_ok parse uncompressed) (\<lambda>v. db_utxo parse uncompressed (m_db v)))
     (cache_utxo (\<lambda>v. db_utxo parse uncompressed (m_db v)))"

abbreviation view_utxo where
  "view_utxo parse uncompressed \<equiv> cache_utxo (cache_utxo (\<lambda>v. db_utxo parse uncompressed (m_db v)))"

text \<open>
  C2. A transaction creates no money. When a transaction that is not a coinbase passes the checks of a
  transaction and the checks of its inputs, and its id is new, then applying it to the coins succeeds, spends only
  coins that exist and are mature, and the value of all unspent coins falls by exactly the fee and the value of the
  outputs that nobody can spend. The check for duplicate inputs is what makes this true.
\<close>

theorem no_inflation:
  assumes "secp_serializations parse uncompressed" "view_ok parse uncompressed c" "finite (dom (view_utxo parse uncompressed c))"
    and tx: "CheckTransaction tx = Inr ()" "\<not> IsCoinBase tx" "\<forall>txin \<in> set (vin tx). outpoint_ok (prevout txin)"
    and new: "length txid = 32" "\<forall>n. view_utxo parse uncompressed c \<lparr>op_hash = txid, op_n = n\<rparr> = None"
    and ins: "CheckTxInputs (tip_view parse uncompressed size_of crash) tx c height = Inr (fee, c1)"
  shows "\<exists>txundo c2. UpdateCoins (tip_view parse uncompressed size_of crash) txid tx c1 \<lparr>vprevout = []\<rparr> height = Inr (txundo, c2) \<and>
    0 \<le> fee \<and> view_ok parse uncompressed c2 \<and>
    total_value (view_utxo parse uncompressed c2) + fee + burnt_value (vout tx) = total_value (view_utxo parse uncompressed c) \<and>
    (\<forall>txin \<in> set (vin tx). \<exists>cn. view_utxo parse uncompressed c (prevout txin) = Some cn \<and>
       (fCoinBase cn \<longrightarrow> height - uint (coin_nHeight cn) \<ge> 100))"
proof -
  note c1 = coins_tip.CheckTxInputs_spec [OF assms(2) tx(3) ins]
  have con: "connectable (stores_coin parse uncompressed) txid height tx (view_utxo parse uncompressed c1)"
    using c1 new tx(3) by (intro checked_connectable [OF assms(1) tx(1)]) auto
  obtain u c2 where "UpdateCoins (tip_view parse uncompressed size_of crash) txid tx c1 \<lparr>vprevout = []\<rparr> height = Inr (u, c2)"
    "view_ok parse uncompressed c2" "view_utxo parse uncompressed c2 = connect_map txid height tx (view_utxo parse uncompressed c1)"
    using coins_tip.UpdateCoins_spec [OF conjunct1 [OF c1] con, of size_of crash "\<lparr>vprevout = []\<rparr>"] by (elim exE conjE)
  then show ?thesis using connect_value [OF con _ tx(2)] c1 assms(3) by (auto simp: MoneyRange_def COINBASE_MATURITY_def)
qed

section \<open>Disconnecting undoes connecting\<close>

text \<open>Coins as blocks after the first one add them.\<close>

definition coins_kept :: "(Coin \<Rightarrow> bool) \<Rightarrow> (COutPoint \<rightharpoonup> Coin) \<Rightarrow> bool" where
  "coins_kept stores U \<longleftrightarrow> (\<forall>cn \<in> ran U. stores cn \<and> \<not> IsUnspendable (scriptPubKey (out cn)) \<and> coin_nHeight cn \<noteq> 0)"

lemma coins_keptD: "coins_kept stores U \<Longrightarrow> U p = Some cn \<Longrightarrow> stores cn \<and> \<not> IsUnspendable (scriptPubKey (out cn)) \<and> coin_nHeight cn \<noteq> 0"
  by (auto simp: coins_kept_def ran_def)

lemma height_word: "0 \<le> h \<Longrightarrow> h < 2 ^ 31 \<Longrightarrow> uint (word_of_int h :: 31 word) = h"
  by (simp add: unsigned_of_int take_bit_int_eq_self)

lemma coins_kept_spend: "coins_kept stores U \<Longrightarrow> coins_kept stores (spend_map ins U)"
  by (auto simp: coins_kept_def ran_def spend_map_def split: if_splits)

lemma coins_kept_add:
  assumes "coins_kept stores U" "0 < h" "h < 2 ^ 31" "\<forall>txout \<in> set outs. output_ok stores h cb txout"
  shows "coins_kept stores (add_map txid cb h n outs U)"
  using assms(1,4)
proof (induction outs arbitrary: n U)
  case (Cons txout outs)
  have "coin_nHeight (Coin_of txout h cb) \<noteq> 0"
    using height_word [of h] assms(2,3) by (auto simp: Coin_of_def)
  then have "coins_kept stores (if IsUnspendable (scriptPubKey txout) then U else U(\<lparr>op_hash = txid, op_n = of_nat n\<rparr> \<mapsto> Coin_of txout h cb))"
    using Cons.prems by (auto simp: coins_kept_def ran_def output_ok_def Coin_of_def)
  then show ?case using Cons.IH Cons.prems(2) by simp
qed simp

lemma coins_kept_connect:
  "coins_kept stores U \<Longrightarrow> connectable stores txid h tx U \<Longrightarrow> 0 < h \<Longrightarrow> h < 2 ^ 31 \<Longrightarrow> coins_kept stores (connect_map txid h tx U)"
  unfolding connect_map_def connectable_def by (intro coins_kept_add) (simp_all add: coins_kept_spend)

lemma add_map_remove:
  "(\<And>i. i < length outs \<Longrightarrow> p \<noteq> \<lparr>op_hash = txid, op_n = of_nat (n + i)\<rparr>) \<Longrightarrow>
     (add_map txid cb h n outs U)(p := None) = add_map txid cb h n outs (U(p := None))"
proof (induction outs arbitrary: n U)
  case (Cons txout outs)
  let ?q = "\<lparr>op_hash = txid, op_n = of_nat n\<rparr>"
  have "p \<noteq> ?q" using Cons.prems [of 0] by simp
  then have twist: "(U(?q \<mapsto> x))(p := None) = (U(p := None))(?q \<mapsto> x)" for x by (rule fun_upd_twist [symmetric])
  have IH: "(add_map txid cb h (Suc n) outs W)(p := None) = add_map txid cb h (Suc n) outs (W(p := None))" for W
    by (rule Cons.IH) (use Cons.prems [of "Suc _"] in simp)
  show ?case unfolding add_map.simps IH by (cases "IsUnspendable (scriptPubKey txout)") (simp_all only: twist if_True if_False)
qed simp

text \<open>Adding the recorded coins back.\<close>

definition restore_map :: "(CTxIn \<times> Coin) list \<Rightarrow> (COutPoint \<rightharpoonup> Coin) \<Rightarrow> COutPoint \<rightharpoonup> Coin" where
  "restore_map L U = fold (\<lambda>(txin, cn) U. U(prevout txin \<mapsto> cn)) L U"

lemma restore_map_apply:
  "\<forall>(txin, cn) \<in> set L. U (prevout txin) = Some cn \<Longrightarrow>
     restore_map L W p = (if p \<in> (prevout \<circ> fst) ` set L then U p else W p)"
  by (induction L arbitrary: W) (auto simp: restore_map_def)

lemma restore_spend:
  assumes "\<forall>txin \<in> set ins. U (prevout txin) \<noteq> None"
  shows "restore_map (rev (zip ins (map (\<lambda>txin. the (U (prevout txin))) ins))) (spend_map ins U) = U"
proof -
  have z: "set (zip ins (map (\<lambda>txin. the (U (prevout txin))) ins)) = (\<lambda>txin. (txin, the (U (prevout txin)))) ` set ins"
    by (induction ins) auto
  then have "\<forall>(txin, cn) \<in> set (rev (zip ins (map (\<lambda>txin. the (U (prevout txin))) ins))). U (prevout txin) = Some cn"
    using assms by auto
  from restore_map_apply [OF this] show ?thesis by (auto simp: fun_eq_iff z image_image spend_map_def)
qed

context coins_view
begin

lemma undo_outputs_spec:
  assumes "cache_ok stores ok utxo c" "length txid = 32" "n + length outs < 2 ^ 32" "0 \<le> h" "h < 2 ^ 31"
    "\<forall>i \<ge> n. i < n + length outs \<longrightarrow> U \<lparr>op_hash = txid, op_n = of_nat i\<rparr> = None" "cache_utxo utxo c = add_map txid cb h n outs U"
  shows "\<exists>c'. undo_outputs V txid h cb exc n outs fClean c = Inr (fClean, c') \<and> cache_ok stores ok utxo c' \<and> cache_utxo utxo c' = U"
  using assms
proof (induction outs arbitrary: n c U)
  case (Cons txout outs)
  let ?p = "\<lparr>op_hash = txid, op_n = of_nat n\<rparr>"
  have rest: "Suc n + length outs < 2 ^ 32" "\<forall>i \<ge> Suc n. i < Suc n + length outs \<longrightarrow> U \<lparr>op_hash = txid, op_n = of_nat i\<rparr> = None" "U ?p = None"
    using Cons.prems(3,6) by simp_all
  show ?case
  proof (cases "IsUnspendable (scriptPubKey txout)")
    case True
    then show ?thesis using Cons.IH [OF Cons.prems(1,2) rest(1) Cons.prems(4,5) rest(2)] Cons.prems(7) by simp
  next
    case False
    have other: "\<And>i. i < length outs \<Longrightarrow> ?p \<noteq> \<lparr>op_hash = txid, op_n = of_nat (Suc n + i)\<rparr>"
      using Cons.prems(3) of_nat_u32_eq [of n "Suc n + _"] by simp
    have at: "cache_utxo utxo c ?p = Some (Coin_of txout h cb)"
      using False Cons.prems(7) add_map_other [OF other] by simp
    have p: "outpoint_ok ?p" using Cons.prems(2) by (simp add: outpoint_ok_def)
    obtain c1 where c1: "SpendCoin V ?p c = Inr (True, Some (Coin_of txout h cb), c1)" "cache_ok stores ok utxo c1"
      "cache_utxo utxo c1 = (cache_utxo utxo c)(?p := None)"
      using SpendCoin_spec [OF Cons.prems(1) p] at by auto
    have "(U(?p \<mapsto> Coin_of txout h cb))(?p := None) = U" using rest(3) by auto
    then have "cache_utxo utxo c1 = add_map txid cb h (Suc n) outs U"
      unfolding c1(3) Cons.prems(7) using False add_map_remove [OF other] by simp
    from Cons.IH [OF c1(2) Cons.prems(2) rest(1) Cons.prems(4,5) rest(2) this] show ?thesis
      using False c1(1) height_word [OF Cons.prems(4,5)] by (simp add: Coin_of_def)
  qed
qed simp

lemma ApplyTxInUndo_spec:
  assumes "cache_ok stores ok utxo c" "outpoint_ok p" "cache_utxo utxo c p = None"
    "stores cn" "\<not> IsUnspendable (scriptPubKey (out cn))" "coin_nHeight cn \<noteq> 0"
  shows "\<exists>c'. ApplyTxInUndo V cn c p = Inr (DISCONNECT_OK, c') \<and> cache_ok stores ok utxo c' \<and> cache_utxo utxo c' = (cache_utxo utxo c)(p \<mapsto> cn)"
proof -
  obtain c1 where c1: "Cache_HaveCoin V c p = Inr (False, c1)" "cache_ok stores ok utxo c1" "cache_utxo utxo c1 = cache_utxo utxo c"
    using Cache_HaveCoin_spec [OF assms(1,2)] assms(3) by auto
  have "cache_utxo utxo c1 p = None" using assms(3) c1(3) by simp
  from AddCoin_spec [OF c1(2) assms(2,4) this, of False] obtain c2 where
    "AddCoin p cn False c1 = Inr c2" "cache_ok stores ok utxo c2" "cache_utxo utxo c2 = (cache_utxo utxo c)(p \<mapsto> cn)"
    using assms(5) c1(3) by auto
  then show ?thesis using c1(1) assms(6) by (simp add: ApplyTxInUndo_def Let_def)
qed

lemma undo_inputs_spec:
  assumes "cache_ok stores ok utxo c" "distinct (map (prevout \<circ> fst) L)"
    "\<forall>(txin, cn) \<in> set L. outpoint_ok (prevout txin) \<and> cache_utxo utxo c (prevout txin) = None \<and>
       stores cn \<and> \<not> IsUnspendable (scriptPubKey (out cn)) \<and> coin_nHeight cn \<noteq> 0"
  shows "\<exists>c'. undo_inputs V L fClean c = Inr (Some fClean, c') \<and> cache_ok stores ok utxo c' \<and> cache_utxo utxo c' = restore_map L (cache_utxo utxo c)"
  using assms
proof (induction L arbitrary: c)
  case (Cons x L)
  obtain txin cn where x: "x = (txin, cn)" by (cases x)
  obtain c1 where c1: "ApplyTxInUndo V cn c (prevout txin) = Inr (DISCONNECT_OK, c1)" "cache_ok stores ok utxo c1"
    "cache_utxo utxo c1 = (cache_utxo utxo c)(prevout txin \<mapsto> cn)"
    using ApplyTxInUndo_spec [OF Cons.prems(1), of "prevout txin" cn] Cons.prems(3) x by auto
  have "prevout txin \<notin> (prevout \<circ> fst) ` set L" using Cons.prems(2) x by simp
  moreover have "prevout (fst y) \<in> (prevout \<circ> fst) ` set L" if "y \<in> set L" for y using that by force
  ultimately have "prevout (fst y) \<noteq> prevout txin" if "y \<in> set L" for y using that by metis
  then have "\<forall>(i, d) \<in> set L. outpoint_ok (prevout i) \<and> cache_utxo utxo c1 (prevout i) = None \<and>
       stores d \<and> \<not> IsUnspendable (scriptPubKey (out d)) \<and> coin_nHeight d \<noteq> 0"
    using Cons.prems(3) c1(3) by fastforce
  from Cons.IH [OF c1(2) _ this] Cons.prems(2) show ?case using c1(1) unfolding c1(3) x by (simp add: restore_map_def del: fun_upd_apply)
qed (simp add: restore_map_def)

end

fun connect_maps :: "(CTransaction \<Rightarrow> uint256) \<Rightarrow> int \<Rightarrow> CTransaction list \<Rightarrow> (COutPoint \<rightharpoonup> Coin) \<Rightarrow> COutPoint \<rightharpoonup> Coin" where
  "connect_maps txid_of h [] U = U"
| "connect_maps txid_of h (tx # txs) U = connect_maps txid_of h txs (connect_map (txid_of tx) h tx U)"

lemma connect_maps_append: "connect_maps txid_of h (xs @ ys) U = connect_maps txid_of h ys (connect_maps txid_of h xs U)"
  by (induction xs arbitrary: U) auto

text \<open>Every transaction can be connected at its place.\<close>

definition block_connectable :: "(Coin \<Rightarrow> bool) \<Rightarrow> (CTransaction \<Rightarrow> uint256) \<Rightarrow> int \<Rightarrow> CTransaction list \<Rightarrow> (COutPoint \<rightharpoonup> Coin) \<Rightarrow> bool" where
  "block_connectable stores txid_of h txs U \<longleftrightarrow>
     (\<forall>i < length txs. connectable stores (txid_of (txs ! i)) h (txs ! i) (connect_maps txid_of h (take i txs) U))"

definition spent_coins :: "CTransaction \<Rightarrow> (COutPoint \<rightharpoonup> Coin) \<Rightarrow> Coin list" where
  "spent_coins tx U = (if IsCoinBase tx then [] else map (\<lambda>txin. the (U (prevout txin))) (vin tx))"

lemma block_connectable_Cons:
  "block_connectable stores txid_of h (tx # txs) U \<longleftrightarrow>
     connectable stores (txid_of tx) h tx U \<and> block_connectable stores txid_of h txs (connect_map (txid_of tx) h tx U)"
  by (auto simp: block_connectable_def less_Suc_eq_0_disj)

lemma coins_kept_maps:
  assumes "coins_kept stores U" "block_connectable stores txid_of h txs U" "0 < h" "h < 2 ^ 31" "i \<le> length txs"
  shows "coins_kept stores (connect_maps txid_of h (take i txs) U)"
  using assms(5)
proof (induction i)
  case (Suc i)
  then show ?case using assms coins_kept_connect [of stores "connect_maps txid_of h (take i txs) U"]
    by (simp add: take_Suc_conv_app_nth connect_maps_append block_connectable_def)
qed (simp add: assms(1))

context coins_view
begin

lemma connect_txs_spec:
  assumes "cache_ok stores ok utxo c" "block_connectable stores txid_of h txs (cache_utxo utxo c)"
  shows "\<exists>undos c'. connect_txs V txid_of h txs c = Inr (undos, c') \<and> cache_ok stores ok utxo c' \<and>
    cache_utxo utxo c' = connect_maps txid_of h txs (cache_utxo utxo c) \<and> length undos = length txs \<and>
    (\<forall>i < length txs. vprevout (undos ! i) = spent_coins (txs ! i) (connect_maps txid_of h (take i txs) (cache_utxo utxo c)))"
  using assms
proof (induction txs arbitrary: c)
  case (Cons tx txs)
  let ?U = "cache_utxo utxo c"
  have tx: "connectable stores (txid_of tx) h tx ?U" "block_connectable stores txid_of h txs (connect_map (txid_of tx) h tx ?U)"
    using Cons.prems(2) by (simp_all add: block_connectable_Cons)
  obtain c1 where c1: "UpdateCoins V (txid_of tx) tx c \<lparr>vprevout = []\<rparr> h = Inr (\<lparr>vprevout = spent_coins tx ?U\<rparr>, c1)"
    "cache_ok stores ok utxo c1" "cache_utxo utxo c1 = connect_map (txid_of tx) h tx ?U"
    using UpdateCoins_spec [OF Cons.prems(1) tx(1), of "\<lparr>vprevout = []\<rparr>"] by (auto simp: spent_coins_def)
  from Cons.IH [OF c1(2), unfolded c1(3), OF tx(2)] obtain undos c2 where "connect_txs V txid_of h txs c1 = Inr (undos, c2)" "cache_ok stores ok utxo c2"
    "cache_utxo utxo c2 = connect_maps txid_of h txs (connect_map (txid_of tx) h tx ?U)" "length undos = length txs"
    "\<forall>i < length txs. vprevout (undos ! i) = spent_coins (txs ! i) (connect_maps txid_of h (take i txs) (connect_map (txid_of tx) h tx ?U))"
    by (elim exE conjE)
  then show ?case using c1(1) by (auto simp: less_Suc_eq_0_disj)
qed simp

lemma undo_tx_inputs:
  assumes "cache_ok stores ok utxo c" "cache_utxo utxo c = spend_map (vin tx) U" "connectable stores txid h tx U" "coins_kept stores U" "\<not> IsCoinBase tx"
  shows "\<exists>c'. undo_inputs V (rev (zip (vin tx) (spent_coins tx U))) fClean c = Inr (Some fClean, c') \<and> cache_ok stores ok utxo c' \<and> cache_utxo utxo c' = U"
proof -
  let ?L = "rev (zip (vin tx) (spent_coins tx U))"
  note tx = assms(3) [unfolded connectable_def]
  have s: "spent_coins tx U = map (\<lambda>txin. the (U (prevout txin))) (vin tx)" using assms(5) by (simp add: spent_coins_def)
  have "distinct (map (prevout \<circ> fst) ?L)"
    using tx assms(5) by (simp add: rev_map [symmetric] s map_map [symmetric] del: map_map)
  moreover have "\<forall>(txin, cn) \<in> set ?L. outpoint_ok (prevout txin) \<and> cache_utxo utxo c (prevout txin) = None \<and>
       stores cn \<and> \<not> IsUnspendable (scriptPubKey (out cn)) \<and> coin_nHeight cn \<noteq> 0"
  proof (clarify)
    fix txin cn
    assume "(txin, cn) \<in> set ?L"
    then have t: "txin \<in> set (vin tx)" "cn = the (U (prevout txin))" unfolding s by (auto simp: zip_map2 in_set_zip)
    then have "U (prevout txin) = Some cn" "outpoint_ok (prevout txin)" using tx assms(5) by auto
    with t(1) show "outpoint_ok (prevout txin) \<and> cache_utxo utxo c (prevout txin) = None \<and>
       stores cn \<and> \<not> IsUnspendable (scriptPubKey (out cn)) \<and> coin_nHeight cn \<noteq> 0"
      using coins_keptD [OF assms(4)] assms(2) by (auto simp: spend_map_def)
  qed
  moreover have "restore_map ?L (cache_utxo utxo c) = U"
    unfolding s assms(2) using tx assms(5) by (intro restore_spend) auto
  ultimately show ?thesis using undo_inputs_spec [OF assms(1), of ?L fClean] by simp
qed

lemma undo_txs_spec:
  assumes b: "block_connectable stores txid_of h txs U" "coins_kept stores U" "0 < h" "h < 2 ^ 31"
    and cb: "\<forall>i < length txs. IsCoinBase (txs ! i) \<longleftrightarrow> i = 0"
    and undos: "\<forall>i < length txs. 0 < i \<longrightarrow> vprevout (undos ! (i - 1)) = spent_coins (txs ! i) (connect_maps txid_of h (take i txs) U)"
  shows "cache_ok stores ok utxo c \<Longrightarrow> n \<le> length txs \<Longrightarrow> cache_utxo utxo c = connect_maps txid_of h (take n txs) U \<Longrightarrow>
    \<exists>c'. undo_txs V txid_of h bip30 txs undos n True c = Inr (Some True, c') \<and> cache_ok stores ok utxo c' \<and> cache_utxo utxo c' = U"
proof (induction n arbitrary: c)
  case (Suc i)
  let ?tx = "txs ! i" and ?U = "connect_maps txid_of h (take i txs) U"
  let ?W = "if IsCoinBase ?tx then ?U else spend_map (vin ?tx) ?U"
  have i: "i < length txs" using Suc.prems(2) by simp
  have con: "connectable stores (txid_of ?tx) h ?tx ?U" using b(1) i by (simp add: block_connectable_def)
  note tx = con [unfolded connectable_def]
  have kept: "coins_kept stores ?U" using coins_kept_maps [OF b(2,1,3,4)] i by simp
  have add: "cache_utxo utxo c = add_map (txid_of ?tx) (IsCoinBase ?tx) h 0 (vout ?tx) ?W"
    using Suc.prems(3) i by (simp add: take_Suc_conv_app_nth connect_maps_append connect_map_def)
  have new: "\<forall>k \<ge> 0. k < 0 + length (vout ?tx) \<longrightarrow> ?W \<lparr>op_hash = txid_of ?tx, op_n = of_nat k\<rparr> = None"
    using tx by (simp add: spend_map_def)
  have len: "length (txid_of ?tx) = 32" "0 + length (vout ?tx) < 2 ^ 32" "0 \<le> h" using tx b(3) by simp_all
  obtain c1 where c1:
    "undo_outputs V (txid_of ?tx) h (IsCoinBase ?tx) (IsCoinBase ?tx \<and> \<not> bip30) 0 (vout ?tx) True c = Inr (True, c1)"
    "cache_ok stores ok utxo c1" "cache_utxo utxo c1 = ?W"
    using undo_outputs_spec [OF Suc.prems(1) len b(4) new add, of "IsCoinBase ?tx \<and> \<not> bip30" True] by (elim exE conjE)
  show ?case
  proof (cases "i = 0")
    case True
    then show ?thesis using c1 cb i by (simp add: Let_def)
  next
    case False
    then have no: "\<not> IsCoinBase ?tx" using cb i by simp
    have u: "vprevout (undos ! (i - 1)) = spent_coins ?tx ?U" using undos i False by simp
    have "cache_utxo utxo c1 = spend_map (vin ?tx) ?U" using c1(3) no by simp
    from undo_tx_inputs [OF c1(2) this con kept no, of True] obtain c2 where c2:
      "undo_inputs V (rev (zip (vin ?tx) (spent_coins ?tx ?U))) True c1 = Inr (Some True, c2)" "cache_ok stores ok utxo c2" "cache_utxo utxo c2 = ?U"
      by (elim exE conjE)
    have "length (spent_coins ?tx ?U) = length (vin ?tx)" using no by (simp add: spent_coins_def)
    then show ?thesis using Suc.IH [OF c2(2) _ c2(3)] i c1(1) c2(1) False by (simp add: Let_def u [simplified])
  qed
qed simp

end

text \<open>
  C3. Disconnecting a block undoes connecting it. When the transactions of a block can be connected in order, with a coinbase
  first and only there, then the coins part of connecting them succeeds, and \<^verbatim>\<open>DisconnectBlock\<close> with the records it wrote
  reports a clean result and leaves exactly the unspent coins there were before, with the previous block as the best block.
\<close>

theorem disconnect_undoes_connect:
  assumes view: "view_ok parse uncompressed c" "coins_kept (stores_coin parse uncompressed) (view_utxo parse uncompressed c)"
    and index: "m pindex = Some b" "phashBlock b = Some hash" "pprev b = Some q" "m q = Some prev" "phashBlock prev = Some prev_hash"
      "\<not> IsNull prev_hash" "0 < nHeight b" "nHeight b < 2 ^ 31"
    and txs: "vtx block \<noteq> []" "\<forall>i < length (vtx block). IsCoinBase (vtx block ! i) \<longleftrightarrow> i = 0"
      "block_connectable (stores_coin parse uncompressed) txid_of (nHeight b) (vtx block) (view_utxo parse uncompressed c)"
  shows "\<exists>undos c1 c2. connect_txs (tip_view parse uncompressed size_of crash) txid_of (nHeight b) (vtx block) c = Inr (undos, c1) \<and>
    view_ok parse uncompressed c1 \<and>
    DisconnectBlock (tip_view parse uncompressed size_of crash) txid_of (Some \<lparr>vtxundo = tl undos\<rparr>) m block pindex c1 = Inr (DISCONNECT_OK, c2) \<and>
    view_ok parse uncompressed c2 \<and> view_utxo parse uncompressed c2 = view_utxo parse uncompressed c \<and> hashBlock c2 = prev_hash"
proof -
  let ?V = "tip_view parse uncompressed size_of crash" and ?U = "view_utxo parse uncompressed c" and ?txs = "vtx block"
  obtain undos c1 where c1: "connect_txs ?V txid_of (nHeight b) ?txs c = Inr (undos, c1)" "view_ok parse uncompressed c1"
    "view_utxo parse uncompressed c1 = connect_maps txid_of (nHeight b) ?txs ?U" "length undos = length ?txs"
    "\<forall>i < length ?txs. vprevout (undos ! i) = spent_coins (?txs ! i) (connect_maps txid_of (nHeight b) (take i ?txs) ?U)"
    using coins_tip.connect_txs_spec [OF view(1) txs(3), of size_of crash] by (elim exE conjE)
  have undo: "\<forall>i < length ?txs. 0 < i \<longrightarrow>
      vprevout (tl undos ! (i - 1)) = spent_coins (?txs ! i) (connect_maps txid_of (nHeight b) (take i ?txs) ?U)"
    using c1(4,5) by (auto simp: nth_tl)
  have "view_utxo parse uncompressed c1 = connect_maps txid_of (nHeight b) (take (length ?txs) ?txs) ?U" using c1(3) by simp
  note undone = coins_tip.undo_txs_spec [OF txs(3) view(2) index(7,8) txs(2) undo c1(2) order_refl this, of size_of crash]
  let ?bip30 = "\<not> (nHeight b = 91722 \<and> hash = uint256_hex ''00000000000271a2dc26e7667f8419f2e15416dc6955e5a6c6cdf3f2574dd08e'' \<or>
      nHeight b = 91812 \<and> hash = uint256_hex ''00000000000af0aed4792b1acee3d966af36cf5def14935db8de83d6f9306f2f'')"
  obtain c2 where c2: "undo_txs ?V txid_of (nHeight b) ?bip30 ?txs (tl undos) (length ?txs) True c1 = Inr (Some True, c2)"
      "view_ok parse uncompressed c2" "view_utxo parse uncompressed c2 = ?U"
    using undone [of ?bip30] by (elim exE conjE)
  have n: "length (vtxundo \<lparr>vtxundo = tl undos\<rparr>) + 1 = length ?txs" using c1(4) txs(1) by (cases ?txs) simp_all
  have "DisconnectBlock ?V txid_of (Some \<lparr>vtxundo = tl undos\<rparr>) m block pindex c1 = Inr (DISCONNECT_OK, SetBestBlock prev_hash c2)"
    unfolding DisconnectBlock_def option.case n index(1,2,3) pointer_Some ebind_simps Let_def using c2(1) n index(4,5) by simp
  then show ?thesis
    using c1(1,2) c2(2,3) coins_tip.SetBestBlock_spec(1,2) [OF c2(2) index(6)]
    by (intro exI [of _ undos] exI [of _ c1] exI [of _ "SetBestBlock prev_hash c2"]) (simp add: SetBestBlock_def)
qed

context coins_view
begin

lemma check_inputs_complete:
  assumes "cache_ok stores ok utxo c" "0 \<le> n"
    "\<forall>txin \<in> set ins. outpoint_ok (prevout txin) \<and> (\<exists>cn. cache_utxo utxo c (prevout txin) = Some cn \<and> 0 \<le> nValue (out cn) \<and>
       (fCoinBase cn \<longrightarrow> h - uint (coin_nHeight cn) \<ge> COINBASE_MATURITY))"
    "n + (\<Sum>txin\<leftarrow>ins. nValue (out (the (cache_utxo utxo c (prevout txin))))) \<le> MAX_MONEY"
  shows "\<exists>c'. check_inputs V h ins n c = Inr (n + (\<Sum>txin\<leftarrow>ins. nValue (out (the (cache_utxo utxo c (prevout txin))))), c')"
  using assms
proof (induction ins arbitrary: c n)
  case (Cons txin ins)
  obtain cn where cn: "outpoint_ok (prevout txin)" "cache_utxo utxo c (prevout txin) = Some cn" "0 \<le> nValue (out cn)"
    "fCoinBase cn \<longrightarrow> h - uint (coin_nHeight cn) \<ge> COINBASE_MATURITY"
    using Cons.prems(3) by auto
  obtain c1 where c1: "unspent_coin V (prevout txin) c = Inr (cn, c1)" "cache_ok stores ok utxo c1" "cache_utxo utxo c1 = cache_utxo utxo c"
    using unspent_coin_spec [OF Cons.prems(1) cn(1)] cn(2) by auto
  have "0 \<le> (\<Sum>txin\<leftarrow>ins. nValue (out (the (cache_utxo utxo c (prevout txin)))))"
    using Cons.prems(3) by (intro sum_list_nonneg) fastforce
  then have "MoneyRange (n + nValue (out cn))" "MoneyRange (nValue (out cn))"
    using Cons.prems(2,4) cn(2,3) by (auto simp: MoneyRange_def)
  moreover have "\<exists>c'. check_inputs V h ins (n + nValue (out cn)) c1 =
      Inr (n + nValue (out cn) + (\<Sum>txin\<leftarrow>ins. nValue (out (the (cache_utxo utxo c1 (prevout txin))))), c')"
    using Cons.prems cn c1(3) by (intro Cons.IH [OF c1(2)]) simp_all
  moreover have "fits_int64 (n + nValue (out cn))" using calculation(1) by (simp add: MoneyRange_def MAX_MONEY_def COIN_def int_limits)
  ultimately show ?case using c1(1,3) cn(2,4) by (auto simp: add.assoc)
qed simp

lemma CheckTxInputs_complete:
  assumes "cache_ok stores ok utxo c"
    "\<forall>txin \<in> set (vin tx). outpoint_ok (prevout txin) \<and> (\<exists>cn. cache_utxo utxo c (prevout txin) = Some cn \<and> 0 \<le> nValue (out cn) \<and>
       (fCoinBase cn \<longrightarrow> h - uint (coin_nHeight cn) \<ge> COINBASE_MATURITY))"
    "(\<Sum>txin\<leftarrow>vin tx. nValue (out (the (cache_utxo utxo c (prevout txin))))) \<le> MAX_MONEY"
    "GetValueOut tx = Inr v" "v \<le> (\<Sum>txin\<leftarrow>vin tx. nValue (out (the (cache_utxo utxo c (prevout txin)))))"
  shows "\<exists>c'. CheckTxInputs V tx c h = Inr ((\<Sum>txin\<leftarrow>vin tx. nValue (out (the (cache_utxo utxo c (prevout txin))))) - v, c')"
proof -
  let ?n = "\<Sum>txin\<leftarrow>vin tx. nValue (out (the (cache_utxo utxo c (prevout txin))))"
  have all: "(\<forall>txin \<in> set (vin tx). cache_utxo utxo c (prevout txin) \<noteq> None) = True" using assms(2) by auto
  have "\<forall>txin \<in> set (vin tx). outpoint_ok (prevout txin)" using assms(2) by simp
  from have_inputs_spec [OF assms(1) this, unfolded all]
  obtain c1 where c1: "HaveInputs V tx c = Inr (True, c1)" "cache_ok stores ok utxo c1" "cache_utxo utxo c1 = cache_utxo utxo c"
    using assms(1) by (cases "IsCoinBase tx") (auto simp: HaveInputs_def)
  obtain c2 where "check_inputs V h (vin tx) 0 c1 = Inr (?n, c2)"
    using check_inputs_complete [OF c1(2), of 0 "vin tx" h] assms(2,3) c1(3) by auto
  moreover have "0 \<le> v" using assms(4) GetValueOut_loop_iff [of 0 "vout tx" v] by (auto simp: GetValueOut_def MoneyRange_def MAX_MONEY_def COIN_def)
  ultimately show ?thesis using c1(1) assms(3-5) by (simp add: CheckTxInputs_def Let_def MoneyRange_def)
qed

end

text \<open>A view with one coin, and a block that spends it.\<close>

definition sample_coinbase :: CTransaction where
  "sample_coinbase = \<lparr>vin = [\<lparr>prevout = COutPoint_SetNull, scriptSig = [1, 2], nSequence = 0, scriptWitness = []\<rparr>],
     vout = [\<lparr>nValue = 5, scriptPubKey = [0x51]\<rparr>], version = 2, nLockTime = 0\<rparr>"

definition sample_spend_tx :: CTransaction where
  "sample_spend_tx = \<lparr>vin = [\<lparr>prevout = sample_outpoint, scriptSig = [], nSequence = 0, scriptWitness = []\<rparr>],
     vout = [\<lparr>nValue = 1799999990, scriptPubKey = [0x51]\<rparr>, \<lparr>nValue = 3, scriptPubKey = [OP_RETURN]\<rparr>], version = 2, nLockTime = 0\<rparr>"

definition sample_txid :: "CTransaction \<Rightarrow> uint256" where
  "sample_txid tx = (if IsCoinBase tx then replicate 32 1 else replicate 32 2)"

lemma sample_view: "\<exists>c. view_ok sample_parse sample_uncompressed c \<and> view_utxo sample_parse sample_uncompressed c = [sample_outpoint \<mapsto> sample_coin]"
proof -
  let ?d0 = "CCoinsViewCache_of (CCoinsViewCache_of sample_db)"
  have ok: "view_ok sample_parse sample_uncompressed ?d0" by (intro cache_of_base(1) sample_db_ok)
  have u: "view_utxo sample_parse sample_uncompressed ?d0 = Map.empty" by (simp add: cache_of_base(2) sample_db_utxo)
  then have "view_utxo sample_parse sample_uncompressed ?d0 sample_outpoint = None" by simp
  from coins_tip.AddCoin_spec [OF ok sample_outpoint_ok sample_stores this, of False] show ?thesis
    unfolding u using sample_not_unspendable by auto
qed

lemma sample_kinds: "IsCoinBase sample_coinbase" "\<not> IsCoinBase sample_spend_tx"
  by (simp_all add: IsCoinBase_def sample_coinbase_def sample_spend_tx_def COutPoint_IsNull_def COutPoint_SetNull_def sample_outpoint_def
      IsNull_def uint256_zero_def list_all_iff)


lemma sample_checked: "CheckTransaction sample_spend_tx = Inr ()"
proof -
  have "length (SerializeTransaction False sample_spend_tx) \<le> 1000000"
    by (simp add: SerializeTransaction_def sample_spend_tx_def VectorFormatter_Ser_def ser_CTxIn_def ser_CTxOut_def ser_COutPoint_def
        ser_int64_def ser_writedata64_def ser_writedata32_def ser_blob_def sample_outpoint_def ser_bytevec_def WriteCompactSize_def
        ser_writedata8_def ser_writedata16_def)
  then show ?thesis using sample_kinds(2)
    by (auto simp: CheckTransaction_iff sample_spend_tx_def MAX_MONEY_def COIN_def COutPoint_IsNull_def sample_outpoint_def IsNull_def NULL_INDEX_def)
qed

theorem no_inflation_witness:
  "\<exists>c c1 c2 txundo. view_utxo sample_parse sample_uncompressed c = [sample_outpoint \<mapsto> sample_coin] \<and>
     CheckTxInputs (tip_view sample_parse sample_uncompressed length (\<lambda>k. False)) sample_spend_tx c 200 = Inr (7, c1) \<and>
     UpdateCoins (tip_view sample_parse sample_uncompressed length (\<lambda>k. False)) (replicate 32 2) sample_spend_tx c1 \<lparr>vprevout = []\<rparr> 200 = Inr (txundo, c2) \<and>
     total_value (view_utxo sample_parse sample_uncompressed c2) + 7 + 3 = 1800000000"
proof -
  obtain c where c: "view_ok sample_parse sample_uncompressed c" "view_utxo sample_parse sample_uncompressed c = [sample_outpoint \<mapsto> sample_coin]"
    using sample_view by (elim exE conjE)
  have coin: "nValue (out sample_coin) = 1800000000" "uint (coin_nHeight sample_coin) = 12" by (simp_all add: sample_coin_def Coin_of_def)
  have v: "GetValueOut sample_spend_tx = Inr 1799999993"
    by (simp add: GetValueOut_def sample_spend_tx_def MoneyRange_def MAX_MONEY_def COIN_def)
  have p: "\<forall>txin \<in> set (vin sample_spend_tx). outpoint_ok (prevout txin)" by (simp add: sample_spend_tx_def sample_outpoint_ok)
  obtain c1 where c1: "CheckTxInputs (tip_view sample_parse sample_uncompressed length (\<lambda>k. False)) sample_spend_tx c 200 = Inr (7, c1)"
    using coins_tip.CheckTxInputs_complete [OF c(1) _ _ v, of 200 length "\<lambda>k. False"] coin sample_outpoint_ok
    by (auto simp: c(2) sample_spend_tx_def COINBASE_MATURITY_def MAX_MONEY_def COIN_def)
  have "finite (dom (view_utxo sample_parse sample_uncompressed c))" by (simp add: c(2))
  moreover have "\<forall>n. view_utxo sample_parse sample_uncompressed c \<lparr>op_hash = replicate 32 2, op_n = n\<rparr> = None"
    by (simp add: c(2) sample_outpoint_def)
  ultimately obtain txundo c2 where
    "UpdateCoins (tip_view sample_parse sample_uncompressed length (\<lambda>k. False)) (replicate 32 2) sample_spend_tx c1 \<lparr>vprevout = []\<rparr> 200 = Inr (txundo, c2)"
    "total_value (view_utxo sample_parse sample_uncompressed c2) + 7 + burnt_value (vout sample_spend_tx) = total_value [sample_outpoint \<mapsto> sample_coin]"
    using no_inflation [OF sample_secp c(1) _ sample_checked sample_kinds(2) p _ _ c1, of "replicate 32 2"] unfolding c(2) by (auto elim!: exE conjE)
  moreover have "burnt_value (vout sample_spend_tx) = 3"
    by (simp add: burnt_value_def sample_spend_tx_def IsUnspendable_def MAX_SCRIPT_SIZE_def OP_RETURN_def)
  moreover have "total_value [sample_outpoint \<mapsto> sample_coin] = 1800000000" by (simp add: total_value_def coin)
  ultimately show ?thesis using c(2) c1 by (intro exI conjI) simp_all
qed

lemma sample_connectable:
  "block_connectable (stores_coin sample_parse sample_uncompressed) sample_txid 2 [sample_coinbase, sample_spend_tx] [sample_outpoint \<mapsto> sample_coin]"
proof -
  have "output_ok (stores_coin sample_parse sample_uncompressed) 2 cb txout" if "txout \<in> set (vout sample_coinbase @ vout sample_spend_tx)" for cb txout
    using that secp_script_survives [OF sample_secp]
    by (auto simp: output_ok_def sample_coinbase_def sample_spend_tx_def stores_coin_def storable_def Coin_of_def MoneyRange_def MAX_MONEY_def
        COIN_def MAX_SCRIPT_SIZE_def)
  moreover have "connect_map (sample_txid sample_coinbase) 2 sample_coinbase [sample_outpoint \<mapsto> sample_coin] =
      [sample_outpoint \<mapsto> sample_coin, \<lparr>op_hash = replicate 32 1, op_n = 0\<rparr> \<mapsto> Coin_of \<lparr>nValue = 5, scriptPubKey = [0x51]\<rparr> 2 True]"
    using sample_kinds(1) by (simp add: connect_map_def sample_txid_def sample_coinbase_def IsUnspendable_def OP_RETURN_def MAX_SCRIPT_SIZE_def)
  moreover have "length (vout sample_coinbase) = 1" "length (vout sample_spend_tx) = 2" "map prevout (vin sample_spend_tx) = [sample_outpoint]"
    by (simp_all add: sample_coinbase_def sample_spend_tx_def)
  moreover have "\<forall>txin \<in> set (vin sample_spend_tx). prevout txin = sample_outpoint" by (simp add: sample_spend_tx_def)
  ultimately show ?thesis
    using sample_kinds sample_outpoint_ok
    by (auto simp: block_connectable_Cons connectable_def sample_txid_def sample_outpoint_def)
      (simp_all add: block_connectable_def)
qed

theorem disconnect_undoes_connect_witness:
  "\<exists>c undos c1 c2. view_utxo sample_parse sample_uncompressed c = [sample_outpoint \<mapsto> sample_coin] \<and>
     connect_txs (tip_view sample_parse sample_uncompressed length (\<lambda>k. False)) sample_txid 2 [sample_coinbase, sample_spend_tx] c = Inr (undos, c1) \<and>
     DisconnectBlock (tip_view sample_parse sample_uncompressed length (\<lambda>k. False)) sample_txid (Some \<lparr>vtxundo = tl undos\<rparr>) sample_index
       ((CBlock_of_header CBlockHeader_SetNull)\<lparr>vtx := [sample_coinbase, sample_spend_tx]\<rparr>) [3] c1 = Inr (DISCONNECT_OK, c2) \<and>
     view_utxo sample_parse sample_uncompressed c2 = [sample_outpoint \<mapsto> sample_coin]"
proof -
  let ?block = "(CBlock_of_header CBlockHeader_SetNull)\<lparr>vtx := [sample_coinbase, sample_spend_tx]\<rparr>" and ?b = "sample_block [3] (Some [2]) (Some [0]) 2 400"
  obtain c where c: "view_ok sample_parse sample_uncompressed c" "view_utxo sample_parse sample_uncompressed c = [sample_outpoint \<mapsto> sample_coin]"
    using sample_view by (elim exE conjE)
  have kept: "coins_kept (stores_coin sample_parse sample_uncompressed) (view_utxo sample_parse sample_uncompressed c)"
    using sample_stores sample_not_unspendable by (simp add: c(2) coins_kept_def sample_coin_def Coin_of_def)
  have b: "phashBlock ?b = Some [3]" "pprev ?b = Some [2]" "nHeight ?b = 2" "phashBlock (sample_block [2] (Some [0]) (Some [0]) 1 300) = Some [2]"
    "\<not> IsNull [2]" by (simp_all add: sample_block_def IsNull_def)
  have txs: "vtx ?block \<noteq> []" "\<forall>i < length (vtx ?block). IsCoinBase (vtx ?block ! i) \<longleftrightarrow> i = 0"
    "block_connectable (stores_coin sample_parse sample_uncompressed) sample_txid (nHeight ?b) (vtx ?block) (view_utxo sample_parse sample_uncompressed c)"
    using sample_kinds sample_connectable by (simp_all add: less_Suc_eq_0_disj b(3) c(2))
  from disconnect_undoes_connect [OF c(1) kept sample_index_at(4) b(1,2) sample_index_at(3) b(4,5) _ _ txs, of length "\<lambda>k. False"]
  show ?thesis using c(2) by (auto simp: b(3) elim!: exE conjE simp del: split_paired_Ex)
qed

section \<open>The subsidy\<close>

lemma halved_sum: "(\<Sum>j<k. S div 2 ^ j) + 2 * (S div 2 ^ k) \<le> 2 * (S :: nat)"
proof (induction k)
  case (Suc k)
  have "2 * (S div 2 ^ Suc k) \<le> S div 2 ^ k" by (simp add: div_mult2_eq mult.commute [of 2])
  with Suc show ?case by simp
qed simp

lemma interval_sum: "(\<Sum>h<I * k. f (h div I)) = I * (\<Sum>j<k. f j)" for f :: "nat \<Rightarrow> nat"
proof (induction k)
  case (Suc k)
  have "(\<Sum>h<I * Suc k. f (h div I)) = (\<Sum>h<I * k. f (h div I)) + (\<Sum>h \<in> {I * k..<I * k + I}. f (h div I))"
    by (simp add: lessThan_atLeast0 sum.atLeastLessThan_concat add.commute)
  also have "(\<Sum>h \<in> {I * k..<I * k + I}. f (h div I)) = (\<Sum>h \<in> {I * k..<I * k + I}. f k)"
    by (intro sum.cong) (auto simp: div_nat_eqI)
  finally show ?case using Suc by (simp add: algebra_simps)
qed simp

lemma GetBlockSubsidy_value:
  assumes "nSubsidyHalvingInterval params = int I" "0 < I" "nSubsidyInitial params = int S"
  shows "GetBlockSubsidy (int h) params = Some (if h div I \<ge> 64 then 0 else int (S div 2 ^ (h div I)))"
proof -
  have d: "drop_bit k (int S) = int (S div 2 ^ k)" for k by (simp add: drop_bit_eq_div zdiv_int)
  define q where "q = h div I"
  have "int h sdiv int I = int q" using assms(2) by (cases "h = 0") (simp_all add: signed_divide_int_def zdiv_int q_def)
  then show ?thesis unfolding GetBlockSubsidy_def Let_def assms(1,3) q_def [symmetric] using assms(2) by (simp add: d)
qed

text \<open>
  C18. The subsidies of all blocks of the main network together stay below the limit of money, however long the chain
  is: every height has a subsidy, it never grows, and the sum over all heights below any bound is at most
  \<^verbatim>\<open>MAX_MONEY\<close>.
\<close>

theorem issuance_bounded:
  "(\<forall>h. GetBlockSubsidy (int h) (CMainParams g) \<noteq> None) \<and>
   (\<forall>h k. the (GetBlockSubsidy (int (h + k)) (CMainParams g)) \<le> the (GetBlockSubsidy (int h) (CMainParams g))) \<and>
   (\<Sum>h<n. the (GetBlockSubsidy (int h) (CMainParams g))) \<le> MAX_MONEY"
proof -
  let ?I = "2803200 :: nat" and ?S = "1800000000 :: nat"
  let ?f = "\<lambda>j. if j \<ge> 64 then 0 else ?S div 2 ^ j"
  have v: "GetBlockSubsidy (int h) (CMainParams g) = Some (int (?f (h div ?I)))" for h
    using GetBlockSubsidy_value [of "CMainParams g" ?I ?S h] by (simp add: CMainParams_def COIN_def)
  have mono: "?f j \<le> ?f i" if "i \<le> j" for i j using that by (simp add: div_le_mono2 power_increasing)
  have "?f ((h + k) div ?I) \<le> ?f (h div ?I)" for h k by (rule mono) (simp add: div_le_mono)
  moreover have s: "(\<Sum>h<n. ?f (h div ?I)) \<le> ?I * (2 * ?S)"
  proof -
    have "(\<Sum>h<n. ?f (h div ?I)) \<le> (\<Sum>h<?I * n. ?f (h div ?I))" by (intro sum_mono2) auto
    also have "\<dots> = ?I * (\<Sum>j<n. ?f j)" by (rule interval_sum)
    also have "(\<Sum>j<n. ?f j) \<le> (\<Sum>j<n. ?S div 2 ^ j)" by (intro sum_mono) simp
    also have "\<dots> \<le> 2 * ?S" using halved_sum [where k = n and S = ?S] by simp
    finally show ?thesis by simp
  qed
  have "MAX_MONEY = int (?I * (2 * ?S))" by (simp add: MAX_MONEY_def COIN_def)
  then have "(\<Sum>h<n. int (?f (h div ?I))) \<le> MAX_MONEY" using s by (simp only: of_nat_sum [symmetric] of_nat_le_iff)
  ultimately show ?thesis unfolding v by simp
qed

end
