(* ===== verification/Spec2Isabelle.thy ===== *)
theory Spec2Isabelle
  imports ArithUint256 Double Uint256 Params Serialize Transaction Block Chain BlockStorage Pow VersionBits Merkle Script TxDb ScriptVerify TxVerify Connect
begin

text \<open>
  A verification development for the ADONAI node, a fork of Bitcoin Core whose proof of work is
  BLAKE3 and whose difficulty is adjusted at every block. It covers the consensus core: the formats
  of blocks and transactions, the rules that say which header, script and spend is valid, and the
  data structures that hold the block tree and the set of unspent coins. File names below are
  relative to the source directory \<^verbatim>\<open>src\<close> of the repository.

  \<^bold>\<open>The parts of the program and how they interact.\<close> A node receives serialized headers, blocks and
  transactions (\<^verbatim>\<open>serialize.h\<close>, \<^verbatim>\<open>primitives\<close>). A header enters the block tree of the block manager
  (\<^verbatim>\<open>node/blockstorage.cpp\<close>, \<^verbatim>\<open>chain.cpp\<close>), its hash is compared with its compact target, and the target
  is computed from the branch below it (\<^verbatim>\<open>pow.cpp\<close>, \<^verbatim>\<open>arith_uint256.cpp\<close>) under the parameters of the
  network (\<^verbatim>\<open>consensus/params.h\<close>, \<^verbatim>\<open>kernel/chainparams.cpp\<close>); the versions of the headers of a branch vote
  on deployments (\<^verbatim>\<open>versionbits.cpp\<close>). The header commits to the transactions by a Merkle root
  (\<^verbatim>\<open>consensus/merkle.cpp\<close>). A transaction spends coins of a cache over the coin database
  (\<^verbatim>\<open>coins.cpp\<close>, \<^verbatim>\<open>txdb.cpp\<close>, \<^verbatim>\<open>compressor.cpp\<close>) after checks of its values and lock times
  (\<^verbatim>\<open>consensus/tx_check.cpp\<close>, \<^verbatim>\<open>consensus/tx_verify.cpp\<close>) and of the script of every input
  (\<^verbatim>\<open>script/script.cpp\<close>, \<^verbatim>\<open>script/interpreter.cpp\<close>). Connecting and disconnecting a block moves the set of
  unspent coins forwards and back (\<^verbatim>\<open>validation.cpp\<close>).

  \<^bold>\<open>Conventions.\<close> A class is a record with the names of its members, an enumeration a datatype, an
  unsigned machine integer a word, a signed one an \<open>int\<close>. Where the range of a signed integer matters the
  model checks it and signed overflow is an outcome of its own. Exceptions, failed assertions,
  dereferences of null and undefined behaviour are values of a sum or option type, so that their absence
  is proved and not assumed. A pointer into the block index is the key of an entry, and the index is an
  explicit map. An operation that changes an object returns the changed object. A loop whose end is not
  evident is a \<open>partial_function\<close> in the option type, and that it returns is a theorem about
  well-formed states; no definition takes fuel. The hash functions, the curve library, the storage engine
  below the coin database, what is read from undo files, the results of signature verification and the
  crash simulation are arguments, and what is relied on is a hypothesis of the theorem.

  \<^bold>\<open>Theories.\<close>

  \<^item> \<open>Prelude\<close>: names of the machine integers, the error monad \<open>ebind\<close>, fact collections and generic
    lemmas.

  \<^item> \<open>ArithUint256\<close> (\<^verbatim>\<open>arith_uint256.h\<close>, \<^verbatim>\<open>arith_uint256.cpp\<close>): the limb loops of every operator and the
    compact format. They compute modulo \<open>2 ^ 256\<close>, which is the locale \<open>modular_uint\<close> and its
    interpretation \<open>u256\<close>; division is exact; \<open>SetCompact\<close> and \<open>GetCompact\<close> decode and round as stated.

  \<^item> \<open>Uint256\<close> (\<^verbatim>\<open>uint256.h\<close>, \<^verbatim>\<open>crypto/hex_base.cpp\<close>): byte blobs and their text, with round trips.

  \<^item> \<open>Double\<close>, \<open>Params\<close> (\<^verbatim>\<open>consensus/params.h\<close>, \<^verbatim>\<open>consensus/amount.h\<close>, \<^verbatim>\<open>kernel/chainparams.cpp\<close>): the binary64
    operations that \<open>GetTargetSpacing\<close> uses, the parameters of the five networks, and bounds on the spacing.
    Exponents of doubles are not bounded; the operands stay far from both ends of the range.

  \<^item> \<open>Serialize\<close> (\<^verbatim>\<open>serialize.h\<close>, \<^verbatim>\<open>streams.h\<close>): writers and readers. The locale \<open>codec\<close> states that a reader
    accepts exactly what the writer writes. It is interpreted for the modelled formats, here and in
    \<open>Transaction\<close> and \<open>Block\<close>, and composite formats obtain the law from their parts.

  \<^item> \<open>Transaction\<close>, \<open>Block\<close> (\<^verbatim>\<open>primitives\<close>, \<^verbatim>\<open>consensus/validation.h\<close>): transactions with both formats, headers,
    blocks, locators, values and weights; the wire formats are bijective on well-formed values.

  \<^item> \<open>Chain\<close> (\<^verbatim>\<open>chain.h\<close>, \<^verbatim>\<open>chain.cpp\<close>): block index entries with skip pointers, the active chain, locators and
    fork searches. Each optimised walk equals the walk along \<^verbatim>\<open>pprev\<close>, and median time past is monotone.

  \<^item> \<open>BlockStorage\<close> (\<^verbatim>\<open>node/blockstorage.cpp\<close>, \<^verbatim>\<open>flatfile.cpp\<close>): adding headers, loading the index, pruning one
    file, positions in block files. Reachable indices are an inductive predicate; the invariant
    \<open>index_exact\<close> compares the fields of every entry with sums and maxima over its branch.

  \<^item> \<open>Pow\<close> (\<^verbatim>\<open>pow.cpp\<close>): the difficulty adjustment, the check of a hash, and the transition check. The adjustment
    equals a rational formula while its product stays below \<open>2 ^ 256\<close>, and a theorem shows that
    the product can exceed it.

  \<^item> \<open>VersionBits\<close> (\<^verbatim>\<open>versionbits.cpp\<close>, \<^verbatim>\<open>versionbits_impl.h\<close>, \<^verbatim>\<open>deploymentstatus.h\<close>): the threshold state machine with
    its cache. The result is a replay of all periods from genesis, and the transitions are the inductive
    relation \<open>bip9_step\<close>.

  \<^item> \<open>Merkle\<close> (\<^verbatim>\<open>consensus/merkle.cpp\<close>): the root with the check for duplicates, the calculator in constant
    space and paths. Equal roots give equal leaves or a collision among the blocks that were hashed.

  \<^item> \<open>Script\<close> (\<^verbatim>\<open>script/script.h\<close>, \<^verbatim>\<open>script/script.cpp\<close>): opcodes, script numbers, reading and building scripts.

  \<^item> \<open>ScriptErr\<close>, \<open>Interpreter\<close>, \<open>SigCheck\<close>, \<open>ScriptVerify\<close> (\<^verbatim>\<open>script/interpreter.cpp\<close>): \<open>EvalScript\<close> with every
    opcode, signature hashes, the checker and \<open>VerifyScript\<close>. The loop of \<open>EvalScript\<close> is examined before
    its exceptions are caught, because the handler would hide an access outside of a stack. The results are type safety
    and limits, the soft-fork property of the flags, and the exact conditions of the two common kinds of
    spends. The locale \<open>condition_vector\<close>, interpreted as \<open>counters\<close>, is the contract of the condition stack.

  \<^item> \<open>Compressor\<close>, \<open>Coins\<close>, \<open>CoinsCache\<close>, \<open>TxDb\<close> (\<^verbatim>\<open>compressor.cpp\<close>, \<^verbatim>\<open>coins.h\<close>, \<^verbatim>\<open>coins.cpp\<close>, \<^verbatim>\<open>undo.h\<close>, \<^verbatim>\<open>txdb.cpp\<close>):
    stored coins, the cache with its linked list of flagged entries, and the database with batch writes
    in parts. The locale \<open>coins_view\<close> is the contract of a view. The database satisfies it
    (\<open>coins_db\<close>), a cache over any view that satisfies it does so again (\<open>coins_tip\<close>), and sequences of cache
    operations refine operations on a plain map of unspent coins. A write that
    is cut short leaves the markers of the transition and only old or new coins.

  \<^item> \<open>TxVerify\<close> (\<^verbatim>\<open>consensus/tx_check.cpp\<close>, \<^verbatim>\<open>consensus/tx_verify.cpp\<close>): \<open>CheckTransaction\<close>, final transactions,
    sequence locks, signature operation counts and \<open>CheckTxInputs\<close>. Lock times checked by a script are
    enforced by the lock times of the transaction.

  \<^item> \<open>Connect\<close> (\<^verbatim>\<open>validation.cpp\<close>): \<open>GetBlockSubsidy\<close>, \<open>UpdateCoins\<close>, \<open>ApplyTxInUndo\<close> and \<open>DisconnectBlock\<close>. Checked
    transactions create no value, disconnecting restores the coins exactly, and all subsidies together
    stay within \<open>MAX_MONEY\<close>. \<open>connect_txs\<close> is the sequence of \<open>UpdateCoins\<close> calls that \<^verbatim>\<open>ConnectBlock\<close>
    makes, without its other checks.

  \<^bold>\<open>Bounds.\<close> The sizes that appear in hypotheses are those of the types of the code: fewer than \<open>2 ^ 32\<close> outputs
  of a transaction, heights and times that fit into their fields, stored values that are
  well-formed for their format. The Merkle results need fewer than \<open>2 ^ 32\<close> leaves where the code counts
  leaves in 32 bits.

  \<^bold>\<open>Not modelled.\<close> The rest of \<^verbatim>\<open>validation.cpp\<close> (block and header acceptance, \<^verbatim>\<open>ConnectBlock\<close> beyond the calls above,
  activation of the best chain, the memory pool), which drives the modelled functions between locks,
  threads and disk writes; the network, the wallet, remote procedure calls, indexes, descriptors and
  address encodings; the contents of hash functions, of the curve library and of LevelDB; the
  running totals of memory use in the coin cache, with the assertion of \<open>SanityCheck\<close> that compares them,
  because they depend on the allocator; the reading and writing of block files; and the warnings about
  unknown version bits. Logging and text printers are left out throughout.
\<close>

end
